(* ===== verification/DW_Prelude.thy ===== *)
theory DW_Prelude
  imports
    Main
    "HOL-Library.Word"
    "HOL-Library.AList"
    "HOL-Library.Char_ord"
    "HOL-Library.List_Lexorder"
begin

text \<open>
  The shared layer of the development: the model's names for Go's machine types, its
  association-list view of Go maps and sets, the binary search of the Go package \<open>sort\<close>,
  and the generic lemmas about them that the component theories use.

  \<^item> \<open>uint64\<close> is \<open>u64\<close> and \<open>int64\<close> is \<open>i64\<close>, both 64-bit words; \<open>i64\<close> is read with \<open>sint\<close>.
  \<^item> A \<open>time.Time\<close> is the number of nanoseconds since Go's zero instant, so \<open>IsZero\<close> is
    equality with 0; a \<open>time.Duration\<close> is an \<open>int\<close> of nanoseconds. \<open>time.Sub\<close> saturates as
    Go's does, and products of durations wrap.
  \<^item> A Go map is an association list with distinct keys and a Go \<open>map[string]struct{}\<close> a
    distinct list. The list order is the iteration order, which Go leaves open: a theorem
    about every well-formed list is a theorem about every iteration order.
\<close>

section \<open>Rule collections\<close>

named_theorems wf_intros
  \<comment> \<open>an operation keeps the well-formedness predicate of its component\<close>
named_theorems go_map_simps
  \<comment> \<open>what a Go map or set holds after an operation\<close>

section \<open>Machine types and time\<close>

type_synonym u64 = "64 word"
type_synonym i64 = "64 word"
type_synonym bytes = string
type_synonym time = int
type_synonym duration = int

definition max_i64 :: int where
  "max_i64 = 9223372036854775807"

definition min_i64 :: int where
  "min_i64 = - 9223372036854775808"

text \<open>Two's complement wrap-around of a product or sum of \<open>int64\<close> values.\<close>

definition wrap_i64 :: "int \<Rightarrow> int" where
  "wrap_i64 x = (x - min_i64) mod 18446744073709551616 + min_i64"

lemma wrap_i64_id: "min_i64 \<le> x \<Longrightarrow> x \<le> max_i64 \<Longrightarrow> wrap_i64 x = x"
  by (simp add: wrap_i64_def min_i64_def max_i64_def)

lemma wrap_i64_range: "min_i64 \<le> wrap_i64 x \<and> wrap_i64 x \<le> max_i64"
  by (simp add: wrap_i64_def min_i64_def max_i64_def)

text \<open>\<open>time.Time.Sub\<close>: the difference, saturated to the range of \<open>time.Duration\<close>.\<close>

definition time_sub :: "time \<Rightarrow> time \<Rightarrow> duration" where
  "time_sub a b = max min_i64 (min max_i64 (a - b))"

lemma time_sub_mono: "a \<le> a' \<Longrightarrow> time_sub a b \<le> time_sub a' b"
  by (auto simp: time_sub_def)

lemma time_sub_gt: "d \<le> max_i64 \<Longrightarrow> d < time_sub a b \<Longrightarrow> d < a - b \<or> d < min_i64"
  by (auto simp: time_sub_def split: if_splits)

text \<open>Integer division as Go does it: the quotient is truncated towards zero.\<close>

definition go_div :: "int \<Rightarrow> int \<Rightarrow> int" where
  "go_div a b = sgn a * sgn b * (\<bar>a\<bar> div \<bar>b\<bar>)"

lemma go_div_mono:
  assumes "0 < b" and "a \<le> a'"
  shows "go_div a b \<le> go_div a' b"
proof -
  have pos: "sgn b = 1" "\<bar>b\<bar> = b" using assms(1) by auto
  consider "0 \<le> a" | "a < 0" "0 \<le> a'" | "a' < 0" by linarith
  then show ?thesis
  proof cases
    case 1
    then have "go_div a b = a div b" and "go_div a' b = a' div b"
      using assms(2) pos by (auto simp: go_div_def sgn_if)
    then show ?thesis using assms by (simp add: zdiv_mono1)
  next
    case 2
    have "go_div a b \<le> 0" using 2(1) pos assms(1) by (simp add: go_div_def pos_imp_zdiv_nonneg_iff)
    moreover have "0 \<le> go_div a' b"
      using 2(2) pos assms(1) by (auto simp: go_div_def sgn_if pos_imp_zdiv_nonneg_iff)
    ultimately show ?thesis by linarith
  next
    case 3
    then have "go_div a b = - ((- a) div b)" and "go_div a' b = - ((- a') div b)"
      using assms(2) pos by (auto simp: go_div_def)
    moreover have "(- a') div b \<le> (- a) div b" using assms by (simp add: zdiv_mono1)
    ultimately show ?thesis by linarith
  qed
qed

lemma go_div_less_imp_less: "0 < b \<Longrightarrow> go_div a b < go_div a' b \<Longrightarrow> a < a'"
  using go_div_mono [of b a' a] by linarith

text \<open>\<open>strconv.Itoa\<close> of a number that is not negative.\<close>

fun itoa_nat :: "nat \<Rightarrow> string" where
  "itoa_nat n =
     (if n < 10 then [char_of (48 + n)] else itoa_nat (n div 10) @ [char_of (48 + n mod 10)])"

declare itoa_nat.simps [simp del]

section \<open>Go maps and sets\<close>

type_synonym ('k, 'v) go_map = "('k \<times> 'v) list"
type_synonym 'a go_set = "'a list"

abbreviation wf_map :: "('k, 'v) go_map \<Rightarrow> bool" where
  "wf_map m \<equiv> distinct (map fst m)"

abbreviation wf_set :: "'a go_set \<Rightarrow> bool" where
  "wf_set s \<equiv> distinct s"

definition map_get :: "('k, 'v) go_map \<Rightarrow> 'k \<Rightarrow> 'v option" where
  "map_get m k = map_of m k"

definition map_put :: "'k \<Rightarrow> 'v \<Rightarrow> ('k, 'v) go_map \<Rightarrow> ('k, 'v) go_map" where
  "map_put k v m = AList.update k v m"

definition map_del :: "'k \<Rightarrow> ('k, 'v) go_map \<Rightarrow> ('k, 'v) go_map" where
  "map_del k m = filter (\<lambda>kv. fst kv \<noteq> k) m"

definition set_add :: "'a \<Rightarrow> 'a go_set \<Rightarrow> 'a go_set" where
  "set_add x s = (if x \<in> set s then s else s @ [x])"

definition set_del :: "'a \<Rightarrow> 'a go_set \<Rightarrow> 'a go_set" where
  "set_del x s = removeAll x s"

definition set_eq :: "'a go_set \<Rightarrow> 'a go_set \<Rightarrow> bool" where
  \<comment> \<open>\<open>maps.Equal\<close> on two sets: the same size and every key of one in the other\<close>
  "set_eq s t = (length s = length t \<and> (\<forall>x \<in> set s. x \<in> set t))"

lemma map_get_Nil [simp, go_map_simps]: "map_get [] k = None"
  by (simp add: map_get_def)

lemma map_get_put [simp, go_map_simps]:
  "map_get (map_put k v m) k' = (if k' = k then Some v else map_get m k')"
  by (simp add: map_get_def map_put_def update_conv')

lemma map_get_del [simp, go_map_simps]:
  "map_get (map_del k m) k' = (if k' = k then None else map_get m k')"
  by (induction m) (auto simp: map_get_def map_del_def)

lemma wf_map_put [wf_intros]: "wf_map m \<Longrightarrow> wf_map (map_put k v m)"
  by (simp add: map_put_def distinct_update)

lemma wf_map_del [wf_intros]: "wf_map m \<Longrightarrow> wf_map (map_del k m)"
  by (simp add: map_del_def distinct_map_filter)

lemma keys_put [go_map_simps]: "fst ` set (map_put k v m) = insert k (fst ` set m)"
  by (auto simp: map_put_def dom_update)

lemma keys_del [go_map_simps]: "fst ` set (map_del k m) = fst ` set m - {k}"
  by (auto simp: map_del_def)

lemma in_keys_iff_get: "k \<in> fst ` set m \<longleftrightarrow> map_get m k \<noteq> None"
  by (simp add: map_get_def map_of_eq_None_iff)

lemma map_get_None_iff: "map_get m k = None \<longleftrightarrow> k \<notin> fst ` set m"
  by (simp add: map_get_def map_of_eq_None_iff)

lemma map_get_SomeD: "map_get m k = Some v \<Longrightarrow> (k, v) \<in> set m"
  by (simp add: map_get_def map_of_SomeD)

lemma map_get_eq_Some_iff: "wf_map m \<Longrightarrow> map_get m k = Some v \<longleftrightarrow> (k, v) \<in> set m"
  by (simp add: map_get_def)

lemma map_get_Some_key: "map_get m k = Some v \<Longrightarrow> k \<in> fst ` set m"
  by (force dest: map_get_SomeD)

lemma length_put:
  "length (map_put k v m) = (if map_get m k = None then Suc (length m) else length m)"
  by (induction m) (auto simp: map_put_def map_get_def)

lemma length_del_notin: "map_get m k = None \<Longrightarrow> map_del k m = m"
  by (force simp: map_del_def map_get_def map_of_eq_None_iff filter_id_conv)

lemma length_del:
  "wf_map m \<Longrightarrow> map_get m k \<noteq> None \<Longrightarrow> Suc (length (map_del k m)) = length m"
proof (induction m)
  case Nil
  then show ?case by simp
next
  case (Cons kv m)
  show ?case
  proof (cases "fst kv = k")
    case True
    with Cons.prems have "map_get m k = None"
      by (auto simp: map_get_def map_of_eq_None_iff)
    then have "map_del k m = m" by (rule length_del_notin)
    with True show ?thesis by (simp add: map_del_def)
  next
    case False
    with Cons.prems have "map_get m k \<noteq> None" by (cases kv) (auto simp: map_get_def)
    with Cons False show ?thesis by (simp add: map_del_def)
  qed
qed

lemma map_del_length_le: "length (map_del k m) \<le> length m"
  by (simp add: map_del_def)

lemma set_map_del: "set (map_del k m) = {kv \<in> set m. fst kv \<noteq> k}"
  by (auto simp: map_del_def)

lemma map_put_new: "map_get m k = None \<Longrightarrow> map_put k v m = m @ [(k, v)]"
  by (induction m) (auto simp: map_put_def map_get_def split: if_splits)

lemma set_map_put: "wf_map m \<Longrightarrow> set (map_put k v m) = insert (k, v) {kv \<in> set m. fst kv \<noteq> k}"
  by (induction m) (auto simp: map_put_def image_iff)

lemma set_set_add [simp, go_map_simps]: "set (set_add x s) = insert x (set s)"
  by (auto simp: set_add_def)

lemma set_set_del [simp, go_map_simps]: "set (set_del x s) = set s - {x}"
  by (simp add: set_del_def)

lemma wf_set_add [wf_intros]: "wf_set s \<Longrightarrow> wf_set (set_add x s)"
  by (auto simp: set_add_def)

lemma wf_set_del [wf_intros]: "wf_set s \<Longrightarrow> wf_set (set_del x s)"
  by (simp add: set_del_def distinct_removeAll)

lemma length_set_add: "length (set_add x s) = (if x \<in> set s then length s else Suc (length s))"
  by (simp add: set_add_def)

lemma set_eq_iff_set: "wf_set s \<Longrightarrow> wf_set t \<Longrightarrow> set_eq s t \<longleftrightarrow> set s = set t"
proof
  assume wf: "wf_set s" "wf_set t" and eq: "set_eq s t"
  then have sub: "set s \<subseteq> set t" and "card (set s) = card (set t)"
    by (auto simp: set_eq_def distinct_card)
  then show "set s = set t" by (simp add: card_subset_eq)
next
  assume wf: "wf_set s" "wf_set t" and eq: "set s = set t"
  then have "length s = length t" by (metis distinct_card)
  with eq show "set_eq s t" by (simp add: set_eq_def)
qed

lemma set_del_Nil: "set_del x s = [] \<longleftrightarrow> set s \<subseteq> {x}"
  by (metis Diff_eq_empty_iff set_empty set_set_del)

text \<open>A loop keeps what each of its rounds keeps.\<close>

lemma foldl_keeps: "(\<And>s x. f (g s x) = f s) \<Longrightarrow> f (foldl g s xs) = f s"
  by (induction xs arbitrary: s) simp_all

section \<open>Counting entries of a map\<close>

text \<open>The number of entries that satisfy a predicate, used to state cached cardinalities.\<close>

definition count_if :: "('v \<Rightarrow> bool) \<Rightarrow> ('k, 'v) go_map \<Rightarrow> int" where
  "count_if P m = int (length (filter (\<lambda>kv. P (snd kv)) m))"

lemma count_if_Nil [simp]: "count_if P [] = 0"
  by (simp add: count_if_def)

lemma count_if_Cons [simp]:
  "count_if P (kv # m) = (if P (snd kv) then 1 else 0) + count_if P m"
  by (simp add: count_if_def)

lemma count_if_append [simp]: "count_if P (m @ m') = count_if P m + count_if P m'"
  by (simp add: count_if_def)

lemma count_if_del:
  assumes "wf_map m" and "map_get m k = Some v"
  shows "count_if P (map_del k m) = count_if P m - (if P v then 1 else 0)"
  using assms
proof (induction m)
  case Nil
  then show ?case by simp
next
  case (Cons kv m)
  show ?case
  proof (cases "fst kv = k")
    case True
    with Cons.prems have "map_get m k = None" and "snd kv = v"
      by (auto simp: map_get_def map_of_eq_None_iff split: if_splits)
    then have "map_del k m = m" by (simp add: length_del_notin)
    then show ?thesis using True \<open>snd kv = v\<close> by (simp add: map_del_def)
  next
    case False
    with Cons.prems have "map_get m k = Some v" by (cases kv) (auto simp: map_get_def)
    with Cons False show ?thesis by (simp add: map_del_def)
  qed
qed

lemma count_if_put:
  assumes "wf_map m"
  shows "count_if P (map_put k v m) =
    count_if P m + (if P v then 1 else 0)
      - (case map_get m k of None \<Rightarrow> 0 | Some u \<Rightarrow> if P u then 1 else 0)"
  using assms
proof (induction m)
  case Nil
  then show ?case by (simp add: map_put_def)
next
  case (Cons kv m)
  show ?case
  proof (cases "fst kv = k")
    case True
    then show ?thesis by (cases kv) (auto simp: map_put_def map_get_def)
  next
    case False
    with Cons show ?thesis by (cases kv) (auto simp: map_put_def map_get_def)
  qed
qed

lemma count_if_split: "count_if P m + count_if (\<lambda>v. \<not> P v) m = int (length m)"
  by (induction m) auto

section \<open>Binary search\<close>

text \<open>
  \<open>sort.Search n f\<close>: the loop keeps \<open>f (i - 1) = False\<close> and \<open>f j = True\<close> and halves \<open>[i, j)\<close>.
\<close>

function search_loop :: "(nat \<Rightarrow> bool) \<Rightarrow> nat \<Rightarrow> nat \<Rightarrow> nat" where
  "search_loop f i j =
     (if i < j then
        let h = (i + j) div 2
        in if \<not> f h then search_loop f (h + 1) j else search_loop f i h
      else i)"
  by pat_completeness auto
termination
  by (relation "measure (\<lambda>(f, i, j). j - i)") auto

declare search_loop.simps [simp del]

definition sort_search :: "nat \<Rightarrow> (nat \<Rightarrow> bool) \<Rightarrow> nat" where
  "sort_search n f = search_loop f 0 n"

definition up_closed :: "nat \<Rightarrow> (nat \<Rightarrow> bool) \<Rightarrow> bool" where
  "up_closed n f \<longleftrightarrow> (\<forall>a b. a \<le> b \<longrightarrow> b < n \<longrightarrow> f a \<longrightarrow> f b)"

definition splits_at :: "nat \<Rightarrow> (nat \<Rightarrow> bool) \<Rightarrow> nat \<Rightarrow> nat \<Rightarrow> bool" where
  "splits_at n f i j \<longleftrightarrow> i \<le> j \<and> j \<le> n \<and> (\<forall>k < i. \<not> f k) \<and> (\<forall>k. j \<le> k \<longrightarrow> k < n \<longrightarrow> f k)"

lemma search_loop_correct:
  "up_closed n f \<Longrightarrow> splits_at n f i j \<Longrightarrow> splits_at n f (search_loop f i j) (search_loop f i j)"
proof (induction f i j rule: search_loop.induct)
  case (1 f i j)
  define h where "h = (i + j) div 2"
  show ?case
  proof (cases "i < j")
    case True
    then have h: "i \<le> h" "h < j" by (auto simp: h_def)
    have hn: "h < n" using h "1.prems"(2) by (simp add: splits_at_def)
    show ?thesis
    proof (cases "f h")
      case fh: True
      have eq: "search_loop f i j = search_loop f i h"
        using True fh by (simp add: search_loop.simps [of f i j] h_def [symmetric])
      have "\<forall>k. h \<le> k \<longrightarrow> k < n \<longrightarrow> f k" using "1.prems"(1) fh unfolding up_closed_def by blast
      with "1.prems"(2) h hn have "splits_at n f i h" by (simp add: splits_at_def)
      with "1.IH"(2) [OF True h_def] fh "1.prems"(1) show ?thesis by (simp add: eq)
    next
      case fh: False
      have eq: "search_loop f i j = search_loop f (h + 1) j"
        using True fh by (simp add: search_loop.simps [of f i j] h_def [symmetric])
      have "\<not> f k" if "k < h + 1" for k
      proof
        assume "f k"
        moreover have "k \<le> h" using that by simp
        ultimately have "f h" using "1.prems"(1) hn unfolding up_closed_def by blast
        with fh show False by simp
      qed
      with "1.prems"(2) h have "splits_at n f (h + 1) j" by (simp add: splits_at_def)
      with "1.IH"(1) [OF True h_def] fh "1.prems"(1) show ?thesis by (simp add: eq)
    qed
  next
    case False
    then have "search_loop f i j = i" by (simp add: search_loop.simps [of f i j])
    moreover have "i = j" using False "1.prems"(2) by (simp add: splits_at_def)
    ultimately show ?thesis using "1.prems"(2) by simp
  qed
qed

lemma sort_search_correct:
  assumes "up_closed n f"
  shows "sort_search n f \<le> n"
    and "k < sort_search n f \<Longrightarrow> \<not> f k"
    and "sort_search n f \<le> k \<Longrightarrow> k < n \<Longrightarrow> f k"
proof -
  have "splits_at n f 0 n" by (simp add: splits_at_def)
  with assms have "splits_at n f (sort_search n f) (sort_search n f)"
    unfolding sort_search_def by (rule search_loop_correct)
  then show "sort_search n f \<le> n"
    and "k < sort_search n f \<Longrightarrow> \<not> f k"
    and "sort_search n f \<le> k \<Longrightarrow> k < n \<Longrightarrow> f k"
    by (simp_all add: splits_at_def)
qed

end
