(* ===== verification/GapSet.thy ===== *)
theory GapSet
  imports DW_Prelude
begin

text \<open>
  \<open>pkg/seqtrack/gapset.go\<close>: the capped interval set over \<open>uint64\<close> sequence numbers that
  records which events were never observed. \<open>None\<close> is a Go panic (an index out of range,
  or \<open>Add\<close> called with \<open>from > to\<close>).
\<close>

section \<open>The interval set\<close>

record Interval =
  iv_from :: u64
  iv_to :: u64

record GapSet =
  gs_intervals :: "Interval list"
  gs_maxIntervals :: nat
  gs_truncated :: bool

definition defaultMaxIntervals :: int where
  "defaultMaxIntervals = 1024"

definition Interval_Count :: "Interval \<Rightarrow> u64" where
  "Interval_Count i = iv_to i - iv_from i + 1"

definition NewGapSet :: "int \<Rightarrow> GapSet" where
  "NewGapSet maxIntervals =
     (let m = (if maxIntervals \<le> 0 then defaultMaxIntervals else maxIntervals)
      in \<lparr>gs_intervals = [], gs_maxIntervals = nat m, gs_truncated = False\<rparr>)"

text \<open>The inner loop of \<open>enforceCap\<close>: the pair separated by the smallest hole.\<close>

function best_pair :: "Interval list \<Rightarrow> nat \<Rightarrow> nat \<Rightarrow> u64 \<Rightarrow> nat" where
  "best_pair ivs i best bestHole =
     (if i + 1 < length ivs then
        let hole = iv_from (ivs ! (i + 1)) - iv_to (ivs ! i)
        in if hole < bestHole then best_pair ivs (i + 1) i hole
           else best_pair ivs (i + 1) best bestHole
      else best)"
  by pat_completeness auto
termination
  by (relation "measure (\<lambda>(ivs, i, best, bestHole). length ivs - i)") auto

declare best_pair.simps [simp del]

text \<open>One round of \<open>enforceCap\<close>: \<open>g.intervals[best].To = g.intervals[best+1].To\<close>, then the
  pair's second interval is cut out.\<close>

definition merge_pair :: "Interval list \<Rightarrow> nat \<Rightarrow> Interval list" where
  "merge_pair ivs best =
     take (best + 1) (ivs[best := (ivs ! best)\<lparr>iv_to := iv_to (ivs ! (best + 1))\<rparr>])
       @ drop (best + 2) ivs"

function cap_loop :: "nat \<Rightarrow> Interval list \<Rightarrow> bool \<Rightarrow> (Interval list \<times> bool) option" where
  "cap_loop m ivs trunc =
     (if m < length ivs then
        let best = best_pair ivs 0 0 (- 1)
        in if best + 1 < length ivs then cap_loop m (merge_pair ivs best) True else None
      else Some (ivs, trunc))"
  by pat_completeness auto
termination
  by (relation "measure (\<lambda>(m, ivs, trunc). length ivs)") (auto simp: merge_pair_def)

declare cap_loop.simps [simp del]

definition enforceCap :: "GapSet \<Rightarrow> GapSet option" where
  "enforceCap g =
     (case cap_loop (gs_maxIntervals g) (gs_intervals g) (gs_truncated g) of
        None \<Rightarrow> None
      | Some (ivs, trunc) \<Rightarrow> Some (g\<lparr>gs_intervals := ivs, gs_truncated := trunc\<rparr>))"

text \<open>The absorbing loop of \<open>Add\<close>: the first index at or after \<open>hi\<close> whose interval starts
  beyond \<open>to + 1\<close>.\<close>

function absorb_loop :: "Interval list \<Rightarrow> u64 \<Rightarrow> nat \<Rightarrow> nat" where
  "absorb_loop ivs to hi =
     (if hi < length ivs then
        if to \<noteq> - 1 \<and> to + 1 < iv_from (ivs ! hi) then hi
        else if to = - 1 then length ivs
        else absorb_loop ivs to (hi + 1)
      else hi)"
  by pat_completeness auto
termination
  by (relation "measure (\<lambda>(ivs, to, hi). length ivs - hi)") auto

declare absorb_loop.simps [simp del]

definition Add_lo :: "Interval list \<Rightarrow> u64 \<Rightarrow> nat" where
  "Add_lo ivs fro =
     sort_search (length ivs)
       (\<lambda>i. if fro = 0 then fro \<le> iv_to (ivs ! i) else fro - 1 \<le> iv_to (ivs ! i))"

definition Add_merged :: "Interval list \<Rightarrow> nat \<Rightarrow> nat \<Rightarrow> u64 \<Rightarrow> u64 \<Rightarrow> Interval" where
  "Add_merged ivs lo hi fro to =
     (if lo < hi then
        \<lparr>iv_from = (if iv_from (ivs ! lo) < fro then iv_from (ivs ! lo) else fro),
         iv_to = (if to < iv_to (ivs ! (hi - 1)) then iv_to (ivs ! (hi - 1)) else to)\<rparr>
      else \<lparr>iv_from = fro, iv_to = to\<rparr>)"

definition Add_splice :: "Interval list \<Rightarrow> nat \<Rightarrow> nat \<Rightarrow> Interval \<Rightarrow> Interval list" where
  "Add_splice ivs lo hi merged =
     (if lo < hi then take (lo + 1) (ivs[lo := merged]) @ drop hi ivs
      else take lo ivs @ merged # drop lo ivs)"

definition GapSet_Add :: "GapSet \<Rightarrow> u64 \<Rightarrow> u64 \<Rightarrow> GapSet option" where
  "GapSet_Add g fro to =
     (if to < fro then None
      else
        let ivs = gs_intervals g;
            lo = Add_lo ivs fro;
            hi = absorb_loop ivs to lo;
            merged = Add_merged ivs lo hi fro to
        in enforceCap (g\<lparr>gs_intervals := Add_splice ivs lo hi merged\<rparr>))"

definition GapSet_find :: "GapSet \<Rightarrow> u64 \<Rightarrow> nat option" where
  \<comment> \<open>the Go function returns -1 for \<open>None\<close>\<close>
  "GapSet_find g seq =
     (let ivs = gs_intervals g;
          i = sort_search (length ivs) (\<lambda>i. seq \<le> iv_to (ivs ! i))
      in if i < length ivs \<and> iv_from (ivs ! i) \<le> seq then Some i else None)"

definition GapSet_Fill :: "GapSet \<Rightarrow> u64 \<Rightarrow> GapSet option" where
  "GapSet_Fill g seq =
     (case GapSet_find g seq of
        None \<Rightarrow> Some g
      | Some i \<Rightarrow>
          let ivs = gs_intervals g; iv = ivs ! i
          in if iv_from iv = iv_to iv then
               Some (g\<lparr>gs_intervals := take i ivs @ drop (i + 1) ivs\<rparr>)
             else if seq = iv_from iv then
               Some (g\<lparr>gs_intervals := ivs[i := iv\<lparr>iv_from := seq + 1\<rparr>]\<rparr>)
             else if seq = iv_to iv then
               Some (g\<lparr>gs_intervals := ivs[i := iv\<lparr>iv_to := seq - 1\<rparr>]\<rparr>)
             else
               enforceCap
                 (g\<lparr>gs_intervals :=
                     take i ivs @ \<lparr>iv_from = iv_from iv, iv_to = seq - 1\<rparr>
                       # \<lparr>iv_from = seq + 1, iv_to = iv_to iv\<rparr> # drop (i + 1) ivs\<rparr>))"

definition GapSet_Contains :: "GapSet \<Rightarrow> u64 \<Rightarrow> bool" where
  "GapSet_Contains g seq = (GapSet_find g seq \<noteq> None)"

definition GapSet_Count :: "GapSet \<Rightarrow> u64" where
  "GapSet_Count g = foldl (\<lambda>total i. total + Interval_Count i) 0 (gs_intervals g)"

definition GapSet_Clear :: "GapSet \<Rightarrow> GapSet" where
  "GapSet_Clear g = g\<lparr>gs_intervals := [], gs_truncated := False\<rparr>"

section \<open>What the set denotes, and when it is well formed\<close>

definition iv_set :: "Interval \<Rightarrow> u64 set" where
  "iv_set i = {iv_from i .. iv_to i}"

definition ivs_set :: "Interval list \<Rightarrow> u64 set" where
  "ivs_set ivs = (\<Union>i \<in> set ivs. iv_set i)"

definition gs_set :: "GapSet \<Rightarrow> u64 set" where
  "gs_set g = ivs_set (gs_intervals g)"

text \<open>\<open>a\<close> ends before \<open>b\<close> begins, with at least one number between them.\<close>

definition iv_apart :: "Interval \<Rightarrow> Interval \<Rightarrow> bool" where
  "iv_apart a b \<longleftrightarrow> iv_to a < iv_from b \<and> iv_to a + 1 < iv_from b"

definition ivs_ok :: "Interval list \<Rightarrow> bool" where
  "ivs_ok ivs \<longleftrightarrow> sorted_wrt iv_apart ivs \<and> (\<forall>i \<in> set ivs. iv_from i \<le> iv_to i)"

definition gs_ok :: "GapSet \<Rightarrow> bool" where
  "gs_ok g \<longleftrightarrow> ivs_ok (gs_intervals g) \<and> 0 < gs_maxIntervals g
     \<and> length (gs_intervals g) \<le> gs_maxIntervals g"


section \<open>Successor arithmetic on sequence numbers\<close>

lemma u64_pred_less_iff: "x \<noteq> 0 \<Longrightarrow> x - 1 < y \<longleftrightarrow> x \<le> (y :: u64)"
  by unat_arith

lemma u64_less_suc_iff: "y \<noteq> - 1 \<Longrightarrow> x < y + 1 \<longleftrightarrow> x \<le> (y :: u64)"
  using u64_pred_less_iff [of "y + 1" x]
  by (metis add_diff_cancel_right' eq_neg_iff_add_eq_0 linorder_not_less)

lemma u64_suc_le_iff: "x \<noteq> - 1 \<Longrightarrow> x + 1 \<le> y \<longleftrightarrow> x < (y :: u64)"
  by (metis linorder_not_less u64_less_suc_iff)

lemma u64_le_max [simp]: "x \<le> (- 1 :: u64)"
  by (rule word_n1_ge)

lemma u64_less_imp_ne_max: "x < y \<Longrightarrow> x \<noteq> (- 1 :: u64)"
  using u64_le_max linorder_not_less by blast

lemma iv_apart_trans: "iv_apart a b \<Longrightarrow> iv_from b \<le> iv_to b \<Longrightarrow> iv_apart b c \<Longrightarrow> iv_apart a c"
  unfolding iv_apart_def by (meson dual_order.strict_trans1 dual_order.strict_trans2 less_imp_le)

section \<open>Interval lists\<close>

lemma ivs_set_Nil [simp]: "ivs_set [] = {}"
  by (simp add: ivs_set_def)

lemma ivs_set_Cons [simp]: "ivs_set (i # ivs) = iv_set i \<union> ivs_set ivs"
  by (simp add: ivs_set_def)

lemma ivs_set_append [simp]: "ivs_set (xs @ ys) = ivs_set xs \<union> ivs_set ys"
  by (simp add: ivs_set_def)

lemma ivs_ok_Nil [simp]: "ivs_ok []"
  by (simp add: ivs_ok_def)

lemma ivs_ok_append:
  "ivs_ok (xs @ ys) \<longleftrightarrow> ivs_ok xs \<and> ivs_ok ys \<and> (\<forall>x \<in> set xs. \<forall>y \<in> set ys. iv_apart x y)"
  by (auto simp: ivs_ok_def sorted_wrt_append)

lemma ivs_ok_Cons:
  "ivs_ok (x # ys) \<longleftrightarrow> iv_from x \<le> iv_to x \<and> ivs_ok ys \<and> (\<forall>y \<in> set ys. iv_apart x y)"
  by (auto simp: ivs_ok_def)

lemmas ivs_ok_simps = ivs_ok_append ivs_ok_Cons

text \<open>Replacing a block \<open>M\<close> of an interval list by one interval that is apart from what is
  before and after it.\<close>

lemma ivs_ok_replace:
  assumes "ivs_ok (A @ M @ B)" and "iv_from m \<le> iv_to m"
    and "\<forall>a \<in> set A. iv_apart a m" and "\<forall>b \<in> set B. iv_apart m b"
  shows "ivs_ok (A @ m # B)"
  using assms by (auto simp: ivs_ok_simps)

lemma ivs_ok_bounds:
  assumes "ivs_ok M" and "i \<in> set M"
  shows "iv_from (hd M) \<le> iv_from i" and "iv_to i \<le> iv_to (last M)"
proof -
  from assms show "iv_from (hd M) \<le> iv_from i"
    by (cases M) (auto simp: ivs_ok_Cons iv_apart_def)
  from assms show "iv_to i \<le> iv_to (last M)"
  proof (cases M rule: rev_cases)
    case (snoc xs x)
    with assms have "i = x \<or> (i \<in> set xs \<and> iv_apart i x \<and> iv_from x \<le> iv_to x)"
      by (auto simp: ivs_ok_simps)
    with snoc show ?thesis by (auto simp: iv_apart_def)
  qed simp
qed

text \<open>The interval \<open>Add\<close> builds from a touched block \<open>M\<close> denotes exactly the union.\<close>

definition touched :: "u64 \<Rightarrow> u64 \<Rightarrow> Interval \<Rightarrow> bool" where
  "touched fro to i \<longleftrightarrow> (fro = 0 \<or> fro - 1 \<le> iv_to i) \<and> (to = - 1 \<or> iv_from i \<le> to + 1)"

lemma merged_set:
  assumes ok: "ivs_ok M" and ne: "M \<noteq> []" and le: "fro \<le> to"
    and t: "\<forall>i \<in> set M. touched fro to i"
    and m: "m = \<lparr>iv_from = min fro (iv_from (hd M)), iv_to = max to (iv_to (last M))\<rparr>"
  shows "iv_set m = {fro..to} \<union> ivs_set M"
proof (intro equalityI subsetI)
  fix x assume "x \<in> iv_set m"
  then have x: "min fro (iv_from (hd M)) \<le> x" "x \<le> max to (iv_to (last M))"
    by (auto simp: iv_set_def m)
  consider "x < fro" | "to < x" | "x \<in> {fro..to}" by force
  then show "x \<in> {fro..to} \<union> ivs_set M"
  proof cases
    case 1
    then have "fro \<noteq> 0" by auto
    moreover have "hd M \<in> set M" using ne by simp
    ultimately have "fro - 1 \<le> iv_to (hd M)" using t by (auto simp: touched_def)
    moreover have "x \<le> fro - 1"
      using 1 \<open>fro \<noteq> 0\<close> by (metis linorder_not_less u64_pred_less_iff)
    moreover have "iv_from (hd M) \<le> x" using x 1 by (auto simp: min_def split: if_splits)
    ultimately have "x \<in> iv_set (hd M)" by (auto simp: iv_set_def)
    then show ?thesis using \<open>hd M \<in> set M\<close> by (auto simp: ivs_set_def)
  next
    case 2
    then have "to \<noteq> - 1" by (rule u64_less_imp_ne_max)
    moreover have last: "last M \<in> set M" using ne by simp
    ultimately have "iv_from (last M) \<le> to + 1" using t by (auto simp: touched_def)
    moreover have "to + 1 \<le> x" using 2 \<open>to \<noteq> - 1\<close> by (simp add: u64_suc_le_iff)
    moreover have "x \<le> iv_to (last M)" using x 2 by (auto simp: max_def split: if_splits)
    ultimately have "x \<in> iv_set (last M)" by (auto simp: iv_set_def)
    then show ?thesis using last by (auto simp: ivs_set_def)
  qed simp
next
  fix x assume "x \<in> {fro..to} \<union> ivs_set M"
  then show "x \<in> iv_set m"
    using ivs_ok_bounds [OF ok]
    by (fastforce simp: iv_set_def ivs_set_def m min_le_iff_disj le_max_iff_disj)
qed


section \<open>The cap\<close>

definition hole_at :: "Interval list \<Rightarrow> nat \<Rightarrow> u64" where
  "hole_at ivs i = iv_from (ivs ! (i + 1)) - iv_to (ivs ! i)"

lemma best_pair_bound:
  "best + 1 < length ivs \<Longrightarrow> best_pair ivs i best h + 1 < length ivs"
proof (induction ivs i best h rule: best_pair.induct)
  case (1 ivs i best h)
  then show ?case by (subst best_pair.simps) (auto simp: Let_def)
qed

text \<open>The pair \<open>enforceCap\<close> merges has the smallest hole of all neighbouring pairs.\<close>

lemma best_pair_least:
  assumes "best + 1 < length ivs" and "hole_at ivs best \<le> h" and "\<forall>k < i. h \<le> hole_at ivs k"
  shows "\<forall>k. k + 1 < length ivs \<longrightarrow> hole_at ivs (best_pair ivs i best h) \<le> hole_at ivs k"
  using assms
proof (induction ivs i best h rule: best_pair.induct)
  case (1 ivs i best h)
  let ?hole = "iv_from (ivs ! (i + 1)) - iv_to (ivs ! i)"
  show ?case
  proof (cases "i + 1 < length ivs")
    case False
    then show ?thesis using "1.prems" by (simp add: best_pair.simps [of ivs i best h]) (meson le_less_trans
        less_Suc_eq_le linorder_not_less not_less_eq order.trans)
  next
    case True
    show ?thesis
    proof (cases "?hole < h")
      case less: True
      have "\<forall>k < i + 1. ?hole \<le> hole_at ivs k"
        using less "1.prems"(3) by (auto simp: less_Suc_eq hole_at_def intro: order.trans less_imp_le)
      then have "\<forall>k. k + 1 < length ivs \<longrightarrow>
          hole_at ivs (best_pair ivs (i + 1) i ?hole) \<le> hole_at ivs k"
        using "1.IH"(1) [OF True refl less] True by (simp add: hole_at_def)
      then show ?thesis using True less by (simp add: best_pair.simps [of ivs i best h])
    next
      case notless: False
      then have "\<forall>k < i + 1. h \<le> hole_at ivs k"
        using "1.prems"(3) by (auto simp: less_Suc_eq hole_at_def)
      then have "\<forall>k. k + 1 < length ivs \<longrightarrow>
          hole_at ivs (best_pair ivs (i + 1) best h) \<le> hole_at ivs k"
        using "1.IH"(2) [OF True refl notless] "1.prems" by simp
      then show ?thesis using True notless by (simp add: best_pair.simps [of ivs i best h])
    qed
  qed
qed

lemma split_pair:
  assumes "k + 1 < length ivs"
  shows "ivs = take k ivs @ ivs ! k # ivs ! (k + 1) # drop (k + 2) ivs"
  using assms by (metis Suc_eq_plus1 add_2_eq_Suc' Cons_nth_drop_Suc Suc_lessD id_take_nth_drop)

lemma merge_pair_split:
  assumes "k + 1 < length ivs"
  shows "merge_pair ivs k =
    take k ivs @ \<lparr>iv_from = iv_from (ivs ! k), iv_to = iv_to (ivs ! (k + 1))\<rparr> # drop (k + 2) ivs"
proof -
  have "(ivs ! k)\<lparr>iv_to := t\<rparr> = \<lparr>iv_from = iv_from (ivs ! k), iv_to = t\<rparr>" for t
    by (cases "ivs ! k") simp
  with assms show ?thesis
    by (simp add: merge_pair_def take_Suc_conv_app_nth)
qed

lemma merge_pair_ok:
  assumes ok: "ivs_ok ivs" and k: "k + 1 < length ivs"
  shows "ivs_ok (merge_pair ivs k)"
    and "ivs_set ivs \<subseteq> ivs_set (merge_pair ivs k)"
    and "length (merge_pair ivs k) + 1 = length ivs"
    and "\<forall>x \<in> ivs_set (merge_pair ivs k). \<exists>y \<in> ivs_set ivs. x \<le> y"
proof -
  define A a b B where "A = take k ivs" and "a = ivs ! k" and "b = ivs ! (k + 1)"
    and "B = drop (k + 2) ivs"
  have ivs: "ivs = A @ a # b # B" unfolding A_def a_def b_def B_def by (rule split_pair [OF k])
  have mp: "merge_pair ivs k = A @ \<lparr>iv_from = iv_from a, iv_to = iv_to b\<rparr> # B"
    unfolding A_def a_def b_def B_def by (rule merge_pair_split [OF k])
  have ab: "iv_from a \<le> iv_to a" "iv_from b \<le> iv_to b" "iv_to a < iv_from b"
    and apart: "\<forall>x \<in> set A. iv_apart x a" "\<forall>x \<in> set B. iv_apart b x"
    using ok by (auto simp: ivs ivs_ok_simps iv_apart_def)
  then have "iv_from a \<le> iv_to b" by auto
  then show "ivs_ok (merge_pair ivs k)"
    using ok apart unfolding mp unfolding ivs by (auto simp: ivs_ok_simps iv_apart_def)
  show "ivs_set ivs \<subseteq> ivs_set (merge_pair ivs k)"
    unfolding mp unfolding ivs using ab by (auto simp: iv_set_def)
  show "length (merge_pair ivs k) + 1 = length ivs" unfolding mp unfolding ivs by simp
  show "\<forall>x \<in> ivs_set (merge_pair ivs k). \<exists>y \<in> ivs_set ivs. x \<le> y"
    unfolding mp unfolding ivs using ab by (auto simp: iv_set_def)
qed

text \<open>What the capping loop guarantees: it returns, fits the cap, only ever adds numbers,
  stays below the largest recorded number, and changes nothing when the list fits.\<close>

definition capped :: "nat \<Rightarrow> Interval list \<Rightarrow> bool \<Rightarrow> Interval list \<Rightarrow> bool \<Rightarrow> bool" where
  "capped m ivs t ivs' t' \<longleftrightarrow> ivs_ok ivs' \<and> length ivs' \<le> m \<and> ivs_set ivs \<subseteq> ivs_set ivs'
     \<and> (\<forall>x \<in> ivs_set ivs'. \<exists>y \<in> ivs_set ivs. x \<le> y)
     \<and> (if length ivs \<le> m then ivs' = ivs \<and> t' = t else t')"

lemma cap_loop_capped:
  "ivs_ok ivs \<Longrightarrow> 0 < m \<Longrightarrow> \<exists>ivs' t'. cap_loop m ivs t = Some (ivs', t') \<and> capped m ivs t ivs' t'"
proof (induction m ivs t rule: cap_loop.induct)
  case (1 m ivs t)
  define k where "k = best_pair ivs 0 0 (- 1)"
  show ?case
  proof (cases "m < length ivs")
    case False
    then show ?thesis using "1.prems" by (auto simp: cap_loop.simps [of m ivs t] capped_def)
  next
    case True
    with "1.prems" have "0 + 1 < length ivs" by simp
    then have k: "k + 1 < length ivs" unfolding k_def by (rule best_pair_bound)
    note mp = merge_pair_ok [OF "1.prems"(1) k]
    obtain ivs' t' where res: "cap_loop m (merge_pair ivs k) True = Some (ivs', t')"
      and cp: "capped m (merge_pair ivs k) True ivs' t'"
      using "1.IH" [OF True k_def k mp(1) "1.prems"(2)] by blast
    have "cap_loop m ivs t = Some (ivs', t')"
      using True k res by (simp add: cap_loop.simps [of m ivs t] k_def [symmetric])
    moreover have "capped m ivs t ivs' t'"
      using cp mp True unfolding capped_def by (auto split: if_splits) (meson order.trans)+
    ultimately show ?thesis by blast
  qed
qed

lemma enforceCap_spec:
  assumes "ivs_ok (gs_intervals g)" and "0 < gs_maxIntervals g"
  shows "\<exists>g'. enforceCap g = Some g' \<and> gs_ok g' \<and> gs_maxIntervals g' = gs_maxIntervals g
    \<and> gs_set g \<subseteq> gs_set g'
    \<and> (\<forall>x \<in> gs_set g'. \<exists>y \<in> gs_set g. x \<le> y)
    \<and> (gs_truncated g \<longrightarrow> gs_truncated g')
    \<and> (\<not> gs_truncated g' \<longrightarrow> gs_set g' = gs_set g)"
  using cap_loop_capped [OF assms, of "gs_truncated g"] assms(2)
  by (force simp: enforceCap_def gs_ok_def gs_set_def capped_def split: if_splits)


section \<open>Add\<close>

lemma ivs_ok_nth_apart: "ivs_ok ivs \<Longrightarrow> i < j \<Longrightarrow> j < length ivs \<Longrightarrow> iv_apart (ivs ! i) (ivs ! j)"
  by (simp add: ivs_ok_def sorted_wrt_nth_less)

lemma ivs_ok_nth_le: "ivs_ok ivs \<Longrightarrow> i < length ivs \<Longrightarrow> iv_from (ivs ! i) \<le> iv_to (ivs ! i)"
  by (simp add: ivs_ok_def)

lemma ivs_ok_to_mono:
  assumes "ivs_ok ivs" and "i \<le> j" and "j < length ivs"
  shows "iv_to (ivs ! i) \<le> iv_to (ivs ! j)"
proof (cases "i = j")
  case False
  then have "iv_apart (ivs ! i) (ivs ! j)" using assms by (simp add: ivs_ok_nth_apart)
  moreover have "iv_from (ivs ! j) \<le> iv_to (ivs ! j)" using assms by (simp add: ivs_ok_nth_le)
  ultimately show ?thesis by (auto simp: iv_apart_def)
qed simp

lemma up_closed_to: "ivs_ok ivs \<Longrightarrow> up_closed (length ivs) (\<lambda>i. x \<le> iv_to (ivs ! i))"
  unfolding up_closed_def by (meson ivs_ok_to_mono order.trans)

lemma Add_lo_eq:
  "Add_lo ivs fro = sort_search (length ivs) (\<lambda>i. (if fro = 0 then 0 else fro - 1) \<le> iv_to (ivs ! i))"
  by (simp add: Add_lo_def)

lemma Add_lo_props:
  assumes ok: "ivs_ok ivs"
  shows "Add_lo ivs fro \<le> length ivs"
    and "k < Add_lo ivs fro \<Longrightarrow> iv_to (ivs ! k) < fro \<and> iv_to (ivs ! k) + 1 < fro"
    and "Add_lo ivs fro \<le> k \<Longrightarrow> k < length ivs \<Longrightarrow> fro = 0 \<or> fro - 1 \<le> iv_to (ivs ! k)"
proof -
  note ss = sort_search_correct
    [OF up_closed_to [OF ok, of "if fro = 0 then 0 else fro - 1"], folded Add_lo_eq]
  show "Add_lo ivs fro \<le> length ivs" by (rule ss(1))
  show "iv_to (ivs ! k) < fro \<and> iv_to (ivs ! k) + 1 < fro" if "k < Add_lo ivs fro"
  proof -
    have *: "iv_to (ivs ! k) < (if fro = 0 then 0 else fro - 1)"
      using ss(2) [OF that] by simp
    then have nz: "fro \<noteq> 0" by auto
    with * have **: "iv_to (ivs ! k) < fro - 1" by simp
    then have "iv_to (ivs ! k) + 1 \<le> fro - 1"
      by (simp add: u64_suc_le_iff u64_less_imp_ne_max)
    moreover have "fro - 1 < fro" using nz u64_pred_less_iff by blast
    ultimately show ?thesis using ** by auto
  qed
  show "fro = 0 \<or> fro - 1 \<le> iv_to (ivs ! k)" if "Add_lo ivs fro \<le> k" "k < length ivs"
    using ss(3) [OF that] by (auto split: if_splits)
qed

lemma absorb_loop_props:
  assumes "ivs_ok ivs" and "lo \<le> length ivs"
  shows "lo \<le> absorb_loop ivs to lo \<and> absorb_loop ivs to lo \<le> length ivs
    \<and> (\<forall>k. lo \<le> k \<longrightarrow> k < absorb_loop ivs to lo \<longrightarrow> to = - 1 \<or> iv_from (ivs ! k) \<le> to + 1)
    \<and> (\<forall>k. absorb_loop ivs to lo \<le> k \<longrightarrow> k < length ivs \<longrightarrow>
          to < iv_from (ivs ! k) \<and> to + 1 < iv_from (ivs ! k))"
  using assms
proof (induction ivs to lo rule: absorb_loop.induct)
  case (1 ivs to lo)
  show ?case
  proof (cases "lo < length ivs")
    case False
    then have "absorb_loop ivs to lo = lo" by (simp add: absorb_loop.simps [of ivs to lo])
    with False show ?thesis using "1.prems" by simp
  next
    case True
    consider (stop) "to \<noteq> - 1" "to + 1 < iv_from (ivs ! lo)"
      | (all) "to = - 1" | (next_iv) "to \<noteq> - 1" "iv_from (ivs ! lo) \<le> to + 1"
      by force
    then show ?thesis
    proof cases
      case stop
      have from_mono: "iv_from (ivs ! lo) \<le> iv_from (ivs ! k)" if "lo \<le> k" "k < length ivs" for k
      proof (cases "lo = k")
        case False
        then have "iv_apart (ivs ! lo) (ivs ! k)"
          using that "1.prems"(1) by (simp add: ivs_ok_nth_apart)
        moreover have "iv_from (ivs ! lo) \<le> iv_to (ivs ! lo)"
          using True "1.prems"(1) by (simp add: ivs_ok_nth_le)
        ultimately show ?thesis by (auto simp: iv_apart_def)
      qed simp
      moreover have "to < to + 1" using stop(1) by (simp add: u64_less_suc_iff)
      ultimately show ?thesis
        using stop True by (auto simp: absorb_loop.simps [of ivs to lo])
          (meson less_trans less_le_trans)+
    next
      case all
      then have "absorb_loop ivs to lo = length ivs"
        using True by (subst absorb_loop.simps) simp
      with all True show ?thesis by simp
    next
      case next_iv
      then have eq: "absorb_loop ivs to lo = absorb_loop ivs to (lo + 1)"
        using True by (auto simp: absorb_loop.simps [of ivs to lo])
      have "\<not> (to \<noteq> - 1 \<and> to + 1 < iv_from (ivs ! lo))" using next_iv by auto
      then show ?thesis
        using "1.IH" [OF True _ next_iv(1)] "1.prems" True next_iv unfolding eq
        by (auto simp: Suc_le_eq) (metis le_neq_implies_less)
    qed
  qed
qed

text \<open>\<open>Add\<close> splits the list into what lies below, what the new range touches, and what lies
  above.\<close>

lemma Add_split:
  fixes fro to :: u64
  assumes ok: "ivs_ok ivs"
  defines "lo \<equiv> Add_lo ivs fro" and "hi \<equiv> absorb_loop ivs to (Add_lo ivs fro)"
  shows "lo \<le> hi" and "hi \<le> length ivs"
    and "\<forall>a \<in> set (take lo ivs). iv_to a < fro \<and> iv_to a + 1 < fro"
    and "\<forall>m \<in> set (take (hi - lo) (drop lo ivs)). touched fro to m"
    and "\<forall>b \<in> set (drop hi ivs). to < iv_from b \<and> to + 1 < iv_from b"
proof -
  note lo = Add_lo_props [OF ok, where fro = fro, folded lo_def]
  note hi = absorb_loop_props [OF ok lo(1), of to, unfolded lo_def, folded hi_def lo_def]
  show lohi: "lo \<le> hi" and hil: "hi \<le> length ivs" using hi by auto
  show "\<forall>a \<in> set (take lo ivs). iv_to a < fro \<and> iv_to a + 1 < fro"
    using lo(1,2) by (auto simp: in_set_conv_nth)
  show "\<forall>m \<in> set (take (hi - lo) (drop lo ivs)). touched fro to m"
  proof
    fix m assume "m \<in> set (take (hi - lo) (drop lo ivs))"
    then obtain i where i: "i < hi - lo" and m: "m = ivs ! (lo + i)"
      using hil by (auto simp: in_set_conv_nth)
    from i hil have "lo + i < length ivs" "lo + i < hi" by auto
    then show "touched fro to m" using lo(3) [of "lo + i"] hi by (auto simp: touched_def m)
  qed
  show "\<forall>b \<in> set (drop hi ivs). to < iv_from b \<and> to + 1 < iv_from b"
    using hi by (auto simp: in_set_conv_nth)
qed


lemma Add_splice_spec:
  assumes ok: "ivs_ok ivs" and le: "fro \<le> to"
  defines "lo \<equiv> Add_lo ivs fro"
  defines "hi \<equiv> absorb_loop ivs to lo"
  defines "res \<equiv> Add_splice ivs lo hi (Add_merged ivs lo hi fro to)"
  shows "ivs_ok res" and "ivs_set res = ivs_set ivs \<union> {fro..to}"
proof -
  have sp: "lo \<le> hi" "hi \<le> length ivs"
    "\<forall>a \<in> set (take lo ivs). iv_to a < fro \<and> iv_to a + 1 < fro"
    "\<forall>m \<in> set (take (hi - lo) (drop lo ivs)). touched fro to m"
    "\<forall>b \<in> set (drop hi ivs). to < iv_from b \<and> to + 1 < iv_from b"
    unfolding lo_def hi_def by (rule Add_split [OF ok])+
  define A M B where "A = take lo ivs" and "M = take (hi - lo) (drop lo ivs)" and "B = drop hi ivs"
  have ivs: "ivs = A @ M @ B"
    using sp(1,2) by (simp add: A_def M_def B_def drop_drop flip: append_assoc take_add)
  have okA: "ivs_ok (A @ M @ B)" using ok ivs by simp
  define m where "m = Add_merged ivs lo hi fro to"
  have res: "res = A @ m # B"
    using sp(1,2) by (auto simp: res_def m_def Add_splice_def A_def B_def take_Suc_conv_app_nth)
  have "iv_set m = {fro..to} \<union> ivs_set M \<and> iv_from m \<le> iv_to m
      \<and> (\<forall>a \<in> set A. iv_apart a m) \<and> (\<forall>b \<in> set B. iv_apart m b)"
  proof (cases "lo < hi")
    case False
    then have "M = []" and "m = \<lparr>iv_from = fro, iv_to = to\<rparr>"
      by (simp_all add: M_def m_def Add_merged_def)
    then show ?thesis using sp(3,5) le by (auto simp: iv_set_def iv_apart_def A_def B_def)
  next
    case True
    then have ne: "M \<noteq> []" and hd: "hd M = ivs ! lo" and last: "last M = ivs ! (hi - 1)"
      using sp(2) by (simp_all add: M_def hd_drop_conv_nth last_conv_nth)
    have m: "m = \<lparr>iv_from = min fro (iv_from (hd M)), iv_to = max to (iv_to (last M))\<rparr>"
      using True by (auto simp: m_def Add_merged_def hd last min_def max_def)
    have okM: "ivs_ok M" using okA by (simp add: ivs_ok_simps)
    have "iv_set m = {fro..to} \<union> ivs_set M"
      using merged_set [OF okM ne le _ m] sp(4) by (simp add: M_def)
    moreover have "iv_from m \<le> iv_to m" using le by (auto simp: m min_def max_def)
    moreover have "\<forall>a \<in> set A. iv_apart a m"
      using sp(3) okA ne by (auto simp: m A_def [symmetric] ivs_ok_simps iv_apart_def)
    moreover have "\<forall>b \<in> set B. iv_apart m b"
      using sp(5) okA ne by (auto simp: m B_def [symmetric] ivs_ok_simps iv_apart_def max_def)
    ultimately show ?thesis by blast
  qed
  then show "ivs_ok res" and "ivs_set res = ivs_set ivs \<union> {fro..to}"
    using ivs_ok_replace [OF okA, of m] by (auto simp: res) (auto simp: ivs)
qed

lemma GapSet_Add_spec:
  assumes ok: "gs_ok g" and le: "fro \<le> to"
  shows "\<exists>g'. GapSet_Add g fro to = Some g' \<and> gs_ok g' \<and> gs_maxIntervals g' = gs_maxIntervals g
    \<and> gs_set g \<union> {fro..to} \<subseteq> gs_set g'
    \<and> (\<forall>x \<in> gs_set g'. \<exists>y \<in> gs_set g \<union> {fro..to}. x \<le> y)
    \<and> (gs_truncated g \<longrightarrow> gs_truncated g')
    \<and> (\<not> gs_truncated g' \<longrightarrow> gs_set g' = gs_set g \<union> {fro..to})"
proof -
  define ivs where "ivs = gs_intervals g"
  define res where "res = (let lo = Add_lo ivs fro; hi = absorb_loop ivs to lo
    in Add_splice ivs lo hi (Add_merged ivs lo hi fro to))"
  have eq: "GapSet_Add g fro to = enforceCap (g\<lparr>gs_intervals := res\<rparr>)"
    using le by (simp add: GapSet_Add_def res_def ivs_def Let_def not_less [symmetric])
  have "ivs_ok ivs" using ok by (simp add: gs_ok_def ivs_def)
  note sp = Add_splice_spec [OF this le]
  have "ivs_ok res" and set: "ivs_set res = ivs_set ivs \<union> {fro..to}"
    using sp by (simp_all add: res_def Let_def)
  then have "ivs_ok (gs_intervals (g\<lparr>gs_intervals := res\<rparr>))" by simp
  moreover have "0 < gs_maxIntervals (g\<lparr>gs_intervals := res\<rparr>)" using ok by (simp add: gs_ok_def)
  ultimately show ?thesis
    using enforceCap_spec [of "g\<lparr>gs_intervals := res\<rparr>"] unfolding eq
    by (simp add: gs_set_def set ivs_def)
qed


section \<open>Lookup and Fill\<close>

lemma GapSet_find_Some:
  assumes "gs_ok g" and "GapSet_find g s = Some i"
  shows "i < length (gs_intervals g)" and "s \<in> iv_set (gs_intervals g ! i)"
proof -
  have ok: "ivs_ok (gs_intervals g)" using assms(1) by (simp add: gs_ok_def)
  note ss = sort_search_correct [OF up_closed_to [OF ok, of s]]
  show "i < length (gs_intervals g)" and "s \<in> iv_set (gs_intervals g ! i)"
    using assms(2) ss(3) [OF order.refl]
    by (auto simp: GapSet_find_def Let_def iv_set_def split: if_splits)
qed

lemma GapSet_find_None:
  assumes "gs_ok g" and "GapSet_find g s = None"
  shows "s \<notin> gs_set g"
proof
  assume "s \<in> gs_set g"
  then obtain k where k: "k < length (gs_intervals g)" and s: "s \<in> iv_set (gs_intervals g ! k)"
    by (auto simp: gs_set_def ivs_set_def in_set_conv_nth)
  have ok: "ivs_ok (gs_intervals g)" using assms(1) by (simp add: gs_ok_def)
  define i where "i = sort_search (length (gs_intervals g)) (\<lambda>i. s \<le> iv_to (gs_intervals g ! i))"
  note ss = sort_search_correct [OF up_closed_to [OF ok, of s], folded i_def]
  have ik: "i \<le> k" using ss(2) [of k] s by (force simp: iv_set_def)
  with k have "i < length (gs_intervals g)" by simp
  with assms(2) have lt: "s < iv_from (gs_intervals g ! i)"
    by (auto simp: GapSet_find_def Let_def i_def [symmetric] split: if_splits)
  show False
  proof (cases "i = k")
    case True
    then show False using lt s by (auto simp: iv_set_def)
  next
    case False
    with ik have "iv_apart (gs_intervals g ! i) (gs_intervals g ! k)"
      using ivs_ok_nth_apart [OF ok, of i k] k by simp
    then show False
      using lt s ivs_ok_nth_le [OF ok, of i] \<open>i < length (gs_intervals g)\<close>
      by (auto simp: iv_set_def iv_apart_def)
  qed
qed

lemma GapSet_Contains_iff: "gs_ok g \<Longrightarrow> GapSet_Contains g s \<longleftrightarrow> s \<in> gs_set g"
proof
  assume ok: "gs_ok g" and "GapSet_Contains g s"
  then obtain i where "GapSet_find g s = Some i" by (auto simp: GapSet_Contains_def)
  note f = GapSet_find_Some [OF ok this]
  then show "s \<in> gs_set g" by (force simp: gs_set_def ivs_set_def)
next
  assume "gs_ok g" and "s \<in> gs_set g"
  then show "GapSet_Contains g s"
    using GapSet_find_None [of g s] by (auto simp: GapSet_Contains_def)
qed

lemma u64_between:
  assumes "a < s" and "s < (b :: u64)"
  shows "a \<le> s - 1" and "s - 1 < s" and "s < s + 1" and "s + 1 \<le> b"
proof -
  have nz: "s \<noteq> 0" using assms(1) by auto
  have nm: "s \<noteq> - 1" using assms(2) by (rule u64_less_imp_ne_max)
  show "a \<le> s - 1" using assms(1) nz by (metis linorder_not_less u64_pred_less_iff)
  show "s - 1 < s" using nz u64_pred_less_iff by blast
  show "s < s + 1" using nm by (simp add: u64_less_suc_iff)
  show "s + 1 \<le> b" using assms(2) nm by (simp add: u64_suc_le_iff)
qed

lemma u64_le_pred_iff: "b \<noteq> 0 \<Longrightarrow> x \<le> b - 1 \<longleftrightarrow> x < (b :: u64)"
  by (metis linorder_not_less u64_pred_less_iff)

lemma u64_remove_first:
  assumes "a < (b :: u64)"
  shows "{a + 1..b} = {a..b} - {a}"
proof (rule set_eqI)
  fix x
  have "a + 1 \<le> x \<longleftrightarrow> a < x" using assms by (metis u64_suc_le_iff u64_less_imp_ne_max)
  then show "x \<in> {a + 1..b} \<longleftrightarrow> x \<in> {a..b} - {a}"
    by (simp only: atLeastAtMost_iff Diff_iff singleton_iff) (metis le_less less_irrefl)
qed

lemma u64_remove_last:
  assumes "a < (b :: u64)"
  shows "{a..b - 1} = {a..b} - {b}"
proof (rule set_eqI)
  fix x
  have "b \<noteq> 0" using assms by (metis word_not_simps(1))
  then have "x \<le> b - 1 \<longleftrightarrow> x < b" by (rule u64_le_pred_iff)
  then show "x \<in> {a..b - 1} \<longleftrightarrow> x \<in> {a..b} - {b}"
    by (simp only: atLeastAtMost_iff Diff_iff singleton_iff) (metis le_less less_irrefl)
qed

lemma linorder_mid_split:
  "a < s \<Longrightarrow> s < b \<Longrightarrow>
    (a \<le> x \<and> x < s \<or> s < x \<and> x \<le> b) \<longleftrightarrow> (a \<le> x \<and> x \<le> b) \<and> x \<noteq> (s :: 'a :: linorder)"
  by auto

lemma u64_remove_mid:
  assumes "a < s" and "s < (b :: u64)"
  shows "{a..s - 1} \<union> {s + 1..b} = {a..b} - {s}"
proof (rule set_eqI)
  fix x
  have "s \<noteq> 0" using assms(1) by (metis word_not_simps(1))
  then have "x \<le> s - 1 \<longleftrightarrow> x < s" by (rule u64_le_pred_iff)
  moreover have "s + 1 \<le> x \<longleftrightarrow> s < x"
    using assms(2) by (metis u64_suc_le_iff u64_less_imp_ne_max)
  ultimately show "x \<in> {a..s - 1} \<union> {s + 1..b} \<longleftrightarrow> x \<in> {a..b} - {s}"
    using linorder_mid_split [OF assms, of x]
    by (simp only: atLeastAtMost_iff Diff_iff Un_iff singleton_iff)
qed


lemma split_nth: "i < length ivs \<Longrightarrow> ivs = take i ivs @ ivs ! i # drop (Suc i) ivs"
  by (simp add: id_take_nth_drop)

lemma iv_not_in_others:
  assumes "ivs_ok (A @ iv # B)" and "s \<in> iv_set iv"
  shows "s \<notin> ivs_set A" and "s \<notin> ivs_set B"
  using assms by (auto simp: ivs_ok_simps iv_apart_def iv_set_def ivs_set_def)

text \<open>Cutting one number out of an interval leaves the list well formed.\<close>

lemma trim_first:
  assumes ok: "ivs_ok (A @ iv # B)" and lt: "iv_from iv < iv_to iv"
  defines "n \<equiv> iv\<lparr>iv_from := iv_from iv + 1\<rparr>"
  shows "ivs_ok (A @ [n] @ B)" and "ivs_set [n] = iv_set iv - {iv_from iv}"
proof -
  have nm: "iv_from iv \<noteq> - 1" using lt by (rule u64_less_imp_ne_max)
  then have "iv_from iv + 1 \<le> iv_to iv" and "iv_from iv < iv_from iv + 1"
    using lt by (simp_all add: u64_suc_le_iff u64_less_suc_iff)
  then show "ivs_ok (A @ [n] @ B)"
    using ok by (auto simp: n_def ivs_ok_simps iv_apart_def)
  show "ivs_set [n] = iv_set iv - {iv_from iv}"
    using u64_remove_first [OF lt] by (simp add: n_def iv_set_def)
qed

lemma trim_last:
  assumes ok: "ivs_ok (A @ iv # B)" and lt: "iv_from iv < iv_to iv"
  defines "n \<equiv> iv\<lparr>iv_to := iv_to iv - 1\<rparr>"
  shows "ivs_ok (A @ [n] @ B)" and "ivs_set [n] = iv_set iv - {iv_to iv}"
proof -
  have "iv_to iv \<noteq> 0" using lt by (metis word_not_simps(1))
  then have "iv_from iv \<le> iv_to iv - 1" and "iv_to iv - 1 < iv_to iv"
    using lt by (simp_all add: u64_le_pred_iff u64_pred_less_iff)
  then show "ivs_ok (A @ [n] @ B)"
    using ok by (auto simp: n_def ivs_ok_simps iv_apart_def)
  show "ivs_set [n] = iv_set iv - {iv_to iv}"
    using u64_remove_last [OF lt] by (simp add: n_def iv_set_def)
qed

lemma split_mid:
  assumes ok: "ivs_ok (A @ iv # B)" and lt: "iv_from iv < s" "s < iv_to iv"
  defines "L \<equiv> \<lparr>iv_from = iv_from iv, iv_to = s - 1\<rparr>" and "R \<equiv> \<lparr>iv_from = s + 1, iv_to = iv_to iv\<rparr>"
  shows "ivs_ok (A @ L # R # B)" and "iv_set L \<union> iv_set R = iv_set iv - {s}"
proof -
  show "ivs_ok (A @ L # R # B)"
    using ok u64_between [OF lt] by (auto simp: L_def R_def ivs_ok_simps iv_apart_def)
  show "iv_set L \<union> iv_set R = iv_set iv - {s}"
    using u64_remove_mid [OF lt] by (simp add: L_def R_def iv_set_def)
qed

text \<open>What \<open>Fill\<close> promises; the same shape as the promise of \<open>Add\<close>.\<close>

definition filled :: "GapSet \<Rightarrow> u64 \<Rightarrow> GapSet \<Rightarrow> bool" where
  "filled g s g' \<longleftrightarrow> gs_ok g' \<and> gs_maxIntervals g' = gs_maxIntervals g
     \<and> gs_set g - {s} \<subseteq> gs_set g'
     \<and> (\<forall>x \<in> gs_set g'. \<exists>y \<in> gs_set g. x \<le> y)
     \<and> (gs_truncated g \<longrightarrow> gs_truncated g')
     \<and> (\<not> gs_truncated g' \<longrightarrow> gs_set g' = gs_set g - {s})"

text \<open>Replacing the interval by at most one cannot hit the cap.\<close>

lemma filled_replace:
  assumes ok: "gs_ok g" and ivs: "gs_intervals g = A @ iv # B" and s: "s \<in> iv_set iv"
    and okN: "ivs_ok (A @ N @ B)" and lenN: "length N \<le> 1" and setN: "ivs_set N = iv_set iv - {s}"
  shows "filled g s (g\<lparr>gs_intervals := A @ N @ B\<rparr>)"
proof -
  have okivs: "ivs_ok (A @ iv # B)" using ok by (simp add: gs_ok_def ivs)
  have "gs_ok (g\<lparr>gs_intervals := A @ N @ B\<rparr>)" using ok okN lenN by (simp add: gs_ok_def ivs)
  moreover have "gs_set (g\<lparr>gs_intervals := A @ N @ B\<rparr>) = gs_set g - {s}"
    using iv_not_in_others [OF okivs s] by (auto simp: gs_set_def ivs setN)
  ultimately show ?thesis by (auto simp: filled_def)
qed

lemma filled_split:
  assumes ok: "gs_ok g" and ivs: "gs_intervals g = A @ iv # B"
    and s: "iv_from iv < s" "s < iv_to iv"
  shows "\<exists>g'. enforceCap (g\<lparr>gs_intervals := A @ \<lparr>iv_from = iv_from iv, iv_to = s - 1\<rparr>
      # \<lparr>iv_from = s + 1, iv_to = iv_to iv\<rparr> # B\<rparr>) = Some g' \<and> filled g s g'"
    (is "\<exists>g'. enforceCap ?h = Some g' \<and> _")
proof -
  have okivs: "ivs_ok (A @ iv # B)" using ok by (simp add: gs_ok_def ivs)
  have "s \<in> iv_set iv" using s by (simp add: iv_set_def less_imp_le)
  note notin = iv_not_in_others [OF okivs this]
  note sm = split_mid [OF okivs s]
  have set: "gs_set ?h = gs_set g - {s}" using notin sm(2) by (auto simp: gs_set_def ivs)
  have "ivs_ok (gs_intervals ?h)" using sm(1) by simp
  moreover have "0 < gs_maxIntervals ?h" using ok by (simp add: gs_ok_def)
  ultimately obtain g' where g': "enforceCap ?h = Some g'" "gs_ok g'"
      "gs_maxIntervals g' = gs_maxIntervals ?h" "gs_set ?h \<subseteq> gs_set g'"
      "\<forall>x \<in> gs_set g'. \<exists>y \<in> gs_set ?h. x \<le> y"
      "gs_truncated ?h \<longrightarrow> gs_truncated g'" "\<not> gs_truncated g' \<longrightarrow> gs_set g' = gs_set ?h"
    using enforceCap_spec [of ?h] by blast
  have "\<forall>x \<in> gs_set g'. \<exists>y \<in> gs_set g. x \<le> y" using g'(5) unfolding set by blast
  then have "filled g s g'" using g'(2-4,6,7) unfolding filled_def set by simp
  with g'(1) show ?thesis by blast
qed

lemma GapSet_Fill_spec:
  assumes ok: "gs_ok g"
  shows "\<exists>g'. GapSet_Fill g s = Some g' \<and> filled g s g'"
proof (cases "GapSet_find g s")
  case None
  then have "s \<notin> gs_set g" by (rule GapSet_find_None [OF ok])
  with None ok show ?thesis by (auto simp: GapSet_Fill_def filled_def)
next
  case (Some i)
  define A iv B where "A = take i (gs_intervals g)" and "iv = gs_intervals g ! i"
    and "B = drop (Suc i) (gs_intervals g)"
  note f = GapSet_find_Some [OF ok Some]
  have ivs: "gs_intervals g = A @ iv # B"
    unfolding A_def iv_def B_def by (rule split_nth [OF f(1)])
  have okivs: "ivs_ok (A @ iv # B)" using ok by (simp add: gs_ok_def ivs)
  have s: "s \<in> iv_set iv" using f(2) by (simp add: iv_def)
  have upd: "(gs_intervals g)[i := x] = A @ [x] @ B" for x
    using f(1) by (simp add: A_def B_def upd_conv_take_nth_drop)
  note fill = GapSet_Fill_def Let_def Some
  note rep = filled_replace [OF ok ivs s]
  consider (single) "iv_from iv = iv_to iv" | (first) "iv_from iv < iv_to iv" "s = iv_from iv"
    | (last) "iv_from iv < iv_to iv" "s = iv_to iv" | (mid) "iv_from iv < s" "s < iv_to iv"
    using s by (auto simp: iv_set_def le_less)
  then show ?thesis
  proof cases
    case single
    then have "filled g s (g\<lparr>gs_intervals := A @ [] @ B\<rparr>)"
      using rep [of "[]"] okivs s by (auto simp: iv_set_def ivs_ok_simps)
    then show ?thesis using single by (simp add: fill flip: iv_def A_def B_def)
  next
    case first
    have "GapSet_Fill g s = Some (g\<lparr>gs_intervals := A @ [iv\<lparr>iv_from := iv_from iv + 1\<rparr>] @ B\<rparr>)"
      using first(1) by (simp add: fill first(2) [symmetric] upd flip: iv_def)
    then show ?thesis
      using rep [OF trim_first(1) [OF okivs first(1)]] trim_first(2) [OF okivs first(1)] first(2)
      by simp
  next
    case last
    have "GapSet_Fill g s = Some (g\<lparr>gs_intervals := A @ [iv\<lparr>iv_to := iv_to iv - 1\<rparr>] @ B\<rparr>)"
      using last(1) by (simp add: fill last(2) [symmetric] upd flip: iv_def)
    then show ?thesis
      using rep [OF trim_last(1) [OF okivs last(1)]] trim_last(2) [OF okivs last(1)] last(2)
      by simp
  next
    case mid
    then have "iv_from iv \<noteq> iv_to iv" "s \<noteq> iv_from iv" "s \<noteq> iv_to iv" by auto
    then show ?thesis
      using filled_split [OF ok ivs mid] by (simp add: fill flip: iv_def A_def B_def)
  qed
qed


section \<open>Count\<close>

lemma unat_image_atLeastAtMost: "unat ` {a..b :: u64} = {unat a..unat b}"
proof (intro equalityI subsetI)
  fix n assume "n \<in> {unat a..unat b}"
  then have n: "unat a \<le> n" "n \<le> unat b" by auto
  have "unat b < 2 ^ LENGTH(64)" by (rule unsigned_less)
  with n(2) have "n < 2 ^ LENGTH(64)" by (rule le_less_trans)
  then have u: "unat (of_nat n :: u64) = n" by (simp add: unat_of_nat take_bit_eq_mod)
  then have "of_nat n \<in> {a..b}" using n by (simp only: atLeastAtMost_iff word_le_nat_alt)
  then show "n \<in> unat ` {a..b}" using u by (metis imageI)
qed (auto simp: word_le_nat_alt)

lemma card_u64_atLeastAtMost: "card {a..b :: u64} = Suc (unat b) - unat a"
proof -
  have "card {a..b} = card (unat ` {a..b})"
    by (rule card_image [symmetric]) (auto simp: inj_on_def word_unat_eq_iff)
  then show ?thesis by (simp add: unat_image_atLeastAtMost)
qed

lemma Interval_Count_card: "iv_from i \<le> iv_to i \<Longrightarrow> Interval_Count i = of_nat (card (iv_set i))"
  by (simp add: Interval_Count_def iv_set_def card_u64_atLeastAtMost word_le_nat_alt
      Suc_diff_le of_nat_diff)

lemma count_foldl:
  "ivs_ok ivs \<Longrightarrow>
    foldl (\<lambda>total i. total + Interval_Count i) n ivs = n + of_nat (card (ivs_set ivs))"
proof (induction ivs arbitrary: n)
  case Nil
  then show ?case by simp
next
  case (Cons i ivs)
  then have ok: "iv_from i \<le> iv_to i" "ivs_ok ivs" and apart: "\<forall>j \<in> set ivs. iv_apart i j"
    by (simp_all add: ivs_ok_Cons)
  have "iv_set i \<inter> ivs_set ivs = {}"
    using apart by (fastforce simp: iv_apart_def iv_set_def ivs_set_def)
  then have "card (ivs_set (i # ivs)) = card (iv_set i) + card (ivs_set ivs)"
    by (simp add: card_Un_disjoint)
  then show ?case using Cons.IH [OF ok(2)] ok(1) by (simp add: Interval_Count_card)
qed

lemma GapSet_Count_card: "gs_ok g \<Longrightarrow> GapSet_Count g = of_nat (card (gs_set g))"
  using count_foldl [of "gs_intervals g" 0] by (simp add: gs_ok_def GapSet_Count_def gs_set_def)

text \<open>The sum cannot wrap to 0 unless the whole sequence space is missing.\<close>

lemma GapSet_Count_eq_0:
  assumes ok: "gs_ok g" and top: "- 1 \<notin> gs_set g"
  shows "GapSet_Count g = 0 \<longleftrightarrow> gs_set g = {}"
proof -
  have "gs_set g \<subset> UNIV" using top by auto
  then have "card (gs_set g) < card (UNIV :: u64 set)" by (rule psubset_card_mono [rotated]) simp
  then have "card (gs_set g) < 2 ^ LENGTH(64)" by (simp add: card_word)
  then have "of_nat (card (gs_set g)) = (0 :: u64) \<longleftrightarrow> card (gs_set g) = 0"
    unfolding word_of_nat_eq_0_iff by (metis dvd_0_right gr0I nat_dvd_not_less)
  then show ?thesis using GapSet_Count_card [OF ok] by simp
qed

section \<open>The interface the tracker relies on\<close>

text \<open>
  What a store of missing sequence numbers promises its client: the operations do not fail,
  nothing recorded is ever lost except by \<open>fill\<close> and \<open>clear\<close>, and as long as the store is not
  truncated it is exact.
\<close>

locale gap_store =
  fixes add :: "'g \<Rightarrow> u64 \<Rightarrow> u64 \<Rightarrow> 'g option"
    and fill :: "'g \<Rightarrow> u64 \<Rightarrow> 'g option"
    and clear :: "'g \<Rightarrow> 'g"
    and contains :: "'g \<Rightarrow> u64 \<Rightarrow> bool"
    and truncated :: "'g \<Rightarrow> bool"
    and missing :: "'g \<Rightarrow> u64 set"
    and invar :: "'g \<Rightarrow> bool"
  assumes add_law: "invar g \<Longrightarrow> a \<le> b \<Longrightarrow> \<exists>g'. add g a b = Some g' \<and> invar g'
      \<and> missing g \<union> {a..b} \<subseteq> missing g'
      \<and> (\<forall>x \<in> missing g'. \<exists>y \<in> missing g \<union> {a..b}. x \<le> y)
      \<and> (truncated g \<longrightarrow> truncated g')
      \<and> (\<not> truncated g' \<longrightarrow> missing g' = missing g \<union> {a..b})"
    and fill_law: "invar g \<Longrightarrow> \<exists>g'. fill g s = Some g' \<and> invar g'
      \<and> missing g - {s} \<subseteq> missing g'
      \<and> (\<forall>x \<in> missing g'. \<exists>y \<in> missing g. x \<le> y)
      \<and> (truncated g \<longrightarrow> truncated g')
      \<and> (\<not> truncated g' \<longrightarrow> missing g' = missing g - {s})"
    and clear_law: "invar g \<Longrightarrow> invar (clear g) \<and> missing (clear g) = {} \<and> \<not> truncated (clear g)"
    and contains_law: "invar g \<Longrightarrow> contains g s \<longleftrightarrow> s \<in> missing g"

text \<open>
  The client's view of one publisher: of the sequence numbers from its baseline to its
  high-water mark, \<open>seen\<close> were accounted for. A store \<open>covers\<close> the view when every number that
  was not accounted for is recorded as missing and nothing above the high-water mark is; it is
  \<open>exact\<close> when it records precisely those.
\<close>

definition covers :: "u64 set \<Rightarrow> u64 \<Rightarrow> u64 \<Rightarrow> u64 set \<Rightarrow> bool" where
  "covers miss base hwm seen \<longleftrightarrow>
     base \<le> hwm \<and> hwm \<in> seen \<and> {base..hwm} - seen \<subseteq> miss
     \<and> (\<forall>x \<in> miss \<union> seen. x \<le> hwm)"

definition exact :: "u64 set \<Rightarrow> u64 \<Rightarrow> u64 \<Rightarrow> u64 set \<Rightarrow> bool" where
  "exact miss base hwm seen \<longleftrightarrow> miss = {base..hwm} - seen"

lemma linorder_skip_split:
  "base \<le> hwm \<Longrightarrow> hwm < s \<Longrightarrow> base \<le> x \<and> x \<le> s \<longleftrightarrow>
    (base \<le> x \<and> x \<le> hwm) \<or> (hwm < x \<and> x < s) \<or> x = (s :: 'a :: linorder)"
  by auto

lemma skip_range:
  assumes "base \<le> hwm" and "hwm < (s :: u64)"
  shows "{base..s} = {base..hwm} \<union> {hwm + 1..s - 1} \<union> {s}"
proof (rule set_eqI)
  fix x
  have "s \<noteq> 0" using assms(2) by (metis word_not_simps(1))
  then have "x \<le> s - 1 \<longleftrightarrow> x < s" by (rule u64_le_pred_iff)
  moreover have "hwm + 1 \<le> x \<longleftrightarrow> hwm < x"
    using assms(2) by (metis u64_suc_le_iff u64_less_imp_ne_max)
  ultimately show "x \<in> {base..s} \<longleftrightarrow> x \<in> {base..hwm} \<union> {hwm + 1..s - 1} \<union> {s}"
    using linorder_skip_split [OF assms, of x]
    by (simp only: atLeastAtMost_iff Un_iff singleton_iff) blast
qed

context gap_store
begin

text \<open>An event that skips ahead to \<open>s\<close>: the skipped range is added.\<close>

lemma covers_add:
  assumes inv: "invar g" and cov: "covers (missing g) base hwm seen"
    and hwm: "hwm < s" "hwm + 1 \<le> s - 1"
    and ex: "\<not> truncated g \<Longrightarrow> exact (missing g) base hwm seen"
  shows "\<exists>g'. add g (hwm + 1) (s - 1) = Some g' \<and> invar g'
    \<and> covers (missing g') base s (insert s seen)
    \<and> (\<not> truncated g' \<longrightarrow> exact (missing g') base s (insert s seen))"
proof -
  obtain g' where g': "add g (hwm + 1) (s - 1) = Some g'" "invar g'"
    "missing g \<union> {hwm + 1..s - 1} \<subseteq> missing g'"
    "\<forall>x \<in> missing g'. \<exists>y \<in> missing g \<union> {hwm + 1..s - 1}. x \<le> y"
    "truncated g \<longrightarrow> truncated g'"
    "\<not> truncated g' \<longrightarrow> missing g' = missing g \<union> {hwm + 1..s - 1}"
    using add_law [OF inv hwm(2)] by blast
  note split = skip_range [OF _ hwm(1), of base]
  have base: "base \<le> hwm" using cov by (simp add: covers_def)
  have below: "\<forall>x \<in> missing g \<union> {hwm + 1..s - 1}. x < s"
  proof
    fix x assume "x \<in> missing g \<union> {hwm + 1..s - 1}"
    then have "x \<le> hwm \<or> x \<le> s - 1" using cov by (auto simp: covers_def)
    moreover have "s - 1 < s" using hwm(1) u64_pred_less_iff by (metis order.refl word_not_simps(1))
    ultimately show "x < s" using hwm(1) by auto
  qed
  have "covers (missing g') base s (insert s seen)"
  proof -
    have "\<forall>x \<in> missing g'. x \<le> s" using g'(4) below by (meson le_less_trans less_imp_le)
    moreover have "{base..s} - insert s seen \<subseteq> missing g'"
      using g'(3) cov unfolding split [OF base] covers_def by blast
    moreover have "\<forall>x \<in> insert s seen. x \<le> s"
      using cov hwm(1) unfolding covers_def by (metis UnI2 insertE less_imp_le order.refl order.trans)
    moreover have "base \<le> s" using cov hwm(1) by (auto simp: covers_def)
    ultimately show ?thesis by (auto simp: covers_def)
  qed
  moreover have "\<not> truncated g' \<longrightarrow> exact (missing g') base s (insert s seen)"
  proof
    assume nt: "\<not> truncated g'"
    with g'(5) have "exact (missing g) base hwm seen" using ex by blast
    moreover have "\<not> x \<le> hwm" if "x \<in> {hwm + 1..s - 1}" for x
      using that hwm(1) by (metis atLeastAtMost_iff leD u64_less_imp_ne_max u64_suc_le_iff)
    then have "{hwm + 1..s - 1} \<inter> seen = {}" using cov unfolding covers_def by blast
    moreover have "s \<notin> missing g'" using g'(6) nt below by blast
    ultimately show "exact (missing g') base s (insert s seen)"
      using g'(6) nt unfolding exact_def split [OF base] by blast
  qed
  ultimately show ?thesis using g'(1,2) by blast
qed

text \<open>An event that fills a recorded hole.\<close>

lemma covers_fill:
  assumes inv: "invar g" and cov: "covers (missing g) base hwm seen" and s: "contains g s"
    and ex: "\<not> truncated g \<Longrightarrow> exact (missing g) base hwm seen"
  shows "\<exists>g'. fill g s = Some g' \<and> invar g' \<and> covers (missing g') base hwm (insert s seen)
    \<and> (\<not> truncated g' \<longrightarrow> exact (missing g') base hwm (insert s seen))"
proof -
  obtain g' where g': "fill g s = Some g'" "invar g'" "missing g - {s} \<subseteq> missing g'"
    "\<forall>x \<in> missing g'. \<exists>y \<in> missing g. x \<le> y" "truncated g \<longrightarrow> truncated g'"
    "\<not> truncated g' \<longrightarrow> missing g' = missing g - {s}"
    using fill_law [OF inv, of s] by blast
  have "s \<in> missing g" using s contains_law [OF inv] by simp
  then have "s \<le> hwm" using cov by (simp add: covers_def)
  moreover have "\<forall>x \<in> missing g'. x \<le> hwm"
    using g'(4) cov unfolding covers_def by (meson UnI1 order.trans)
  ultimately have "covers (missing g') base hwm (insert s seen)"
    using cov g'(3) unfolding covers_def by auto
  moreover have "\<not> truncated g' \<longrightarrow> exact (missing g') base hwm (insert s seen)"
    using g'(5,6) ex unfolding exact_def by blast
  ultimately show ?thesis using g'(1,2) by blast
qed

text \<open>After \<open>clear\<close> everything up to the high-water mark counts as accounted for.\<close>

lemma covers_clear:
  assumes "invar g" and "base \<le> hwm"
  shows "invar (clear g)" and "covers (missing (clear g)) base hwm {base..hwm}"
    and "exact (missing (clear g)) base hwm {base..hwm}" and "\<not> truncated (clear g)"
  using clear_law [OF assms(1)] assms(2) by (simp_all add: covers_def exact_def)

end

interpretation gapset: gap_store GapSet_Add GapSet_Fill GapSet_Clear GapSet_Contains gs_truncated gs_set gs_ok
proof
  fix g :: GapSet and a b s :: u64
  assume ok: "gs_ok g"
  show "gs_ok (GapSet_Clear g) \<and> gs_set (GapSet_Clear g) = {} \<and> \<not> gs_truncated (GapSet_Clear g)"
    using ok by (simp add: GapSet_Clear_def gs_ok_def gs_set_def)
  show "GapSet_Contains g s \<longleftrightarrow> s \<in> gs_set g" using ok by (rule GapSet_Contains_iff)
  show "\<exists>g'. GapSet_Fill g s = Some g' \<and> gs_ok g' \<and> gs_set g - {s} \<subseteq> gs_set g'
      \<and> (\<forall>x \<in> gs_set g'. \<exists>y \<in> gs_set g. x \<le> y) \<and> (gs_truncated g \<longrightarrow> gs_truncated g')
      \<and> (\<not> gs_truncated g' \<longrightarrow> gs_set g' = gs_set g - {s})"
    using GapSet_Fill_spec [OF ok, of s] unfolding filled_def by blast
  assume "a \<le> b"
  then show "\<exists>g'. GapSet_Add g a b = Some g' \<and> gs_ok g' \<and> gs_set g \<union> {a..b} \<subseteq> gs_set g'
      \<and> (\<forall>x \<in> gs_set g'. \<exists>y \<in> gs_set g \<union> {a..b}. x \<le> y) \<and> (gs_truncated g \<longrightarrow> gs_truncated g')
      \<and> (\<not> gs_truncated g' \<longrightarrow> gs_set g' = gs_set g \<union> {a..b})"
    using GapSet_Add_spec [OF ok] by blast
qed

end
