(* ===== verification/Event.thy ===== *)
theory Event
  imports DW_Prelude
begin

text \<open>
  \<open>pkg/event/event.go\<close>: the event record and its validation, the value type with its notion of
  equality (an empty member set equals an absent key, as in Redis), and the trust states.
  Enumerations are datatypes; a \<open>uint8\<close> outside the declared constants is the extra
  constructor, so that every \<open>default\<close> branch of the code is a case of the model.
\<close>

section \<open>Operations\<close>

datatype Op =
    OpUnknown | OpSet | OpDelete | OpAdd | OpRemove | OpIncr
  | OpSnapshotBegin | OpSnapshotEnd | OpHeartbeat | OpOther nat

fun TouchesKey :: "Op \<Rightarrow> bool" where
  "TouchesKey OpSet = True"
| "TouchesKey OpDelete = True"
| "TouchesKey OpAdd = True"
| "TouchesKey OpRemove = True"
| "TouchesKey OpIncr = True"
| "TouchesKey OpUnknown = False"
| "TouchesKey OpSnapshotBegin = False"
| "TouchesKey OpSnapshotEnd = False"
| "TouchesKey OpHeartbeat = False"
| "TouchesKey (OpOther n) = False"

section \<open>Events\<close>

text \<open>A nil slice or pointer is \<open>None\<close>.\<close>

record Event =
  ev_publisher :: string
  ev_epoch :: u64
  ev_seq :: u64
  ev_publishedAt :: time
  ev_observedAt :: time
  ev_topic :: string
  ev_op :: Op
  ev_key :: string
  ev_member :: string
  ev_value :: "bytes option"
  ev_delta :: i64
  ev_ttl :: "duration option"
  ev_raw :: "bytes option"

datatype EventError = ErrUnknownOp | ErrMissingField | ErrUnexpectedField | ErrInvalidField

definition Validate :: "Event \<Rightarrow> EventError option" where
  \<comment> \<open>\<open>None\<close> is the nil error\<close>
  "Validate e =
     (if ev_publisher e = [] then Some ErrMissingField
      else if (case ev_ttl e of None \<Rightarrow> False | Some d \<Rightarrow> d < 0) then Some ErrInvalidField
      else
        (case ev_op e of
           OpSet \<Rightarrow> if ev_value e = None then Some ErrMissingField else None
         | OpAdd \<Rightarrow> if ev_member e = [] then Some ErrMissingField else None
         | OpRemove \<Rightarrow> if ev_member e = [] then Some ErrMissingField else None
         | OpIncr \<Rightarrow> if ev_delta e = 0 then Some ErrMissingField else None
         | OpDelete \<Rightarrow> None
         | OpSnapshotBegin \<Rightarrow>
             if ev_key e \<noteq> [] then Some ErrUnexpectedField
             else if ev_member e \<noteq> [] then Some ErrUnexpectedField else None
         | OpSnapshotEnd \<Rightarrow>
             if ev_key e \<noteq> [] then Some ErrUnexpectedField
             else if ev_member e \<noteq> [] then Some ErrUnexpectedField else None
         | OpHeartbeat \<Rightarrow>
             if ev_key e \<noteq> [] then Some ErrUnexpectedField
             else if ev_member e \<noteq> [] then Some ErrUnexpectedField else None
         | OpUnknown \<Rightarrow> Some ErrUnknownOp
         | OpOther n \<Rightarrow> Some ErrUnknownOp))"

record Fingerprint =
  fp_publisher :: string
  fp_epoch :: u64
  fp_seq :: u64

definition Event_Fingerprint :: "Event \<Rightarrow> Fingerprint" where
  "Event_Fingerprint e =
     \<lparr>fp_publisher = ev_publisher e, fp_epoch = ev_epoch e, fp_seq = ev_seq e\<rparr>"

section \<open>Values\<close>

datatype ValueKind = ValueAbsent | ValueScalar | ValueSet | ValueCounter | ValueKindOther nat

record Value =
  v_kind :: ValueKind
  v_scalar :: bytes
  v_members :: "string go_set"
  v_counter :: i64

text \<open>\<open>event.Value{}\<close>.\<close>

definition zero_Value :: Value where
  "zero_Value = \<lparr>v_kind = ValueAbsent, v_scalar = [], v_members = [], v_counter = 0\<rparr>"

fun IsAbsent_kind :: "ValueKind \<Rightarrow> string go_set \<Rightarrow> bool" where
  "IsAbsent_kind ValueAbsent ms = True"
| "IsAbsent_kind ValueSet ms = (length ms = 0)"
| "IsAbsent_kind ValueScalar ms = False"
| "IsAbsent_kind ValueCounter ms = False"
| "IsAbsent_kind (ValueKindOther n) ms = False"

definition IsAbsent :: "Value \<Rightarrow> bool" where
  "IsAbsent v = IsAbsent_kind (v_kind v) (v_members v)"

definition Value_Equal :: "Value \<Rightarrow> Value \<Rightarrow> bool" where
  "Value_Equal v other =
     (if IsAbsent v \<or> IsAbsent other then IsAbsent v \<and> IsAbsent other
      else if v_kind v \<noteq> v_kind other then False
      else
        (case v_kind v of
           ValueScalar \<Rightarrow> v_scalar v = v_scalar other
         | ValueSet \<Rightarrow> set_eq (v_members v) (v_members other)
         | ValueCounter \<Rightarrow> v_counter v = v_counter other
         | ValueAbsent \<Rightarrow> False
         | ValueKindOther n \<Rightarrow> False))"

definition Value_Clone :: "Value \<Rightarrow> Value" where
  "Value_Clone v =
     \<lparr>v_kind = v_kind v, v_scalar = v_scalar v, v_members = v_members v, v_counter = v_counter v\<rparr>"

section \<open>Trust\<close>

datatype TrustState = TrustComplete | TrustSuspect | TrustAdopted

section \<open>What a value looks like from the store\<close>

text \<open>A value is well formed when its kind is one of the declared ones and its member map has
  no key twice.\<close>

definition wf_value :: "Value \<Rightarrow> bool" where
  "wf_value v \<longleftrightarrow> (\<forall>n. v_kind v \<noteq> ValueKindOther n) \<and> wf_set (v_members v)"

text \<open>The abstract state of a key in the store.\<close>

datatype obs = ONone | OScalar bytes | OSet "string set" | OCounter i64

fun obs_kind :: "ValueKind \<Rightarrow> Value \<Rightarrow> obs" where
  "obs_kind ValueAbsent v = ONone"
| "obs_kind ValueScalar v = OScalar (v_scalar v)"
| "obs_kind ValueSet v = (if v_members v = [] then ONone else OSet (set (v_members v)))"
| "obs_kind ValueCounter v = OCounter (v_counter v)"
| "obs_kind (ValueKindOther n) v = ONone"

definition obs_of :: "Value \<Rightarrow> obs" where
  "obs_of v = obs_kind (v_kind v) v"

lemma Value_Clone_id [simp]: "Value_Clone v = v"
  by (simp add: Value_Clone_def)

lemma IsAbsent_zero [simp]: "IsAbsent zero_Value"
  by (simp add: IsAbsent_def zero_Value_def)

lemma wf_zero_Value [simp]: "wf_value zero_Value"
  by (simp add: wf_value_def zero_Value_def)

lemma IsAbsent_iff_obs: "wf_value v \<Longrightarrow> IsAbsent v \<longleftrightarrow> obs_of v = ONone"
  by (cases "v_kind v") (auto simp: IsAbsent_def obs_of_def wf_value_def)

lemma Value_Equal_iff_obs:
  assumes "wf_value v" and "wf_value w"
  shows "Value_Equal v w \<longleftrightarrow> obs_of v = obs_of w"
proof (cases "IsAbsent v \<or> IsAbsent w")
  case True
  then show ?thesis using assms by (auto simp: Value_Equal_def IsAbsent_iff_obs)
next
  case False
  then show ?thesis
    using assms
    by (cases "v_kind v"; cases "v_kind w")
      (auto simp: Value_Equal_def obs_of_def IsAbsent_def wf_value_def set_eq_iff_set)
qed

lemma Value_Equal_refl: "wf_value v \<Longrightarrow> Value_Equal v v"
  by (simp add: Value_Equal_iff_obs)

lemma Value_Equal_sym: "wf_value v \<Longrightarrow> wf_value w \<Longrightarrow> Value_Equal v w \<Longrightarrow> Value_Equal w v"
  by (simp add: Value_Equal_iff_obs)

lemma Value_Equal_trans:
  "wf_value u \<Longrightarrow> wf_value v \<Longrightarrow> wf_value w \<Longrightarrow> Value_Equal u v \<Longrightarrow> Value_Equal v w \<Longrightarrow> Value_Equal u w"
  by (simp add: Value_Equal_iff_obs)

section \<open>Validation\<close>

lemma Validate_None_publisher: "Validate e = None \<Longrightarrow> ev_publisher e \<noteq> []"
  by (auto simp: Validate_def split: if_splits)

section \<open>A sample event\<close>

text \<open>The events that the witnesses of several components use.\<close>

definition sample_event :: "string \<Rightarrow> u64 \<Rightarrow> Event" where
  "sample_event p s =
     \<lparr>ev_publisher = p, ev_epoch = 1, ev_seq = s, ev_publishedAt = 0, ev_observedAt = 0,
      ev_topic = [], ev_op = OpHeartbeat, ev_key = [], ev_member = [], ev_value = None,
      ev_delta = 0, ev_ttl = None, ev_raw = None\<rparr>"

end
