(* ===== verification/SeqTrack.thy ===== *)
theory SeqTrack
  imports GapSet Event
begin

text \<open>
  \<open>pkg/seqtrack/seqtrack.go\<close>: the per-publisher sequence tracker. Its state is a map from
  publisher to \<open>PublisherState\<close>; \<open>Observe\<close> classifies one event against it. The reading of the
  injected clock is the argument \<open>now\<close>; \<open>None\<close> is a panic inside the gap set.
\<close>

section \<open>State and operations\<close>

datatype Verdict =
    Accept | AcceptWithGap | AcceptLateFill | AcceptAfterRestart | AcceptFirstSeen
  | DropDuplicate | DropStaleEpoch | VerdictOther nat

fun Accepted :: "Verdict \<Rightarrow> bool" where
  "Accepted Accept = True"
| "Accepted AcceptWithGap = True"
| "Accepted AcceptLateFill = True"
| "Accepted AcceptAfterRestart = True"
| "Accepted AcceptFirstSeen = True"
| "Accepted DropDuplicate = False"
| "Accepted DropStaleEpoch = False"
| "Accepted (VerdictOther n) = False"

record Gap =
  gap_publisher :: string
  gap_epoch :: u64
  gap_from :: u64
  gap_to :: u64
  gap_detectedAt :: time

record PublisherState =
  ps_id :: string
  ps_epoch :: u64
  ps_incarnation :: u64
  ps_hwm :: u64
  ps_gaps :: GapSet
  ps_firstSeen :: time
  ps_lastSeen :: time
  ps_eventCount :: u64
  ps_restartCount :: u64
  ps_bootstrap :: bool

record TrackerConfig =
  tc_maxPublishers :: int
  tc_maxGapIntervals :: int
  tc_implicitRestartDelta :: u64
  tc_implicitRestartCeiling :: u64

record Tracker =
  tr_cfg :: TrackerConfig
  tr_pubs :: "(string, PublisherState) go_map"
  tr_evictions :: u64

definition tracker_applyDefaults :: "TrackerConfig \<Rightarrow> TrackerConfig" where
  "tracker_applyDefaults c =
     \<lparr>tc_maxPublishers = (if tc_maxPublishers c \<le> 0 then 1024 else tc_maxPublishers c),
      tc_maxGapIntervals =
        (if tc_maxGapIntervals c \<le> 0 then defaultMaxIntervals else tc_maxGapIntervals c),
      tc_implicitRestartDelta =
        (if tc_implicitRestartDelta c = 0 then 1000 else tc_implicitRestartDelta c),
      tc_implicitRestartCeiling =
        (if tc_implicitRestartCeiling c = 0 then 100 else tc_implicitRestartCeiling c)\<rparr>"

definition Tracker_New :: "TrackerConfig \<Rightarrow> Tracker" where
  "Tracker_New cfg = \<lparr>tr_cfg = tracker_applyDefaults cfg, tr_pubs = [], tr_evictions = 0\<rparr>"

definition isImplicitRestart :: "TrackerConfig \<Rightarrow> PublisherState \<Rightarrow> u64 \<Rightarrow> bool" where
  "isImplicitRestart cfg st seq \<longleftrightarrow>
     seq < ps_hwm st \<and> tc_implicitRestartDelta cfg < ps_hwm st - seq
     \<and> seq < tc_implicitRestartCeiling cfg"

text \<open>The scan of \<open>evictOldestLocked\<close> over the publishers, in iteration order.\<close>

fun oldest_scan :: "(string, PublisherState) go_map \<Rightarrow> string \<Rightarrow> time \<Rightarrow> string" where
  "oldest_scan [] oldestID oldestAt = oldestID"
| "oldest_scan ((pid, st) # rest) oldestID oldestAt =
     (if oldestID = [] \<or> ps_lastSeen st < oldestAt
         \<or> (ps_lastSeen st = oldestAt \<and> pid < oldestID)
      then oldest_scan rest pid (ps_lastSeen st)
      else oldest_scan rest oldestID oldestAt)"

definition evictOldestLocked :: "Tracker \<Rightarrow> Tracker" where
  "evictOldestLocked t =
     (let oldestID = oldest_scan (tr_pubs t) [] 0
      in if oldestID \<noteq> []
         then t\<lparr>tr_pubs := map_del oldestID (tr_pubs t), tr_evictions := tr_evictions t + 1\<rparr>
         else t)"

definition admitLocked :: "Tracker \<Rightarrow> Event \<Rightarrow> time \<Rightarrow> Tracker" where
  "admitLocked t e now =
     (let t' = (if tc_maxPublishers (tr_cfg t) \<le> int (length (tr_pubs t))
                then evictOldestLocked t else t);
          st = \<lparr>ps_id = ev_publisher e, ps_epoch = ev_epoch e, ps_incarnation = 0,
                ps_hwm = ev_seq e, ps_gaps = NewGapSet (tc_maxGapIntervals (tr_cfg t)),
                ps_firstSeen = now, ps_lastSeen = now, ps_eventCount = 1,
                ps_restartCount = 0, ps_bootstrap = True\<rparr>
      in t'\<lparr>tr_pubs := map_put (ev_publisher e) st (tr_pubs t')\<rparr>)"

text \<open>The part of \<open>Observe\<close> after the publisher was found: the state's update and the verdict.\<close>

definition Observe_known ::
    "TrackerConfig \<Rightarrow> PublisherState \<Rightarrow> Event \<Rightarrow> time
      \<Rightarrow> (PublisherState \<times> Verdict \<times> Gap option) option" where
  "Observe_known cfg st0 e now =
     (let st = st0\<lparr>ps_lastSeen := now\<rparr>
      in if ps_epoch st < ev_epoch e then
           Some (st\<lparr>ps_epoch := ev_epoch e, ps_hwm := ev_seq e,
                    ps_gaps := GapSet_Clear (ps_gaps st),
                    ps_restartCount := ps_restartCount st + 1,
                    ps_eventCount := ps_eventCount st + 1\<rparr>, AcceptAfterRestart, None)
         else if ev_epoch e < ps_epoch st then Some (st, DropStaleEpoch, None)
         else if ps_hwm st \<noteq> - 1 \<and> ev_seq e = ps_hwm st + 1 then
           Some (st\<lparr>ps_hwm := ev_seq e, ps_eventCount := ps_eventCount st + 1\<rparr>, Accept, None)
         else if ps_hwm st + 1 < ev_seq e then
           let gap = \<lparr>gap_publisher = ev_publisher e, gap_epoch = ps_epoch st,
                      gap_from = ps_hwm st + 1, gap_to = ev_seq e - 1, gap_detectedAt = now\<rparr>
           in (case GapSet_Add (ps_gaps st) (gap_from gap) (gap_to gap) of
                 None \<Rightarrow> None
               | Some gaps \<Rightarrow>
                   Some (st\<lparr>ps_gaps := gaps, ps_hwm := ev_seq e,
                            ps_eventCount := ps_eventCount st + 1\<rparr>, AcceptWithGap, Some gap))
         else if isImplicitRestart cfg st (ev_seq e) then
           Some (st\<lparr>ps_hwm := ev_seq e, ps_gaps := GapSet_Clear (ps_gaps st),
                    ps_incarnation := ps_incarnation st + 1,
                    ps_restartCount := ps_restartCount st + 1,
                    ps_eventCount := ps_eventCount st + 1\<rparr>, AcceptAfterRestart, None)
         else if GapSet_Contains (ps_gaps st) (ev_seq e) then
           (case GapSet_Fill (ps_gaps st) (ev_seq e) of
              None \<Rightarrow> None
            | Some gaps \<Rightarrow>
                Some (st\<lparr>ps_gaps := gaps, ps_eventCount := ps_eventCount st + 1\<rparr>,
                      AcceptLateFill, None))
         else Some (st, DropDuplicate, None))"

definition Observe :: "Tracker \<Rightarrow> Event \<Rightarrow> time \<Rightarrow> (Tracker \<times> Verdict \<times> Gap option) option" where
  "Observe t e now =
     (case map_get (tr_pubs t) (ev_publisher e) of
        None \<Rightarrow> Some (admitLocked t e now, AcceptFirstSeen, None)
      | Some st \<Rightarrow>
          (case Observe_known (tr_cfg t) st e now of
             None \<Rightarrow> None
           | Some (st', v, gap) \<Rightarrow>
               Some (t\<lparr>tr_pubs := map_put (ev_publisher e) st' (tr_pubs t)\<rparr>, v, gap)))"

definition Tracker_Trust :: "Tracker \<Rightarrow> string \<Rightarrow> TrustState" where
  "Tracker_Trust t publisher =
     (case map_get (tr_pubs t) publisher of
        None \<Rightarrow> TrustComplete
      | Some st \<Rightarrow>
          if 0 < GapSet_Count (ps_gaps st) \<or> gs_truncated (ps_gaps st) then TrustSuspect
          else TrustComplete)"

definition ClearGaps :: "Tracker \<Rightarrow> string \<Rightarrow> Tracker" where
  "ClearGaps t publisher =
     (case map_get (tr_pubs t) publisher of
        None \<Rightarrow> t
      | Some st \<Rightarrow>
          t\<lparr>tr_pubs := map_put publisher (st\<lparr>ps_gaps := GapSet_Clear (ps_gaps st)\<rparr>) (tr_pubs t)\<rparr>)"

definition Tracker_Reset :: "Tracker \<Rightarrow> Tracker" where
  "Tracker_Reset t = t\<lparr>tr_pubs := []\<rparr>"

text \<open>\<open>Publishers\<close>: the states, sorted by id.\<close>

definition Tracker_Publishers :: "Tracker \<Rightarrow> PublisherState list" where
  "Tracker_Publishers t = sort_key ps_id (map snd (tr_pubs t))"

section \<open>The ledger of one publisher\<close>

text \<open>
  A ledger is the specification's view of a publisher's current incarnation: the baseline it
  was adopted at and the set of sequence numbers whose events were let through. \<open>account\<close> is
  what one verdict does to it; the specification never looks at the gap set.
\<close>

type_synonym ledger = "u64 \<times> u64 set"

fun account :: "Verdict \<Rightarrow> u64 \<Rightarrow> ledger \<Rightarrow> ledger" where
  "account AcceptFirstSeen s l = (s, {s})"
| "account AcceptAfterRestart s l = (s, {s})"
| "account Accept s (base, seen) = (base, insert s seen)"
| "account AcceptWithGap s (base, seen) = (base, insert s seen)"
| "account AcceptLateFill s (base, seen) = (base, insert s seen)"
| "account DropDuplicate s l = l"
| "account DropStaleEpoch s l = l"
| "account (VerdictOther n) s l = l"

definition ps_view :: "PublisherState \<Rightarrow> ledger \<Rightarrow> bool" where
  "ps_view st l \<longleftrightarrow> gs_ok (ps_gaps st) \<and> ps_hwm st \<noteq> - 1
     \<and> covers (gs_set (ps_gaps st)) (fst l) (ps_hwm st) (snd l)
     \<and> (\<not> gs_truncated (ps_gaps st) \<longrightarrow> exact (gs_set (ps_gaps st)) (fst l) (ps_hwm st) (snd l))"

lemma ps_view_seen_le: "ps_view st l \<Longrightarrow> x \<in> snd l \<Longrightarrow> x \<le> ps_hwm st"
  by (simp add: ps_view_def covers_def)

lemma gs_ok_New [simp, wf_intros]: "gs_ok (NewGapSet m)"
  by (simp add: NewGapSet_def gs_ok_def defaultMaxIntervals_def Let_def)

lemma gs_set_New [simp]: "gs_set (NewGapSet m) = {}"
  by (simp add: NewGapSet_def gs_set_def Let_def)

lemma covers_start: "covers {} s s {s}" and exact_start: "exact {} s s {s}"
  by (simp_all add: covers_def exact_def)

lemma linorder_next_split:
  "base \<le> hwm \<Longrightarrow> hwm < h \<Longrightarrow> (x < h \<longleftrightarrow> x \<le> hwm) \<Longrightarrow>
    base \<le> x \<and> x \<le> h \<longleftrightarrow> x = h \<or> base \<le> x \<and> x \<le> (hwm :: 'a :: linorder)"
  by auto

lemma next_range:
  assumes "base \<le> hwm" and "hwm \<noteq> (- 1 :: u64)"
  shows "{base..hwm + 1} = insert (hwm + 1) {base..hwm}"
proof (rule set_eqI)
  fix x
  have "hwm < hwm + 1" using u64_less_suc_iff [OF assms(2), of hwm] by simp
  from linorder_next_split [OF assms(1) this u64_less_suc_iff [OF assms(2)]]
  show "x \<in> {base..hwm + 1} \<longleftrightarrow> x \<in> insert (hwm + 1) {base..hwm}"
    unfolding atLeastAtMost_iff insert_iff .
qed

lemma ball_le_insert:
  "\<forall>x \<in> A \<union> B. x \<le> a \<Longrightarrow> a < h \<Longrightarrow> \<forall>x \<in> A \<union> insert h B. x \<le> (h :: 'a :: order)"
  by (auto intro: less_imp_le order.strict_trans1)

lemma covers_next:
  assumes cov: "covers m base hwm seen" and nm: "hwm \<noteq> - 1"
  shows "covers m base (hwm + 1) (insert (hwm + 1) seen)"
    and "exact m base hwm seen \<Longrightarrow> exact m base (hwm + 1) (insert (hwm + 1) seen)"
proof -
  have base: "base \<le> hwm" using cov by (simp add: covers_def)
  note split = next_range [OF base nm]
  have lt: "hwm < hwm + 1" using u64_less_suc_iff [OF nm, of hwm] by simp
  have le: "\<forall>x \<in> m \<union> seen. x \<le> hwm" using cov by (simp add: covers_def)
  then have "\<forall>x \<in> m \<union> insert (hwm + 1) seen. x \<le> hwm + 1"
    using lt by (rule ball_le_insert)
  then show "covers m base (hwm + 1) (insert (hwm + 1) seen)"
    using cov lt base unfolding covers_def split by auto
  assume "exact m base hwm seen"
  moreover have "hwm + 1 \<notin> m" using le lt by (metis UnI1 leD)
  ultimately show "exact m base (hwm + 1) (insert (hwm + 1) seen)"
    unfolding exact_def split by auto
qed

text \<open>Every branch of \<open>Observe\<close> for a known publisher returns and keeps the view.\<close>

lemma ps_view_restart:
  "ps_view st l \<Longrightarrow> s \<noteq> - 1 \<Longrightarrow> ps_hwm st' = s \<Longrightarrow> ps_gaps st' = GapSet_Clear (ps_gaps st) \<Longrightarrow>
    ps_view st' (s, {s})"
  using gapset.clear_law [of "ps_gaps st"] by (simp add: ps_view_def covers_start exact_start)

lemma ps_view_next:
  "ps_view st (b, seen) \<Longrightarrow> s = ps_hwm st + 1 \<Longrightarrow> s \<noteq> - 1 \<Longrightarrow> ps_hwm st' = s \<Longrightarrow>
    ps_gaps st' = ps_gaps st \<Longrightarrow> ps_view st' (b, insert s seen)"
  using covers_next [of "gs_set (ps_gaps st)" b "ps_hwm st" seen] by (auto simp: ps_view_def)

lemma skip_ahead:
  assumes "hwm \<noteq> - 1" and "hwm + 1 < (s :: u64)"
  shows "hwm < s" and "hwm + 1 \<le> s - 1"
proof -
  show "hwm < s" using assms by (metis less_imp_le u64_suc_le_iff)
  have "s \<noteq> 0" using assms(2) by (metis word_not_simps(1))
  then show "hwm + 1 \<le> s - 1" using assms(2) by (simp add: u64_le_pred_iff)
qed

lemma ps_view_gap:
  assumes view: "ps_view st (b, seen)" and s: "ps_hwm st + 1 < s" "s \<noteq> - 1"
  shows "\<exists>g. GapSet_Add (ps_gaps st) (ps_hwm st + 1) (s - 1) = Some g
    \<and> (\<forall>st'. ps_gaps st' = g \<longrightarrow> ps_hwm st' = s \<longrightarrow> ps_view st' (b, insert s seen))"
proof -
  have "ps_hwm st \<noteq> - 1" using view by (simp add: ps_view_def)
  note sk = skip_ahead [OF this s(1)]
  show ?thesis
    using gapset.covers_add [of "ps_gaps st" b "ps_hwm st" seen s, OF _ _ sk] view s(2)
    by (fastforce simp: ps_view_def)
qed

lemma ps_view_fill:
  assumes view: "ps_view st (b, seen)" and s: "GapSet_Contains (ps_gaps st) s"
  shows "\<exists>g. GapSet_Fill (ps_gaps st) s = Some g
    \<and> (\<forall>st'. ps_gaps st' = g \<longrightarrow> ps_hwm st' = ps_hwm st \<longrightarrow> ps_view st' (b, insert s seen))"
  using gapset.covers_fill [of "ps_gaps st" b "ps_hwm st" seen s] view s
  by (fastforce simp: ps_view_def)

lemma ps_view_same:
  "ps_view st l \<Longrightarrow> ps_hwm st' = ps_hwm st \<Longrightarrow> ps_gaps st' = ps_gaps st \<Longrightarrow> ps_view st' l"
  by (simp add: ps_view_def)

lemma Observe_known_view:
  assumes view: "ps_view st l" and seq: "ev_seq e \<noteq> - 1"
  shows "\<exists>st' v gap. Observe_known cfg st e now = Some (st', v, gap)
    \<and> ps_view st' (account v (ev_seq e) l) \<and> ps_id st' = ps_id st \<and> ps_lastSeen st' = now"
proof (cases l)
  case l: (Pair b seen)
  note view = view [unfolded l]
  have nm: "ps_hwm st \<noteq> - 1" using view by (simp add: ps_view_def)
  note restart = ps_view_restart [OF view seq]
  show ?thesis
  proof (cases "ps_epoch st < ev_epoch e \<or> ev_epoch e < ps_epoch st")
    case True
    then show ?thesis
      using restart ps_view_same [OF view] l by (auto simp: Observe_known_def Let_def)
  next
    case same: False
    consider (succ) "ev_seq e = ps_hwm st + 1"
      | (gap) "ps_hwm st + 1 < ev_seq e"
      | (restart) "\<not> ps_hwm st + 1 \<le> ev_seq e" "isImplicitRestart cfg (st\<lparr>ps_lastSeen := now\<rparr>) (ev_seq e)"
      | (fill) "\<not> ps_hwm st + 1 \<le> ev_seq e" "\<not> isImplicitRestart cfg (st\<lparr>ps_lastSeen := now\<rparr>) (ev_seq e)"
          "GapSet_Contains (ps_gaps st) (ev_seq e)"
      | (dup) "\<not> ps_hwm st + 1 \<le> ev_seq e" "\<not> isImplicitRestart cfg (st\<lparr>ps_lastSeen := now\<rparr>) (ev_seq e)"
          "\<not> GapSet_Contains (ps_gaps st) (ev_seq e)"
      by force
    then show ?thesis
    proof cases
      case succ
      then show ?thesis
        using same nm ps_view_next [OF view succ seq] l by (auto simp: Observe_known_def Let_def)
    next
      case gap
      then show ?thesis
        using same ps_view_gap [OF view gap seq] l by (auto simp: Observe_known_def Let_def)
    next
      case restart
      then show ?thesis
        using same ps_view_restart [OF view seq] l by (auto simp: Observe_known_def Let_def)
    next
      case fill
      then show ?thesis
        using same ps_view_fill [OF view fill(3)] l by (auto simp: Observe_known_def Let_def)
    next
      case dup
      then show ?thesis
        using same ps_view_same [OF view] l by (auto simp: Observe_known_def Let_def)
    qed
  qed
qed

section \<open>The tracker against its ledgers\<close>

definition tr_view :: "Tracker \<Rightarrow> (string \<Rightarrow> ledger) \<Rightarrow> bool" where
  "tr_view t L \<longleftrightarrow> wf_map (tr_pubs t)
     \<and> (\<forall>p st. map_get (tr_pubs t) p = Some st \<longrightarrow> ps_view st (L p) \<and> ps_id st = p \<and> p \<noteq> [])"

lemma tr_viewD:
  "tr_view t L \<Longrightarrow> map_get (tr_pubs t) p = Some st \<Longrightarrow> ps_view st (L p) \<and> ps_id st = p \<and> p \<noteq> []"
  by (simp add: tr_view_def)

lemma tr_view_put:
  assumes "tr_view t L" and "ps_view st l" and "ps_id st = p" and "p \<noteq> []"
  shows "tr_view (t\<lparr>tr_pubs := map_put p st (tr_pubs t)\<rparr>) (L(p := l))"
  using assms by (simp add: tr_view_def wf_map_put)

lemma tr_view_del: "tr_view t L \<Longrightarrow> tr_view (t\<lparr>tr_pubs := map_del p (tr_pubs t), tr_evictions := n\<rparr>) L"
  by (simp add: tr_view_def wf_map_del)

lemma tr_view_evict: "tr_view t L \<Longrightarrow> tr_view (evictOldestLocked t) L"
  by (simp add: evictOldestLocked_def Let_def tr_view_del)

lemma evict_cfg [simp]: "tr_cfg (evictOldestLocked t) = tr_cfg t"
  by (simp add: evictOldestLocked_def Let_def)

lemma admitLocked_cfg [simp]: "tr_cfg (admitLocked t e now) = tr_cfg t"
  by (simp add: admitLocked_def Let_def)

lemma tr_view_admit:
  assumes view: "tr_view t L" and seq: "ev_seq e \<noteq> - 1" and pub: "ev_publisher e \<noteq> []"
  shows "tr_view (admitLocked t e now) (L(ev_publisher e := (ev_seq e, {ev_seq e})))"
proof -
  have "tr_view (if tc_maxPublishers (tr_cfg t) \<le> int (length (tr_pubs t))
      then evictOldestLocked t else t) L"
    using view by (simp add: tr_view_evict)
  then show ?thesis
    unfolding admitLocked_def Let_def
    by (rule tr_view_put) (use seq pub in \<open>simp_all add: ps_view_def covers_start exact_start\<close>)
qed

lemma Observe_view:
  assumes view: "tr_view t L" and seq: "ev_seq e \<noteq> - 1" and pub: "ev_publisher e \<noteq> []"
  shows "\<exists>t' v gap. Observe t e now = Some (t', v, gap) \<and> tr_cfg t' = tr_cfg t
    \<and> tr_view t' (L(ev_publisher e := account v (ev_seq e) (L (ev_publisher e))))"
proof (cases "map_get (tr_pubs t) (ev_publisher e)")
  case None
  then show ?thesis using tr_view_admit [OF assms] by (simp add: Observe_def)
next
  case (Some st)
  note st = tr_viewD [OF view Some]
  then obtain st' v gap where o: "Observe_known (tr_cfg t) st e now = Some (st', v, gap)"
    "ps_view st' (account v (ev_seq e) (L (ev_publisher e)))" "ps_id st' = ps_id st"
    using Observe_known_view [OF _ seq] by blast
  then show ?thesis
    using Some tr_view_put [OF view o(2)] st by (simp add: Observe_def)
qed

lemma Observe_viewD:
  assumes "tr_view t L" and "Validate e = None" and "ev_seq e \<noteq> - 1"
    and "Observe t e now = Some (t', v, gap)"
  shows "tr_cfg t' = tr_cfg t"
    and "tr_view t' (L(ev_publisher e := account v (ev_seq e) (L (ev_publisher e))))"
  using Observe_view [OF assms(1,3) Validate_None_publisher [OF assms(2)], of now] assms(4) by simp_all

lemma ps_view_clear:
  assumes "ps_view st l"
  shows "ps_view (st\<lparr>ps_gaps := GapSet_Clear (ps_gaps st)\<rparr>) (fst l, {fst l..ps_hwm st})"
  using gapset.covers_clear [of "ps_gaps st" "fst l" "ps_hwm st"] assms
  by (auto simp: ps_view_def covers_def exact_def)

text \<open>
  The runs of a tracker over validated events. \<open>MaxUint64\<close> is left out: see
  \<open>Observe_top_wraps\<close> for what happens there. \<open>ClearGaps\<close> is the end of a snapshot, after which
  everything up to the high-water mark is accounted for.
\<close>

inductive tracked :: "TrackerConfig \<Rightarrow> Tracker \<Rightarrow> (string \<Rightarrow> ledger) \<Rightarrow> bool" for cfg where
  start: "tracked cfg (Tracker_New cfg) L"
| observe: "tracked cfg t L \<Longrightarrow> Validate e = None \<Longrightarrow> ev_seq e \<noteq> - 1 \<Longrightarrow>
    Observe t e now = Some (t', v, gap) \<Longrightarrow>
    tracked cfg t' (L(ev_publisher e := account v (ev_seq e) (L (ev_publisher e))))"
| snapshot: "tracked cfg t L \<Longrightarrow> map_get (tr_pubs t) p = Some st \<Longrightarrow>
    tracked cfg (ClearGaps t p) (L(p := (fst (L p), {fst (L p)..ps_hwm st})))"
| reset: "tracked cfg t L \<Longrightarrow> tracked cfg (Tracker_Reset t) L"

lemma tracked_view: "tracked cfg t L \<Longrightarrow> tr_view t L"
proof (induction rule: tracked.induct)
  case (start L)
  then show ?case by (simp add: tr_view_def Tracker_New_def)
next
  case (observe t L e now t' v gap)
  show ?case by (rule Observe_viewD(2) [OF observe.IH observe.hyps(2-4)])
next
  case (snapshot t L p st)
  note st = tr_viewD [OF snapshot.IH snapshot.hyps(2)]
  have eq: "ClearGaps t p = t\<lparr>tr_pubs := map_put p (st\<lparr>ps_gaps := GapSet_Clear (ps_gaps st)\<rparr>) (tr_pubs t)\<rparr>"
    using snapshot.hyps(2) by (simp add: ClearGaps_def)
  show ?case
    unfolding eq by (rule tr_view_put [OF snapshot.IH ps_view_clear]) (use st in simp_all)
next
  case (reset t L)
  then show ?case by (simp add: tr_view_def Tracker_Reset_def)
qed

lemma Count_ps_view: "ps_view st l \<Longrightarrow> GapSet_Count (ps_gaps st) = 0 \<longleftrightarrow> gs_set (ps_gaps st) = {}"
proof -
  assume v: "ps_view st l"
  have "- 1 \<notin> gs_set (ps_gaps st)"
  proof
    assume "- 1 \<in> gs_set (ps_gaps st)"
    then have "- 1 \<le> ps_hwm st" using v by (simp add: ps_view_def covers_def)
    then show False using v u64_le_max [of "ps_hwm st"] by (auto simp: ps_view_def)
  qed
  then show ?thesis using v by (intro GapSet_Count_eq_0) (simp_all add: ps_view_def)
qed

lemma Trust_known:
  assumes "tr_view t L" and "map_get (tr_pubs t) p = Some st"
  shows "Tracker_Trust t p = TrustComplete \<longleftrightarrow>
    gs_set (ps_gaps st) = {} \<and> \<not> gs_truncated (ps_gaps st)"
  using Count_ps_view [of st "L p"] tr_viewD [OF assms] assms(2)
  by (auto simp: Tracker_Trust_def word_neq_0_conv)

section \<open>Eviction\<close>

text \<open>\<open>p\<close> is seen before \<open>q\<close>, ties broken by the smaller name.\<close>

definition older :: "string \<times> PublisherState \<Rightarrow> string \<times> PublisherState \<Rightarrow> bool" where
  "older a b \<longleftrightarrow> ps_lastSeen (snd a) < ps_lastSeen (snd b)
     \<or> ps_lastSeen (snd a) = ps_lastSeen (snd b) \<and> fst a \<le> fst b"

lemma oldest_scan_min:
  assumes "\<forall>kv \<in> set m. fst kv \<noteq> []" and "pid \<noteq> []"
  shows "\<exists>kv \<in> insert (pid, st) (set m). oldest_scan m pid (ps_lastSeen st) = fst kv
    \<and> (\<forall>kv' \<in> insert (pid, st) (set m). older kv kv')"
  using assms
proof (induction m arbitrary: pid st)
  case Nil
  then show ?case by (simp add: older_def)
next
  case (Cons a m)
  obtain q sq where a: "a = (q, sq)" by (cases a)
  show ?case
  proof (cases "ps_lastSeen sq < ps_lastSeen st \<or> ps_lastSeen sq = ps_lastSeen st \<and> q < pid")
    case True
    then have "older a (pid, st)" by (auto simp: older_def a)
    then show ?thesis
      using True Cons.IH [of q sq] Cons.prems
      by (simp add: a) (smt (verit) fst_conv older_def order.strict_trans order.trans snd_conv)
  next
    case False
    then have "older (pid, st) a" by (auto simp: older_def a not_less)
    then show ?thesis
      using False Cons.IH [of pid st] Cons.prems
      by (simp add: a) (smt (verit) fst_conv older_def order.strict_trans order.trans snd_conv)
  qed
qed

lemma oldest_scan_start:
  assumes "\<forall>kv \<in> set m. fst kv \<noteq> []" and "m \<noteq> []"
  shows "\<exists>kv \<in> set m. oldest_scan m [] at = fst kv \<and> (\<forall>kv' \<in> set m. older kv kv')"
proof -
  obtain q sq m' where m: "m = (q, sq) # m'" using assms(2) by (cases m) auto
  then show ?thesis using oldest_scan_min [of m' q sq] assms(1) by simp
qed

lemma evictOldest_length:
  assumes view: "tr_view t L" and ne: "tr_pubs t \<noteq> []"
  shows "Suc (length (tr_pubs (evictOldestLocked t))) = length (tr_pubs t)"
proof -
  have wf: "wf_map (tr_pubs t)" using view by (simp add: tr_view_def)
  have nn: "\<forall>kv \<in> set (tr_pubs t). fst kv \<noteq> []"
    using view wf by (auto simp: tr_view_def map_get_eq_Some_iff)
  obtain p st where "(p, st) \<in> set (tr_pubs t)" "oldest_scan (tr_pubs t) [] 0 = p" "p \<noteq> []"
    using oldest_scan_start [OF nn ne, of 0] nn by force
  then show ?thesis
    using length_del [OF wf, of p] by (simp add: evictOldestLocked_def map_get_eq_Some_iff [OF wf]
        Let_def) (metis map_get_eq_Some_iff option.distinct(1) wf)
qed

definition pubs_bounded :: "Tracker \<Rightarrow> bool" where
  "pubs_bounded t \<longleftrightarrow> 0 < tc_maxPublishers (tr_cfg t)
     \<and> int (length (tr_pubs t)) \<le> tc_maxPublishers (tr_cfg t)"

lemma Observe_bounded:
  assumes view: "tr_view t L" and b: "pubs_bounded t" and o: "Observe t e now = Some (t', v, gap)"
  shows "pubs_bounded t'"
proof (cases "map_get (tr_pubs t) (ev_publisher e)")
  case None
  define u where "u = (if tc_maxPublishers (tr_cfg t) \<le> int (length (tr_pubs t))
    then evictOldestLocked t else t)"
  have "int (length (tr_pubs u)) < tc_maxPublishers (tr_cfg t)"
    using evictOldest_length [OF view] b by (cases "tr_pubs t = []") (auto simp: u_def pubs_bounded_def)
  moreover have "\<exists>st. tr_pubs t' = map_put (ev_publisher e) st (tr_pubs u)" and "tr_cfg t' = tr_cfg t"
    using o None unfolding Observe_def admitLocked_def Let_def u_def [symmetric]
    by (auto simp: u_def)
  ultimately show ?thesis using b by (auto simp: pubs_bounded_def length_put)
next
  case (Some st)
  then show ?thesis
    using o b by (auto simp: Observe_def pubs_bounded_def length_put split: option.splits)
qed

lemma tracked_bounded: "tracked cfg t L \<Longrightarrow> pubs_bounded t \<and> tr_cfg t = tracker_applyDefaults cfg"
proof (induction rule: tracked.induct)
  case (start L)
  then show ?case by (simp add: pubs_bounded_def Tracker_New_def tracker_applyDefaults_def)
next
  case (observe t L e now t' v gap)
  then show ?case
    using Observe_bounded [OF tracked_view [OF observe.hyps(1)]]
      Observe_viewD(1) [OF tracked_view [OF observe.hyps(1)] observe.hyps(2-4)]
    by auto
next
  case (snapshot t L p st)
  then show ?case by (auto simp: ClearGaps_def pubs_bounded_def length_put)
next
  case (reset t L)
  then show ?case by (auto simp: pubs_bounded_def Tracker_Reset_def)
qed

section \<open>Properties\<close>

text \<open>A sample stream for the witnesses: publisher \<open>p\<close> sends 5, then 8, so 6 and 7 are missing.\<close>

definition sample_config :: TrackerConfig where
  "sample_config = \<lparr>tc_maxPublishers = 2, tc_maxGapIntervals = 4, tc_implicitRestartDelta = 0,
     tc_implicitRestartCeiling = 0\<rparr>"

definition sample_state :: "u64 \<Rightarrow> Interval list \<Rightarrow> time \<Rightarrow> u64 \<Rightarrow> PublisherState" where
  "sample_state hwm ivs seen n =
     \<lparr>ps_id = ''p'', ps_epoch = 1, ps_incarnation = 0, ps_hwm = hwm,
      ps_gaps = \<lparr>gs_intervals = ivs, gs_maxIntervals = 4, gs_truncated = False\<rparr>,
      ps_firstSeen = 10, ps_lastSeen = seen, ps_eventCount = n, ps_restartCount = 0,
      ps_bootstrap = True\<rparr>"

definition sample_tracker :: "PublisherState \<Rightarrow> Tracker" where
  "sample_tracker st = \<lparr>tr_cfg = tracker_applyDefaults sample_config, tr_pubs = [(''p'', st)],
     tr_evictions = 0\<rparr>"

lemma sample_first:
  "Observe (Tracker_New sample_config) (sample_event ''p'' 5) 10
    = Some (sample_tracker (sample_state 5 [] 10 1), AcceptFirstSeen, None)"
  by code_simp

lemma sample_second:
  "Observe (sample_tracker (sample_state 5 [] 10 1)) (sample_event ''p'' 8) 20
    = Some (sample_tracker (sample_state 8 [\<lparr>iv_from = 6, iv_to = 7\<rparr>] 20 2), AcceptWithGap,
        Some \<lparr>gap_publisher = ''p'', gap_epoch = 1, gap_from = 6, gap_to = 7, gap_detectedAt = 20\<rparr>)"
  by code_simp

lemma sample_valid: "Validate (sample_event ''p'' s) = None"
  by (simp add: Validate_def sample_event_def)

lemma sample_seq [simp]: "ev_seq (sample_event p s) = s" "ev_publisher (sample_event p s) = p"
  "ev_epoch (sample_event p s) = 1"
  by (simp_all add: sample_event_def)

lemma sample_fields [simp]:
  "map_get (tr_pubs (sample_tracker st)) ''p'' = Some st"
  "ps_hwm (sample_state h ivs seen n) = h"
  "ps_epoch (sample_state h ivs seen n) = 1"
  "ps_gaps (sample_state h ivs seen n) =
    \<lparr>gs_intervals = ivs, gs_maxIntervals = 4, gs_truncated = False\<rparr>"
  by (simp_all add: sample_tracker_def sample_state_def map_get_def)

lemma sample_tracked_1:
  "tracked sample_config (sample_tracker (sample_state 5 [] 10 1)) ((\<lambda>_. (0, {}))(''p'' := (5, {5})))"
  using tracked.observe [OF tracked.start sample_valid _ sample_first, of "\<lambda>_. (0, {})"] by simp

lemma sample_tracked_2:
  "tracked sample_config (sample_tracker (sample_state 8 [\<lparr>iv_from = 6, iv_to = 7\<rparr>] 20 2))
     ((\<lambda>_. (0, {}))(''p'' := (5, {8, 5})))"
  using tracked.observe [OF sample_tracked_1 sample_valid _ sample_second] by simp

text \<open>C2: on every run of the tracker over validated events, if \<open>Trust\<close> answers Complete for a
  known publisher then every sequence number from its baseline to its high-water mark was
  accounted for: no loss is ever reported as a complete view, truncated gap sets included.\<close>

theorem tracker_no_silent_loss:
  assumes "tracked cfg t L" and "map_get (tr_pubs t) p = Some st"
    and "Tracker_Trust t p = TrustComplete"
  shows "{fst (L p)..ps_hwm st} \<subseteq> snd (L p)"
proof -
  note view = tracked_view [OF assms(1)]
  have "gs_set (ps_gaps st) = {}" using Trust_known [OF view assms(2)] assms(3) by simp
  moreover have "covers (gs_set (ps_gaps st)) (fst (L p)) (ps_hwm st) (snd (L p))"
    using tr_viewD [OF view assms(2)] by (simp add: ps_view_def)
  ultimately show ?thesis by (simp add: covers_def)
qed

theorem tracker_no_silent_loss_witness:
  "{fst (5 :: u64, {5 :: u64})..ps_hwm (sample_state 5 [] 10 1)} \<subseteq> snd (5 :: u64, {5 :: u64})"
proof -
  have "Tracker_Trust (sample_tracker (sample_state 5 [] 10 1)) ''p'' = TrustComplete" by code_simp
  then show ?thesis
    using tracker_no_silent_loss [OF sample_tracked_1 sample_fields(1)] by simp
qed

text \<open>While a publisher's gap set is not truncated, \<open>Trust\<close> answers Suspect exactly when some
  sequence number between the baseline and the high-water mark was not accounted for; the sum in
  \<open>GapSet.Count\<close> does not wrap to 0.\<close>

theorem tracker_suspect_exact:
  assumes "tracked cfg t L" and "map_get (tr_pubs t) p = Some st"
    and "\<not> gs_truncated (ps_gaps st)"
  shows "Tracker_Trust t p = TrustSuspect \<longleftrightarrow> (\<exists>x \<in> {fst (L p)..ps_hwm st}. x \<notin> snd (L p))"
proof -
  note view = tracked_view [OF assms(1)]
  have "gs_set (ps_gaps st) = {fst (L p)..ps_hwm st} - snd (L p)"
    using tr_viewD [OF view assms(2)] assms(3) by (simp add: ps_view_def exact_def)
  moreover have "Tracker_Trust t p = TrustComplete \<or> Tracker_Trust t p = TrustSuspect"
    by (auto simp: Tracker_Trust_def split: option.splits)
  ultimately show ?thesis using Trust_known [OF view assms(2)] assms(3) by auto
qed

theorem tracker_suspect_exact_witness:
  "Tracker_Trust (sample_tracker (sample_state 8 [\<lparr>iv_from = 6, iv_to = 7\<rparr>] 20 2)) ''p'' = TrustSuspect
    \<longleftrightarrow> (\<exists>x \<in> {5 .. (8 :: u64)}. x \<notin> {8, 5})"
  using tracker_suspect_exact [OF sample_tracked_2 sample_fields(1)] by simp



text \<open>The publisher map never grows beyond \<open>MaxPublishers\<close> (1024 when the configuration leaves
  it at zero or below), on every run over validated events.\<close>

theorem tracker_publishers_bounded:
  assumes "tracked cfg t L"
  shows "int (length (Tracker_Publishers t)) \<le>
    (if tc_maxPublishers cfg \<le> 0 then 1024 else tc_maxPublishers cfg)"
  using tracked_bounded [OF assms]
  by (auto simp: Tracker_Publishers_def pubs_bounded_def tracker_applyDefaults_def)

theorem tracker_publishers_bounded_witness:
  "int (length (Tracker_Publishers (sample_tracker (sample_state 5 [] 10 1)))) \<le>
    (if tc_maxPublishers sample_config \<le> 0 then 1024 else tc_maxPublishers sample_config)"
  using tracker_publishers_bounded [OF sample_tracked_1] .

text \<open>At a full map, admitting a new publisher evicts precisely one that was seen least
  recently (ties broken by name) and keeps every other one.\<close>

theorem evict_least_recently_seen:
  assumes "tracked cfg t L" and "tr_pubs t \<noteq> []"
  shows "\<exists>p st. map_get (tr_pubs t) p = Some st
    \<and> (\<forall>q sq. map_get (tr_pubs t) q = Some sq \<longrightarrow> older (p, st) (q, sq))
    \<and> evictOldestLocked t =
        t\<lparr>tr_pubs := map_del p (tr_pubs t), tr_evictions := tr_evictions t + 1\<rparr>"
proof -
  note view = tracked_view [OF assms(1)]
  then have wf: "wf_map (tr_pubs t)" by (simp add: tr_view_def)
  have nn: "\<forall>kv \<in> set (tr_pubs t). fst kv \<noteq> []"
    using view wf by (auto simp: tr_view_def map_get_eq_Some_iff)
  obtain p st where "(p, st) \<in> set (tr_pubs t)" "oldest_scan (tr_pubs t) [] 0 = p"
    "\<forall>kv \<in> set (tr_pubs t). older (p, st) kv"
    using oldest_scan_start [OF nn assms(2), of 0] by force
  then show ?thesis using nn wf
    by (intro exI [of _ p] exI [of _ st]) (auto simp: map_get_eq_Some_iff evictOldestLocked_def Let_def)
qed

theorem evict_least_recently_seen_witness:
  "\<exists>p st. map_get (tr_pubs (sample_tracker (sample_state 5 [] 10 1))) p = Some st
    \<and> (\<forall>q sq. map_get (tr_pubs (sample_tracker (sample_state 5 [] 10 1))) q = Some sq \<longrightarrow> older (p, st) (q, sq))
    \<and> evictOldestLocked (sample_tracker (sample_state 5 [] 10 1)) =
        (sample_tracker (sample_state 5 [] 10 1))\<lparr>tr_pubs :=
           map_del p (tr_pubs (sample_tracker (sample_state 5 [] 10 1))),
           tr_evictions := tr_evictions (sample_tracker (sample_state 5 [] 10 1)) + 1\<rparr>"
  by (rule evict_least_recently_seen [OF sample_tracked_1]) (simp add: sample_tracker_def)

text \<open>At the top of the sequence space the second guard is not protected: once the high-water
  mark is \<open>MaxUint64\<close>, \<open>HWM + 1\<close> is 0, so every same-epoch event with a positive sequence number,
  a repetition of \<open>MaxUint64\<close> itself included, is accepted as a jump ahead that reports the gap
  from 0, and the high-water mark becomes that event's sequence number.\<close>

theorem Observe_top_wraps:
  assumes "map_get (tr_pubs t) (ev_publisher e) = Some st" and "gs_ok (ps_gaps st)"
    and "ps_hwm st = - 1" and "ev_epoch e = ps_epoch st" and "0 < ev_seq e"
  shows "\<exists>t' st' gap. Observe t e now = Some (t', AcceptWithGap, Some gap)
    \<and> gap_from gap = 0 \<and> gap_to gap = ev_seq e - 1
    \<and> map_get (tr_pubs t') (ev_publisher e) = Some st' \<and> ps_hwm st' = ev_seq e"
proof -
  obtain g where "GapSet_Add (ps_gaps st) 0 (ev_seq e - 1) = Some g"
    using gapset.add_law [OF assms(2), of 0 "ev_seq e - 1"] by auto
  then show ?thesis using assms by (auto simp: Observe_def Observe_known_def Let_def)
qed

theorem Observe_top_wraps_witness:
  "\<exists>t' st' gap. Observe (sample_tracker (sample_state (- 1) [] 10 1)) (sample_event ''p'' (- 1)) 20
      = Some (t', AcceptWithGap, Some gap) \<and> gap_from gap = 0 \<and> gap_to gap = - 1 - 1
    \<and> map_get (tr_pubs t') ''p'' = Some st' \<and> ps_hwm st' = - 1"
proof -
  have "gs_ok \<lparr>gs_intervals = [], gs_maxIntervals = 4, gs_truncated = False\<rparr>"
    by (simp add: gs_ok_def)
  moreover have "(0 :: u64) < - 1" by code_simp
  ultimately show ?thesis
    using Observe_top_wraps [of "sample_tracker (sample_state (- 1) [] 10 1)" "sample_event ''p'' (- 1)"
      "sample_state (- 1) [] 10 1" 20] by simp
qed

end
