(* ===== verification/Projection.thy ===== *)
theory Projection
  imports Event
begin

text \<open>
  \<open>pkg/projection/projection.go\<close>, \<open>scalar.go\<close>, \<open>counter.go\<close> and \<open>keyset.go\<close>: the pure functions
  that fold one event into the expected value of one key. A compiled \<open>text/template\<close> is its
  execution function from \<open>templateData\<close> to a string (\<open>None\<close> when execution fails), and the
  template parser is the parameter \<open>parse\<close>; the identity templates never reach either. The
  pieces of \<open>strconv\<close> and \<open>strings\<close> the code calls are modelled on byte strings.
\<close>

section \<open>Mutations\<close>

datatype ProjError =
  ErrUnsupportedOp | ErrShapeMismatch | ErrBadValue | ErrBadConfig | ErrUnknownProjection

datatype Action = ActionNone | ActionUpsert | ActionDelete

datatype Shape = ShapeScalar | ShapeSet | ShapeCounter

record Mutation =
  mu_key :: string
  mu_action :: Action
  mu_value :: Value
  mu_ttl :: "duration option"
  mu_truncated :: bool
  mu_saturated :: bool

definition zero_Mutation :: Mutation where
  "zero_Mutation = \<lparr>mu_key = [], mu_action = ActionNone, mu_value = zero_Value, mu_ttl = None,
     mu_truncated = False, mu_saturated = False\<rparr>"

record OwnershipModel =
  om_partitioned :: bool
  om_keyPattern :: string

section \<open>Templates\<close>

record templateData =
  td_key :: string
  td_member :: string
  td_publisher :: string
  td_topic :: string
  td_epoch :: u64
  td_seq :: u64

definition zero_templateData :: templateData where
  "zero_templateData = \<lparr>td_key = [], td_member = [], td_publisher = [], td_topic = [],
     td_epoch = 0, td_seq = 0\<rparr>"

datatype fieldRef =
  fieldRefTemplate | fieldRefKey | fieldRefMember | fieldRefPublisher | fieldRefTopic

type_synonym template_fn = "templateData \<Rightarrow> string option"

record expander =
  ex_tmpl :: template_fn
  ex_ref :: fieldRef

definition identityFields :: "(string, fieldRef) go_map" where
  "identityFields =
     [(''{{.Key}}'', fieldRefKey), (''{{.Member}}'', fieldRefMember),
      (''{{.Publisher}}'', fieldRefPublisher), (''{{.Topic}}'', fieldRefTopic)]"

definition expand :: "expander \<Rightarrow> templateData \<Rightarrow> ProjError + string" where
  "expand ex d =
     (case ex_ref ex of
        fieldRefKey \<Rightarrow> Inr (td_key d)
      | fieldRefMember \<Rightarrow> Inr (td_member d)
      | fieldRefPublisher \<Rightarrow> Inr (td_publisher d)
      | fieldRefTopic \<Rightarrow> Inr (td_topic d)
      | fieldRefTemplate \<Rightarrow>
          (case ex_tmpl ex d of None \<Rightarrow> Inl ErrBadConfig | Some s \<Rightarrow> Inr s))"

definition newExpander ::
    "(string \<Rightarrow> template_fn option) \<Rightarrow> string \<Rightarrow> ProjError + expander" where
  "newExpander parse spec =
     (case map_get identityFields spec of
        Some ref \<Rightarrow> Inr \<lparr>ex_tmpl = (\<lambda>d. None), ex_ref = ref\<rparr>
      | None \<Rightarrow>
          (case parse spec of
             None \<Rightarrow> Inl ErrBadConfig
           | Some tmpl \<Rightarrow>
               let ex = \<lparr>ex_tmpl = tmpl, ex_ref = fieldRefTemplate\<rparr>
               in (case expand ex zero_templateData of
                     Inl err \<Rightarrow> Inl ErrBadConfig
                   | Inr s \<Rightarrow> Inr ex)))"

definition dataFor :: "Event \<Rightarrow> templateData" where
  "dataFor e =
     \<lparr>td_key = ev_key e, td_member = ev_member e, td_publisher = ev_publisher e,
      td_topic = ev_topic e, td_epoch = ev_epoch e, td_seq = ev_seq e\<rparr>"

section \<open>The strings and numbers of the Go library\<close>

text \<open>The byte sequences \<open>strings.TrimSpace\<close> removes: the UTF-8 encodings of the white-space
  characters of \<open>unicode.IsSpace\<close>.\<close>

definition space_seqs :: "string list" where
  "space_seqs =
     [[CHR 0x09], [CHR 0x0A], [CHR 0x0B], [CHR 0x0C], [CHR 0x0D], [CHR 0x20], [CHR 0xC2, CHR 0x85],
      [CHR 0xC2, CHR 0xA0], [CHR 0xE1, CHR 0x9A, CHR 0x80]]
     @ map (\<lambda>b. [CHR 0xE2, CHR 0x80, b])
         [CHR 0x80, CHR 0x81, CHR 0x82, CHR 0x83, CHR 0x84, CHR 0x85, CHR 0x86, CHR 0x87, CHR 0x88,
          CHR 0x89, CHR 0x8A, CHR 0xA8, CHR 0xA9, CHR 0xAF]
     @ [[CHR 0xE2, CHR 0x81, CHR 0x9F], [CHR 0xE3, CHR 0x80, CHR 0x80]]"

definition starts_with :: "string \<Rightarrow> string \<Rightarrow> bool" where
  "starts_with p s \<longleftrightarrow> take (length p) s = p"

function trim_left :: "string list \<Rightarrow> string \<Rightarrow> string" where
  "trim_left seqs s =
     (case find (\<lambda>p. p \<noteq> [] \<and> starts_with p s) seqs of
        None \<Rightarrow> s
      | Some p \<Rightarrow> trim_left seqs (drop (length p) s))"
  by pat_completeness auto
termination
  by (relation "measure (\<lambda>(seqs, s). length s)")
    (auto simp: find_Some_iff starts_with_def intro!: diff_less gr0I)

declare trim_left.simps [simp del]

definition trim_space :: "string \<Rightarrow> string" where
  "trim_space s = rev (trim_left (map rev space_seqs) (rev (trim_left space_seqs s)))"

definition digit_val :: "char \<Rightarrow> int option" where
  "digit_val c =
     (let n = (of_char c :: int) in if 48 \<le> n \<and> n \<le> 57 then Some (n - 48) else None)"

fun parse_digits :: "int \<Rightarrow> string \<Rightarrow> int option" where
  "parse_digits acc [] = Some acc"
| "parse_digits acc (c # cs) =
     (case digit_val c of None \<Rightarrow> None | Some d \<Rightarrow> parse_digits (acc * 10 + d) cs)"

text \<open>\<open>strconv.ParseInt(s, 10, 64)\<close> and \<open>strconv.Atoi\<close> on a 64-bit platform: an optional sign, at
  least one decimal digit, and the range of \<open>int64\<close>.\<close>

definition ParseInt :: "string \<Rightarrow> int option" where
  "ParseInt s =
     (let neg = (s \<noteq> [] \<and> hd s = CHR ''-'');
          body = (if s \<noteq> [] \<and> (hd s = CHR ''-'' \<or> hd s = CHR ''+'') then tl s else s)
      in if body = [] then None
         else
           (case parse_digits 0 body of
              None \<Rightarrow> None
            | Some n \<Rightarrow>
                let v = (if neg then - n else n)
                in if min_i64 \<le> v \<and> v \<le> max_i64 then Some v else None))"

definition ParseBool :: "string \<Rightarrow> bool option" where
  "ParseBool s =
     (if s \<in> set [''1'', ''t'', ''T'', ''true'', ''TRUE'', ''True''] then Some True
      else if s \<in> set [''0'', ''f'', ''F'', ''false'', ''FALSE'', ''False''] then Some False
      else None)"

text \<open>\<open>strings.Split\<close> for a separator that is not empty, which \<open>newKeysetOwnership\<close> ensures.\<close>

function split_from :: "string \<Rightarrow> string \<Rightarrow> string \<Rightarrow> string list" where
  "split_from sep cur s =
     (if s = [] then [cur]
      else if sep \<noteq> [] \<and> starts_with sep s then cur # split_from sep [] (drop (length sep) s)
      else split_from sep (cur @ [hd s]) (tl s))"
  by pat_completeness auto
termination
  by (relation "measure (\<lambda>(sep, cur, s). length s)")
    (auto simp: starts_with_def intro!: diff_less gr0I)

declare split_from.simps [simp del]

definition Split :: "string \<Rightarrow> string \<Rightarrow> string list" where
  "Split s sep = split_from sep [] s"

section \<open>Configuration\<close>

type_synonym proj_cfg = "(string, string) go_map"

definition intConfig :: "proj_cfg \<Rightarrow> string \<Rightarrow> int \<Rightarrow> ProjError + int" where
  "intConfig cfg key def =
     (case map_get cfg key of
        None \<Rightarrow> Inr def
      | Some raw \<Rightarrow>
          (case ParseInt (trim_space raw) of
             None \<Rightarrow> Inl ErrBadConfig
           | Some n \<Rightarrow> if n \<le> 0 then Inl ErrBadConfig else Inr n))"

definition boolConfig :: "proj_cfg \<Rightarrow> string \<Rightarrow> ProjError + bool" where
  "boolConfig cfg key =
     (case map_get cfg key of
        None \<Rightarrow> Inr False
      | Some raw \<Rightarrow>
          (case ParseBool (trim_space raw) of None \<Rightarrow> Inl ErrBadConfig | Some v \<Rightarrow> Inr v))"

definition stringConfig :: "proj_cfg \<Rightarrow> string \<Rightarrow> string \<Rightarrow> string" where
  "stringConfig cfg key def = (case map_get cfg key of Some raw \<Rightarrow> raw | None \<Rightarrow> def)"

definition ownershipFrom :: "proj_cfg \<Rightarrow> OwnershipModel" where
  "ownershipFrom cfg =
     (let pattern = stringConfig cfg ''keyPattern'' []
      in \<lparr>om_partitioned = (pattern \<noteq> []), om_keyPattern = pattern\<rparr>)"

definition checkShape :: "Value \<Rightarrow> ValueKind \<Rightarrow> ProjError option" where
  "checkShape prev want =
     (if v_kind prev = ValueAbsent \<or> v_kind prev = want then None else Some ErrShapeMismatch)"

text \<open>A delete of a key: a no-op when the key is absent already.\<close>

definition delete_mutation :: "string \<Rightarrow> Value \<Rightarrow> Event \<Rightarrow> Mutation" where
  "delete_mutation key prev e =
     (if IsAbsent prev then zero_Mutation\<lparr>mu_key := key, mu_action := ActionNone\<rparr>
      else zero_Mutation\<lparr>mu_key := key, mu_action := ActionDelete, mu_ttl := ev_ttl e\<rparr>)"

section \<open>scalar\<close>

record scalar =
  sc_keyTmpl :: expander
  sc_ownership :: OwnershipModel

definition newScalar :: "(string \<Rightarrow> template_fn option) \<Rightarrow> proj_cfg \<Rightarrow> ProjError + scalar" where
  "newScalar parse cfg =
     (case newExpander parse (stringConfig cfg ''keyTemplate'' ''{{.Key}}'') of
        Inl err \<Rightarrow> Inl err
      | Inr keyTmpl \<Rightarrow> Inr \<lparr>sc_keyTmpl = keyTmpl, sc_ownership = ownershipFrom cfg\<rparr>)"

definition scalar_TargetKey :: "scalar \<Rightarrow> Event \<Rightarrow> ProjError + string" where
  "scalar_TargetKey s e = expand (sc_keyTmpl s) (dataFor e)"

definition scalar_Apply :: "scalar \<Rightarrow> Value \<Rightarrow> Event \<Rightarrow> ProjError + Mutation" where
  "scalar_Apply s prev e =
     (if \<not> TouchesKey (ev_op e) then Inr zero_Mutation
      else
        (case checkShape prev ValueScalar of
           Some err \<Rightarrow> Inl err
         | None \<Rightarrow>
             (case expand (sc_keyTmpl s) (dataFor e) of
                Inl err \<Rightarrow> Inl err
              | Inr key \<Rightarrow>
                  (case ev_op e of
                     OpSet \<Rightarrow>
                       let next = (case ev_value e of None \<Rightarrow> [] | Some b \<Rightarrow> b)
                       in Inr (zero_Mutation\<lparr>mu_key := key, mu_action := ActionUpsert,
                            mu_value := zero_Value\<lparr>v_kind := ValueScalar, v_scalar := next\<rparr>,
                            mu_ttl := ev_ttl e\<rparr>)
                   | OpDelete \<Rightarrow> Inr (delete_mutation key prev e)
                   | _ \<Rightarrow> Inl ErrUnsupportedOp))))"

section \<open>counter\<close>

record counter =
  cn_keyTmpl :: expander
  cn_incrOnly :: bool
  cn_ownership :: OwnershipModel

definition newCounter :: "(string \<Rightarrow> template_fn option) \<Rightarrow> proj_cfg \<Rightarrow> ProjError + counter" where
  "newCounter parse cfg =
     (case newExpander parse (stringConfig cfg ''keyTemplate'' ''{{.Key}}'') of
        Inl err \<Rightarrow> Inl err
      | Inr keyTmpl \<Rightarrow>
          (case boolConfig cfg ''incrOnly'' of
             Inl err \<Rightarrow> Inl err
           | Inr incrOnly \<Rightarrow>
               Inr \<lparr>cn_keyTmpl = keyTmpl, cn_incrOnly = incrOnly, cn_ownership = ownershipFrom cfg\<rparr>))"

definition counter_TargetKey :: "counter \<Rightarrow> Event \<Rightarrow> ProjError + string" where
  "counter_TargetKey c e = expand (cn_keyTmpl c) (dataFor e)"

definition addSaturating :: "i64 \<Rightarrow> i64 \<Rightarrow> i64 \<times> bool" where
  "addSaturating n delta =
     (let tot = n + delta
      in if 0 < sint delta \<and> sint tot < sint n then (word_of_int max_i64, True)
         else if sint delta < 0 \<and> sint n < sint tot then (word_of_int min_i64, True)
         else (tot, False))"

definition counter_Apply :: "counter \<Rightarrow> Value \<Rightarrow> Event \<Rightarrow> ProjError + Mutation" where
  "counter_Apply c prev e =
     (if \<not> TouchesKey (ev_op e) then Inr zero_Mutation
      else
        (case checkShape prev ValueCounter of
           Some err \<Rightarrow> Inl err
         | None \<Rightarrow>
             (case expand (cn_keyTmpl c) (dataFor e) of
                Inl err \<Rightarrow> Inl err
              | Inr key \<Rightarrow>
                  (case ev_op e of
                     OpIncr \<Rightarrow>
                       (case addSaturating (v_counter prev) (ev_delta e) of
                          (tot, saturated) \<Rightarrow>
                            Inr (zero_Mutation\<lparr>mu_key := key, mu_action := ActionUpsert,
                              mu_value := zero_Value\<lparr>v_kind := ValueCounter, v_counter := tot\<rparr>,
                              mu_ttl := ev_ttl e, mu_saturated := saturated\<rparr>))
                   | OpSet \<Rightarrow>
                       if cn_incrOnly c then Inl ErrUnsupportedOp
                       else
                         (case ParseInt (case ev_value e of None \<Rightarrow> [] | Some b \<Rightarrow> b) of
                            None \<Rightarrow> Inl ErrBadValue
                          | Some n \<Rightarrow>
                              Inr (zero_Mutation\<lparr>mu_key := key, mu_action := ActionUpsert,
                                mu_value :=
                                  zero_Value\<lparr>v_kind := ValueCounter, v_counter := word_of_int n\<rparr>,
                                mu_ttl := ev_ttl e\<rparr>))
                   | OpDelete \<Rightarrow> Inr (delete_mutation key prev e)
                   | _ \<Rightarrow> Inl ErrUnsupportedOp))))"

section \<open>keysetOwnership\<close>

definition defaultMaxMembersPerKey :: int where
  "defaultMaxMembersPerKey = 100000"

record keysetOwnership =
  ks_keyTmpl :: expander
  ks_memberTmpl :: expander
  ks_delimiter :: string
  ks_maxMembers :: int
  ks_ownership :: OwnershipModel

definition newKeysetOwnership ::
    "(string \<Rightarrow> template_fn option) \<Rightarrow> proj_cfg \<Rightarrow> ProjError + keysetOwnership" where
  "newKeysetOwnership parse cfg =
     (let delimiter = stringConfig cfg ''setDelimiter'' '',''
      in if delimiter = [] then Inl ErrBadConfig
         else
           (case intConfig cfg ''maxMembersPerKey'' defaultMaxMembersPerKey of
              Inl err \<Rightarrow> Inl err
            | Inr maxMembers \<Rightarrow>
                (case newExpander parse (stringConfig cfg ''keyTemplate'' ''{{.Key}}'') of
                   Inl err \<Rightarrow> Inl err
                 | Inr keyTmpl \<Rightarrow>
                     (case newExpander parse (stringConfig cfg ''memberTemplate'' ''{{.Member}}'') of
                        Inl err \<Rightarrow> Inl err
                      | Inr memberTmpl \<Rightarrow>
                          Inr \<lparr>ks_keyTmpl = keyTmpl, ks_memberTmpl = memberTmpl,
                               ks_delimiter = delimiter, ks_maxMembers = maxMembers,
                               ks_ownership = ownershipFrom cfg\<rparr>))))"

definition keyset_TargetKey :: "keysetOwnership \<Rightarrow> Event \<Rightarrow> ProjError + string" where
  "keyset_TargetKey k e = expand (ks_keyTmpl k) (dataFor e)"

definition set_value :: "string go_set \<Rightarrow> Value" where
  "set_value ms = zero_Value\<lparr>v_kind := ValueSet, v_members := ms\<rparr>"

definition keyset_add :: "keysetOwnership \<Rightarrow> string \<Rightarrow> string \<Rightarrow> Value \<Rightarrow> Mutation" where
  "keyset_add k key member prev =
     (if member \<notin> set (v_members prev) \<and> ks_maxMembers k \<le> int (length (v_members prev)) then
        zero_Mutation\<lparr>mu_key := key, mu_action := ActionUpsert, mu_value := Value_Clone prev,
          mu_truncated := True\<rparr>
      else
        zero_Mutation\<lparr>mu_key := key, mu_action := ActionUpsert,
          mu_value := set_value (set_add member (v_members prev))\<rparr>)"

definition keyset_remove :: "string \<Rightarrow> string \<Rightarrow> Value \<Rightarrow> Mutation" where
  "keyset_remove key member prev =
     (if member \<notin> set (v_members prev) then zero_Mutation\<lparr>mu_key := key, mu_action := ActionNone\<rparr>
      else
        let next = set_del member (v_members prev)
        in if length next = 0 then zero_Mutation\<lparr>mu_key := key, mu_action := ActionDelete\<rparr>
           else zero_Mutation\<lparr>mu_key := key, mu_action := ActionUpsert, mu_value := set_value next\<rparr>)"

text \<open>The loop of \<open>replace\<close> over the fields; the flag is \<open>truncated\<close>, set where it breaks out.\<close>

fun replace_loop :: "int \<Rightarrow> string list \<Rightarrow> string go_set \<Rightarrow> string go_set \<times> bool" where
  "replace_loop m [] members = (members, False)"
| "replace_loop m (field # rest) members =
     (if field = [] then replace_loop m rest members
      else if m \<le> int (length members) then (members, True)
      else replace_loop m rest (set_add field members))"

definition keyset_replace :: "keysetOwnership \<Rightarrow> string \<Rightarrow> Event \<Rightarrow> Mutation" where
  "keyset_replace k key e =
     (case replace_loop (ks_maxMembers k)
        (Split (case ev_value e of None \<Rightarrow> [] | Some b \<Rightarrow> b) (ks_delimiter k)) [] of
        (members, truncated) \<Rightarrow>
          if length members = 0 then zero_Mutation\<lparr>mu_key := key, mu_action := ActionDelete\<rparr>
          else zero_Mutation\<lparr>mu_key := key, mu_action := ActionUpsert,
            mu_value := set_value members, mu_ttl := ev_ttl e, mu_truncated := truncated\<rparr>)"

definition keyset_Apply :: "keysetOwnership \<Rightarrow> Value \<Rightarrow> Event \<Rightarrow> ProjError + Mutation" where
  "keyset_Apply k prev e =
     (if \<not> TouchesKey (ev_op e) then Inr zero_Mutation
      else
        (case checkShape prev ValueSet of
           Some err \<Rightarrow> Inl err
         | None \<Rightarrow>
             (case expand (ks_keyTmpl k) (dataFor e) of
                Inl err \<Rightarrow> Inl err
              | Inr key \<Rightarrow>
                  (case ev_op e of
                     OpAdd \<Rightarrow>
                       (case expand (ks_memberTmpl k) (dataFor e) of
                          Inl err \<Rightarrow> Inl err
                        | Inr member \<Rightarrow> Inr (keyset_add k key member prev))
                   | OpRemove \<Rightarrow>
                       (case expand (ks_memberTmpl k) (dataFor e) of
                          Inl err \<Rightarrow> Inl err
                        | Inr member \<Rightarrow> Inr (keyset_remove key member prev))
                   | OpDelete \<Rightarrow> Inr (delete_mutation key prev e)
                   | OpSet \<Rightarrow> Inr (keyset_replace k key e)
                   | _ \<Rightarrow> Inl ErrUnsupportedOp))))"

section \<open>The interface and the registry\<close>

datatype Projection = PScalar scalar | PCounter counter | PKeyset keysetOwnership

fun TargetKey :: "Projection \<Rightarrow> Event \<Rightarrow> ProjError + string" where
  "TargetKey (PScalar s) = scalar_TargetKey s"
| "TargetKey (PCounter c) = counter_TargetKey c"
| "TargetKey (PKeyset k) = keyset_TargetKey k"

fun Projection_Apply :: "Projection \<Rightarrow> Value \<Rightarrow> Event \<Rightarrow> ProjError + Mutation" where
  "Projection_Apply (PScalar s) = scalar_Apply s"
| "Projection_Apply (PCounter c) = counter_Apply c"
| "Projection_Apply (PKeyset k) = keyset_Apply k"

fun Commutative :: "Projection \<Rightarrow> bool" where
  "Commutative (PScalar s) = False"
| "Commutative (PCounter c) = cn_incrOnly c"
| "Commutative (PKeyset k) = False"

fun KeyOwnership :: "Projection \<Rightarrow> OwnershipModel" where
  "KeyOwnership (PScalar s) = sc_ownership s"
| "KeyOwnership (PCounter c) = cn_ownership c"
| "KeyOwnership (PKeyset k) = ks_ownership k"

fun TargetShape :: "Projection \<Rightarrow> Shape" where
  "TargetShape (PScalar s) = ShapeScalar"
| "TargetShape (PCounter c) = ShapeCounter"
| "TargetShape (PKeyset k) = ShapeSet"

type_synonym proj_ctor = "proj_cfg \<Rightarrow> ProjError + Projection"
type_synonym proj_registry = "(string, proj_ctor) go_map"

text \<open>\<open>Register\<close> panics on an empty name and on a duplicate (\<open>None\<close>).\<close>

definition Register :: "string \<Rightarrow> proj_ctor \<Rightarrow> proj_registry \<Rightarrow> proj_registry option" where
  "Register name ctor reg =
     (if name = [] then None
      else if map_get reg name \<noteq> None then None
      else Some (map_put name ctor reg))"

definition Projection_New :: "proj_registry \<Rightarrow> string \<Rightarrow> proj_ctor" where
  "Projection_New reg name cfg =
     (case map_get reg name of None \<Rightarrow> Inl ErrUnknownProjection | Some ctor \<Rightarrow> ctor cfg)"

definition Projection_Names :: "proj_registry \<Rightarrow> string list" where
  "Projection_Names reg = sort (map fst reg)"

text \<open>The registry after the package's \<open>init\<close> functions.\<close>

definition map_proj :: "('a \<Rightarrow> Projection) \<Rightarrow> (proj_cfg \<Rightarrow> ProjError + 'a) \<Rightarrow> proj_ctor" where
  "map_proj f ctor cfg = (case ctor cfg of Inl err \<Rightarrow> Inl err | Inr p \<Rightarrow> Inr (f p))"

definition init_registry :: "(string \<Rightarrow> template_fn option) \<Rightarrow> proj_registry option" where
  "init_registry parse =
     Option.bind (Register ''counter'' (map_proj PCounter (newCounter parse)) [])
       (\<lambda>r1. Option.bind
          (Register ''keysetOwnership'' (map_proj PKeyset (newKeysetOwnership parse)) r1)
          (Register ''scalar'' (map_proj PScalar (newScalar parse))))"

section \<open>Saturating addition\<close>

lemma sint_i64_range: "min_i64 \<le> sint (x :: i64) \<and> sint x \<le> max_i64"
  using sint_range_size [of x] by (simp add: min_i64_def max_i64_def word_size)

lemma sint_word_of_int_i64: "min_i64 \<le> n \<Longrightarrow> n \<le> max_i64 \<Longrightarrow> sint (word_of_int n :: i64) = n"
  by (simp add: min_i64_def max_i64_def signed_of_int signed_take_bit_int_eq_self_iff)

lemma sint_add_i64: "sint (a + b :: i64) = wrap_i64 (sint a + sint b)"
  by (simp add: sint_word_ariths(1) signed_take_bit_eq_take_bit_shift take_bit_eq_mod
      wrap_i64_def min_i64_def)

text \<open>The wrapped sum is below the true one exactly when an overflow happened.\<close>

lemma wrap_overflow:
  assumes "min_i64 \<le> n" "n \<le> max_i64" "min_i64 \<le> d" "d \<le> max_i64"
  shows "0 < d \<and> wrap_i64 (n + d) < n \<longleftrightarrow> max_i64 < n + d"
    and "d < 0 \<and> n < wrap_i64 (n + d) \<longleftrightarrow> n + d < min_i64"
proof -
  consider "max_i64 < n + d" | "n + d < min_i64" | "min_i64 \<le> n + d" "n + d \<le> max_i64" by linarith
  then have "0 < d \<and> wrap_i64 (n + d) < n \<longleftrightarrow> max_i64 < n + d"
    and "d < 0 \<and> n < wrap_i64 (n + d) \<longleftrightarrow> n + d < min_i64"
  proof (atomize (full), cases)
    case 1
    have "(n + d - min_i64) mod 18446744073709551616
        = (n + d - min_i64 - 18446744073709551616) mod 18446744073709551616" by simp
    also have "\<dots> = n + d - min_i64 - 18446744073709551616"
      using 1 assms by (intro mod_pos_pos_trivial) (simp_all add: min_i64_def max_i64_def)
    finally have "wrap_i64 (n + d) = n + d - 18446744073709551616" by (simp add: wrap_i64_def)
    then show "(0 < d \<and> wrap_i64 (n + d) < n \<longleftrightarrow> max_i64 < n + d)
      \<and> (d < 0 \<and> n < wrap_i64 (n + d) \<longleftrightarrow> n + d < min_i64)"
      using 1 assms by (simp add: min_i64_def max_i64_def)
  next
    case 2
    have "(n + d - min_i64) mod 18446744073709551616
        = (n + d - min_i64 + 18446744073709551616) mod 18446744073709551616" by simp
    also have "\<dots> = n + d - min_i64 + 18446744073709551616"
      using 2 assms by (intro mod_pos_pos_trivial) (simp_all add: min_i64_def max_i64_def)
    finally have "wrap_i64 (n + d) = n + d + 18446744073709551616" by (simp add: wrap_i64_def)
    then show "(0 < d \<and> wrap_i64 (n + d) < n \<longleftrightarrow> max_i64 < n + d)
      \<and> (d < 0 \<and> n < wrap_i64 (n + d) \<longleftrightarrow> n + d < min_i64)"
      using 2 assms by (simp add: min_i64_def max_i64_def)
  next
    case 3
    then show "(0 < d \<and> wrap_i64 (n + d) < n \<longleftrightarrow> max_i64 < n + d)
      \<and> (d < 0 \<and> n < wrap_i64 (n + d) \<longleftrightarrow> n + d < min_i64)"
      using assms by (auto simp: wrap_i64_id)
  qed
  then show "0 < d \<and> wrap_i64 (n + d) < n \<longleftrightarrow> max_i64 < n + d"
    and "d < 0 \<and> n < wrap_i64 (n + d) \<longleftrightarrow> n + d < min_i64" by auto
qed

lemma addSaturating_cases:
  "addSaturating n d =
    (if max_i64 < sint n + sint d then (word_of_int max_i64, True)
     else if sint n + sint d < min_i64 then (word_of_int min_i64, True)
     else (n + d, False))"
  using wrap_overflow [of "sint n" "sint d"] sint_i64_range [of n] sint_i64_range [of d]
  by (simp add: addSaturating_def Let_def sint_add_i64)

lemma addSaturating_clamp:
  "sint (fst (addSaturating n d)) = max min_i64 (min max_i64 (sint n + sint d))"
proof -
  have "sint (n + d) = sint n + sint d" if "min_i64 \<le> sint n + sint d" "sint n + sint d \<le> max_i64"
    using that by (simp add: sint_add_i64 wrap_i64_id)
  then show ?thesis
    by (auto simp: addSaturating_cases sint_word_of_int_i64 max_def min_def)
      (simp_all add: sint_word_of_int_i64 min_i64_def max_i64_def)
qed

section \<open>The contract of a projection\<close>

text \<open>
  The values a projection of a given kind hands out: the zero value for an absent key, or a well
  formed value of that kind. \<open>fold_event\<close> is how the pipeline uses a projection on the expected
  state: look up the target key, apply, store what the mutation says; an error drops the event.
\<close>

definition shaped :: "ValueKind \<Rightarrow> Value \<Rightarrow> bool" where
  "shaped kind v \<longleftrightarrow> v = zero_Value \<or> (wf_value v \<and> v_kind v = kind \<and> \<not> IsAbsent v)"

definition fold_event ::
    "(Event \<Rightarrow> ProjError + string) \<Rightarrow> (Value \<Rightarrow> Event \<Rightarrow> ProjError + Mutation)
      \<Rightarrow> (string \<Rightarrow> Value) \<Rightarrow> Event \<Rightarrow> (string \<Rightarrow> Value)" where
  "fold_event target_key apply_event st e =
     (case target_key e of
        Inl err \<Rightarrow> st
      | Inr key \<Rightarrow>
          (case apply_event (st key) e of
             Inl err \<Rightarrow> st
           | Inr m \<Rightarrow>
               (case mu_action m of
                  ActionNone \<Rightarrow> st
                | ActionUpsert \<Rightarrow> st(mu_key m := mu_value m)
                | ActionDelete \<Rightarrow> st(mu_key m := zero_Value))))"

locale projection_contract =
  fixes target_key :: "Event \<Rightarrow> ProjError + string"
    and apply_event :: "Value \<Rightarrow> Event \<Rightarrow> ProjError + Mutation"
    and kind :: ValueKind
  assumes inert: "\<not> TouchesKey (ev_op e) \<Longrightarrow> apply_event prev e = Inr zero_Mutation"
    and key_law: "TouchesKey (ev_op e) \<Longrightarrow> apply_event prev e = Inr m \<Longrightarrow> target_key e = Inr (mu_key m)"
    and shape_law: "TouchesKey (ev_op e) \<Longrightarrow>
      apply_event prev e = Inl ErrShapeMismatch \<longleftrightarrow> v_kind prev \<noteq> ValueAbsent \<and> v_kind prev \<noteq> kind"
    and upsert_law: "shaped kind prev \<Longrightarrow> apply_event prev e = Inr m \<Longrightarrow> mu_action m = ActionUpsert \<Longrightarrow>
      shaped kind (mu_value m)"

context projection_contract
begin

lemma shaped_kind: "shaped kind v \<Longrightarrow> v_kind v = ValueAbsent \<or> v_kind v = kind"
  by (auto simp: shaped_def zero_Value_def)

lemma fold_event_shaped:
  assumes "\<forall>k. shaped kind (st k)"
  shows "shaped kind (fold_event target_key apply_event st e k)"
  using assms upsert_law
  by (auto simp: fold_event_def shaped_def [of kind zero_Value] split: sum.splits Action.splits)

lemma fold_shaped:
  "\<forall>k. shaped kind (st k) \<Longrightarrow> \<forall>k. shaped kind (foldl (fold_event target_key apply_event) st es k)"
  by (induction es arbitrary: st) (simp_all add: fold_event_shaped)

text \<open>A run that starts from nothing never reports a shape mismatch.\<close>

lemma fold_no_mismatch:
  "apply_event (foldl (fold_event target_key apply_event) (\<lambda>_. zero_Value) es k) e
    \<noteq> Inl ErrShapeMismatch"
proof (cases "TouchesKey (ev_op e)")
  case True
  have "\<forall>k. shaped kind (foldl (fold_event target_key apply_event) (\<lambda>_. zero_Value) es k)"
    by (rule fold_shaped) (simp add: shaped_def)
  then show ?thesis using shaped_kind shape_law [OF True] by blast
qed (simp add: inert)

text \<open>An event changes no key but its target key.\<close>

lemma fold_event_other:
  assumes "target_key e \<noteq> Inr k"
  shows "fold_event target_key apply_event st e k = st k"
proof (cases "TouchesKey (ev_op e)")
  case True
  then show ?thesis
    using assms key_law [OF True]
    by (auto simp: fold_event_def split: sum.splits Action.splits)
next
  case False
  then show ?thesis by (simp add: fold_event_def inert zero_Mutation_def split: sum.splits)
qed

end

subsection \<open>The three projections keep it\<close>

lemma expand_err: "expand ex d = Inl err \<Longrightarrow> err = ErrBadConfig"
  by (auto simp: expand_def split: fieldRef.splits option.splits)

lemma zero_Mutation_simps [simp]:
  "mu_action zero_Mutation = ActionNone" "mu_truncated zero_Mutation = False"
  by (simp_all add: zero_Mutation_def)

lemma delete_mutation_key [simp]: "mu_key (delete_mutation key prev e) = key"
  by (simp add: delete_mutation_def)

lemma delete_mutation_action [simp]: "mu_action (delete_mutation key prev e) \<noteq> ActionUpsert"
  by (simp add: delete_mutation_def)

lemma keyset_add_key [simp]: "mu_key (keyset_add k key member prev) = key"
  by (simp add: keyset_add_def)

lemma keyset_remove_key [simp]: "mu_key (keyset_remove key member prev) = key"
  by (simp add: keyset_remove_def Let_def)

lemma keyset_replace_key [simp]: "mu_key (keyset_replace k key e) = key"
  by (simp add: keyset_replace_def split: prod.splits)

lemma wf_set_value [simp]: "wf_value (set_value ms) \<longleftrightarrow> wf_set ms"
  by (simp add: set_value_def wf_value_def)

lemma set_value_simps [simp]:
  "v_kind (set_value ms) = ValueSet" "v_members (set_value ms) = ms"
  "IsAbsent (set_value ms) \<longleftrightarrow> ms = []" "obs_of (set_value ms) = (if ms = [] then ONone else OSet (set ms))"
  by (simp_all add: set_value_def IsAbsent_def obs_of_def)

lemma zero_Value_simps [simp]:
  "v_kind zero_Value = ValueAbsent" "v_members zero_Value = []" "v_counter zero_Value = 0"
  "obs_of zero_Value = ONone"
  by (simp_all add: zero_Value_def obs_of_def)

lemma shaped_set_value: "shaped ValueSet (set_value ms) \<longleftrightarrow> wf_set ms \<and> ms \<noteq> []"
  by (auto simp: shaped_def set_value_def zero_Value_def IsAbsent_def wf_value_def)

lemma shaped_members: "shaped kind prev \<Longrightarrow> wf_set (v_members prev)"
  by (auto simp: shaped_def wf_value_def)

lemma replace_loop_props:
  assumes "wf_set ms"
  shows "wf_set (fst (replace_loop m xs ms))"
    and "int (length ms) \<le> m \<Longrightarrow> int (length (fst (replace_loop m xs ms))) \<le> m"
    and "\<not> snd (replace_loop m xs ms) \<Longrightarrow> set (fst (replace_loop m xs ms)) = set ms \<union> (set xs - {[]})"
  using assms by (induction xs arbitrary: ms) (auto simp: wf_set_add length_set_add split: if_splits)

lemma keyset_add_shaped:
  "shaped ValueSet prev \<Longrightarrow> shaped ValueSet (mu_value (keyset_add k key member prev))"
  by (auto simp: keyset_add_def shaped_set_value wf_set_add shaped_members set_add_def)

lemma keyset_remove_shaped:
  "shaped ValueSet prev \<Longrightarrow> mu_action (keyset_remove key member prev) = ActionUpsert \<Longrightarrow>
    shaped ValueSet (mu_value (keyset_remove key member prev))"
  by (auto simp: keyset_remove_def shaped_set_value Let_def wf_set_del shaped_members split: if_splits)

lemma keyset_replace_shaped:
  "mu_action (keyset_replace k key e) = ActionUpsert \<Longrightarrow> shaped ValueSet (mu_value (keyset_replace k key e))"
  using replace_loop_props(1) [of "[]" "ks_maxMembers k"]
  by (auto simp: keyset_replace_def shaped_set_value split: prod.splits if_splits)
    (metis fst_conv)

lemma shaped_leaf:
  "shaped ValueScalar (zero_Value\<lparr>v_kind := ValueScalar, v_scalar := b\<rparr>)"
  "shaped ValueCounter (zero_Value\<lparr>v_kind := ValueCounter, v_counter := n\<rparr>)"
  by (simp_all add: shaped_def wf_value_def zero_Value_def IsAbsent_def)

lemmas apply_defs = scalar_Apply_def counter_Apply_def keyset_Apply_def
  scalar_TargetKey_def counter_TargetKey_def keyset_TargetKey_def checkShape_def

lemmas apply_splits = sum.splits Op.splits option.splits prod.splits if_splits

interpretation scalar_proj: projection_contract "scalar_TargetKey s" "scalar_Apply s" ValueScalar for s
  by unfold_locales
    (auto simp: apply_defs Let_def shaped_leaf split: apply_splits dest!: expand_err)

interpretation counter_proj: projection_contract "counter_TargetKey c" "counter_Apply c" ValueCounter for c
  by unfold_locales
    (auto simp: apply_defs Let_def shaped_leaf split: apply_splits dest!: expand_err)

interpretation keyset_proj: projection_contract "keyset_TargetKey k" "keyset_Apply k" ValueSet for k
  by unfold_locales
    (auto simp: apply_defs keyset_add_shaped keyset_remove_shaped keyset_replace_shaped
      split: apply_splits dest!: expand_err)

section \<open>Properties\<close>

text \<open>Saturating addition returns the exact sum clamped to the range of \<open>int64\<close>, and reports
  saturation exactly when the exact sum is outside that range; the wrapped sum of the machine is
  never mistaken for a value.\<close>

theorem addSaturating_correct:
  "sint (fst (addSaturating n d)) = max min_i64 (min max_i64 (sint n + sint d))
    \<and> (snd (addSaturating n d) \<longleftrightarrow> sint n + sint d < min_i64 \<or> max_i64 < sint n + sint d)"
  using addSaturating_clamp [of n d] by (auto simp: addSaturating_cases)

text \<open>folding any stream with any of the three projections from an empty state never fails with
  a shape mismatch, and the event leaves every key but its own target key as it was.\<close>

theorem projection_fold_contract:
  "Projection_Apply p (foldl (fold_event (TargetKey p) (Projection_Apply p)) (\<lambda>_. zero_Value) es k) e
      \<noteq> Inl ErrShapeMismatch
    \<and> (TargetKey p e = Inr k \<or> fold_event (TargetKey p) (Projection_Apply p) st e k = st k)"
proof (cases p)
  case (PScalar s)
  then show ?thesis using scalar_proj.fold_no_mismatch scalar_proj.fold_event_other by fastforce
next
  case (PCounter c)
  then show ?thesis using counter_proj.fold_no_mismatch counter_proj.fold_event_other by fastforce
next
  case (PKeyset k)
  then show ?thesis using keyset_proj.fold_no_mismatch keyset_proj.fold_event_other by fastforce
qed

lemma newKeyset_max: "newKeysetOwnership parse cfg = Inr k \<Longrightarrow> 0 < ks_maxMembers k"
  by (auto simp: newKeysetOwnership_def intConfig_def Let_def defaultMaxMembersPerKey_def
      split: sum.splits if_splits option.splits)

text \<open>Removing a member through a projection that \<open>newKeysetOwnership\<close> built asks for the key's
  deletion exactly when that member was the last one, does nothing when it was not a member, and
  otherwise stores the set without it; an empty set is never stored.\<close>

theorem keyset_last_member_deletes:
  assumes "expand (ks_keyTmpl k) (dataFor e) = Inr key" and "expand (ks_memberTmpl k) (dataFor e) = Inr member"
    and "ev_op e = OpRemove" and "shaped ValueSet prev"
  shows "\<exists>m. keyset_Apply k prev e = Inr m \<and> mu_key m = key
    \<and> (mu_action m = ActionDelete \<longleftrightarrow> set (v_members prev) = {member})
    \<and> (mu_action m = ActionNone \<longleftrightarrow> member \<notin> set (v_members prev))
    \<and> (mu_action m = ActionUpsert \<longrightarrow>
        set (v_members (mu_value m)) = set (v_members prev) - {member} \<and> \<not> IsAbsent (mu_value m))"
proof -
  have "keyset_Apply k prev e = Inr (keyset_remove key member prev)"
    using assms by (auto simp: keyset_Apply_def checkShape_def dest: keyset_proj.shaped_kind)
  moreover have "set_del member (v_members prev) = [] \<longleftrightarrow> set (v_members prev) \<subseteq> {member}"
    by (metis Diff_eq_empty_iff set_empty set_set_del)
  ultimately show ?thesis
    by (auto simp: keyset_remove_def Let_def)
qed

definition sample_keyset :: keysetOwnership where
  "sample_keyset =
     \<lparr>ks_keyTmpl = \<lparr>ex_tmpl = (\<lambda>d. None), ex_ref = fieldRefKey\<rparr>,
      ks_memberTmpl = \<lparr>ex_tmpl = (\<lambda>d. None), ex_ref = fieldRefMember\<rparr>,
      ks_delimiter = '','', ks_maxMembers = 100000,
      ks_ownership = \<lparr>om_partitioned = False, om_keyPattern = []\<rparr>\<rparr>"

definition sample_op :: "Op \<Rightarrow> string \<Rightarrow> string \<Rightarrow> bytes option \<Rightarrow> i64 \<Rightarrow> Event" where
  "sample_op oper key member val delta =
     \<lparr>ev_publisher = ''p'', ev_epoch = 1, ev_seq = 1, ev_publishedAt = 0, ev_observedAt = 0,
      ev_topic = [], ev_op = oper, ev_key = key, ev_member = member, ev_value = val,
      ev_delta = delta, ev_ttl = None, ev_raw = None\<rparr>"

lemma sample_newKeyset: "newKeysetOwnership (\<lambda>_. None) [] = Inr sample_keyset"
  by (simp add: newKeysetOwnership_def stringConfig_def map_get_def newExpander_def intConfig_def
      defaultMaxMembersPerKey_def identityFields_def sample_keyset_def ownershipFrom_def)

theorem keyset_last_member_deletes_witness:
  "\<exists>m. keyset_Apply sample_keyset (set_value [''r1'']) (sample_op OpRemove ''k'' ''r1'' None 0) = Inr m
    \<and> mu_key m = ''k'' \<and> mu_action m = ActionDelete"
  using keyset_last_member_deletes [of sample_keyset "sample_op OpRemove ''k'' ''r1'' None 0" "''k''" "''r1''"
      "set_value [''r1'']"]
  by (auto simp: sample_keyset_def sample_op_def expand_def dataFor_def shaped_set_value)

text \<open>A projection that \<open>newKeysetOwnership\<close> built keeps every member set within
  \<open>maxMembersPerKey\<close>: from a value within the bound, no event produces one beyond it.\<close>

theorem keyset_members_bounded:
  assumes "newKeysetOwnership parse cfg = Inr k" and "shaped ValueSet prev"
    and "int (length (v_members prev)) \<le> ks_maxMembers k"
    and "keyset_Apply k prev e = Inr m" and "mu_action m = ActionUpsert"
  shows "int (length (v_members (mu_value m))) \<le> ks_maxMembers k"
proof -
  have max: "0 < ks_maxMembers k" using newKeyset_max [OF assms(1)] .
  have "int (length (set_del x (v_members prev))) \<le> ks_maxMembers k" for x
  proof -
    have "length (set_del x (v_members prev)) \<le> length (v_members prev)"
      by (simp add: set_del_def removeAll_filter_not_eq)
    with assms(3) show ?thesis by linarith
  qed
  moreover have "int (length (fst (replace_loop (ks_maxMembers k) xs []))) \<le> ks_maxMembers k" for xs
    using replace_loop_props(2) [of "[]"] max by simp
  ultimately show ?thesis
    using assms(3-5) max
    by (auto simp: keyset_Apply_def keyset_add_def keyset_remove_def keyset_replace_def Let_def
        length_set_add delete_mutation_def split: apply_splits) (metis fst_conv)+
qed

theorem keyset_members_bounded_witness:
  "int (length (v_members (mu_value (keyset_add sample_keyset ''k'' ''r3'' (set_value [''r1'', ''r2''])))))
    \<le> ks_maxMembers sample_keyset"
proof (rule keyset_members_bounded)
  show "newKeysetOwnership (\<lambda>_. None) [] = Inr sample_keyset" by (rule sample_newKeyset)
  show "keyset_Apply sample_keyset (set_value [''r1'', ''r2'']) (sample_op OpAdd ''k'' ''r3'' None 0)
      = Inr (keyset_add sample_keyset ''k'' ''r3'' (set_value [''r1'', ''r2'']))"
    by (simp add: keyset_Apply_def sample_keyset_def sample_op_def checkShape_def expand_def dataFor_def)
  show "shaped ValueSet (set_value [''r1'', ''r2''])" by (simp add: shaped_set_value)
  show "int (length (v_members (set_value [''r1'', ''r2'']))) \<le> ks_maxMembers sample_keyset"
    by (simp add: sample_keyset_def)
  show "mu_action (keyset_add sample_keyset ''k'' ''r3'' (set_value [''r1'', ''r2''])) = ActionUpsert"
    by (simp add: keyset_add_def)
qed

text \<open>A counter declared \<open>incrOnly\<close> reports itself commutative, but saturation makes the order
  of increments matter: starting at \<open>MaxInt64\<close>, \<open>+1\<close> then \<open>-1\<close> ends one below where \<open>-1\<close> then
  \<open>+1\<close> ends.\<close>

theorem counter_incrOnly_not_commutative:
  "\<exists>c e1 e2 st. Commutative (PCounter c) \<and> Validate e1 = None \<and> Validate e2 = None
    \<and> ev_op e1 = OpIncr \<and> ev_op e2 = OpIncr
    \<and> \<not> Value_Equal
        (foldl (fold_event (counter_TargetKey c) (counter_Apply c)) st [e1, e2] ''k'')
        (foldl (fold_event (counter_TargetKey c) (counter_Apply c)) st [e2, e1] ''k'')"
proof -
  define c where "c = \<lparr>cn_keyTmpl = \<lparr>ex_tmpl = (\<lambda>d. None), ex_ref = fieldRefKey\<rparr>, cn_incrOnly = True,
    cn_ownership = \<lparr>om_partitioned = False, om_keyPattern = []\<rparr>\<rparr>"
  define up where "up = sample_op OpIncr ''k'' [] None 1"
  define down where "down = sample_op OpIncr ''k'' [] None (- 1)"
  define top where "top = (\<lambda>k :: string. zero_Value\<lparr>v_kind := ValueCounter, v_counter := word_of_int max_i64\<rparr>)"
  define step where "step = fold_event (counter_TargetKey c) (counter_Apply c)"
  have "foldl step top [up, down] ''k'' = zero_Value\<lparr>v_kind := ValueCounter, v_counter := 9223372036854775806\<rparr>"
    unfolding step_def top_def up_def down_def c_def by code_simp
  moreover have "foldl step top [down, up] ''k'' = zero_Value\<lparr>v_kind := ValueCounter, v_counter := 9223372036854775807\<rparr>"
    unfolding step_def top_def up_def down_def c_def by code_simp
  moreover have "\<not> Value_Equal (zero_Value\<lparr>v_kind := ValueCounter, v_counter := 9223372036854775806\<rparr>)
      (zero_Value\<lparr>v_kind := ValueCounter, v_counter := 9223372036854775807\<rparr>)" by code_simp
  ultimately show ?thesis
    unfolding step_def
    by (intro exI [of _ c] exI [of _ up] exI [of _ down] exI [of _ top])
      (simp add: c_def up_def down_def sample_op_def Validate_def)
qed

end
