(* ===== verification/Reference.thy ===== *)
theory Reference
  imports Projection
begin

text \<open>
  \<open>pkg/projection/reference.go\<close>: the naive fold the repository uses as its testing oracle, and
  the proof that folding with each of the three projections reaches the same observable state.
\<close>

section \<open>The reference fold\<close>

record Reference =
  rf_shape :: Shape
  rf_delimiter :: string
  rf_incrOnly :: bool

definition NewReference :: "Shape \<Rightarrow> Reference" where
  "NewReference shape = \<lparr>rf_shape = shape, rf_delimiter = '','', rf_incrOnly = False\<rparr>"

definition WithDelimiter :: "Reference \<Rightarrow> string \<Rightarrow> Reference" where
  "WithDelimiter r d = r\<lparr>rf_delimiter := d\<rparr>"

definition WithIncrOnly :: "Reference \<Rightarrow> bool \<Rightarrow> Reference" where
  "WithIncrOnly r v = r\<lparr>rf_incrOnly := v\<rparr>"

type_synonym ref_state = "(string, Value) go_map"

definition event_bytes :: "Event \<Rightarrow> bytes" where
  "event_bytes e = (case ev_value e of None \<Rightarrow> [] | Some b \<Rightarrow> b)"

definition applySet_store :: "ref_state \<Rightarrow> string \<Rightarrow> string go_set \<Rightarrow> ref_state" where
  "applySet_store state key current =
     (if length current = 0 then map_del key state else map_put key (set_value current) state)"

definition applySet :: "Reference \<Rightarrow> ref_state \<Rightarrow> Event \<Rightarrow> ref_state" where
  "applySet r state e =
     (let current = (case map_get state (ev_key e) of None \<Rightarrow> [] | Some v \<Rightarrow> v_members v)
      in (case ev_op e of
            OpAdd \<Rightarrow> applySet_store state (ev_key e) (set_add (ev_member e) current)
          | OpRemove \<Rightarrow> applySet_store state (ev_key e) (set_del (ev_member e) current)
          | OpDelete \<Rightarrow> map_del (ev_key e) state
          | OpSet \<Rightarrow>
              applySet_store state (ev_key e)
                (foldl (\<lambda>cur field. if field \<noteq> [] then set_add field cur else cur) []
                  (Split (event_bytes e) (rf_delimiter r)))
          | _ \<Rightarrow> state))"

definition applyScalar :: "ref_state \<Rightarrow> Event \<Rightarrow> ref_state" where
  "applyScalar state e =
     (case ev_op e of
        OpSet \<Rightarrow>
          map_put (ev_key e) (zero_Value\<lparr>v_kind := ValueScalar, v_scalar := event_bytes e\<rparr>) state
      | OpDelete \<Rightarrow> map_del (ev_key e) state
      | _ \<Rightarrow> state)"

definition applyCounter :: "Reference \<Rightarrow> ref_state \<Rightarrow> Event \<Rightarrow> ref_state" where
  "applyCounter r state e =
     (case ev_op e of
        OpIncr \<Rightarrow>
          let n = (case map_get state (ev_key e) of None \<Rightarrow> 0 | Some v \<Rightarrow> v_counter v);
              tot = n + ev_delta e;
              tot' = (if 0 < sint (ev_delta e) \<and> sint tot < sint n then word_of_int max_i64
                      else if sint (ev_delta e) < 0 \<and> sint n < sint tot then word_of_int min_i64
                      else tot)
          in map_put (ev_key e) (zero_Value\<lparr>v_kind := ValueCounter, v_counter := tot'\<rparr>) state
      | OpSet \<Rightarrow>
          if rf_incrOnly r then state
          else
            (case ParseInt (event_bytes e) of
               None \<Rightarrow> state
             | Some n \<Rightarrow>
                 map_put (ev_key e)
                   (zero_Value\<lparr>v_kind := ValueCounter, v_counter := word_of_int n\<rparr>) state)
      | OpDelete \<Rightarrow> map_del (ev_key e) state
      | _ \<Rightarrow> state)"

definition Reference_apply :: "Reference \<Rightarrow> ref_state \<Rightarrow> Event \<Rightarrow> ref_state" where
  "Reference_apply r state e =
     (case rf_shape r of
        ShapeSet \<Rightarrow> applySet r state e
      | ShapeScalar \<Rightarrow> applyScalar state e
      | ShapeCounter \<Rightarrow> applyCounter r state e)"

definition Reference_Fold :: "Reference \<Rightarrow> Event list \<Rightarrow> ref_state" where
  "Reference_Fold r events =
     (let state = foldl (\<lambda>st e. if TouchesKey (ev_op e) then Reference_apply r st e else st) [] events
      in filter (\<lambda>kv. \<not> IsAbsent (snd kv)) state)"

section \<open>Simulation\<close>

text \<open>
  \<open>agree\<close> relates the two states: the same observable value at every key, the projection's side
  shaped, the reference's side holding only keys that exist.
\<close>

definition ref_obs :: "ref_state \<Rightarrow> string \<Rightarrow> obs" where
  "ref_obs state k = (case map_get state k of None \<Rightarrow> ONone | Some v \<Rightarrow> obs_of v)"

definition agree :: "ValueKind \<Rightarrow> (string \<Rightarrow> Value) \<Rightarrow> ref_state \<Rightarrow> bool" where
  "agree kind st state \<longleftrightarrow> wf_map state
     \<and> (\<forall>k. shaped kind (st k))
     \<and> (\<forall>k v. map_get state k = Some v \<longrightarrow> shaped kind v \<and> \<not> IsAbsent v)
     \<and> (\<forall>k. obs_of (st k) = ref_obs state k)"

lemma agree_start: "agree kind (\<lambda>_. zero_Value) []"
  by (simp add: agree_def shaped_def ref_obs_def)

lemma agree_put:
  assumes "agree kind st state" and "shaped kind v" "\<not> IsAbsent v" and "shaped kind w" and "obs_of v = obs_of w"
  shows "agree kind (st(k := w)) (map_put k v state)"
  using assms by (auto simp: agree_def ref_obs_def wf_map_put)

lemma agree_del:
  assumes "agree kind st state"
  shows "agree kind (st(k := zero_Value)) (map_del k state)"
  using assms by (auto simp: agree_def ref_obs_def wf_map_del shaped_def [of kind zero_Value]
      split: if_splits)

lemma agree_del_absent:
  assumes "agree kind st state" and "IsAbsent (st k)"
  shows "agree kind st (map_del k state)"
proof -
  have "st k = zero_Value" using assms by (auto simp: agree_def shaped_def)
  then have "st(k := zero_Value) = st" by (auto simp: fun_eq_iff)
  with agree_del [OF assms(1), of k] show ?thesis by simp
qed

lemma shaped_wf: "shaped kind v \<Longrightarrow> wf_value v"
  by (auto simp: shaped_def)

lemma agree_wf:
  assumes "agree kind st state"
  shows "wf_value (st k)" and "map_get state k = Some v \<Longrightarrow> wf_value v"
  using assms by (auto simp: agree_def intro: shaped_wf)

text \<open>What the two sides read back for one key.\<close>

lemma agree_members:
  assumes "agree ValueSet st state"
  shows "set (v_members (st k)) =
    set (case map_get state k of None \<Rightarrow> [] | Some v \<Rightarrow> v_members v)"
proof -
  have o: "obs_of (st k) = ref_obs state k" and s: "shaped ValueSet (st k)"
    using assms by (auto simp: agree_def)
  have r: "shaped ValueSet v \<and> \<not> IsAbsent v" if "map_get state k = Some v" for v
    using assms that by (auto simp: agree_def)
  show ?thesis
    using o s r by (cases "map_get state k")
      (auto simp: ref_obs_def shaped_def obs_of_def IsAbsent_def split: if_splits)
qed

lemma agree_counter:
  assumes "agree ValueCounter st state"
  shows "v_counter (st k) = (case map_get state k of None \<Rightarrow> 0 | Some v \<Rightarrow> v_counter v)"
proof -
  have o: "obs_of (st k) = ref_obs state k" and s: "shaped ValueCounter (st k)"
    using assms by (auto simp: agree_def)
  have r: "shaped ValueCounter v \<and> \<not> IsAbsent v" if "map_get state k = Some v" for v
    using assms that by (auto simp: agree_def)
  show ?thesis
    using o s r by (cases "map_get state k")
      (auto simp: ref_obs_def shaped_def obs_of_def IsAbsent_def zero_Value_def split: if_splits)
qed

lemma agree_drop_absent:
  assumes "agree kind st state"
  shows "filter (\<lambda>kv. \<not> IsAbsent (snd kv)) state = state"
  using assms by (auto simp: agree_def filter_id_conv map_get_eq_Some_iff)

lemma agree_obs: "agree kind st state \<Longrightarrow> obs_of (st k) = ref_obs state k"
  by (simp add: agree_def)

section \<open>One event\<close>

definition ref_step :: "Reference \<Rightarrow> ref_state \<Rightarrow> Event \<Rightarrow> ref_state" where
  "ref_step r state e = (if TouchesKey (ev_op e) then Reference_apply r state e else state)"

lemma expand_identity:
  "ex_ref ex = fieldRefKey \<Longrightarrow> expand ex (dataFor e) = Inr (ev_key e)"
  "ex_ref ex = fieldRefMember \<Longrightarrow> expand ex (dataFor e) = Inr (ev_member e)"
  by (simp_all add: expand_def dataFor_def)

lemma shaped_checkShape: "shaped kind v \<Longrightarrow> checkShape v kind = None"
  by (auto simp: checkShape_def shaped_def)

lemma agree_shape: "agree kind st state \<Longrightarrow> checkShape (st k) kind = None"
  by (simp add: agree_def shaped_checkShape)

lemma inert_step:
  "\<not> TouchesKey (ev_op e) \<Longrightarrow> fold_event tk (scalar_Apply s) st e = st"
  "\<not> TouchesKey (ev_op e) \<Longrightarrow> fold_event tk (counter_Apply c) st e = st"
  "\<not> TouchesKey (ev_op e) \<Longrightarrow> fold_event tk (keyset_Apply k) st e = st"
  by (auto simp: fold_event_def scalar_Apply_def counter_Apply_def keyset_Apply_def
      split: sum.splits)

definition store :: "(string \<Rightarrow> Value) \<Rightarrow> Mutation \<Rightarrow> (string \<Rightarrow> Value)" where
  "store st m =
     (case mu_action m of ActionNone \<Rightarrow> st
      | ActionUpsert \<Rightarrow> st(mu_key m := mu_value m)
      | ActionDelete \<Rightarrow> st(mu_key m := zero_Value))"

lemma fold_event_store:
  "fold_event tk ap st e =
    (case tk e of Inl err \<Rightarrow> st | Inr key \<Rightarrow>
      (case ap (st key) e of Inl err \<Rightarrow> st | Inr m \<Rightarrow> store st m))"
  by (simp add: fold_event_def store_def cong: sum.case_cong)

lemma store_delete:
  assumes "agree kind st state"
  shows "agree kind (store st (delete_mutation k (st k) e)) (map_del k state)"
  using agree_del [OF assms, of k] agree_del_absent [OF assms, of k]
  by (simp add: delete_mutation_def store_def)

lemma scalar_step:
  assumes a: "agree ValueScalar st state" and id: "ex_ref (sc_keyTmpl s) = fieldRefKey"
    and r: "rf_shape r = ShapeScalar"
  shows "agree ValueScalar (fold_event (scalar_TargetKey s) (scalar_Apply s) st e) (ref_step r state e)"
proof (cases "TouchesKey (ev_op e)")
  case True
  have del: "agree ValueScalar (fold_event (scalar_TargetKey s) (scalar_Apply s) st e) (ref_step r state e)"
    if "ev_op e = OpDelete"
    using store_delete [OF a, of "ev_key e" e] that
    by (simp add: fold_event_store scalar_TargetKey_def scalar_Apply_def expand_identity(1) [OF id]
        agree_shape [OF a] ref_step_def Reference_apply_def r applyScalar_def)
  show ?thesis
    using True a del shaped_leaf(1) [of "event_bytes e"]
      agree_put [OF a, of "zero_Value\<lparr>v_kind := ValueScalar, v_scalar := event_bytes e\<rparr>"
        "zero_Value\<lparr>v_kind := ValueScalar, v_scalar := event_bytes e\<rparr>" "ev_key e"]
    by (cases "ev_op e")
      (auto simp: fold_event_def scalar_TargetKey_def scalar_Apply_def expand_identity(1) [OF id]
        agree_shape [OF a] ref_step_def Reference_apply_def r applyScalar_def event_bytes_def
        IsAbsent_def)
qed (simp add: a inert_step ref_step_def)

lemma counter_step:
  assumes a: "agree ValueCounter st state" and id: "ex_ref (cn_keyTmpl c) = fieldRefKey"
    and r: "rf_shape r = ShapeCounter" "rf_incrOnly r = cn_incrOnly c"
  shows "agree ValueCounter (fold_event (counter_TargetKey c) (counter_Apply c) st e) (ref_step r state e)"
proof (cases "TouchesKey (ev_op e)")
  case True
  have del: "agree ValueCounter (fold_event (counter_TargetKey c) (counter_Apply c) st e) (ref_step r state e)"
    if "ev_op e = OpDelete"
    using store_delete [OF a, of "ev_key e" e] that
    by (simp add: fold_event_store counter_TargetKey_def counter_Apply_def expand_identity(1) [OF id]
        agree_shape [OF a] ref_step_def Reference_apply_def r applyCounter_def)
  have put: "agree ValueCounter (st(ev_key e := zero_Value\<lparr>v_kind := ValueCounter, v_counter := n\<rparr>))
      (map_put (ev_key e) (zero_Value\<lparr>v_kind := ValueCounter, v_counter := n\<rparr>) state)" for n
    using shaped_leaf(2) [of n] by (intro agree_put [OF a]) (simp_all add: IsAbsent_def)
  show ?thesis
    using True a del put agree_counter [OF a, of "ev_key e", symmetric]
    by (cases "ev_op e")
      (simp_all add: fold_event_def counter_TargetKey_def counter_Apply_def expand_identity(1) [OF id]
        agree_shape [OF a] ref_step_def Reference_apply_def r applyCounter_def event_bytes_def
        addSaturating_def Let_def split: option.splits if_splits)
qed (simp add: a inert_step ref_step_def)

lemma fields_set:
  "set (foldl (\<lambda>cur field. if field \<noteq> [] then set_add field cur else cur) cur xs)
    = set cur \<union> (set xs - {[]})"
  by (induction xs arbitrary: cur) auto

lemma fields_wf:
  "wf_set cur \<Longrightarrow> wf_set (foldl (\<lambda>cur field. if field \<noteq> [] then set_add field cur else cur) cur xs)"
  by (induction xs arbitrary: cur) (auto simp: wf_set_add)

text \<open>Storing two member lists with the same elements.\<close>

lemma agree_store:
  assumes a: "agree ValueSet st state" and ms: "wf_set ms" "wf_set ns" "set ms = set ns"
  shows "agree ValueSet (st(k := if length ms = 0 then zero_Value else set_value ms))
    (applySet_store state k ns)"
proof (cases "ms = []")
  case True
  then have "ns = []" using ms(3) by simp
  then show ?thesis using True agree_del [OF a, of k] by (simp add: applySet_store_def)
next
  case False
  then have "ns \<noteq> []" using ms(3) by auto
  then show ?thesis using False ms
    by (simp add: applySet_store_def agree_put [OF a] shaped_set_value)
qed

lemma agree_store_same:
  assumes a: "agree ValueSet st state" and ns: "wf_set ns" "set (v_members (st k)) = set ns"
  shows "agree ValueSet st (applySet_store state k ns)"
proof -
  have s: "shaped ValueSet (st k)" using a by (simp add: agree_def)
  show ?thesis
  proof (cases "v_members (st k) = []")
    case True
    then have "IsAbsent (st k)" and "ns = []"
      using s ns(2) by (auto simp: shaped_def IsAbsent_def)
    then show ?thesis using agree_del_absent [OF a] by (simp add: applySet_store_def)
  next
    case False
    then have "obs_of (set_value ns) = obs_of (st k)" "\<not> IsAbsent (st k)" "ns \<noteq> []"
      using s ns(2) by (auto simp: shaped_def obs_of_def)
    then have "agree ValueSet (st(k := st k)) (map_put k (set_value ns) state)"
      using s ns(1) by (intro agree_put [OF a]) (simp_all add: shaped_set_value)
    then show ?thesis using \<open>ns \<noteq> []\<close> by (simp add: applySet_store_def)
  qed
qed

lemma ref_current_wf:
  "agree ValueSet st state \<Longrightarrow> wf_set (case map_get state k of None \<Rightarrow> [] | Some v \<Rightarrow> v_members v)"
  by (auto simp: agree_def intro: shaped_members split: option.splits)

text \<open>The three set operations, on the projection's mutation and on the reference's state.\<close>

lemma add_step:
  assumes a: "agree ValueSet st state" and nt: "\<not> mu_truncated (keyset_add k key member (st key))"
  shows "agree ValueSet (store st (keyset_add k key member (st key)))
    (applySet_store state key
      (set_add member (case map_get state key of None \<Rightarrow> [] | Some v \<Rightarrow> v_members v)))"
proof -
  have "wf_set (v_members (st key))" using a by (auto simp: agree_def intro: shaped_members)
  then have "agree ValueSet
      (st(key := if length (set_add member (v_members (st key))) = 0 then zero_Value
                 else set_value (set_add member (v_members (st key)))))
      (applySet_store state key
        (set_add member (case map_get state key of None \<Rightarrow> [] | Some v \<Rightarrow> v_members v)))"
    using ref_current_wf [OF a] agree_members [OF a]
    by (intro agree_store [OF a]) (simp_all add: wf_set_add)
  moreover have "length (set_add member (v_members (st key))) \<noteq> 0" by (auto simp: set_add_def)
  ultimately show ?thesis
    using nt by (auto simp: keyset_add_def store_def split: if_splits)
qed

lemma remove_step:
  assumes a: "agree ValueSet st state"
  shows "agree ValueSet (store st (keyset_remove key member (st key)))
    (applySet_store state key
      (set_del member (case map_get state key of None \<Rightarrow> [] | Some v \<Rightarrow> v_members v)))"
proof (cases "member \<in> set (v_members (st key))")
  case True
  have "wf_set (v_members (st key))" using a by (auto simp: agree_def intro: shaped_members)
  then have "agree ValueSet
      (st(key := if length (set_del member (v_members (st key))) = 0 then zero_Value
                 else set_value (set_del member (v_members (st key)))))
      (applySet_store state key
        (set_del member (case map_get state key of None \<Rightarrow> [] | Some v \<Rightarrow> v_members v)))"
    using ref_current_wf [OF a] agree_members [OF a]
    by (intro agree_store [OF a]) (simp_all add: wf_set_del)
  then show ?thesis using True by (simp add: keyset_remove_def store_def Let_def split: if_splits)
next
  case False
  then have "agree ValueSet st (applySet_store state key
      (set_del member (case map_get state key of None \<Rightarrow> [] | Some v \<Rightarrow> v_members v)))"
    using ref_current_wf [OF a] agree_members [OF a, of key]
    by (intro agree_store_same [OF a]) (auto simp: wf_set_del)
  with False show ?thesis by (simp add: keyset_remove_def store_def)
qed

lemma replace_loop_full: "snd (replace_loop m xs ms) \<Longrightarrow> m \<le> int (length (fst (replace_loop m xs ms)))"
  by (induction xs arbitrary: ms) (auto split: if_splits)

lemma replace_step:
  assumes a: "agree ValueSet st state" and m: "0 < ks_maxMembers k"
    and nt: "\<not> mu_truncated (keyset_replace k key e)"
  shows "agree ValueSet (store st (keyset_replace k key e))
    (applySet_store state key
      (foldl (\<lambda>cur field. if field \<noteq> [] then set_add field cur else cur) []
        (Split (event_bytes e) (ks_delimiter k))))"
proof -
  define xs where "xs = Split (event_bytes e) (ks_delimiter k)"
  define ms where "ms = fst (replace_loop (ks_maxMembers k) xs [])"
  define t where "t = snd (replace_loop (ks_maxMembers k) xs [])"
  have l: "replace_loop (ks_maxMembers k) xs [] = (ms, t)" by (simp add: ms_def t_def)
  have eq: "keyset_replace k key e =
      (if length ms = 0 then zero_Mutation\<lparr>mu_key := key, mu_action := ActionDelete\<rparr>
       else zero_Mutation\<lparr>mu_key := key, mu_action := ActionUpsert,
            mu_value := set_value ms, mu_ttl := ev_ttl e, mu_truncated := t\<rparr>)"
    using l by (simp add: keyset_replace_def event_bytes_def xs_def)
  have "\<not> t"
    using nt m replace_loop_full [of "ks_maxMembers k" xs "[]"] unfolding eq
    by (auto simp: ms_def t_def split: if_splits)
  then have "agree ValueSet (st(key := if length ms = 0 then zero_Value else set_value ms))
    (applySet_store state key
      (foldl (\<lambda>cur field. if field \<noteq> [] then set_add field cur else cur) [] xs))"
    using replace_loop_props [of "[]" "ks_maxMembers k" xs]
    by (intro agree_store [OF a]) (simp_all add: ms_def t_def fields_set fields_wf)
  then show ?thesis by (simp add: eq store_def flip: xs_def split: if_splits)
qed

lemma keyset_step:
  assumes a: "agree ValueSet st state"
    and id: "ex_ref (ks_keyTmpl k) = fieldRefKey" "ex_ref (ks_memberTmpl k) = fieldRefMember"
    and m: "0 < ks_maxMembers k"
    and r: "rf_shape r = ShapeSet" "rf_delimiter r = ks_delimiter k"
    and nt: "\<And>mu. keyset_Apply k (st (ev_key e)) e = Inr mu \<Longrightarrow> \<not> mu_truncated mu"
  shows "agree ValueSet (fold_event (keyset_TargetKey k) (keyset_Apply k) st e) (ref_step r state e)"
proof (cases "TouchesKey (ev_op e)")
  case True
  note ids = expand_identity(1) [OF id(1)] expand_identity(2) [OF id(2)]
  note app = keyset_Apply_def ids agree_shape [OF a]
  show ?thesis
    using True nt a add_step [OF a, of k "ev_key e" "ev_member e"] remove_step [OF a, of "ev_key e" "ev_member e"]
      replace_step [OF a m, of "ev_key e" e] store_delete [OF a, of "ev_key e" e]
    by (cases "ev_op e")
      (simp_all add: fold_event_store keyset_TargetKey_def app ref_step_def Reference_apply_def r
        applySet_def Let_def)
qed (simp add: a inert_step ref_step_def)

section \<open>Whole streams\<close>

lemma Reference_Fold_eq:
  "Reference_Fold r es = filter (\<lambda>kv. \<not> IsAbsent (snd kv)) (foldl (ref_step r) [] es)"
proof -
  have "(\<lambda>st e. if TouchesKey (ev_op e) then Reference_apply r st e else st) = ref_step r"
    by (simp add: fun_eq_iff ref_step_def)
  then show ?thesis by (simp add: Reference_Fold_def)
qed

lemma agree_run:
  assumes "\<And>st state e. agree kind st state \<Longrightarrow> agree kind (fold_event tk ap st e) (ref_step r state e)"
  shows "agree kind st state \<Longrightarrow> agree kind (foldl (fold_event tk ap) st es) (foldl (ref_step r) state es)"
  using assms by (induction es arbitrary: st state) simp_all

text \<open>The run of a \<open>keysetOwnership\<close> projection never hits the member cap.\<close>

fun never_truncated :: "keysetOwnership \<Rightarrow> (string \<Rightarrow> Value) \<Rightarrow> Event list \<Rightarrow> bool" where
  "never_truncated k st [] = True"
| "never_truncated k st (e # es) =
     ((case keyset_Apply k (st (ev_key e)) e of Inl err \<Rightarrow> True | Inr mu \<Rightarrow> \<not> mu_truncated mu)
      \<and> never_truncated k (fold_event (keyset_TargetKey k) (keyset_Apply k) st e) es)"

lemma keyset_run:
  assumes id: "ex_ref (ks_keyTmpl k) = fieldRefKey" "ex_ref (ks_memberTmpl k) = fieldRefMember"
    and m: "0 < ks_maxMembers k"
    and r: "rf_shape r = ShapeSet" "rf_delimiter r = ks_delimiter k"
  shows "agree ValueSet st state \<Longrightarrow> never_truncated k st es \<Longrightarrow>
    agree ValueSet (foldl (fold_event (keyset_TargetKey k) (keyset_Apply k)) st es) (foldl (ref_step r) state es)"
proof (induction es arbitrary: st state)
  case (Cons e es)
  then have "agree ValueSet (fold_event (keyset_TargetKey k) (keyset_Apply k) st e) (ref_step r state e)"
    by (intro keyset_step [OF _ id m r]) auto
  with Cons show ?case by simp
qed simp

lemma agree_final:
  assumes "agree kind st (foldl (ref_step r) [] es)"
  shows "obs_of (st k) = ref_obs (Reference_Fold r es) k"
  using assms by (simp add: Reference_Fold_eq agree_drop_absent agree_obs)

section \<open>Properties\<close>

text \<open>What the constructors build when the configuration names no template.\<close>

lemma newExpander_identity [simp]:
  "newExpander parse ''{{.Key}}'' = Inr \<lparr>ex_tmpl = (\<lambda>d. None), ex_ref = fieldRefKey\<rparr>"
  "newExpander parse ''{{.Member}}'' = Inr \<lparr>ex_tmpl = (\<lambda>d. None), ex_ref = fieldRefMember\<rparr>"
  by (simp_all add: newExpander_def identityFields_def map_get_def)

lemma newScalar_identity:
  "map_get cfg ''keyTemplate'' = None \<Longrightarrow> newScalar parse cfg = Inr s \<Longrightarrow> ex_ref (sc_keyTmpl s) = fieldRefKey"
  by (auto simp: newScalar_def stringConfig_def)

lemma newCounter_identity:
  "map_get cfg ''keyTemplate'' = None \<Longrightarrow> newCounter parse cfg = Inr c \<Longrightarrow> ex_ref (cn_keyTmpl c) = fieldRefKey"
  by (auto simp: newCounter_def stringConfig_def split: sum.splits)

lemma newKeyset_identity:
  assumes "map_get cfg ''keyTemplate'' = None" and "map_get cfg ''memberTemplate'' = None"
    and "newKeysetOwnership parse cfg = Inr k"
  shows "ex_ref (ks_keyTmpl k) = fieldRefKey" and "ex_ref (ks_memberTmpl k) = fieldRefMember"
  using assms by (auto simp: newKeysetOwnership_def stringConfig_def Let_def split: sum.splits if_splits)

text \<open>C19: folding a stream with a \<open>keysetOwnership\<close> projection without templates reaches, at every
  key, the same observable value as the reference fold, provided the member cap was never hit.\<close>

theorem keyset_refines_reference:
  assumes "newKeysetOwnership parse cfg = Inr k"
    and "map_get cfg ''keyTemplate'' = None" and "map_get cfg ''memberTemplate'' = None"
    and "never_truncated k (\<lambda>_. zero_Value) es"
  shows "obs_of (foldl (fold_event (keyset_TargetKey k) (keyset_Apply k)) (\<lambda>_. zero_Value) es key)
    = ref_obs (Reference_Fold (WithDelimiter (NewReference ShapeSet) (ks_delimiter k)) es) key"
proof -
  note id = newKeyset_identity [OF assms(2,3,1)]
  show ?thesis
    by (rule agree_final, rule keyset_run [OF id newKeyset_max [OF assms(1)] _ _ agree_start assms(4)])
      (simp_all add: NewReference_def WithDelimiter_def)
qed

definition sample_stream :: "Event list" where
  "sample_stream =
     [sample_op OpAdd ''k'' ''r1'' None 0, sample_op OpSet ''j'' [] (Some ''a,,b'') 0,
      sample_op OpRemove ''k'' ''r1'' None 0]"

theorem keyset_refines_reference_witness:
  "obs_of (foldl (fold_event (keyset_TargetKey sample_keyset) (keyset_Apply sample_keyset))
      (\<lambda>_. zero_Value) sample_stream ''j'')
    = ref_obs (Reference_Fold (WithDelimiter (NewReference ShapeSet) '','') sample_stream) ''j''"
proof -
  have "never_truncated sample_keyset (\<lambda>_. zero_Value) sample_stream" by code_simp
  then show ?thesis
    using keyset_refines_reference [OF sample_newKeyset, of sample_stream "''j''"]
    by (simp add: map_get_def) (simp add: sample_keyset_def)
qed

text \<open>Folding a stream with a \<open>scalar\<close> projection without a template reaches, at every key, the
  same observable value as the reference fold.\<close>

theorem scalar_refines_reference:
  assumes "newScalar parse cfg = Inr s" and "map_get cfg ''keyTemplate'' = None"
  shows "obs_of (foldl (fold_event (scalar_TargetKey s) (scalar_Apply s)) (\<lambda>_. zero_Value) es key)
    = ref_obs (Reference_Fold (NewReference ShapeScalar) es) key"
  by (rule agree_final, rule agree_run [OF scalar_step agree_start])
    (simp_all add: NewReference_def newScalar_identity [OF assms(2,1)])

theorem scalar_refines_reference_witness:
  "obs_of (foldl (fold_event
      (scalar_TargetKey \<lparr>sc_keyTmpl = \<lparr>ex_tmpl = (\<lambda>d. None), ex_ref = fieldRefKey\<rparr>, sc_ownership = ownershipFrom []\<rparr>)
      (scalar_Apply \<lparr>sc_keyTmpl = \<lparr>ex_tmpl = (\<lambda>d. None), ex_ref = fieldRefKey\<rparr>, sc_ownership = ownershipFrom []\<rparr>))
      (\<lambda>_. zero_Value) sample_stream ''j'')
    = ref_obs (Reference_Fold (NewReference ShapeScalar) sample_stream) ''j''"
  by (rule scalar_refines_reference [of "\<lambda>_. None" "[]"]) (simp_all add: newScalar_def stringConfig_def)

text \<open>Folding a stream with a \<open>counter\<close> projection without a template reaches, at every key, the
  same observable value as the reference fold with the same \<open>incrOnly\<close> declaration, saturation and
  unparsable values included.\<close>

theorem counter_refines_reference:
  assumes "newCounter parse cfg = Inr c" and "map_get cfg ''keyTemplate'' = None"
  shows "obs_of (foldl (fold_event (counter_TargetKey c) (counter_Apply c)) (\<lambda>_. zero_Value) es key)
    = ref_obs (Reference_Fold (WithIncrOnly (NewReference ShapeCounter) (cn_incrOnly c)) es) key"
  by (rule agree_final, rule agree_run [OF counter_step agree_start])
    (simp_all add: NewReference_def WithIncrOnly_def newCounter_identity [OF assms(2,1)])

theorem counter_refines_reference_witness:
  "obs_of (foldl (fold_event
      (counter_TargetKey \<lparr>cn_keyTmpl = \<lparr>ex_tmpl = (\<lambda>d. None), ex_ref = fieldRefKey\<rparr>, cn_incrOnly = False,
        cn_ownership = ownershipFrom []\<rparr>)
      (counter_Apply \<lparr>cn_keyTmpl = \<lparr>ex_tmpl = (\<lambda>d. None), ex_ref = fieldRefKey\<rparr>, cn_incrOnly = False,
        cn_ownership = ownershipFrom []\<rparr>))
      (\<lambda>_. zero_Value) [sample_op OpSet ''k'' [] (Some ''-12'') 0, sample_op OpIncr ''k'' [] None 5] ''k'')
    = ref_obs (Reference_Fold (WithIncrOnly (NewReference ShapeCounter) False)
        [sample_op OpSet ''k'' [] (Some ''-12'') 0, sample_op OpIncr ''k'' [] None 5]) ''k''"
  using counter_refines_reference [of "\<lambda>_. None" "[]"
      "\<lparr>cn_keyTmpl = \<lparr>ex_tmpl = (\<lambda>d. None), ex_ref = fieldRefKey\<rparr>, cn_incrOnly = False,
        cn_ownership = ownershipFrom []\<rparr>"
      "[sample_op OpSet ''k'' [] (Some ''-12'') 0, sample_op OpIncr ''k'' [] None 5]" "''k''"]
  by (simp add: newCounter_def stringConfig_def boolConfig_def)

end
