(* ===== verification/Ring.thy ===== *)
theory Ring
  imports Event SeqTrack
begin

text \<open>
  \<open>pkg/oracle/ring.go\<close>: the bounded per-key history. The ring refines the list of everything
  pushed, cut to its last \<open>capacity\<close> elements.
\<close>

section \<open>State and operations\<close>

record HistoryEntry =
  he_event :: Event
  he_verdict :: Verdict
  he_resultValue :: Value
  he_version :: u64
  he_appliedAt :: time

record ring =
  rg_entries :: "HistoryEntry list"
  rg_capacity :: nat
  rg_next :: nat

definition newRing :: "nat \<Rightarrow> ring" where
  "newRing capacity = \<lparr>rg_entries = [], rg_capacity = capacity, rg_next = 0\<rparr>"

definition ring_push :: "ring \<Rightarrow> HistoryEntry \<Rightarrow> ring" where
  "ring_push r h =
     (if rg_capacity r = 0 then r
      else if length (rg_entries r) < rg_capacity r then
        let es = rg_entries r @ [h] in r\<lparr>rg_entries := es, rg_next := length es mod rg_capacity r\<rparr>
      else
        r\<lparr>rg_entries := (rg_entries r)[rg_next r := h], rg_next := (rg_next r + 1) mod rg_capacity r\<rparr>)"

definition ring_snapshot :: "ring \<Rightarrow> HistoryEntry list" where
  "ring_snapshot r =
     (let n = length (rg_entries r);
          start = (if n = rg_capacity r then rg_next r else 0)
      in if n = 0 then []
         else map (\<lambda>i. let h = rg_entries r ! ((start + i) mod n)
                       in h\<lparr>he_resultValue := Value_Clone (he_resultValue h)\<rparr>) [0..<n])"

section \<open>A bounded log\<close>

definition last_n :: "nat \<Rightarrow> 'a list \<Rightarrow> 'a list" where
  "last_n n xs = drop (length xs - n) xs"

lemma last_n_snoc: "last_n n (last_n n xs @ [x]) = last_n n (xs @ [x])"
proof (cases n)
  case (Suc m)
  have "length xs - (length xs - n + m) + (length xs - n) = length xs - m" using Suc by linarith
  with Suc show ?thesis by (simp add: last_n_def)
qed (simp add: last_n_def)

lemma length_last_n: "length (last_n n xs) = min n (length xs)"
  by (auto simp: last_n_def)

text \<open>The contract \<open>explain\<close> relies on: what is read back is the end of what was pushed.\<close>

locale bounded_log =
  fixes push :: "'r \<Rightarrow> 'a \<Rightarrow> 'r" and snapshot :: "'r \<Rightarrow> 'a list"
    and cap :: "'r \<Rightarrow> nat" and invar :: "'r \<Rightarrow> bool"
  assumes push_invar: "invar r \<Longrightarrow> invar (push r h)"
    and push_cap: "invar r \<Longrightarrow> cap (push r h) = cap r"
    and push_snapshot: "invar r \<Longrightarrow> snapshot (push r h) = last_n (cap r) (snapshot r @ [h])"

context bounded_log
begin

lemma pushes:
  "invar r \<Longrightarrow> snapshot r = last_n (cap r) hs0 \<Longrightarrow>
    snapshot (foldl push r hs) = last_n (cap r) (hs0 @ hs) \<and> invar (foldl push r hs)
    \<and> cap (foldl push r hs) = cap r"
proof (induction hs arbitrary: r hs0)
  case (Cons h hs)
  have "snapshot (push r h) = last_n (cap (push r h)) (hs0 @ [h])"
    using Cons.prems by (simp add: push_snapshot push_cap last_n_snoc)
  from Cons.IH [OF push_invar [OF Cons.prems(1)] this] show ?case
    using Cons.prems by (simp add: push_cap)
qed simp

end

section \<open>The ring keeps it\<close>

definition ring_ok :: "ring \<Rightarrow> bool" where
  "ring_ok r \<longleftrightarrow> length (rg_entries r) \<le> rg_capacity r
     \<and> (length (rg_entries r) = rg_capacity r \<longrightarrow> rg_next r < rg_capacity r \<or> rg_capacity r = 0)"

lemma clone_history [simp]: "h\<lparr>he_resultValue := Value_Clone (he_resultValue h)\<rparr> = (h :: HistoryEntry)"
  by simp

lemma rotate_map_nth:
  assumes "k < length xs"
  shows "map (\<lambda>i. xs ! ((k + i) mod length xs)) [0..<length xs] = drop k xs @ take k xs"
proof -
  have "map (\<lambda>i. xs ! ((k + i) mod length xs)) [0..<length xs] = rotate k xs"
    by (rule nth_equalityI) (simp_all add: nth_rotate add.commute)
  then show ?thesis using assms by (simp add: rotate_drop_take)
qed

lemma ring_snapshot_eq:
  assumes "ring_ok r"
  shows "ring_snapshot r =
    (if length (rg_entries r) = rg_capacity r then drop (rg_next r) (rg_entries r) @ take (rg_next r) (rg_entries r)
     else rg_entries r)"
proof (cases "length (rg_entries r) = rg_capacity r")
  case True
  then show ?thesis
    using assms rotate_map_nth [of "rg_next r" "rg_entries r"]
    by (auto simp: ring_snapshot_def ring_ok_def Let_def)
next
  case False
  have "map (\<lambda>i. rg_entries r ! (i mod length (rg_entries r))) [0..<length (rg_entries r)] = rg_entries r"
    by (rule nth_equalityI) simp_all
  with False show ?thesis by (simp add: ring_snapshot_def Let_def)
qed

lemma drop_take_update:
  assumes "k < length xs"
  shows "drop (Suc k) (xs[k := h]) @ take (Suc k) (xs[k := h]) = drop 1 (drop k xs @ take k xs) @ [h]"
  using assms by (simp add: take_Suc_conv_app_nth Cons_nth_drop_Suc [symmetric])

lemma ring_push_snapshot:
  assumes ok: "ring_ok r"
  shows "ring_snapshot (ring_push r h) = last_n (rg_capacity r) (ring_snapshot r @ [h])"
    and "ring_ok (ring_push r h)" and "rg_capacity (ring_push r h) = rg_capacity r"
proof -
  let ?n = "length (rg_entries r)" and ?c = "rg_capacity r"
  consider "?c = 0" | "?c \<noteq> 0" "?n < ?c" | "?c \<noteq> 0" "?n = ?c"
    using ok unfolding ring_ok_def by linarith
  then have "ring_snapshot (ring_push r h) = last_n ?c (ring_snapshot r @ [h])
      \<and> ring_ok (ring_push r h) \<and> rg_capacity (ring_push r h) = ?c"
  proof cases
    case 1
    then show ?thesis using ok by (simp add: ring_push_def ring_snapshot_eq ring_ok_def last_n_def)
  next
    case 2
    then have ok': "ring_ok (ring_push r h)" by (auto simp: ring_push_def ring_ok_def Let_def)
    have "ring_snapshot (ring_push r h) = rg_entries r @ [h]"
      using 2 by (subst ring_snapshot_eq [OF ok']) (auto simp: ring_push_def Let_def Suc_le_eq)
    then show ?thesis using 2 ok ok' by (simp add: ring_snapshot_eq ring_push_def last_n_def Let_def)
  next
    case 3
    then have nx: "rg_next r < length (rg_entries r)" using ok by (auto simp: ring_ok_def)
    from 3 have ok': "ring_ok (ring_push r h)" by (auto simp: ring_push_def ring_ok_def)
    have "ring_snapshot (ring_push r h) = drop (Suc (rg_next r)) ((rg_entries r)[rg_next r := h])
        @ take (Suc (rg_next r)) ((rg_entries r)[rg_next r := h])"
      using 3 nx
      by (subst ring_snapshot_eq [OF ok']) (cases "Suc (rg_next r) = ?n"; simp add: ring_push_def)
    then have "ring_snapshot (ring_push r h) = drop 1 (ring_snapshot r) @ [h]"
      using 3(2) ok by (simp only: drop_take_update [OF nx] ring_snapshot_eq if_True refl)
    moreover have "length (ring_snapshot r) = ?c" using 3 nx ok by (simp add: ring_snapshot_eq)
    ultimately show ?thesis
      using 3 ok' by (auto simp: last_n_def ring_push_def Suc_diff_le neq_Nil_conv)
  qed
  then show "ring_snapshot (ring_push r h) = last_n ?c (ring_snapshot r @ [h])"
    and "ring_ok (ring_push r h)" and "rg_capacity (ring_push r h) = ?c" by auto
qed

interpretation history: bounded_log ring_push ring_snapshot rg_capacity ring_ok
  by unfold_locales (simp_all add: ring_push_snapshot)

lemma newRing_ok [simp, wf_intros]: "ring_ok (newRing n)"
  by (simp add: ring_ok_def newRing_def)

lemma newRing_capacity [simp]: "rg_capacity (newRing n) = n"
  by (simp add: newRing_def)

lemma newRing_snapshot [simp]: "ring_snapshot (newRing n) = []"
  by (simp add: ring_snapshot_def newRing_def)

text \<open>After any number of pushes into a new ring, \<open>snapshot\<close> returns the last \<open>capacity\<close> pushed
  entries, oldest first.\<close>

theorem ring_keeps_last:
  "ring_snapshot (foldl ring_push (newRing capacity) hs) = last_n capacity hs"
  using history.pushes [OF newRing_ok, of capacity "[]" hs] 
  by (simp add: newRing_capacity last_n_def)

end
