(* ===== verification/Shard.thy ===== *)
theory Shard
  imports Ring
begin

text \<open>
  \<open>pkg/oracle/entry.go\<close>, \<open>shard.go\<close>, \<open>settle.go\<close> and \<open>evict.go\<close>: one lock domain of the oracle, with
  its entries, the settlement index over them, the cached trust cardinalities and eviction. An
  \<open>*entry\<close> of the code is a value here; an operation that writes through the pointer returns the
  new entry, and its caller stores it back.
\<close>

section \<open>Entries\<close>

record entry =
  en_key :: string
  en_value :: Value
  en_version :: u64
  en_trust :: TrustState
  en_lastEventAt :: time
  en_lastValueChangeAt :: time
  en_lastSeq :: u64
  en_lastEpoch :: u64
  en_lastPublisher :: string
  en_ttl :: "duration option"
  en_truncated :: bool
  en_createdAt :: time
  en_gen :: u64
  en_bucket :: int
  en_ring :: ring

text \<open>\<open>&entry{key: key, createdAt: at, ring: newRing(size)}\<close>.\<close>

definition new_entry :: "string \<Rightarrow> time \<Rightarrow> int \<Rightarrow> entry" where
  "new_entry key at ringSize =
     \<lparr>en_key = key, en_value = zero_Value, en_version = 0, en_trust = TrustComplete,
      en_lastEventAt = 0, en_lastValueChangeAt = 0, en_lastSeq = 0, en_lastEpoch = 0,
      en_lastPublisher = [], en_ttl = None, en_truncated = False, en_createdAt = at,
      en_gen = 0, en_bucket = 0, en_ring = newRing (nat ringSize)\<rparr>"

text \<open>The snapshot handed out to callers.\<close>

record Entry =
  eo_key :: string
  eo_value :: Value
  eo_version :: u64
  eo_trust :: TrustState
  eo_lastEventAt :: time
  eo_lastValueChangeAt :: time
  eo_lastSeq :: u64
  eo_lastEpoch :: u64
  eo_lastPublisher :: string
  eo_ttl :: "duration option"
  eo_expired :: bool
  eo_truncated :: bool
  eo_createdAt :: time

definition entry_snapshot :: "entry \<Rightarrow> TrustState \<Rightarrow> Entry" where
  "entry_snapshot e trust =
     \<lparr>eo_key = en_key e, eo_value = Value_Clone (en_value e), eo_version = en_version e,
      eo_trust = trust, eo_lastEventAt = en_lastEventAt e,
      eo_lastValueChangeAt = en_lastValueChangeAt e, eo_lastSeq = en_lastSeq e,
      eo_lastEpoch = en_lastEpoch e, eo_lastPublisher = en_lastPublisher e, eo_ttl = en_ttl e,
      eo_expired = False, eo_truncated = en_truncated e, eo_createdAt = en_createdAt e\<rparr>"

definition Entry_IsAbsent :: "Entry \<Rightarrow> bool" where
  "Entry_IsAbsent e = IsAbsent (eo_value e)"

definition effectiveTrust :: "entry \<Rightarrow> u64 \<Rightarrow> TrustState" where
  "effectiveTrust e floor =
     (if en_trust e = TrustComplete \<and> en_gen e < floor then TrustSuspect else en_trust e)"

definition expired :: "entry \<Rightarrow> time \<Rightarrow> bool" where
  "expired e now =
     (case en_ttl e of
        None \<Rightarrow> False
      | Some ttl \<Rightarrow>
          if ttl \<le> 0 \<or> en_lastEventAt e = 0 then False else en_lastEventAt e + ttl < now)"

section \<open>The shard\<close>

record shard =
  sh_entries :: "(string, entry) go_map"
  sh_buckets :: "(int, string go_set) go_map"
  sh_settled :: "string go_set"
  sh_bucketWidth :: duration
  sh_maxKeys :: int
  sh_fresh :: int
  sh_adopted :: int
  sh_suspect :: int
  sh_truncated :: int
  sh_evictions :: u64

definition newShard :: "duration \<Rightarrow> int \<Rightarrow> shard" where
  "newShard bucketWidth maxKeys =
     \<lparr>sh_entries = [], sh_buckets = [], sh_settled = [], sh_bucketWidth = bucketWidth,
      sh_maxKeys = maxKeys, sh_fresh = 0, sh_adopted = 0, sh_suspect = 0, sh_truncated = 0,
      sh_evictions = 0\<rparr>"

definition forget :: "shard \<Rightarrow> entry \<Rightarrow> u64 \<Rightarrow> shard" where
  "forget s e floor =
     (let s' = (if en_trust e = TrustAdopted then s\<lparr>sh_adopted := sh_adopted s - 1\<rparr>
                else if en_trust e = TrustSuspect then s\<lparr>sh_suspect := sh_suspect s - 1\<rparr>
                else if floor \<le> en_gen e then s\<lparr>sh_fresh := sh_fresh s - 1\<rparr>
                else s)
      in if en_truncated e then s'\<lparr>sh_truncated := sh_truncated s' - 1\<rparr> else s')"

definition remember :: "shard \<Rightarrow> entry \<Rightarrow> u64 \<Rightarrow> shard" where
  "remember s e floor =
     (let s' = (if en_trust e = TrustAdopted then s\<lparr>sh_adopted := sh_adopted s + 1\<rparr>
                else if en_trust e = TrustSuspect then s\<lparr>sh_suspect := sh_suspect s + 1\<rparr>
                else if floor \<le> en_gen e then s\<lparr>sh_fresh := sh_fresh s + 1\<rparr>
                else s)
      in if en_truncated e then s'\<lparr>sh_truncated := sh_truncated s' + 1\<rparr> else s')"

definition suspectCount :: "shard \<Rightarrow> int" where
  "suspectCount s =
     sh_suspect s + (int (length (sh_entries s)) - sh_adopted s - sh_suspect s - sh_fresh s)"

definition recount :: "shard \<Rightarrow> u64 \<Rightarrow> shard" where
  "recount s floor =
     foldl (\<lambda>s kv. remember s (snd kv) floor)
       (s\<lparr>sh_fresh := 0, sh_adopted := 0, sh_suspect := 0, sh_truncated := 0\<rparr>) (sh_entries s)"

section \<open>The settlement index\<close>

text \<open>\<open>Time.UnixNano\<close>: nanoseconds since 1970, wrapped to 64 bits outside its range.\<close>

definition unix_offset :: int where
  "unix_offset = 62135596800000000000"

definition unixNano :: "time \<Rightarrow> int" where
  "unixNano t = wrap_i64 (t - unix_offset)"

definition bucketOf :: "shard \<Rightarrow> time \<Rightarrow> int" where
  "bucketOf s at = go_div (unixNano at) (sh_bucketWidth s)"

definition inBuckets :: "shard \<Rightarrow> entry \<Rightarrow> bool" where
  "inBuckets s e =
     (case map_get (sh_buckets s) (en_bucket e) of
        None \<Rightarrow> False
      | Some keys \<Rightarrow> en_key e \<in> set keys)"

definition removeFromIndex :: "shard \<Rightarrow> entry \<Rightarrow> shard" where
  "removeFromIndex s e =
     (let s' =
        (case map_get (sh_buckets s) (en_bucket e) of
           None \<Rightarrow> s
         | Some keys \<Rightarrow>
             let keys' = set_del (en_key e) keys
             in if length keys' = 0 then s\<lparr>sh_buckets := map_del (en_bucket e) (sh_buckets s)\<rparr>
                else s\<lparr>sh_buckets := map_put (en_bucket e) keys' (sh_buckets s)\<rparr>)
      in s'\<lparr>sh_settled := set_del (en_key e) (sh_settled s')\<rparr>)"

definition place :: "shard \<Rightarrow> entry \<Rightarrow> time \<Rightarrow> shard \<times> entry" where
  "place s e at =
     (let b = bucketOf s at
      in if en_bucket e = b \<and> inBuckets s e then (s, e)
         else
           let s' = removeFromIndex s e;
               e' = e\<lparr>en_bucket := b\<rparr>;
               keys = (case map_get (sh_buckets s') b of None \<Rightarrow> [] | Some keys \<Rightarrow> keys)
           in (s'\<lparr>sh_buckets := map_put b (set_add (en_key e) keys) (sh_buckets s')\<rparr>, e'))"

text \<open>The body of the loop of \<open>promote\<close> for one bucket past the horizon, and the loop.\<close>

definition promote_one :: "shard \<Rightarrow> int \<times> string go_set \<Rightarrow> shard" where
  "promote_one s bk = s\<lparr>sh_settled := foldl (\<lambda>set k. set_add k set) (sh_settled s) (snd bk),
     sh_buckets := map_del (fst bk) (sh_buckets s)\<rparr>"

definition promote :: "shard \<Rightarrow> time \<Rightarrow> duration \<Rightarrow> shard" where
  "promote s now maxWindow =
     (let horizon = bucketOf s (now - maxWindow)
      in foldl (\<lambda>s bk. if horizon \<le> fst bk then s else promote_one s bk) s (sh_buckets s))"

definition isSettled :: "entry \<Rightarrow> time \<Rightarrow> duration \<Rightarrow> duration \<Rightarrow> bool" where
  "isSettled e now w neverSettled \<longleftrightarrow>
     en_lastEventAt e < now - w
     \<or> (en_lastValueChangeAt e \<noteq> 0 \<and> en_lastValueChangeAt e < now - neverSettled)"

definition settledKeys :: "shard \<Rightarrow> time \<Rightarrow> duration \<Rightarrow> duration \<Rightarrow> string list" where
  "settledKeys s now w neverSettled =
     sh_settled s
     @ concat (map (\<lambda>bk. filter (\<lambda>k.
          case map_get (sh_entries s) k of None \<Rightarrow> False | Some e \<Rightarrow> isSettled e now w neverSettled)
          (snd bk)) (sh_buckets s))"

text \<open>\<open>countSettled\<close>: how many keys are settled, and how many are beyond rescue.\<close>

definition countSettled :: "shard \<Rightarrow> time \<Rightarrow> duration \<Rightarrow> duration \<Rightarrow> int \<times> int" where
  "countSettled s now w neverSettled =
     foldl (\<lambda>acc bk. foldl (\<lambda>(settled, never) k.
          case map_get (sh_entries s) k of
            None \<Rightarrow> (settled, never)
          | Some e \<Rightarrow>
              if isSettled e now w neverSettled then (settled + 1, never)
              else if en_createdAt e < now - neverSettled then (settled, never + 1)
              else (settled, never)) acc (snd bk))
       (int (length (sh_settled s)), 0) (sh_buckets s)"

fun oldest_bucket :: "(int, string go_set) go_map \<Rightarrow> int \<Rightarrow> string option \<Rightarrow> string option" where
  "oldest_bucket [] oldest found = found"
| "oldest_bucket ((b, keys) # rest) oldest found =
     (if oldest < b then oldest_bucket rest oldest found
      else
        (case keys of
           [] \<Rightarrow> oldest_bucket rest oldest found
         | k # ks \<Rightarrow> oldest_bucket rest b (Some k)))"

definition oldestIndexed :: "shard \<Rightarrow> string option" where
  "oldestIndexed s =
     (case sh_settled s of
        k # ks \<Rightarrow> Some k
      | [] \<Rightarrow> oldest_bucket (sh_buckets s) max_i64 None)"

section \<open>Removal and eviction\<close>

definition shard_drop :: "shard \<Rightarrow> entry \<Rightarrow> u64 \<Rightarrow> shard" where
  "shard_drop s e floor =
     (let s' = removeFromIndex (forget s e floor) e
      in s'\<lparr>sh_entries := map_del (en_key e) (sh_entries s')\<rparr>)"

definition evictOneLocked :: "shard \<Rightarrow> u64 \<Rightarrow> shard \<times> string option" where
  "evictOneLocked s floor =
     (let victim =
        (case oldestIndexed s of
           Some k \<Rightarrow> Some k
         | None \<Rightarrow> (case sh_entries s of [] \<Rightarrow> None | kv # rest \<Rightarrow> Some (fst kv)))
      in case victim of
           None \<Rightarrow> (s, None)
         | Some k \<Rightarrow>
             (case map_get (sh_entries s) k of
                None \<Rightarrow> (s, None)
              | Some ent \<Rightarrow>
                  let s' = shard_drop s ent floor
                  in (s'\<lparr>sh_evictions := sh_evictions s' + 1\<rparr>, Some k)))"

section \<open>The index invariant\<close>

text \<open>
  \<open>B\<close> is the bucket each tracked key believes it is in. The index is right for \<open>B\<close> when every
  tracked key is in the settled set or in its bucket and nothing else is anywhere.
\<close>

definition in_bucket :: "(int, string go_set) go_map \<Rightarrow> string \<Rightarrow> int \<Rightarrow> bool" where
  "in_bucket bs k b \<longleftrightarrow> (\<exists>ks. map_get bs b = Some ks \<and> k \<in> set ks)"

definition idx_ok :: "(int, string go_set) go_map \<Rightarrow> string go_set \<Rightarrow> (string \<Rightarrow> int option) \<Rightarrow> bool" where
  "idx_ok bs st B \<longleftrightarrow> wf_map bs \<and> wf_set st
     \<and> (\<forall>b ks. map_get bs b = Some ks \<longrightarrow> ks \<noteq> [] \<and> wf_set ks)
     \<and> (\<forall>k b. in_bucket bs k b \<longrightarrow> k \<notin> set st \<and> B k = Some b)
     \<and> (\<forall>k b. B k = Some b \<longrightarrow> k \<in> set st \<or> in_bucket bs k b)
     \<and> (\<forall>k \<in> set st. B k \<noteq> None)"

definition bucket_map :: "(string, entry) go_map \<Rightarrow> string \<Rightarrow> int option" where
  "bucket_map m k = map_option en_bucket (map_get m k)"

lemma in_bucket_put [simp]:
  "in_bucket (map_put b ks bs) k b' \<longleftrightarrow> (if b' = b then k \<in> set ks else in_bucket bs k b')"
  by (simp add: in_bucket_def)

lemma in_bucket_del [simp]: "in_bucket (map_del b bs) k b' \<longleftrightarrow> b' \<noteq> b \<and> in_bucket bs k b'"
  by (simp add: in_bucket_def)

lemma removeFromIndex_fields [simp]:
  "sh_entries (removeFromIndex s e) = sh_entries s" "sh_bucketWidth (removeFromIndex s e) = sh_bucketWidth s"
  "sh_maxKeys (removeFromIndex s e) = sh_maxKeys s" "sh_fresh (removeFromIndex s e) = sh_fresh s"
  "sh_adopted (removeFromIndex s e) = sh_adopted s" "sh_suspect (removeFromIndex s e) = sh_suspect s"
  "sh_truncated (removeFromIndex s e) = sh_truncated s"
  by (simp_all add: removeFromIndex_def Let_def split: option.splits)

lemma removeFromIndex_settled [simp]:
  "sh_settled (removeFromIndex s e) = set_del (en_key e) (sh_settled s)"
  by (simp add: removeFromIndex_def Let_def split: option.splits)

lemma removeFromIndex_idx:
  assumes idx: "idx_ok (sh_buckets s) (sh_settled s) B"
    and B: "B (en_key e) = None \<or> B (en_key e) = Some (en_bucket e)"
  shows "idx_ok (sh_buckets (removeFromIndex s e)) (sh_settled (removeFromIndex s e)) (B(en_key e := None))"
proof -
  define bs where "bs = sh_buckets (removeFromIndex s e)"
  have ib: "in_bucket bs k b \<longleftrightarrow> in_bucket (sh_buckets s) k b \<and> \<not> (k = en_key e \<and> b = en_bucket e)" for k b
    by (auto simp: bs_def removeFromIndex_def Let_def in_bucket_def set_del_Nil split: option.splits if_splits)
  have wf: "wf_map bs" "map_get bs b = Some ks \<Longrightarrow> ks \<noteq> [] \<and> wf_set ks" for b ks
    using idx by (auto simp: idx_ok_def bs_def removeFromIndex_def Let_def wf_map_put wf_map_del wf_set_del
        split: option.splits if_splits)
  show ?thesis
    unfolding idx_ok_def bs_def [symmetric]
    using idx B wf by (auto simp: idx_ok_def ib wf_set_del)
qed

lemma idx_ok_insert:
  assumes idx: "idx_ok bs st B" and k: "B k = None"
  shows "idx_ok (map_put b (set_add k (case map_get bs b of None \<Rightarrow> [] | Some ks \<Rightarrow> ks)) bs) st (B(k \<mapsto> b))"
proof -
  define ks where "ks = (case map_get bs b of None \<Rightarrow> [] | Some ks \<Rightarrow> ks)"
  have ks: "k' \<in> set ks \<longleftrightarrow> in_bucket bs k' b" for k'
    by (cases "map_get bs b") (auto simp: ks_def in_bucket_def)
  have wf: "wf_set ks" using idx by (auto simp: idx_ok_def ks_def split: option.splits)
  have kst: "k \<notin> set st" and kb: "\<not> in_bucket bs k b'" for b' using idx k by (auto simp: idx_ok_def)
  show ?thesis
    unfolding ks_def [symmetric]
    using idx k kst kb wf by (auto simp: idx_ok_def ks wf_map_put wf_set_add set_add_def)
qed

lemma place_fields:
  "sh_entries (fst (place s e at)) = sh_entries s" "sh_bucketWidth (fst (place s e at)) = sh_bucketWidth s"
  "sh_maxKeys (fst (place s e at)) = sh_maxKeys s" "sh_fresh (fst (place s e at)) = sh_fresh s"
  "sh_adopted (fst (place s e at)) = sh_adopted s" "sh_suspect (fst (place s e at)) = sh_suspect s"
  "sh_truncated (fst (place s e at)) = sh_truncated s"
  "snd (place s e at) = e\<lparr>en_bucket := bucketOf s at\<rparr>"
  by (simp_all add: place_def Let_def)

lemma place_idx:
  assumes idx: "idx_ok (sh_buckets s) (sh_settled s) B"
    and B: "B (en_key e) = None \<or> B (en_key e) = Some (en_bucket e)"
  shows "idx_ok (sh_buckets (fst (place s e at))) (sh_settled (fst (place s e at)))
      (B(en_key e \<mapsto> bucketOf s at))"
    and "set (sh_settled (fst (place s e at))) \<subseteq> set (sh_settled s) - {en_key e}"
proof -
  have "idx_ok (sh_buckets (fst (place s e at))) (sh_settled (fst (place s e at)))
      (B(en_key e \<mapsto> bucketOf s at)) \<and> set (sh_settled (fst (place s e at))) \<subseteq> set (sh_settled s) - {en_key e}"
  proof (cases "en_bucket e = bucketOf s at \<and> inBuckets s e")
    case True
    then have ib: "in_bucket (sh_buckets s) (en_key e) (bucketOf s at)"
      by (auto simp: inBuckets_def in_bucket_def split: option.splits)
    then have "B (en_key e) = Some (bucketOf s at)" "en_key e \<notin> set (sh_settled s)"
      using idx unfolding idx_ok_def by blast+
    then show ?thesis using True idx by (simp add: place_def fun_upd_idem)
  next
    case False
    note r = removeFromIndex_idx [OF idx B]
    from idx_ok_insert [OF r, of "en_key e" "bucketOf s at"]
    show ?thesis using False by (auto simp: place_def Let_def)
  qed
  then show "idx_ok (sh_buckets (fst (place s e at))) (sh_settled (fst (place s e at)))
      (B(en_key e \<mapsto> bucketOf s at))"
    and "set (sh_settled (fst (place s e at))) \<subseteq> set (sh_settled s) - {en_key e}" by auto
qed

text \<open>Promotion moves whole buckets into the settled set.\<close>

lemma foldl_set_add: "set (foldl (\<lambda>set k. set_add k set) st ks) = set st \<union> set ks"
  by (induction ks arbitrary: st) auto

lemma foldl_set_add_wf: "wf_set st \<Longrightarrow> wf_set (foldl (\<lambda>set k. set_add k set) st ks)"
  by (induction ks arbitrary: st) (auto simp: wf_set_add)

lemma promote_one_idx:
  assumes idx: "idx_ok (sh_buckets s) (sh_settled s) B" and bk: "map_get (sh_buckets s) b = Some ks"
  shows "idx_ok (sh_buckets (promote_one s (b, ks))) (sh_settled (promote_one s (b, ks))) B"
proof -
  have ks: "k \<in> set ks \<longleftrightarrow> in_bucket (sh_buckets s) k b" for k using bk by (auto simp: in_bucket_def)
  have uniq: "b' = b" if "in_bucket (sh_buckets s) k b'" "in_bucket (sh_buckets s) k b" for k b'
    using idx that unfolding idx_ok_def by (metis option.inject)
  show ?thesis
    using idx uniq
    by (auto simp: idx_ok_def promote_one_def foldl_set_add ks wf_map_del foldl_set_add_wf split: if_splits)
qed

lemma promote_foldl:
  fixes h :: int
  defines "step \<equiv> (\<lambda>s bk. if h \<le> fst bk then s else promote_one s bk)"
  assumes "wf_map bs" and "\<forall>bk \<in> set bs. map_get (sh_buckets s) (fst bk) = Some (snd bk)"
    and "idx_ok (sh_buckets s) (sh_settled s) B"
  shows "idx_ok (sh_buckets (foldl step s bs)) (sh_settled (foldl step s bs)) B
    \<and> set (sh_settled (foldl step s bs)) = set (sh_settled s) \<union> {k. \<exists>bk \<in> set bs. fst bk < h \<and> k \<in> set (snd bk)}
    \<and> sh_entries (foldl step s bs) = sh_entries s \<and> sh_bucketWidth (foldl step s bs) = sh_bucketWidth s
    \<and> sh_maxKeys (foldl step s bs) = sh_maxKeys s \<and> sh_fresh (foldl step s bs) = sh_fresh s
    \<and> sh_adopted (foldl step s bs) = sh_adopted s \<and> sh_suspect (foldl step s bs) = sh_suspect s
    \<and> sh_truncated (foldl step s bs) = sh_truncated s"
  using assms(2-4)
proof (induction bs arbitrary: s)
  case (Cons bk bs)
  define s' where "s' = step s bk"
  have idx: "idx_ok (sh_buckets s') (sh_settled s') B"
    using promote_one_idx [OF Cons.prems(3), of "fst bk" "snd bk"] Cons.prems by (auto simp: s'_def step_def)
  have rest: "\<forall>b \<in> set bs. map_get (sh_buckets s') (fst b) = Some (snd b)"
    using Cons.prems by (auto simp: s'_def step_def promote_one_def rev_image_eqI)
  have s'_fields: "set (sh_settled s') = set (sh_settled s) \<union> (if fst bk < h then set (snd bk) else {})"
    "sh_entries s' = sh_entries s" "sh_bucketWidth s' = sh_bucketWidth s" "sh_maxKeys s' = sh_maxKeys s"
    "sh_fresh s' = sh_fresh s" "sh_adopted s' = sh_adopted s" "sh_suspect s' = sh_suspect s"
    "sh_truncated s' = sh_truncated s"
    by (auto simp: s'_def step_def promote_one_def foldl_set_add)
  from Cons.IH [OF _ rest idx] Cons.prems(1) show ?case
    by (auto simp: s'_def [symmetric] s'_fields)
qed simp

section \<open>The cached cardinalities\<close>

definition is_fresh :: "u64 \<Rightarrow> entry \<Rightarrow> bool" where
  "is_fresh floor e \<longleftrightarrow> en_trust e = TrustComplete \<and> floor \<le> en_gen e"

definition counts_ok :: "u64 \<Rightarrow> shard \<Rightarrow> bool" where
  "counts_ok floor s \<longleftrightarrow>
     sh_fresh s = count_if (is_fresh floor) (sh_entries s)
     \<and> sh_adopted s = count_if (\<lambda>e. en_trust e = TrustAdopted) (sh_entries s)
     \<and> sh_suspect s = count_if (\<lambda>e. en_trust e = TrustSuspect) (sh_entries s)
     \<and> sh_truncated s = count_if en_truncated (sh_entries s)"

lemma trust_cases: "t = TrustComplete \<or> t = TrustSuspect \<or> t = TrustAdopted"
  by (cases t) auto

lemma remember_fields [simp]:
  "sh_entries (remember s e f) = sh_entries s" "sh_buckets (remember s e f) = sh_buckets s"
  "sh_settled (remember s e f) = sh_settled s" "sh_bucketWidth (remember s e f) = sh_bucketWidth s"
  "sh_maxKeys (remember s e f) = sh_maxKeys s" "sh_evictions (remember s e f) = sh_evictions s"
  "sh_fresh (remember s e f) = sh_fresh s + (if is_fresh f e then 1 else 0)"
  "sh_adopted (remember s e f) = sh_adopted s + (if en_trust e = TrustAdopted then 1 else 0)"
  "sh_suspect (remember s e f) = sh_suspect s + (if en_trust e = TrustSuspect then 1 else 0)"
  "sh_truncated (remember s e f) = sh_truncated s + (if en_truncated e then 1 else 0)"
  using trust_cases [of "en_trust e"] by (auto simp: remember_def Let_def is_fresh_def)

lemma forget_fields [simp]:
  "sh_entries (forget s e f) = sh_entries s" "sh_buckets (forget s e f) = sh_buckets s"
  "sh_settled (forget s e f) = sh_settled s" "sh_bucketWidth (forget s e f) = sh_bucketWidth s"
  "sh_maxKeys (forget s e f) = sh_maxKeys s" "sh_evictions (forget s e f) = sh_evictions s"
  "sh_fresh (forget s e f) = sh_fresh s - (if is_fresh f e then 1 else 0)"
  "sh_adopted (forget s e f) = sh_adopted s - (if en_trust e = TrustAdopted then 1 else 0)"
  "sh_suspect (forget s e f) = sh_suspect s - (if en_trust e = TrustSuspect then 1 else 0)"
  "sh_truncated (forget s e f) = sh_truncated s - (if en_truncated e then 1 else 0)"
  using trust_cases [of "en_trust e"] by (auto simp: forget_def Let_def is_fresh_def)

lemma recount_foldl:
  "sh_fresh (foldl (\<lambda>s kv. remember s (snd kv) f) s m) = sh_fresh s + count_if (is_fresh f) m
    \<and> sh_adopted (foldl (\<lambda>s kv. remember s (snd kv) f) s m) = sh_adopted s + count_if (\<lambda>e. en_trust e = TrustAdopted) m
    \<and> sh_suspect (foldl (\<lambda>s kv. remember s (snd kv) f) s m) = sh_suspect s + count_if (\<lambda>e. en_trust e = TrustSuspect) m
    \<and> sh_truncated (foldl (\<lambda>s kv. remember s (snd kv) f) s m) = sh_truncated s + count_if en_truncated m"
  by (induction m arbitrary: s) auto

lemma recount_fields [simp]:
  "sh_entries (recount s f) = sh_entries s" "sh_buckets (recount s f) = sh_buckets s"
  "sh_settled (recount s f) = sh_settled s" "sh_bucketWidth (recount s f) = sh_bucketWidth s"
  "sh_maxKeys (recount s f) = sh_maxKeys s" "sh_evictions (recount s f) = sh_evictions s"
  unfolding recount_def by (subst foldl_keeps; simp)+

lemma recount_counts: "counts_ok f (recount s f)"
proof -
  let ?z = "s\<lparr>sh_fresh := 0, sh_adopted := 0, sh_suspect := 0, sh_truncated := 0\<rparr>"
  show ?thesis
    unfolding counts_ok_def recount_fields
    using recount_foldl [of f ?z "sh_entries s"] by (simp add: recount_def)
qed

section \<open>The invariant of a shard\<close>

definition ents_ok :: "(string, entry) go_map \<Rightarrow> bool" where
  "ents_ok m \<longleftrightarrow> wf_map m \<and> (\<forall>k e. map_get m k = Some e \<longrightarrow> en_key e = k \<and> ring_ok (en_ring e))"

definition shard_ok :: "u64 \<Rightarrow> shard \<Rightarrow> bool" where
  "shard_ok floor s \<longleftrightarrow> 0 < sh_bucketWidth s \<and> 0 < sh_maxKeys s
     \<and> int (length (sh_entries s)) \<le> sh_maxKeys s
     \<and> ents_ok (sh_entries s) \<and> counts_ok floor s
     \<and> idx_ok (sh_buckets s) (sh_settled s) (bucket_map (sh_entries s))"

lemma shard_okD:
  assumes "shard_ok floor s"
  shows "ents_ok (sh_entries s)" "counts_ok floor s"
    "idx_ok (sh_buckets s) (sh_settled s) (bucket_map (sh_entries s))" "wf_map (sh_entries s)"
  using assms by (auto simp: shard_ok_def ents_ok_def)

lemma newShard_ok [wf_intros]: "0 < w \<Longrightarrow> 0 < m \<Longrightarrow> shard_ok floor (newShard w m)"
  by (simp add: shard_ok_def newShard_def ents_ok_def counts_ok_def idx_ok_def in_bucket_def bucket_map_def)

lemma ents_ok_put: "ents_ok m \<Longrightarrow> en_key e = k \<Longrightarrow> ring_ok (en_ring e) \<Longrightarrow> ents_ok (map_put k e m)"
  by (simp add: ents_ok_def wf_map_put)

lemma bucket_map_put [simp]: "bucket_map (map_put k e m) = (bucket_map m)(k \<mapsto> en_bucket e)"
  by (rule ext) (simp add: bucket_map_def)

lemma bucket_map_del [simp]: "bucket_map (map_del k m) = (bucket_map m)(k := None)"
  by (rule ext) (simp add: bucket_map_def)

text \<open>
  The write shared by \<open>Apply\<close> and \<open>AdoptSnapshot\<close>: the old entry is forgotten, the new one is
  remembered, placed and stored. \<open>e0\<close> is what the map holds under the key (a fresh entry was put
  there, and remembered, just before).
\<close>

definition shard_write :: "shard \<Rightarrow> entry \<Rightarrow> entry \<Rightarrow> u64 \<Rightarrow> time \<Rightarrow> shard" where
  "shard_write s e0 e1 floor at =
     (case place (remember (forget s e0 floor) e1 floor) e1 at of
        (s', e2) \<Rightarrow> s'\<lparr>sh_entries := map_put (en_key e1) e2 (sh_entries s')\<rparr>)"

lemma bucketOf_cong: "sh_bucketWidth s = sh_bucketWidth s' \<Longrightarrow> bucketOf s at = bucketOf s' at"
  by (simp add: bucketOf_def)

lemma shard_write_eq:
  "shard_write s e0 e1 floor at =
    (let p = place (remember (forget s e0 floor) e1 floor) e1 at
     in (fst p)\<lparr>sh_entries := map_put (en_key e1) (snd p) (sh_entries (fst p))\<rparr>)"
  by (simp add: shard_write_def split_def Let_def)

lemma shard_write_fields:
  "sh_entries (shard_write s e0 e1 floor at) =
    map_put (en_key e1) (e1\<lparr>en_bucket := bucketOf s at\<rparr>) (sh_entries s)"
  "sh_bucketWidth (shard_write s e0 e1 floor at) = sh_bucketWidth s"
  "sh_maxKeys (shard_write s e0 e1 floor at) = sh_maxKeys s"
  by (simp_all add: shard_write_eq Let_def place_fields bucketOf_def)

lemma shard_write_ok:
  assumes width: "0 < sh_bucketWidth s" "0 < sh_maxKeys s" "int (length (sh_entries s)) \<le> sh_maxKeys s"
    and ents: "ents_ok (sh_entries s)" and counts: "counts_ok floor s"
    and get: "map_get (sh_entries s) (en_key e1) = Some e0"
    and e1: "en_bucket e1 = en_bucket e0" "ring_ok (en_ring e1)"
    and idx: "idx_ok (sh_buckets s) (sh_settled s) B"
    and B: "B (en_key e1) = None \<or> B (en_key e1) = Some (en_bucket e1)"
      "B(en_key e1 := None) = (bucket_map (sh_entries s))(en_key e1 := None)"
  shows "shard_ok floor (shard_write s e0 e1 floor at)"
    and "set (sh_settled (shard_write s e0 e1 floor at)) \<subseteq> set (sh_settled s) - {en_key e1}"
proof -
  define k where "k = en_key e1"
  define s1 where "s1 = remember (forget s e0 floor) e1 floor"
  define e2 where "e2 = e1\<lparr>en_bucket := bucketOf s at\<rparr>"
  define w where "w = shard_write s e0 e1 floor at"
  have w: "w = (fst (place s1 e1 at))\<lparr>sh_entries := map_put k e2 (sh_entries s)\<rparr>"
    by (simp add: w_def shard_write_eq Let_def place_fields s1_def e2_def k_def bucketOf_def)
  have pi: "idx_ok (sh_buckets (fst (place s1 e1 at))) (sh_settled (fst (place s1 e1 at)))
      (B(k \<mapsto> bucketOf s1 at))" "set (sh_settled (fst (place s1 e1 at))) \<subseteq> set (sh_settled s1) - {k}"
    unfolding k_def using place_idx [of s1 B e1 at] idx B(1) by (simp_all add: s1_def)
  have "B(k \<mapsto> b) = (bucket_map (sh_entries s))(k \<mapsto> b)" for b
    using B(2) unfolding k_def by (metis fun_upd_upd)
  then have idx': "idx_ok (sh_buckets w) (sh_settled w) (bucket_map (sh_entries w))"
    using pi(1) by (simp add: w e2_def s1_def bucketOf_def)
  have wf: "wf_map (sh_entries s)" using ents by (simp add: ents_ok_def)
  have get': "map_get (sh_entries s) k = Some e0" using get by (simp add: k_def)
  have same: "is_fresh floor e2 = is_fresh floor e1" "en_trust e2 = en_trust e1"
    "en_truncated e2 = en_truncated e1" by (simp_all add: e2_def is_fresh_def)
  have "counts_ok floor w"
    using counts by (simp add: counts_ok_def w place_fields s1_def count_if_put [OF wf] get' same)
  moreover have "ents_ok (sh_entries w)"
    using ents e1 by (simp add: w ents_ok_put e2_def k_def)
  moreover have "length (sh_entries w) = length (sh_entries s)" by (simp add: w length_put get')
  ultimately show "shard_ok floor (shard_write s e0 e1 floor at)"
    using idx' width by (simp add: shard_ok_def w_def [symmetric] w place_fields s1_def)
  show "set (sh_settled (shard_write s e0 e1 floor at)) \<subseteq> set (sh_settled s) - {en_key e1}"
    using pi(2) by (simp add: w_def [symmetric] w s1_def k_def)
qed

section \<open>Eviction\<close>

lemma shard_drop_ok:
  assumes ok: "shard_ok floor s" and get: "map_get (sh_entries s) k = Some e"
  shows "shard_ok floor (shard_drop s e floor)"
    and "sh_entries (shard_drop s e floor) = map_del k (sh_entries s)"
proof -
  note parts = shard_okD [OF ok]
  have key: "en_key e = k" using parts(1) get by (simp add: ents_ok_def)
  have idx: "idx_ok (sh_buckets (removeFromIndex (forget s e floor) e))
      (sh_settled (removeFromIndex (forget s e floor) e)) ((bucket_map (sh_entries s))(k := None))"
    using removeFromIndex_idx [of "forget s e floor" "bucket_map (sh_entries s)" e] parts(3) get
    by (simp add: key bucket_map_def)
  have "counts_ok floor (shard_drop s e floor)"
    using parts(2) by (simp add: counts_ok_def shard_drop_def Let_def key count_if_del [OF parts(4) get])
  moreover have "ents_ok (map_del k (sh_entries s))"
    using parts(1) by (simp add: ents_ok_def wf_map_del)
  moreover have "int (length (map_del k (sh_entries s))) \<le> int (length (sh_entries s))"
    using map_del_length_le [of k "sh_entries s"] by simp
  ultimately show "shard_ok floor (shard_drop s e floor)"
    using ok idx by (simp add: shard_ok_def shard_drop_def Let_def key)
  show "sh_entries (shard_drop s e floor) = map_del k (sh_entries s)"
    by (simp add: shard_drop_def Let_def key)
qed

text \<open>A shard that tracks anything always finds a victim, so the bound is enforced.\<close>

lemma oldest_bucket_sound:
  "oldest_bucket bs n f = Some k \<Longrightarrow> f = Some k \<or> (\<exists>bk \<in> set bs. k \<in> set (snd bk))"
  by (induction bs n f rule: oldest_bucket.induct) (auto split: if_splits list.splits)

lemma oldestIndexed_tracked:
  assumes ok: "shard_ok floor s" and k: "oldestIndexed s = Some k"
  shows "map_get (sh_entries s) k \<noteq> None"
proof -
  note idx = shard_okD(3) [OF ok]
  have "k \<in> set (sh_settled s) \<or> (\<exists>b. in_bucket (sh_buckets s) k b)"
  proof (cases "sh_settled s")
    case Nil
    then obtain b ks where "(b, ks) \<in> set (sh_buckets s)" "k \<in> set ks"
      using k oldest_bucket_sound by (fastforce simp: oldestIndexed_def)
    then show ?thesis using idx by (auto simp: idx_ok_def in_bucket_def map_get_eq_Some_iff)
  next
    case (Cons a l)
    then show ?thesis using k by (simp add: oldestIndexed_def)
  qed
  then have "bucket_map (sh_entries s) k \<noteq> None"
    using idx unfolding idx_ok_def by (metis option.distinct(1))
  then show ?thesis by (simp add: bucket_map_def)
qed

lemma evict_spec:
  assumes ok: "shard_ok floor s" and ne: "sh_entries s \<noteq> []"
  shows "\<exists>k e. map_get (sh_entries s) k = Some e \<and> snd (evictOneLocked s floor) = Some k
    \<and> sh_entries (fst (evictOneLocked s floor)) = map_del k (sh_entries s)
    \<and> sh_settled (fst (evictOneLocked s floor)) = set_del k (sh_settled s)
    \<and> sh_bucketWidth (fst (evictOneLocked s floor)) = sh_bucketWidth s
    \<and> sh_maxKeys (fst (evictOneLocked s floor)) = sh_maxKeys s
    \<and> shard_ok floor (fst (evictOneLocked s floor))"
proof -
  obtain kv rest where hd: "sh_entries s = kv # rest" using ne by (cases "sh_entries s") auto
  have hd_get: "map_get (sh_entries s) (fst kv) \<noteq> None" by (simp add: hd map_get_def)
  obtain k where k: "(case oldestIndexed s of Some k \<Rightarrow> Some k
      | None \<Rightarrow> (case sh_entries s of [] \<Rightarrow> None | kv # rest \<Rightarrow> Some (fst kv))) = Some k"
    and "map_get (sh_entries s) k \<noteq> None"
    using oldestIndexed_tracked [OF ok] hd_get hd by (cases "oldestIndexed s") auto
  then obtain e where e: "map_get (sh_entries s) k = Some e" by blast
  have key: "en_key e = k" using shard_okD(1) [OF ok] e by (simp add: ents_ok_def)
  note d = shard_drop_ok [OF ok e]
  have eq: "evictOneLocked s floor =
      ((shard_drop s e floor)\<lparr>sh_evictions := sh_evictions (shard_drop s e floor) + 1\<rparr>, Some k)"
    unfolding evictOneLocked_def k Let_def by (simp add: e)
  have "shard_ok floor ((shard_drop s e floor)\<lparr>sh_evictions := n\<rparr>)" for n
    using d(1) by (simp add: shard_ok_def counts_ok_def)
  moreover have "sh_settled (shard_drop s e floor) = set_del k (sh_settled s)"
    "sh_bucketWidth (shard_drop s e floor) = sh_bucketWidth s"
    "sh_maxKeys (shard_drop s e floor) = sh_maxKeys s"
    by (simp_all add: shard_drop_def Let_def key)
  ultimately show ?thesis using e d(2) by (intro exI [of _ k] exI [of _ e]) (simp add: eq)
qed

section \<open>Settlement\<close>

text \<open>
  Times within the range of \<open>UnixNano\<close> (the years 1678 to 2262), and the timing invariant: every
  entry is in the bucket of its last event, and everything in the settled set was quiet for longer
  than the largest window at some earlier instant \<open>T\<close>.
\<close>

definition unix_ok :: "time \<Rightarrow> bool" where
  "unix_ok t \<longleftrightarrow> min_i64 \<le> t - unix_offset \<and> t - unix_offset \<le> max_i64"

definition timed :: "shard \<Rightarrow> time \<Rightarrow> duration \<Rightarrow> bool" where
  "timed s T maxW \<longleftrightarrow> (\<forall>k e. map_get (sh_entries s) k = Some e \<longrightarrow>
     unix_ok (en_lastEventAt e) \<and> en_bucket e = bucketOf s (en_lastEventAt e)
     \<and> (k \<in> set (sh_settled s) \<longrightarrow> en_lastEventAt e < T - maxW))"

lemma timed_mono: "timed s T maxW \<Longrightarrow> T \<le> T' \<Longrightarrow> timed s T' maxW"
  unfolding timed_def by fastforce

lemma bucketOf_less:
  assumes "0 < sh_bucketWidth s" and "unix_ok a" "unix_ok b" and "bucketOf s a < bucketOf s b"
  shows "a < b"
proof -
  have "unixNano a = a - unix_offset" "unixNano b = b - unix_offset"
    using assms(2,3) by (simp_all add: unix_ok_def unixNano_def wrap_i64_id)
  then show ?thesis
    using go_div_less_imp_less [OF assms(1), of "unixNano a" "unixNano b"] assms(4)
    by (simp add: bucketOf_def)
qed

lemma promote_spec:
  assumes ok: "shard_ok floor s"
  shows "shard_ok floor (promote s now w)" and "sh_entries (promote s now w) = sh_entries s"
    and "sh_bucketWidth (promote s now w) = sh_bucketWidth s"
    and "set (sh_settled (promote s now w)) =
      set (sh_settled s) \<union> {k. \<exists>b. b < bucketOf s (now - w) \<and> in_bucket (sh_buckets s) k b}"
proof -
  note idx = shard_okD(3) [OF ok]
  have bs: "wf_map (sh_buckets s)" using idx by (simp add: idx_ok_def)
  have get: "\<forall>bk \<in> set (sh_buckets s). map_get (sh_buckets s) (fst bk) = Some (snd bk)"
    using bs by (simp add: map_get_eq_Some_iff)
  note f = promote_foldl [OF bs get idx, of "bucketOf s (now - w)"]
  show "sh_entries (promote s now w) = sh_entries s" "sh_bucketWidth (promote s now w) = sh_bucketWidth s"
    using f by (simp_all add: promote_def)
  show "shard_ok floor (promote s now w)"
    using f ok by (simp add: promote_def shard_ok_def counts_ok_def)
  have "(\<exists>bk \<in> set (sh_buckets s). fst bk < h \<and> k \<in> set (snd bk)) \<longleftrightarrow>
      (\<exists>b. b < h \<and> in_bucket (sh_buckets s) k b)" for h k
    using bs by (force simp: in_bucket_def map_get_eq_Some_iff)
  then show "set (sh_settled (promote s now w)) =
      set (sh_settled s) \<union> {k. \<exists>b. b < bucketOf s (now - w) \<and> in_bucket (sh_buckets s) k b}"
    using f by (simp add: promote_def)
qed

lemma promote_timed:
  assumes ok: "shard_ok floor s" and t: "timed s T maxW" "T \<le> now" and u: "unix_ok (now - maxW)"
  shows "timed (promote s now maxW) now maxW"
proof -
  note idx = shard_okD(3) [OF ok]
  have width: "0 < sh_bucketWidth s" using ok by (simp add: shard_ok_def)
  have "en_lastEventAt e < now - maxW"
    if get: "map_get (sh_entries s) k = Some e" and b: "b < bucketOf s (now - maxW)"
      and ib: "in_bucket (sh_buckets s) k b" for k e b
  proof -
    have "bucket_map (sh_entries s) k = Some b" using idx ib unfolding idx_ok_def by blast
    then have "bucketOf s (en_lastEventAt e) < bucketOf s (now - maxW)"
      using t(1) get b by (auto simp: timed_def bucket_map_def)
    then show ?thesis using bucketOf_less [OF width _ u] t(1) get by (auto simp: timed_def)
  qed
  then show ?thesis
    using t promote_spec [OF ok, of now maxW] by (fastforce simp: timed_def bucketOf_def)
qed

text \<open>The keys of the live buckets that satisfy a predicate.\<close>

definition bucket_filter :: "shard \<Rightarrow> (string \<Rightarrow> bool) \<Rightarrow> string list" where
  "bucket_filter s P = concat (map (\<lambda>bk. filter P (snd bk)) (sh_buckets s))"

lemma distinct_bucket_filter:
  assumes ok: "shard_ok floor s"
  shows "distinct (bucket_filter s P)"
proof -
  note idx = shard_okD(3) [OF ok]
  have wf: "wf_map (sh_buckets s)" using idx by (simp add: idx_ok_def)
  have uniq: "b = b'" if "(b, ks) \<in> set (sh_buckets s)" "(b', ks') \<in> set (sh_buckets s)"
    "k \<in> set ks" "k \<in> set ks'" for b b' ks ks' k
  proof -
    have "bucket_map (sh_entries s) k = Some b" "bucket_map (sh_entries s) k = Some b'"
      using idx that wf unfolding idx_ok_def in_bucket_def by (metis map_get_eq_Some_iff)+
    then show ?thesis by simp
  qed
  have each: "distinct (snd bk)" if "bk \<in> set (sh_buckets s)" for bk
    using idx that wf unfolding idx_ok_def by (metis map_get_eq_Some_iff prod.collapse)
  have "distinct (concat (map (\<lambda>bk. filter P (snd bk)) bs))"
    if "set bs \<subseteq> set (sh_buckets s)" "wf_map bs" for bs
    using that
  proof (induction bs)
    case (Cons bk bs)
    have "set (filter P (snd bk)) \<inter> set (snd bk') = {}" if "bk' \<in> set bs" for bk'
    proof (rule ccontr)
      assume "set (filter P (snd bk)) \<inter> set (snd bk') \<noteq> {}"
      then obtain k where "k \<in> set (snd bk)" "k \<in> set (snd bk')" by auto
      then have "fst bk = fst bk'"
        using uniq [of "fst bk" "snd bk" "fst bk'" "snd bk'" k] Cons.prems(1) that by auto
      then show False using Cons.prems(2) that by auto
    qed
    then show ?case using Cons each [of bk] by auto
  qed simp
  then show ?thesis using wf by (simp add: bucket_filter_def)
qed

lemma bucket_filter_iff:
  assumes ok: "shard_ok floor s"
  shows "k \<in> set (bucket_filter s P) \<longleftrightarrow> P k \<and> k \<notin> set (sh_settled s) \<and> map_get (sh_entries s) k \<noteq> None"
proof -
  note idx = shard_okD(3) [OF ok]
  have wf: "wf_map (sh_buckets s)" using idx by (simp add: idx_ok_def)
  have "(\<exists>bk \<in> set (sh_buckets s). k \<in> set (snd bk)) \<longleftrightarrow> (\<exists>b. in_bucket (sh_buckets s) k b)"
    using wf by (force simp: in_bucket_def map_get_eq_Some_iff)
  also have "\<dots> \<longleftrightarrow> k \<notin> set (sh_settled s) \<and> bucket_map (sh_entries s) k \<noteq> None"
    using idx unfolding idx_ok_def by blast
  finally show ?thesis by (auto simp: bucket_filter_def bucket_map_def)
qed

lemma settledKeys_eq:
  "settledKeys s now w ns = sh_settled s @ bucket_filter s (\<lambda>k.
    case map_get (sh_entries s) k of None \<Rightarrow> False | Some e \<Rightarrow> isSettled e now w ns)"
  by (simp add: settledKeys_def bucket_filter_def)

lemma distinct_settledKeys:
  assumes ok: "shard_ok floor s"
  shows "distinct (settledKeys s now w ns)"
  using distinct_bucket_filter [OF ok] bucket_filter_iff [OF ok] shard_okD(3) [OF ok]
  by (auto simp: settledKeys_eq idx_ok_def)

text \<open>
  Once everything past the horizon is promoted, the keys the index yields are exactly the settled
  ones, for every window up to the largest.
\<close>

lemma settledKeys_iff:
  assumes ok: "shard_ok floor s" and t: "timed s now maxW" and w: "w \<le> maxW"
  shows "k \<in> set (settledKeys s now w ns) \<longleftrightarrow>
    (\<exists>e. map_get (sh_entries s) k = Some e \<and> isSettled e now w ns)"
proof -
  note idx = shard_okD(3) [OF ok]
  have st: "\<exists>e. map_get (sh_entries s) k = Some e \<and> isSettled e now w ns" if "k \<in> set (sh_settled s)"
  proof -
    have "bucket_map (sh_entries s) k \<noteq> None" using idx that unfolding idx_ok_def by blast
    then obtain e where e: "map_get (sh_entries s) k = Some e" by (auto simp: bucket_map_def)
    then have "en_lastEventAt e < now - maxW" using t that by (simp add: timed_def)
    then show ?thesis using w e by (auto simp: isSettled_def)
  qed
  have "k \<in> set (settledKeys s now w ns) \<longleftrightarrow> k \<in> set (sh_settled s)
      \<or> (\<exists>e. map_get (sh_entries s) k = Some e \<and> isSettled e now w ns) \<and> k \<notin> set (sh_settled s)"
    by (cases "map_get (sh_entries s) k") (simp_all add: settledKeys_eq bucket_filter_iff [OF ok])
  with st show ?thesis by blast
qed

lemma card_count_if:
  "wf_map m \<Longrightarrow> int (card {k. \<exists>e. map_get m k = Some e \<and> P e}) = count_if P m"
proof -
  assume wf: "wf_map m"
  have "{k. \<exists>e. map_get m k = Some e \<and> P e} = set (map fst (filter (\<lambda>kv. P (snd kv)) m))"
    using wf by (force simp: map_get_eq_Some_iff)
  moreover have "distinct (map fst (filter (\<lambda>kv. P (snd kv)) m))"
    using wf by (rule distinct_map_filter)
  ultimately have "card {k. \<exists>e. map_get m k = Some e \<and> P e} = length (map fst (filter (\<lambda>kv. P (snd kv)) m))"
    by (simp only: distinct_card)
  then show ?thesis by (simp add: count_if_def)
qed

lemma length_settledKeys:
  assumes "shard_ok floor s" and "timed s now maxW" and "w \<le> maxW"
  shows "int (length (settledKeys s now w ns)) = count_if (\<lambda>e. isSettled e now w ns) (sh_entries s)"
proof -
  have "length (settledKeys s now w ns) = card (set (settledKeys s now w ns))"
    using distinct_settledKeys [OF assms(1)] by (simp add: distinct_card)
  moreover have "set (settledKeys s now w ns) =
      {k. \<exists>e. map_get (sh_entries s) k = Some e \<and> isSettled e now w ns}"
    using settledKeys_iff [OF assms] by (intro set_eqI) (simp only: mem_Collect_eq)
  ultimately show ?thesis using card_count_if [OF shard_okD(4) [OF assms(1)]] by simp
qed

lemma countSettled_foldl:
  fixes E :: "string \<Rightarrow> entry option" and S C :: "entry \<Rightarrow> bool"
  defines "step \<equiv> (\<lambda>(settled :: int, never :: int) k.
      case E k of None \<Rightarrow> (settled, never)
      | Some e \<Rightarrow> if S e then (settled + 1, never) else if C e then (settled, never + 1) else (settled, never))"
  shows "foldl (\<lambda>acc bk. foldl step acc (snd bk)) (a, b) bs =
    (a + int (length (concat (map (\<lambda>bk. filter (\<lambda>k. case E k of None \<Rightarrow> False | Some e \<Rightarrow> S e) (snd bk)) bs))),
     b + int (length (concat (map (\<lambda>bk. filter (\<lambda>k. case E k of None \<Rightarrow> False | Some e \<Rightarrow> \<not> S e \<and> C e) (snd bk)) bs))))"
proof -
  have inner: "foldl step (a, b) ks =
      (a + int (length (filter (\<lambda>k. case E k of None \<Rightarrow> False | Some e \<Rightarrow> S e) ks)),
       b + int (length (filter (\<lambda>k. case E k of None \<Rightarrow> False | Some e \<Rightarrow> \<not> S e \<and> C e) ks)))" for a b ks
    by (induction ks arbitrary: a b) (auto simp: step_def split: option.splits)
  show ?thesis by (induction bs arbitrary: a b) (simp_all add: inner)
qed

text \<open>\<open>Counts\<close>' settled figure is the number of settled entries, and its never-settled figure the
  number of entries that are not settled although they are older than the threshold.\<close>

lemma countSettled_correct:
  assumes ok: "shard_ok floor s" and t: "timed s now maxW" and w: "w \<le> maxW"
  shows "countSettled s now w ns =
    (count_if (\<lambda>e. isSettled e now w ns) (sh_entries s),
     count_if (\<lambda>e. \<not> isSettled e now w ns \<and> en_createdAt e < now - ns) (sh_entries s))"
proof -
  define P where "P k = (case map_get (sh_entries s) k of None \<Rightarrow> False
    | Some e \<Rightarrow> \<not> isSettled e now w ns \<and> en_createdAt e < now - ns)" for k
  have "countSettled s now w ns =
      (int (length (settledKeys s now w ns)), int (length (bucket_filter s P)))"
    unfolding countSettled_def countSettled_foldl
    by (simp add: settledKeys_eq bucket_filter_def P_def [abs_def])
  moreover have "int (length (bucket_filter s P)) =
      count_if (\<lambda>e. \<not> isSettled e now w ns \<and> en_createdAt e < now - ns) (sh_entries s)"
  proof -
    have "k \<in> set (bucket_filter s P) \<longleftrightarrow> (\<exists>e. map_get (sh_entries s) k = Some e
        \<and> \<not> isSettled e now w ns \<and> en_createdAt e < now - ns)" for k
      using bucket_filter_iff [OF ok, of k P] settledKeys_iff [OF ok t w, of k ns]
      by (auto simp: P_def settledKeys_eq split: option.splits)
    then have "set (bucket_filter s P) = {k. \<exists>e. map_get (sh_entries s) k = Some e
        \<and> \<not> isSettled e now w ns \<and> en_createdAt e < now - ns}"
      by (intro set_eqI) (simp only: mem_Collect_eq)
    then show ?thesis
      using distinct_card [OF distinct_bucket_filter [OF ok, of P]]
        card_count_if [OF shard_okD(4) [OF ok],
          of "\<lambda>e. \<not> isSettled e now w ns \<and> en_createdAt e < now - ns"]
      by simp
  qed
  ultimately show ?thesis using length_settledKeys [OF assms] by simp
qed

text \<open>The trust figures: the entries by the trust a reader sees.\<close>

lemma suspectCount_correct:
  assumes "shard_ok floor s"
  shows "suspectCount s = count_if (\<lambda>e. effectiveTrust e floor = TrustSuspect) (sh_entries s)"
    and "sh_fresh s = count_if (\<lambda>e. effectiveTrust e floor = TrustComplete) (sh_entries s)"
    and "sh_adopted s = count_if (\<lambda>e. effectiveTrust e floor = TrustAdopted) (sh_entries s)"
proof -
  note c = shard_okD(2) [OF assms, unfolded counts_ok_def]
  have f: "(\<lambda>e. effectiveTrust e floor = TrustComplete) = is_fresh floor"
    by (auto simp: fun_eq_iff effectiveTrust_def is_fresh_def)
  have a: "(\<lambda>e. effectiveTrust e floor = TrustAdopted) = (\<lambda>e. en_trust e = TrustAdopted)"
    by (auto simp: fun_eq_iff effectiveTrust_def)
  show "sh_fresh s = count_if (\<lambda>e. effectiveTrust e floor = TrustComplete) (sh_entries s)"
    "sh_adopted s = count_if (\<lambda>e. effectiveTrust e floor = TrustAdopted) (sh_entries s)"
    using c by (simp_all add: f a)
  have "int (length m) = count_if (\<lambda>e. effectiveTrust e floor = TrustSuspect) m
      + count_if (is_fresh floor) m + count_if (\<lambda>e. en_trust e = TrustAdopted) m" for m :: "(string, entry) go_map"
  proof (induction m)
    case (Cons kv m)
    then show ?case
      using trust_cases [of "en_trust (snd kv)"] by (auto simp: effectiveTrust_def is_fresh_def)
  qed simp
  then show "suspectCount s = count_if (\<lambda>e. effectiveTrust e floor = TrustSuspect) (sh_entries s)"
    using c by (simp add: suspectCount_def)
qed

end
