(* ===== verification/Oracle.thy ===== *)
theory Oracle
  imports Shard Projection
begin

text \<open>
  \<open>pkg/oracle/oracle.go\<close>: the sharded expectation store. \<open>hash\<close> stands for \<open>xxhash.Sum64String\<close>
  and \<open>glob\<close> for \<open>path.Match\<close> (\<open>None\<close> is its error); both are arguments of the operations that
  use them, and every theorem holds for all of them. A reading of the injected clock is an
  argument too. Each operation is one critical section of the code, so a run is a sequence of them.
\<close>

section \<open>Configuration\<close>

record OracleConfig =
  oc_shards :: int
  oc_maxTrackedKeys :: int
  oc_ringSize :: int
  oc_retainRaw :: bool
  oc_settlementWindow :: duration
  oc_neverSettledFactor :: int
  oc_maxSettlementWindow :: duration
  oc_bucketWidth :: duration

definition oracle_applyDefaults :: "OracleConfig \<Rightarrow> OracleConfig" where
  "oracle_applyDefaults c =
     (let shards = (if oc_shards c \<le> 0 then 64 else oc_shards c);
          factor = (if oc_neverSettledFactor c \<le> 0 then 10 else oc_neverSettledFactor c);
          maxKeys = (if oc_maxTrackedKeys c \<le> 0 then 1000000 else oc_maxTrackedKeys c);
          shards' = (if maxKeys < shards then maxKeys else shards);
          ring1 = (if oc_ringSize c < 0 then 16 else oc_ringSize c);
          ring2 = (if ring1 = 0 then 16 else ring1);
          maxWindow = (if oc_maxSettlementWindow c \<le> 0 then 120000000000 else oc_maxSettlementWindow c);
          width = (if oc_bucketWidth c \<le> 0 then 1000000000 else oc_bucketWidth c);
          window1 = (if oc_settlementWindow c < 0 then 0 else oc_settlementWindow c);
          window2 = (if maxWindow < window1 then maxWindow else window1)
      in \<lparr>oc_shards = shards', oc_maxTrackedKeys = maxKeys, oc_ringSize = ring2,
          oc_retainRaw = oc_retainRaw c, oc_settlementWindow = window2,
          oc_neverSettledFactor = factor, oc_maxSettlementWindow = maxWindow,
          oc_bucketWidth = width\<rparr>)"

section \<open>State and operations\<close>

record Oracle =
  or_cfg :: OracleConfig
  or_shards :: "shard list"
  or_window :: duration
  or_suspectGen :: u64
  or_suspectFloor :: u64

definition Oracle_New :: "OracleConfig \<Rightarrow> Oracle" where
  "Oracle_New cfg0 =
     (let cfg = oracle_applyDefaults cfg0;
          base = go_div (oc_maxTrackedKeys cfg) (oc_shards cfg);
          remainder = oc_maxTrackedKeys cfg - base * oc_shards cfg
      in \<lparr>or_cfg = cfg,
          or_shards = map (\<lambda>i. newShard (oc_bucketWidth cfg)
              (if int i < remainder then base + 1 else base)) [0..<nat (oc_shards cfg)],
          or_window = oc_settlementWindow cfg, or_suspectGen = 0, or_suspectFloor = 0\<rparr>)"

definition shardIdx :: "(string \<Rightarrow> u64) \<Rightarrow> Oracle \<Rightarrow> string \<Rightarrow> nat" where
  "shardIdx hash orc key = unat (hash key mod of_nat (length (or_shards orc)))"

definition shardFor :: "(string \<Rightarrow> u64) \<Rightarrow> Oracle \<Rightarrow> string \<Rightarrow> shard" where
  "shardFor hash orc key = or_shards orc ! shardIdx hash orc key"

definition put_shard :: "(string \<Rightarrow> u64) \<Rightarrow> Oracle \<Rightarrow> string \<Rightarrow> shard \<Rightarrow> Oracle" where
  "put_shard hash orc key s = orc\<lparr>or_shards := (or_shards orc)[shardIdx hash orc key := s]\<rparr>"

record ApplyResult =
  ar_key :: string
  ar_version :: u64
  ar_created :: bool
  ar_deleted :: bool
  ar_evicted :: "string option"
  ar_applied :: bool

definition observedAt :: "Event \<Rightarrow> time \<Rightarrow> time" where
  "observedAt e now = (if ev_observedAt e \<noteq> 0 then ev_observedAt e else now)"

definition historyEvent :: "Oracle \<Rightarrow> Event \<Rightarrow> Event" where
  "historyEvent orc e = (if oc_retainRaw (or_cfg orc) then e else e\<lparr>ev_raw := None\<rparr>)"

text \<open>The part of \<open>Apply\<close> and \<open>AdoptSnapshot\<close> that looks the key up or makes room for it and
  creates it: the shard, the entry, whether it was created, and what was evicted.\<close>

definition ensure_entry ::
    "Oracle \<Rightarrow> shard \<Rightarrow> string \<Rightarrow> time \<Rightarrow> shard \<times> entry \<times> bool \<times> string option" where
  "ensure_entry orc sh key at =
     (case map_get (sh_entries sh) key of
        Some ent \<Rightarrow> (sh, ent, False, None)
      | None \<Rightarrow>
          let (sh1, evicted) =
                (if sh_maxKeys sh \<le> int (length (sh_entries sh))
                 then evictOneLocked sh (or_suspectFloor orc) else (sh, None));
              ent = new_entry key at (oc_ringSize (or_cfg orc));
              sh2 = sh1\<lparr>sh_entries := map_put key ent (sh_entries sh1)\<rparr>
          in (remember sh2 ent (or_suspectFloor orc), ent, True, evicted))"

text \<open>The assignments of \<open>Apply\<close> to the entry it found or created, and the history entry.\<close>

definition applied_value :: "Oracle \<Rightarrow> Mutation \<Rightarrow> Event \<Rightarrow> TrustState \<Rightarrow> time \<Rightarrow> bool \<Rightarrow> entry \<Rightarrow> entry" where
  "applied_value orc m e trust now created ent0 =
     (let ent1 = ent0\<lparr>en_version := en_version ent0 + 1, en_gen := or_suspectGen orc,
                   en_trust := trust, en_lastEventAt := now, en_lastSeq := ev_seq e,
                   en_lastEpoch := ev_epoch e, en_lastPublisher := ev_publisher e,
                   en_truncated := mu_truncated m\<rparr>;
          ent2 = (if mu_action m = ActionUpsert
                  then ent1\<lparr>en_value := mu_value m, en_ttl := mu_ttl m\<rparr>
                  else ent1\<lparr>en_value := zero_Value, en_ttl := None\<rparr>)
      in if created \<or> \<not> Value_Equal (en_value ent1) (en_value ent2)
         then ent2\<lparr>en_lastValueChangeAt := now\<rparr> else ent2)"

definition applied_history :: "Oracle \<Rightarrow> Event \<Rightarrow> Verdict \<Rightarrow> time \<Rightarrow> entry \<Rightarrow> HistoryEntry" where
  "applied_history orc e verdict now ent =
     \<lparr>he_event = historyEvent orc e, he_verdict = verdict, he_resultValue = en_value ent,
      he_version = en_version ent, he_appliedAt = now\<rparr>"

definition Oracle_Apply ::
    "(string \<Rightarrow> u64) \<Rightarrow> Oracle \<Rightarrow> Mutation \<Rightarrow> Event \<Rightarrow> Verdict \<Rightarrow> TrustState \<Rightarrow> time
      \<Rightarrow> Oracle \<times> ApplyResult" where
  "Oracle_Apply hash orc m e verdict trust clock =
     (if mu_action m = ActionNone then
        (orc, \<lparr>ar_key = mu_key m, ar_version = 0, ar_created = False, ar_deleted = False,
             ar_evicted = None, ar_applied = False\<rparr>)
      else
        let now = observedAt e clock;
            floor = or_suspectFloor orc;
            (sh0, ent0, created, evicted) = ensure_entry orc (shardFor hash orc (mu_key m)) (mu_key m) now;
            sh1 = forget sh0 ent0 floor;
            ent1 = applied_value orc m e trust now created ent0;
            sh2 = remember sh1 ent1 floor;
            (sh3, ent2) = place sh2 ent1 now;
            ent3 = ent2\<lparr>en_ring := ring_push (en_ring ent2) (applied_history orc e verdict now ent2)\<rparr>;
            sh4 = sh3\<lparr>sh_entries := map_put (mu_key m) ent3 (sh_entries sh3)\<rparr>
        in (put_shard hash orc (mu_key m) sh4,
            \<lparr>ar_key = mu_key m, ar_version = en_version ent3, ar_created = created,
             ar_deleted = (mu_action m = ActionDelete), ar_evicted = evicted, ar_applied = True\<rparr>))"

definition Oracle_Get :: "(string \<Rightarrow> u64) \<Rightarrow> Oracle \<Rightarrow> string \<Rightarrow> time \<Rightarrow> Entry option" where
  "Oracle_Get hash orc key now =
     (case map_get (sh_entries (shardFor hash orc key)) key of
        None \<Rightarrow> None
      | Some ent \<Rightarrow>
          let out = (entry_snapshot ent (effectiveTrust ent (or_suspectFloor orc)))
                      \<lparr>eo_expired := expired ent now\<rparr>
          in Some (if eo_expired out then out\<lparr>eo_value := zero_Value\<rparr> else out))"

definition Oracle_Version :: "(string \<Rightarrow> u64) \<Rightarrow> Oracle \<Rightarrow> string \<Rightarrow> u64 option" where
  "Oracle_Version hash orc key =
     map_option en_version (map_get (sh_entries (shardFor hash orc key)) key)"

definition neverSettledThreshold :: "Oracle \<Rightarrow> duration \<Rightarrow> duration" where
  "neverSettledThreshold orc w =
     (let d = wrap_i64 (oc_neverSettledFactor (or_cfg orc) * w)
      in if oc_maxSettlementWindow (or_cfg orc) < d then oc_maxSettlementWindow (or_cfg orc) else d)"

text \<open>\<open>SettledKeys\<close> run to its end: the oracle with every shard promoted, and the keys yielded.\<close>

definition SettledKeys :: "Oracle \<Rightarrow> time \<Rightarrow> Oracle \<times> string list" where
  "SettledKeys orc now =
     (let w = or_window orc;
          neverSettled = neverSettledThreshold orc w;
          shs = map (\<lambda>sh. promote sh now (oc_maxSettlementWindow (or_cfg orc))) (or_shards orc)
      in (orc\<lparr>or_shards := shs\<rparr>, concat (map (\<lambda>sh. settledKeys sh now w neverSettled) shs)))"

record Counts =
  ct_total :: int
  ct_settled :: int
  ct_inFlight :: int
  ct_neverSettled :: int
  ct_complete :: int
  ct_adopted :: int
  ct_suspect :: int
  ct_truncated :: int

definition count_shard :: "time \<Rightarrow> duration \<Rightarrow> duration \<Rightarrow> Counts \<Rightarrow> shard \<Rightarrow> Counts" where
  "count_shard now w neverSettled out sh =
     (case countSettled sh now w neverSettled of
        (settled, never) \<Rightarrow>
          out\<lparr>ct_total := ct_total out + int (length (sh_entries sh)),
              ct_settled := ct_settled out + settled,
              ct_neverSettled := ct_neverSettled out + never,
              ct_truncated := ct_truncated out + sh_truncated sh,
              ct_complete := ct_complete out + sh_fresh sh,
              ct_adopted := ct_adopted out + sh_adopted sh,
              ct_suspect := ct_suspect out + suspectCount sh\<rparr>)"

definition Oracle_Counts :: "Oracle \<Rightarrow> time \<Rightarrow> Oracle \<times> Counts" where
  "Oracle_Counts orc now =
     (let w = or_window orc;
          neverSettled = neverSettledThreshold orc w;
          shs = map (\<lambda>sh. promote sh now (oc_maxSettlementWindow (or_cfg orc))) (or_shards orc);
          out = foldl (count_shard now w neverSettled)
            \<lparr>ct_total = 0, ct_settled = 0, ct_inFlight = 0, ct_neverSettled = 0, ct_complete = 0,
             ct_adopted = 0, ct_suspect = 0, ct_truncated = 0\<rparr> shs
      in (orc\<lparr>or_shards := shs\<rparr>, out\<lparr>ct_inFlight := ct_total out - ct_settled out\<rparr>))"

definition Oracle_History :: "(string \<Rightarrow> u64) \<Rightarrow> Oracle \<Rightarrow> string \<Rightarrow> HistoryEntry list" where
  "Oracle_History hash orc key =
     (case map_get (sh_entries (shardFor hash orc key)) key of
        None \<Rightarrow> []
      | Some ent \<Rightarrow> ring_snapshot (en_ring ent))"

definition adopt_one :: "(string \<Rightarrow> u64) \<Rightarrow> time \<Rightarrow> Oracle \<Rightarrow> string \<times> Value \<Rightarrow> Oracle" where
  "adopt_one hash at orc kv =
     (let floor = or_suspectFloor orc;
          (sh0, ent0, created, evicted) = ensure_entry orc (shardFor hash orc (fst kv)) (fst kv) at;
          sh1 = forget sh0 ent0 floor;
          ent1 = ent0\<lparr>en_version := en_version ent0 + 1, en_gen := or_suspectGen orc,
                   en_trust := TrustAdopted, en_value := Value_Clone (snd kv), en_lastEventAt := at\<rparr>;
          sh2 = remember sh1 ent1 floor;
          (sh3, ent2) = place sh2 ent1 at
      in put_shard hash orc (fst kv) (sh3\<lparr>sh_entries := map_put (fst kv) ent2 (sh_entries sh3)\<rparr>))"

definition AdoptSnapshot :: "(string \<Rightarrow> u64) \<Rightarrow> Oracle \<Rightarrow> (string, Value) go_map \<Rightarrow> time \<Rightarrow> Oracle" where
  "AdoptSnapshot hash orc entries at = foldl (adopt_one hash at) orc entries"

definition SetSettlementWindow :: "Oracle \<Rightarrow> duration \<Rightarrow> Oracle" where
  "SetSettlementWindow orc d0 =
     (let d1 = (if d0 < 0 then 0 else d0);
          d2 = (if oc_maxSettlementWindow (or_cfg orc) < d1 then oc_maxSettlementWindow (or_cfg orc) else d1)
      in orc\<lparr>or_window := d2\<rparr>)"

definition matchGlob :: "(string \<Rightarrow> string \<Rightarrow> bool option) \<Rightarrow> string \<Rightarrow> string \<Rightarrow> bool" where
  "matchGlob glob pattern key = (case glob pattern key of None \<Rightarrow> False | Some ok \<Rightarrow> ok)"

definition mark_one ::
    "(string \<Rightarrow> string \<Rightarrow> bool option) \<Rightarrow> string \<Rightarrow> u64 \<Rightarrow> shard \<Rightarrow> string \<times> entry \<Rightarrow> shard" where
  "mark_one glob pattern floor sh kv =
     (let ent = snd kv
      in if en_trust ent \<noteq> TrustComplete \<or> \<not> matchGlob glob pattern (fst kv) then sh
         else
           let sh1 = forget sh ent floor;
               ent1 = ent\<lparr>en_trust := TrustSuspect\<rparr>;
               sh2 = sh1\<lparr>sh_entries := map_put (fst kv) ent1 (sh_entries sh1)\<rparr>
           in remember sh2 ent1 floor)"

definition MarkSuspect :: "(string \<Rightarrow> string \<Rightarrow> bool option) \<Rightarrow> Oracle \<Rightarrow> string \<Rightarrow> Oracle" where
  "MarkSuspect glob orc pattern =
     (if pattern = [] then
        let gen = or_suspectGen orc + 1
        in orc\<lparr>or_suspectGen := gen, or_suspectFloor := gen,
             or_shards := map (\<lambda>sh. sh\<lparr>sh_fresh := 0\<rparr>) (or_shards orc)\<rparr>
      else
        orc\<lparr>or_shards := map (\<lambda>sh. foldl (mark_one glob pattern (or_suspectFloor orc)) sh (sh_entries sh))
            (or_shards orc)\<rparr>)"

definition clear_one ::
    "(string \<Rightarrow> string \<Rightarrow> bool option) \<Rightarrow> string \<Rightarrow> u64 \<Rightarrow> string \<Rightarrow> entry \<Rightarrow> entry" where
  "clear_one glob pattern gen key ent =
     (if pattern \<noteq> [] \<and> \<not> matchGlob glob pattern key then ent
      else
        let ent1 = (if en_trust ent = TrustSuspect then ent\<lparr>en_trust := TrustComplete\<rparr> else ent)
        in if en_trust ent1 = TrustComplete then ent1\<lparr>en_gen := gen\<rparr> else ent1)"

definition ClearSuspect :: "(string \<Rightarrow> string \<Rightarrow> bool option) \<Rightarrow> Oracle \<Rightarrow> string \<Rightarrow> Oracle" where
  "ClearSuspect glob orc0 pattern =
     (let orc = (if pattern = [] then orc0\<lparr>or_suspectFloor := 0\<rparr> else orc0);
          gen = or_suspectGen orc;
          floor = or_suspectFloor orc
      in orc\<lparr>or_shards := map (\<lambda>sh. recount
            (sh\<lparr>sh_entries := map (\<lambda>kv. (fst kv, clear_one glob pattern gen (fst kv) (snd kv)))
               (sh_entries sh)\<rparr>) floor) (or_shards orc)\<rparr>)"

definition Oracle_Evictions :: "Oracle \<Rightarrow> u64" where
  "Oracle_Evictions orc = sum_list (map sh_evictions (or_shards orc))"

definition Oracle_Len :: "Oracle \<Rightarrow> int" where
  "Oracle_Len orc = sum_list (map (\<lambda>sh. int (length (sh_entries sh))) (or_shards orc))"

section \<open>The invariant\<close>

text \<open>What the map of all shards holds for a key.\<close>

definition lookup :: "(string \<Rightarrow> u64) \<Rightarrow> Oracle \<Rightarrow> string \<Rightarrow> entry option" where
  "lookup hash orc k = map_get (sh_entries (shardFor hash orc k)) k"

text \<open>
  A shard of an oracle: its own invariant, every key in the shard its hash names, and no entry
  written in a generation that has not begun.
\<close>

definition homed :: "(string \<Rightarrow> u64) \<Rightarrow> nat \<Rightarrow> nat \<Rightarrow> shard \<Rightarrow> bool" where
  "homed hash n i s \<longleftrightarrow> (\<forall>k. map_get (sh_entries s) k \<noteq> None \<longrightarrow> unat (hash k mod of_nat n) = i)"

definition gens_ok :: "u64 \<Rightarrow> shard \<Rightarrow> bool" where
  "gens_ok gen s \<longleftrightarrow> (\<forall>k e. map_get (sh_entries s) k = Some e \<longrightarrow> en_gen e \<le> gen)"

definition cfg_ok :: "OracleConfig \<Rightarrow> bool" where
  "cfg_ok c \<longleftrightarrow> 0 < oc_shards c \<and> oc_shards c \<le> oc_maxTrackedKeys c \<and> 0 < oc_ringSize c
     \<and> 0 < oc_maxSettlementWindow c \<and> 0 < oc_bucketWidth c \<and> 0 < oc_neverSettledFactor c
     \<and> 0 \<le> oc_settlementWindow c \<and> oc_settlementWindow c \<le> oc_maxSettlementWindow c"

definition oracle_ok :: "(string \<Rightarrow> u64) \<Rightarrow> Oracle \<Rightarrow> bool" where
  "oracle_ok hash orc \<longleftrightarrow> cfg_ok (or_cfg orc)
     \<and> or_shards orc \<noteq> [] \<and> int (length (or_shards orc)) \<le> max_i64
     \<and> or_suspectFloor orc \<le> or_suspectGen orc
     \<and> 0 \<le> or_window orc \<and> or_window orc \<le> oc_maxSettlementWindow (or_cfg orc)
     \<and> sum_list (map sh_maxKeys (or_shards orc)) = oc_maxTrackedKeys (or_cfg orc)
     \<and> (\<forall>i < length (or_shards orc). shard_ok (or_suspectFloor orc) (or_shards orc ! i)
          \<and> gens_ok (or_suspectGen orc) (or_shards orc ! i)
          \<and> homed hash (length (or_shards orc)) i (or_shards orc ! i))"

lemma oracle_okD:
  assumes "oracle_ok hash orc" and "i < length (or_shards orc)"
  shows "shard_ok (or_suspectFloor orc) (or_shards orc ! i)" "gens_ok (or_suspectGen orc) (or_shards orc ! i)"
    "homed hash (length (or_shards orc)) i (or_shards orc ! i)"
  using assms by (simp_all add: oracle_ok_def)

lemma shardIdx_less:
  assumes "oracle_ok hash orc"
  shows "shardIdx hash orc key < length (or_shards orc)"
proof -
  let ?n = "length (or_shards orc)"
  have n: "0 < ?n" "?n < 2 ^ 64" using assms by (auto simp: oracle_ok_def max_i64_def)
  then have "unat (of_nat ?n :: u64) = ?n" by (simp add: unat_of_nat take_bit_nat_eq_self)
  then show ?thesis using n(1) by (simp add: shardIdx_def unat_mod)
qed

lemma shardFor_ok:
  assumes "oracle_ok hash orc"
  shows "shard_ok (or_suspectFloor orc) (shardFor hash orc key)" "gens_ok (or_suspectGen orc) (shardFor hash orc key)"
    "homed hash (length (or_shards orc)) (shardIdx hash orc key) (shardFor hash orc key)"
  using oracle_okD [OF assms shardIdx_less [OF assms]] by (simp_all add: shardFor_def)

lemma sum_list_update_same:
  "i < length xs \<Longrightarrow> f y = f (xs ! i) \<Longrightarrow> sum_list (map f (xs[i := y])) = sum_list (map f xs)"
  by (metis list_update_id map_update nth_map)

lemma put_shard_ok:
  assumes ok: "oracle_ok hash orc" and sh: "shard_ok (or_suspectFloor orc) sh" "gens_ok (or_suspectGen orc) sh"
    "homed hash (length (or_shards orc)) (shardIdx hash orc key) sh" "sh_maxKeys sh = sh_maxKeys (shardFor hash orc key)"
  shows "oracle_ok hash (put_shard hash orc key sh)"
proof -
  have "sum_list (map sh_maxKeys ((or_shards orc)[shardIdx hash orc key := sh])) =
      sum_list (map sh_maxKeys (or_shards orc))"
    using shardIdx_less [OF ok] sh(4) by (intro sum_list_update_same) (simp_all add: shardFor_def)
  then show ?thesis
    using ok sh shardIdx_less [OF ok]
    by (auto simp: oracle_ok_def put_shard_def nth_list_update [OF shardIdx_less [OF ok]])
qed

lemma lookup_put_shard:
  assumes ok: "oracle_ok hash orc"
  shows "lookup hash (put_shard hash orc key sh) k =
    (if shardIdx hash orc k = shardIdx hash orc key then map_get (sh_entries sh) k else lookup hash orc k)"
proof -
  have "shardIdx hash (put_shard hash orc key sh) k = shardIdx hash orc k"
    by (simp add: shardIdx_def put_shard_def)
  then show ?thesis
    using shardIdx_less [OF ok] by (auto simp: lookup_def shardFor_def put_shard_def nth_list_update)
qed

lemma put_shard_fields [simp]:
  "or_cfg (put_shard hash orc key sh) = or_cfg orc" "or_window (put_shard hash orc key sh) = or_window orc"
  "or_suspectGen (put_shard hash orc key sh) = or_suspectGen orc"
  "or_suspectFloor (put_shard hash orc key sh) = or_suspectFloor orc"
  by (simp_all add: put_shard_def)

section \<open>Making room for a key\<close>

text \<open>What \<open>ensure_entry\<close> leaves for the write that follows.\<close>

definition ensured :: "Oracle \<Rightarrow> shard \<Rightarrow> string \<Rightarrow> shard \<Rightarrow> entry \<Rightarrow> bool \<Rightarrow> string option \<Rightarrow> bool" where
  "ensured orc sh key sh' ent created evicted \<longleftrightarrow>
     sh_bucketWidth sh' = sh_bucketWidth sh \<and> sh_maxKeys sh' = sh_maxKeys sh
     \<and> int (length (sh_entries sh')) \<le> sh_maxKeys sh'
     \<and> ents_ok (sh_entries sh') \<and> counts_ok (or_suspectFloor orc) sh'
     \<and> map_get (sh_entries sh') key = Some ent
     \<and> (\<exists>B. idx_ok (sh_buckets sh') (sh_settled sh') B
          \<and> (B key = None \<or> B key = Some (en_bucket ent))
          \<and> B(key := None) = (bucket_map (sh_entries sh'))(key := None))
     \<and> (\<forall>k. k \<noteq> key \<longrightarrow> map_get (sh_entries sh') k = (if evicted = Some k then None else map_get (sh_entries sh) k))
     \<and> set (sh_settled sh') \<subseteq> set (sh_settled sh)
     \<and> (if created then map_get (sh_entries sh) key = None else map_get (sh_entries sh) key = Some ent)"

lemma ensured_new:
  assumes ok: "shard_ok floor sh1" and k: "map_get (sh_entries sh1) key = None"
    and room: "int (length (sh_entries sh1)) < sh_maxKeys sh1"
    and f: "floor = or_suspectFloor orc" and ent: "ent = new_entry key at n"
    and sh1: "sh_bucketWidth sh1 = sh_bucketWidth sh" "sh_maxKeys sh1 = sh_maxKeys sh"
      "set (sh_settled sh1) \<subseteq> set (sh_settled sh)" "map_get (sh_entries sh) key = None"
      "\<forall>k'. k' \<noteq> key \<longrightarrow> map_get (sh_entries sh1) k' = (if evicted = Some k' then None else map_get (sh_entries sh) k')"
  shows "ensured orc sh key
    (remember (sh1\<lparr>sh_entries := map_put key ent (sh_entries sh1)\<rparr>) ent floor) ent True evicted"
proof -
  note p = shard_okD [OF ok]
  have "ents_ok (map_put key ent (sh_entries sh1))"
    using p(1) by (intro ents_ok_put) (simp_all add: ent new_entry_def)
  moreover have "counts_ok floor (remember (sh1\<lparr>sh_entries := map_put key ent (sh_entries sh1)\<rparr>) ent floor)"
    using p(2) k by (simp add: counts_ok_def count_if_put [OF p(4)])
  moreover have "bucket_map (sh_entries sh1) key = None" using k by (simp add: bucket_map_def)
  moreover have "int (length (map_put key ent (sh_entries sh1))) \<le> sh_maxKeys sh1"
    using room k by (simp add: length_put)
  ultimately show ?thesis
    unfolding ensured_def using p(3) f sh1 by (auto intro!: exI [of _ "bucket_map (sh_entries sh1)"])
qed

lemma ensure_entry_spec:
  assumes ok: "shard_ok (or_suspectFloor orc) sh"
    and eq: "ensure_entry orc sh key at = (sh', ent, created, evicted)"
  shows "ensured orc sh key sh' ent created evicted"
    and "created \<Longrightarrow> ent = new_entry key at (oc_ringSize (or_cfg orc))"
    and "evicted \<noteq> None \<Longrightarrow> created"
proof -
  have "ensured orc sh key sh' ent created evicted
      \<and> (created \<longrightarrow> ent = new_entry key at (oc_ringSize (or_cfg orc))) \<and> (evicted \<noteq> None \<longrightarrow> created)"
  proof (cases "map_get (sh_entries sh) key")
    case (Some e)
    then show ?thesis
      using eq ok shard_okD [OF ok]
      by (auto simp: ensure_entry_def ensured_def shard_ok_def bucket_map_def
          intro!: exI [of _ "bucket_map (sh_entries sh)"])
  next
    case None
    show ?thesis
    proof (cases "sh_maxKeys sh \<le> int (length (sh_entries sh))")
      case True
      then have "sh_entries sh \<noteq> []" using ok by (auto simp: shard_ok_def)
      from evict_spec [OF ok this] obtain v e where v: "map_get (sh_entries sh) v = Some e"
        "evictOneLocked sh (or_suspectFloor orc) = (fst (evictOneLocked sh (or_suspectFloor orc)), Some v)"
        "sh_entries (fst (evictOneLocked sh (or_suspectFloor orc))) = map_del v (sh_entries sh)"
        "sh_settled (fst (evictOneLocked sh (or_suspectFloor orc))) = set_del v (sh_settled sh)"
        "sh_bucketWidth (fst (evictOneLocked sh (or_suspectFloor orc))) = sh_bucketWidth sh"
        "sh_maxKeys (fst (evictOneLocked sh (or_suspectFloor orc))) = sh_maxKeys sh"
        "shard_ok (or_suspectFloor orc) (fst (evictOneLocked sh (or_suspectFloor orc)))"
        by (metis prod.collapse)
      define sh1 where "sh1 = fst (evictOneLocked sh (or_suspectFloor orc))"
      note v = v [folded sh1_def]
      have len: "Suc (length (map_del v (sh_entries sh))) = length (sh_entries sh)"
        using length_del [OF shard_okD(4) [OF ok]] v(1) by simp
      have "ensured orc sh key
          (remember (sh1\<lparr>sh_entries := map_put key (new_entry key at (oc_ringSize (or_cfg orc))) (sh_entries sh1)\<rparr>)
            (new_entry key at (oc_ringSize (or_cfg orc))) (or_suspectFloor orc))
          (new_entry key at (oc_ringSize (or_cfg orc))) True (Some v)"
        using v None len ok by (intro ensured_new [OF v(7)]) (auto simp: shard_ok_def)
      then show ?thesis using eq None True v(2) by (auto simp: ensure_entry_def Let_def)
    next
      case False
      then have "ensured orc sh key
          (remember (sh\<lparr>sh_entries := map_put key (new_entry key at (oc_ringSize (or_cfg orc))) (sh_entries sh)\<rparr>)
            (new_entry key at (oc_ringSize (or_cfg orc))) (or_suspectFloor orc))
          (new_entry key at (oc_ringSize (or_cfg orc))) True None"
        using None by (intro ensured_new [OF ok]) auto
      then show ?thesis using eq None False by (auto simp: ensure_entry_def Let_def)
    qed
  qed
  then show "ensured orc sh key sh' ent created evicted"
    "created \<Longrightarrow> ent = new_entry key at (oc_ringSize (or_cfg orc))" "evicted \<noteq> None \<Longrightarrow> created" by auto
qed

section \<open>Writing one key\<close>

definition oracle_timed :: "Oracle \<Rightarrow> time \<Rightarrow> bool" where
  "oracle_timed orc T \<longleftrightarrow>
     (\<forall>sh \<in> set (or_shards orc). timed sh T (oc_maxSettlementWindow (or_cfg orc)))"

lemma oracle_timed_put:
  assumes "oracle_timed orc T" and "timed sh T (oc_maxSettlementWindow (or_cfg orc))"
  shows "oracle_timed (put_shard hash orc key sh) T"
  using assms by (auto simp: oracle_timed_def put_shard_def dest!: set_update_subset_insert [THEN subsetD])

lemma oracle_timed_mono: "oracle_timed orc T \<Longrightarrow> T \<le> T' \<Longrightarrow> oracle_timed orc T'"
  by (auto simp: oracle_timed_def intro: timed_mono)

lemma ensured_write:
  fixes at :: time
  assumes en: "ensured orc sh key sh0 e0 created evicted" and ok: "shard_ok (or_suspectFloor orc) sh"
    and e1: "en_key e1 = key" "en_bucket e1 = en_bucket e0" "ring_ok (en_ring e1)"
  defines "w \<equiv> shard_write sh0 e0 e1 (or_suspectFloor orc) at"
  shows "shard_ok (or_suspectFloor orc) w" and "sh_maxKeys w = sh_maxKeys sh"
    and "map_get (sh_entries w) k = (if k = key then Some (e1\<lparr>en_bucket := bucketOf sh at\<rparr>)
      else if evicted = Some k then None else map_get (sh_entries sh) k)"
    and "set (sh_settled w) \<subseteq> set (sh_settled sh) - {key}" and "sh_bucketWidth w = sh_bucketWidth sh"
proof -
  have pos: "0 < sh_bucketWidth sh" "0 < sh_maxKeys sh" using ok by (auto simp: shard_ok_def)
  obtain B where B: "idx_ok (sh_buckets sh0) (sh_settled sh0) B" "B key = None \<or> B key = Some (en_bucket e0)"
    "B(key := None) = (bucket_map (sh_entries sh0))(key := None)"
    using en unfolding ensured_def by blast
  have wr: "shard_ok (or_suspectFloor orc) w \<and> set (sh_settled w) \<subseteq> set (sh_settled sh0) - {key}"
    unfolding w_def e1(1) [symmetric]
    by (intro conjI; rule shard_write_ok [where B = B])
      (use en B e1 pos in \<open>simp_all add: ensured_def\<close>)
  then show "shard_ok (or_suspectFloor orc) w" "set (sh_settled w) \<subseteq> set (sh_settled sh) - {key}"
    using en by (auto simp: ensured_def)
  show "sh_maxKeys w = sh_maxKeys sh" "sh_bucketWidth w = sh_bucketWidth sh"
    using en by (simp_all add: w_def shard_write_fields ensured_def)
  have "bucketOf sh0 at = bucketOf sh at" using en by (simp add: ensured_def bucketOf_def)
  then show "map_get (sh_entries w) k = (if k = key then Some (e1\<lparr>en_bucket := bucketOf sh at\<rparr>)
      else if evicted = Some k then None else map_get (sh_entries sh) k)"
    using en by (simp add: w_def shard_write_fields e1(1) ensured_def)
qed

lemma ensured_evicted_here:
  assumes ok: "shard_ok (or_suspectFloor orc) sh"
    and eq: "ensure_entry orc sh key at = (sh0, e0, created, Some v)"
  shows "map_get (sh_entries sh) v \<noteq> None"
proof -
  from eq have new: "map_get (sh_entries sh) key = None"
    by (auto simp: ensure_entry_def split: option.splits)
  with eq have ev: "snd (evictOneLocked sh (or_suspectFloor orc)) = Some v"
    and full: "sh_maxKeys sh \<le> int (length (sh_entries sh))"
    by (auto simp: ensure_entry_def Let_def split: if_splits prod.splits)
  have "sh_entries sh \<noteq> []" using full ok by (auto simp: shard_ok_def)
  from evict_spec [OF ok this] ev show ?thesis by auto
qed

lemma write_spec:
  assumes ok: "oracle_ok hash orc"
    and eq: "ensure_entry orc (shardFor hash orc key) key at = (sh0, e0, created, evicted)"
    and e1: "en_key e1 = key" "en_bucket e1 = en_bucket e0" "ring_ok (en_ring e1)" "en_gen e1 \<le> or_suspectGen orc"
  defines "orc' \<equiv> put_shard hash orc key (shard_write sh0 e0 e1 (or_suspectFloor orc) at)"
  shows "oracle_ok hash orc'"
    and "lookup hash orc' k = (if k = key then Some (e1\<lparr>en_bucket := bucketOf (shardFor hash orc key) at\<rparr>)
      else if evicted = Some k then None else lookup hash orc k)"
    and "oracle_timed orc T \<Longrightarrow> unix_ok at \<Longrightarrow> en_lastEventAt e1 = at \<Longrightarrow> oracle_timed orc' T"
proof -
  let ?sh = "shardFor hash orc key"
  define w where "w = shard_write sh0 e0 e1 (or_suspectFloor orc) at"
  note sh = shardFor_ok [OF ok, of key]
  note en = ensure_entry_spec [OF sh(1) eq]
  note w = ensured_write [OF en(1) sh(1) e1(1-3), of at, folded w_def]
  have "gens_ok (or_suspectGen orc) w" using sh(2) e1(4) by (auto simp: gens_ok_def w(3) split: if_splits)
  moreover have "homed hash (length (or_shards orc)) (shardIdx hash orc key) w"
    using sh(3) by (auto simp: homed_def w(3) shardIdx_def split: if_splits)
  ultimately show "oracle_ok hash orc'"
    unfolding orc'_def w_def [symmetric] by (intro put_shard_ok [OF ok w(1)]) (simp_all add: w(2))
  have "shardIdx hash orc v = shardIdx hash orc key" if "evicted = Some v" for v
    using ensured_evicted_here [OF sh(1)] eq that sh(3) by (auto simp: homed_def shardIdx_def)
  then show "lookup hash orc' k = (if k = key then Some (e1\<lparr>en_bucket := bucketOf (shardFor hash orc key) at\<rparr>)
      else if evicted = Some k then None else lookup hash orc k)"
    unfolding orc'_def w_def [symmetric] lookup_put_shard [OF ok] w(3)
    by (auto simp: lookup_def shardFor_def)
  assume t: "oracle_timed orc T" and u: "unix_ok at" and at: "en_lastEventAt e1 = at"
  have "timed ?sh T (oc_maxSettlementWindow (or_cfg orc))"
    using t shardIdx_less [OF ok] by (simp add: oracle_timed_def shardFor_def)
  then have "timed w T (oc_maxSettlementWindow (or_cfg orc))"
    using w(4) u at by (auto simp: timed_def w(3) bucketOf_def w(5) split: if_splits)
  then show "oracle_timed orc' T" unfolding orc'_def w_def [symmetric] by (rule oracle_timed_put [OF t])
qed

subsection \<open>Apply\<close>

text \<open>The entry \<open>Apply\<close> stores, its history included, before it is placed.\<close>

definition applied_entry ::
    "Oracle \<Rightarrow> Mutation \<Rightarrow> Event \<Rightarrow> Verdict \<Rightarrow> TrustState \<Rightarrow> time \<Rightarrow> bool \<Rightarrow> entry \<Rightarrow> entry" where
  "applied_entry orc m e verdict trust now created ent0 =
     (let ent = applied_value orc m e trust now created ent0
      in ent\<lparr>en_ring := ring_push (en_ring ent) (applied_history orc e verdict now ent)\<rparr>)"

lemma remember_ring [simp]: "remember s (e\<lparr>en_ring := r\<rparr>) f = remember s e f"
  by (simp add: remember_def)

lemma index_ring [simp]:
  "inBuckets s (e\<lparr>en_ring := r\<rparr>) = inBuckets s e" "removeFromIndex s (e\<lparr>en_ring := r\<rparr>) = removeFromIndex s e"
  by (simp_all add: inBuckets_def removeFromIndex_def Let_def split: option.splits)

lemma place_ring [simp]: "place s (e\<lparr>en_ring := r\<rparr>) at = (fst (place s e at), (snd (place s e at))\<lparr>en_ring := r\<rparr>)"
  by (simp add: place_def Let_def)

lemma Oracle_Apply_write:
  assumes act: "mu_action m \<noteq> ActionNone"
    and en: "ensure_entry orc (shardFor hash orc (mu_key m)) (mu_key m) (observedAt e clock)
      = (sh0, e0, created, evicted)"
    and key: "en_key e0 = mu_key m"
  shows "Oracle_Apply hash orc m e verdict trust clock =
    (put_shard hash orc (mu_key m)
      (shard_write sh0 e0 (applied_entry orc m e verdict trust (observedAt e clock) created e0)
        (or_suspectFloor orc) (observedAt e clock)),
     \<lparr>ar_key = mu_key m, ar_version = en_version e0 + 1, ar_created = created,
      ar_deleted = (mu_action m = ActionDelete), ar_evicted = evicted, ar_applied = True\<rparr>)"
proof -
  define now where "now = observedAt e clock"
  define ent3 where "ent3 = applied_value orc m e trust now created e0"
  define sh2 where "sh2 = remember (forget sh0 e0 (or_suspectFloor orc)) ent3 (or_suspectFloor orc)"
  have ent3: "en_version ent3 = en_version e0 + 1" "en_key ent3 = mu_key m"
    by (simp_all add: ent3_def applied_value_def Let_def key)
  have "Oracle_Apply hash orc m e verdict trust clock =
      (put_shard hash orc (mu_key m)
        ((fst (place sh2 ent3 now))\<lparr>sh_entries := map_put (mu_key m)
          (ent3\<lparr>en_bucket := bucketOf sh2 now,
            en_ring := ring_push (en_ring ent3) (applied_history orc e verdict now ent3)\<rparr>)
          (sh_entries (fst (place sh2 ent3 now)))\<rparr>),
       \<lparr>ar_key = mu_key m, ar_version = en_version e0 + 1, ar_created = created,
        ar_deleted = (mu_action m = ActionDelete), ar_evicted = evicted, ar_applied = True\<rparr>)"
    using act ent3(1) unfolding Oracle_Apply_def now_def [symmetric] en [folded now_def] Let_def
    unfolding split_def fst_conv snd_conv
    by (simp add: place_fields applied_history_def flip: ent3_def sh2_def)
  moreover have "shard_write sh0 e0 (applied_entry orc m e verdict trust now created e0) (or_suspectFloor orc) now =
      (fst (place sh2 ent3 now))\<lparr>sh_entries := map_put (mu_key m)
        (ent3\<lparr>en_bucket := bucketOf sh2 now,
          en_ring := ring_push (en_ring ent3) (applied_history orc e verdict now ent3)\<rparr>)
        (sh_entries (fst (place sh2 ent3 now)))\<rparr>"
    unfolding shard_write_eq applied_entry_def ent3_def [symmetric] Let_def
    by (simp add: ent3 place_fields flip: sh2_def)
  ultimately show ?thesis by (simp add: now_def)
qed

lemma applied_fields [simp]:
  "en_key (applied_value orc m e trust now created e0) = en_key e0"
  "en_bucket (applied_value orc m e trust now created e0) = en_bucket e0"
  "en_ring (applied_value orc m e trust now created e0) = en_ring e0"
  "en_gen (applied_value orc m e trust now created e0) = or_suspectGen orc"
  "en_version (applied_value orc m e trust now created e0) = en_version e0 + 1"
  "en_trust (applied_value orc m e trust now created e0) = trust"
  "en_truncated (applied_value orc m e trust now created e0) = mu_truncated m"
  "en_lastEventAt (applied_value orc m e trust now created e0) = now"
  "en_value (applied_value orc m e trust now created e0) =
    (if mu_action m = ActionUpsert then mu_value m else zero_Value)"
  "en_ttl (applied_value orc m e trust now created e0) = (if mu_action m = ActionUpsert then mu_ttl m else None)"
  "en_createdAt (applied_value orc m e trust now created e0) = en_createdAt e0"
  by (simp_all add: applied_value_def Let_def)

text \<open>The entry a write starts from: what was stored, or a new one.\<close>

definition start_entry :: "(string \<Rightarrow> u64) \<Rightarrow> Oracle \<Rightarrow> string \<Rightarrow> time \<Rightarrow> entry" where
  "start_entry hash orc key at =
     (case lookup hash orc key of Some ent \<Rightarrow> ent | None \<Rightarrow> new_entry key at (oc_ringSize (or_cfg orc)))"

lemma start_entry_ensured:
  assumes ok: "oracle_ok hash orc"
    and eq: "ensure_entry orc (shardFor hash orc key) key at = (sh0, e0, created, evicted)"
  shows "e0 = start_entry hash orc key at" "created \<longleftrightarrow> lookup hash orc key = None"
    "en_key e0 = key" "ring_ok (en_ring e0)"
proof -
  note en = ensure_entry_spec [OF shardFor_ok(1) [OF ok] eq]
  then show "e0 = start_entry hash orc key at" "created \<longleftrightarrow> lookup hash orc key = None"
    by (cases created; auto simp: ensured_def start_entry_def lookup_def)+
  show "en_key e0 = key" "ring_ok (en_ring e0)" using en(1) by (auto simp: ensured_def ents_ok_def)
qed

lemma Oracle_Apply_spec:
  assumes ok: "oracle_ok hash orc" and act: "mu_action m \<noteq> ActionNone"
    and ap: "Oracle_Apply hash orc m e verdict trust clock = (orc', res)"
  defines "now \<equiv> observedAt e clock" and "created \<equiv> lookup hash orc (mu_key m) = None"
    and "e0 \<equiv> start_entry hash orc (mu_key m) (observedAt e clock)"
  shows "oracle_ok hash orc'"
    and "lookup hash orc' k =
      (if k = mu_key m
       then Some ((applied_entry orc m e verdict trust now created e0)
              \<lparr>en_bucket := bucketOf (shardFor hash orc (mu_key m)) now\<rparr>)
       else if ar_evicted res = Some k then None else lookup hash orc k)"
    and "ar_applied res" "ar_version res = en_version e0 + 1" "ar_created res = created"
    and "or_suspectFloor orc' = or_suspectFloor orc" "or_suspectGen orc' = or_suspectGen orc"
      "or_cfg orc' = or_cfg orc" "or_window orc' = or_window orc"
    and "oracle_timed orc T \<Longrightarrow> unix_ok now \<Longrightarrow> oracle_timed orc' T"
    and "ar_evicted res \<noteq> None \<Longrightarrow> created"
proof -
  obtain sh0 e1 c ev where en: "ensure_entry orc (shardFor hash orc (mu_key m)) (mu_key m) (observedAt e clock)
      = (sh0, e1, c, ev)" by (metis prod_cases4)
  note st = start_entry_ensured [OF ok en]
  have e1: "e1 = e0" "c = created" using st(1,2) by (simp_all add: e0_def created_def)
  note wr = Oracle_Apply_write [OF act en st(3), of verdict trust, unfolded ap]
  then have orc': "orc' = put_shard hash orc (mu_key m)
      (shard_write sh0 e1 (applied_entry orc m e verdict trust now c e1) (or_suspectFloor orc) now)"
    and res: "res = \<lparr>ar_key = mu_key m, ar_version = en_version e1 + 1, ar_created = c,
      ar_deleted = (mu_action m = ActionDelete), ar_evicted = ev, ar_applied = True\<rparr>"
    by (simp_all add: now_def)
  have e2: "en_key (applied_entry orc m e verdict trust now c e1) = mu_key m"
    "en_bucket (applied_entry orc m e verdict trust now c e1) = en_bucket e1"
    "ring_ok (en_ring (applied_entry orc m e verdict trust now c e1))"
    "en_gen (applied_entry orc m e verdict trust now c e1) \<le> or_suspectGen orc"
    "en_lastEventAt (applied_entry orc m e verdict trust now c e1) = now"
    using st(3,4) by (simp_all add: applied_entry_def Let_def history.push_invar)
  note ws = write_spec [OF ok en [folded now_def] e2(1-4), folded orc']
  show "oracle_ok hash orc'" by (rule ws(1))
  show "lookup hash orc' k = (if k = mu_key m
       then Some ((applied_entry orc m e verdict trust now created e0)
              \<lparr>en_bucket := bucketOf (shardFor hash orc (mu_key m)) now\<rparr>)
       else if ar_evicted res = Some k then None else lookup hash orc k)"
    using ws(2) [of k] by (simp add: e1 res)
  show "ar_applied res" "ar_version res = en_version e0 + 1" "ar_created res = created"
    by (simp_all add: res e1)
  show "or_suspectFloor orc' = or_suspectFloor orc" "or_suspectGen orc' = or_suspectGen orc"
      "or_cfg orc' = or_cfg orc" "or_window orc' = or_window orc" by (simp_all add: orc')
  show "oracle_timed orc T \<Longrightarrow> unix_ok now \<Longrightarrow> oracle_timed orc' T" using ws(3) e2(5) by blast
  show "ar_evicted res \<noteq> None \<Longrightarrow> created"
    using ensure_entry_spec(3) [OF shardFor_ok(1) [OF ok] en] by (simp add: res e1)
qed

lemma Oracle_Apply_none:
  "mu_action m = ActionNone \<Longrightarrow> fst (Oracle_Apply hash orc m e verdict trust clock) = orc
    \<and> \<not> ar_applied (snd (Oracle_Apply hash orc m e verdict trust clock))"
  by (simp add: Oracle_Apply_def)

subsection \<open>Adoption\<close>

lemma adopt_one_spec:
  assumes ok: "oracle_ok hash orc"
  shows "oracle_ok hash (adopt_one hash at orc (key, v))"
    and "oracle_timed orc T \<Longrightarrow> unix_ok at \<Longrightarrow> oracle_timed (adopt_one hash at orc (key, v)) T"
    and "or_cfg (adopt_one hash at orc (key, v)) = or_cfg orc"
    and "\<exists>ent. lookup hash (adopt_one hash at orc (key, v)) key = Some ent \<and> en_trust ent = TrustAdopted
      \<and> en_value ent = v \<and> en_version ent = en_version (start_entry hash orc key at) + 1"
    and "k \<noteq> key \<Longrightarrow> lookup hash (adopt_one hash at orc (key, v)) k = Some ent' \<Longrightarrow> lookup hash orc k = Some ent'"
    and "or_suspectFloor (adopt_one hash at orc (key, v)) = or_suspectFloor orc"
    and "or_suspectGen (adopt_one hash at orc (key, v)) = or_suspectGen orc"
proof -
  obtain sh0 e0 c ev where en: "ensure_entry orc (shardFor hash orc key) key at = (sh0, e0, c, ev)"
    by (metis prod_cases4)
  note st = start_entry_ensured [OF ok en]
  define e1 where "e1 = e0\<lparr>en_version := en_version e0 + 1, en_gen := or_suspectGen orc,
    en_trust := TrustAdopted, en_value := v, en_lastEventAt := at\<rparr>"
  have key: "en_key e1 = key" using st(3) by (simp add: e1_def)
  have eq: "adopt_one hash at orc (key, v) =
      put_shard hash orc key (shard_write sh0 e0 e1 (or_suspectFloor orc) at)"
    unfolding adopt_one_def fst_conv snd_conv en Let_def shard_write_eq
    by (simp add: split_def e1_def [symmetric] key)
  note ws = write_spec [OF ok en, of e1, folded eq]
  have e1: "en_bucket e1 = en_bucket e0" "ring_ok (en_ring e1)" "en_gen e1 \<le> or_suspectGen orc"
    "en_lastEventAt e1 = at" using st(4) by (simp_all add: e1_def)
  show "oracle_ok hash (adopt_one hash at orc (key, v))" by (rule ws(1) [OF key e1(1-3)])
  show "oracle_timed orc T \<Longrightarrow> unix_ok at \<Longrightarrow> oracle_timed (adopt_one hash at orc (key, v)) T"
    using ws(3) [OF key e1(1-3)] e1(4) by blast
  show "or_cfg (adopt_one hash at orc (key, v)) = or_cfg orc" by (simp add: eq)
  show "\<exists>ent. lookup hash (adopt_one hash at orc (key, v)) key = Some ent \<and> en_trust ent = TrustAdopted
      \<and> en_value ent = v \<and> en_version ent = en_version (start_entry hash orc key at) + 1"
    using ws(2) [OF key e1(1-3), of key] by (simp add: e1_def st(1))
  show "k \<noteq> key \<Longrightarrow> lookup hash (adopt_one hash at orc (key, v)) k = Some ent' \<Longrightarrow> lookup hash orc k = Some ent'"
    using ws(2) [OF key e1(1-3), of k] by (simp split: if_splits)
  show "or_suspectFloor (adopt_one hash at orc (key, v)) = or_suspectFloor orc"
    "or_suspectGen (adopt_one hash at orc (key, v)) = or_suspectGen orc" by (simp_all add: eq)
qed

lemma AdoptSnapshot_ok:
  "oracle_ok hash orc \<Longrightarrow> oracle_ok hash (AdoptSnapshot hash orc vs at)
    \<and> (oracle_timed orc T \<longrightarrow> unix_ok at \<longrightarrow> oracle_timed (AdoptSnapshot hash orc vs at) T)
    \<and> or_cfg (AdoptSnapshot hash orc vs at) = or_cfg orc"
  unfolding AdoptSnapshot_def
proof (induction vs arbitrary: orc)
  case (Cons kv vs)
  obtain k v where kv: "kv = (k, v)" by (cases kv)
  note a = adopt_one_spec [OF Cons.prems, where at = at and key = k and v = v]
  show ?case using Cons.IH [OF a(1)] a by (simp add: kv)
qed simp

subsection \<open>Suspicion\<close>

text \<open>What \<open>MarkSuspect\<close> with a pattern does to one entry.\<close>

definition suspect_entry ::
    "(string \<Rightarrow> string \<Rightarrow> bool option) \<Rightarrow> string \<Rightarrow> string \<Rightarrow> entry \<Rightarrow> entry" where
  "suspect_entry glob pattern k e =
     (if en_trust e = TrustComplete \<and> matchGlob glob pattern k then e\<lparr>en_trust := TrustSuspect\<rparr> else e)"

lemma mark_loop:
  assumes "ents_ok (sh_entries s)" and "counts_ok floor s"
    and "wf_map m" and "\<forall>kv \<in> set m. map_get (sh_entries s) (fst kv) = Some (snd kv)"
  shows "ents_ok (sh_entries (foldl (mark_one glob pattern floor) s m))
    \<and> counts_ok floor (foldl (mark_one glob pattern floor) s m)
    \<and> (\<forall>k. map_get (sh_entries (foldl (mark_one glob pattern floor) s m)) k =
        (if k \<in> fst ` set m then map_option (suspect_entry glob pattern k) (map_get (sh_entries s) k) else map_get (sh_entries s) k))
    \<and> length (sh_entries (foldl (mark_one glob pattern floor) s m)) = length (sh_entries s)"
  using assms
proof (induction m arbitrary: s)
  case (Cons kv m)
  define s' where "s' = mark_one glob pattern floor s kv"
  have get: "map_get (sh_entries s) (fst kv) = Some (snd kv)" using Cons.prems(4) by simp
  have wf: "wf_map (sh_entries s)" using Cons.prems(1) by (simp add: ents_ok_def)
  have ents: "ents_ok (sh_entries s')"
    using Cons.prems(1) get by (auto simp: s'_def mark_one_def Let_def ents_ok_def wf_map_put)
  have counts: "counts_ok floor s'"
    using Cons.prems(2) get by (auto simp: s'_def mark_one_def Let_def counts_ok_def count_if_put [OF wf]
        is_fresh_def)
  have look: "map_get (sh_entries s') k = (if k = fst kv then Some (suspect_entry glob pattern k (snd kv)) else map_get (sh_entries s) k)" for k
    using get by (auto simp: s'_def mark_one_def Let_def suspect_entry_def)
  have len: "length (sh_entries s') = length (sh_entries s)"
    using get by (simp add: s'_def mark_one_def Let_def length_put)
  have rest: "\<forall>kv' \<in> set m. map_get (sh_entries s') (fst kv') = Some (snd kv')"
    using Cons.prems(3,4) by (auto simp: look rev_image_eqI)
  from Cons.IH [OF ents counts _ rest] Cons.prems(3) show ?case
    using get look len by (auto simp: s'_def [symmetric] rev_image_eqI)
qed simp

lemma mark_one_static:
  "sh_buckets (foldl (mark_one glob pattern floor) s m) = sh_buckets s"
  "sh_settled (foldl (mark_one glob pattern floor) s m) = sh_settled s"
  "sh_bucketWidth (foldl (mark_one glob pattern floor) s m) = sh_bucketWidth s"
  "sh_maxKeys (foldl (mark_one glob pattern floor) s m) = sh_maxKeys s"
  by (rule foldl_keeps; simp add: mark_one_def Let_def)+

text \<open>A shard whose entries were rewritten key by key, with the index left alone.\<close>

definition rewritten :: "(string \<Rightarrow> entry \<Rightarrow> entry) \<Rightarrow> shard \<Rightarrow> shard \<Rightarrow> bool" where
  "rewritten f s s' \<longleftrightarrow> sh_buckets s' = sh_buckets s \<and> sh_settled s' = sh_settled s
     \<and> sh_bucketWidth s' = sh_bucketWidth s \<and> sh_maxKeys s' = sh_maxKeys s
     \<and> length (sh_entries s') = length (sh_entries s) \<and> ents_ok (sh_entries s')
     \<and> (\<forall>k. map_get (sh_entries s') k = map_option (f k) (map_get (sh_entries s) k))"

lemma rewritten_ok:
  assumes "rewritten f s s'" and "shard_ok floor s" and "counts_ok floor' s'" and "\<And>k e. en_bucket (f k e) = en_bucket e"
  shows "shard_ok floor' s'"
proof -
  have "bucket_map (sh_entries s') = bucket_map (sh_entries s)"
    using assms(1,4) by (auto simp: rewritten_def bucket_map_def fun_eq_iff option.map_comp comp_def)
  then show ?thesis using assms by (simp add: rewritten_def shard_ok_def)
qed

lemma rewritten_timed:
  assumes "rewritten f s s'" and "timed s T maxW"
    and "\<And>k e. en_bucket (f k e) = en_bucket e" "\<And>k e. en_lastEventAt (f k e) = en_lastEventAt e"
  shows "timed s' T maxW"
  using assms by (fastforce simp: rewritten_def timed_def bucketOf_def)

lemma rewritten_mark:
  assumes "shard_ok floor s"
  shows "rewritten (suspect_entry glob pattern) s (foldl (mark_one glob pattern floor) s (sh_entries s))"
    and "counts_ok floor (foldl (mark_one glob pattern floor) s (sh_entries s))"
proof -
  note p = shard_okD [OF assms]
  have get: "\<forall>kv \<in> set (sh_entries s). map_get (sh_entries s) (fst kv) = Some (snd kv)"
    using p(4) by (simp add: map_get_eq_Some_iff)
  note ml = mark_loop [OF p(1,2,4) get, of glob pattern]
  have "map_get (sh_entries s) k = None" if "k \<notin> fst ` set (sh_entries s)" for k
    using that by (simp add: map_get_None_iff)
  with ml show "rewritten (suspect_entry glob pattern) s (foldl (mark_one glob pattern floor) s (sh_entries s))"
    by (auto simp: rewritten_def mark_one_static)
  show "counts_ok floor (foldl (mark_one glob pattern floor) s (sh_entries s))" using ml by blast
qed

lemma map_get_map:
  "map_get (map (\<lambda>kv. (fst kv, f (fst kv) (snd kv))) m) k = map_option (f k) (map_get m k)"
  by (induction m) (auto simp: map_get_def)

lemma rewritten_clear:
  fixes gen floor' :: u64 and glob :: "string \<Rightarrow> string \<Rightarrow> bool option" and pattern :: string
  assumes "shard_ok floor s"
  defines "s' \<equiv> recount (s\<lparr>sh_entries := map (\<lambda>kv. (fst kv, clear_one glob pattern gen (fst kv) (snd kv)))
    (sh_entries s)\<rparr>) floor'"
  shows "rewritten (clear_one glob pattern gen) s s'" and "counts_ok floor' s'"
proof -
  have c: "en_key (clear_one glob pattern gen k e) = en_key e" "en_ring (clear_one glob pattern gen k e) = en_ring e" for k e
    by (simp_all add: clear_one_def Let_def)
  show "rewritten (clear_one glob pattern gen) s s'"
    using shard_okD(1) [OF assms(1)] by (auto simp: rewritten_def s'_def ents_ok_def map_get_map c comp_def)
  show "counts_ok floor' s'" unfolding s'_def by (rule recount_counts)
qed

subsection \<open>Operations on every shard\<close>

lemma map_shards_ok:
  assumes ok: "oracle_ok hash orc" and gf: "floor' \<le> gen'"
    and sh: "\<And>sh. sh \<in> set (or_shards orc) \<Longrightarrow> shard_ok (or_suspectFloor orc) sh \<Longrightarrow>
      gens_ok (or_suspectGen orc) sh \<Longrightarrow>
      shard_ok floor' (f sh) \<and> gens_ok gen' (f sh) \<and> sh_maxKeys (f sh) = sh_maxKeys sh
      \<and> (\<forall>k. map_get (sh_entries (f sh)) k \<noteq> None \<longrightarrow> map_get (sh_entries sh) k \<noteq> None)"
  shows "oracle_ok hash (orc\<lparr>or_shards := map f (or_shards orc), or_suspectGen := gen', or_suspectFloor := floor'\<rparr>)"
proof -
  have all: "shard_ok floor' (f sh) \<and> gens_ok gen' (f sh) \<and> sh_maxKeys (f sh) = sh_maxKeys sh
      \<and> (\<forall>k. map_get (sh_entries (f sh)) k \<noteq> None \<longrightarrow> map_get (sh_entries sh) k \<noteq> None)"
    if "sh \<in> set (or_shards orc)" for sh
    using sh [OF that] ok that by (auto simp: oracle_ok_def in_set_conv_nth)
  have "map (sh_maxKeys \<circ> f) (or_shards orc) = map sh_maxKeys (or_shards orc)" using all by simp
  then have "sum_list (map (sh_maxKeys \<circ> f) (or_shards orc)) = oc_maxTrackedKeys (or_cfg orc)"
    using ok by (simp only: oracle_ok_def)
  moreover have "homed hash (length (or_shards orc)) i (f (or_shards orc ! i))" if "i < length (or_shards orc)" for i
    using oracle_okD(3) [OF ok that] all [OF nth_mem [OF that]] unfolding homed_def by blast
  ultimately show ?thesis using ok gf all by (simp add: oracle_ok_def)
qed

lemma lookup_map_shards:
  assumes "oracle_ok hash orc"
  shows "lookup hash (orc\<lparr>or_shards := map f (or_shards orc), or_suspectGen := g, or_suspectFloor := fl\<rparr>) k
    = map_get (sh_entries (f (shardFor hash orc k))) k"
  using shardIdx_less [OF assms, of k] by (simp add: lookup_def shardFor_def shardIdx_def)

lemma shardFor_mem: "oracle_ok hash orc \<Longrightarrow> shardFor hash orc k \<in> set (or_shards orc)"
  by (simp add: shardFor_def shardIdx_less)

lemma MarkSuspect_all_eq:
  "MarkSuspect glob orc [] = orc\<lparr>or_shards := map (\<lambda>sh. sh\<lparr>sh_fresh := 0\<rparr>) (or_shards orc),
     or_suspectGen := or_suspectGen orc + 1, or_suspectFloor := or_suspectGen orc + 1\<rparr>"
  by (simp add: MarkSuspect_def Let_def)

lemma MarkSuspect_pattern_eq:
  "p \<noteq> [] \<Longrightarrow> MarkSuspect glob orc p =
    orc\<lparr>or_shards := map (\<lambda>sh. foldl (mark_one glob p (or_suspectFloor orc)) sh (sh_entries sh)) (or_shards orc),
      or_suspectGen := or_suspectGen orc, or_suspectFloor := or_suspectFloor orc\<rparr>"
  by (simp add: MarkSuspect_def)

lemma ClearSuspect_eq:
  "ClearSuspect glob orc p =
    (let floor = (if p = [] then 0 else or_suspectFloor orc)
     in orc\<lparr>or_shards := map (\<lambda>sh. recount
            (sh\<lparr>sh_entries := map (\<lambda>kv. (fst kv, clear_one glob p (or_suspectGen orc) (fst kv) (snd kv)))
               (sh_entries sh)\<rparr>) floor) (or_shards orc),
        or_suspectGen := or_suspectGen orc, or_suspectFloor := floor\<rparr>)"
  by (simp add: ClearSuspect_def Let_def)

text \<open>Raising the floor above every generation leaves nothing fresh.\<close>

lemma raise_floor_ok:
  assumes ok: "shard_ok floor sh" and g: "gens_ok gen sh" "gen \<noteq> - 1"
  shows "shard_ok (gen + 1) (sh\<lparr>sh_fresh := 0\<rparr>)"
proof -
  have "\<not> is_fresh (gen + 1) e" if "map_get (sh_entries sh) k = Some e" for k e
    using g that by (simp add: gens_ok_def is_fresh_def u64_suc_le_iff) (meson leD)
  then have "count_if (is_fresh (gen + 1)) (sh_entries sh) = 0"
    using shard_okD(4) [OF ok] by (auto simp: count_if_def filter_empty_conv map_get_eq_Some_iff)
  then show ?thesis using ok by (simp add: shard_ok_def counts_ok_def)
qed

lemma gens_ok_fresh [simp]: "gens_ok gen (sh\<lparr>sh_fresh := n\<rparr>) \<longleftrightarrow> gens_ok gen sh"
  by (simp add: gens_ok_def)

lemma gens_ok_suc: "gens_ok gen sh \<Longrightarrow> gen \<noteq> - 1 \<Longrightarrow> gens_ok (gen + 1) sh"
  unfolding gens_ok_def by (meson less_imp_le order.trans order.refl u64_less_suc_iff)

lemma MarkSuspect_ok:
  assumes ok: "oracle_ok hash orc" and g: "or_suspectGen orc \<noteq> - 1"
  shows "oracle_ok hash (MarkSuspect glob orc p)"
proof (cases "p = []")
  case True
  show ?thesis
    unfolding True MarkSuspect_all_eq
    by (rule map_shards_ok [OF ok order.refl]) (use g in \<open>auto simp: raise_floor_ok gens_ok_suc\<close>)
next
  case False
  have "gens_ok gen (foldl (mark_one glob p (or_suspectFloor orc)) sh (sh_entries sh))"
    if "shard_ok (or_suspectFloor orc) sh" "gens_ok gen sh" for sh gen
    using rewritten_mark(1) [OF that(1), of glob p] that(2)
    by (auto simp: rewritten_def gens_ok_def suspect_entry_def)
  moreover have "shard_ok (or_suspectFloor orc) (foldl (mark_one glob p (or_suspectFloor orc)) sh (sh_entries sh))"
    if "shard_ok (or_suspectFloor orc) sh" for sh
    by (rule rewritten_ok [OF rewritten_mark(1) [OF that] that rewritten_mark(2) [OF that]])
      (simp add: suspect_entry_def)
  ultimately show ?thesis
    unfolding MarkSuspect_pattern_eq [OF False]
    using ok rewritten_mark(1)
    by (intro map_shards_ok [OF ok]) (auto simp: oracle_ok_def rewritten_def mark_one_static)
qed

lemma ClearSuspect_ok:
  assumes ok: "oracle_ok hash orc"
  shows "oracle_ok hash (ClearSuspect glob orc p)"
proof -
  define floor where "floor = (if p = [] then 0 else or_suspectFloor orc)"
  define f where "f sh = recount (sh\<lparr>sh_entries := map (\<lambda>kv. (fst kv, clear_one glob p (or_suspectGen orc)
      (fst kv) (snd kv))) (sh_entries sh)\<rparr>) floor" for sh
  have "shard_ok floor (f sh) \<and> gens_ok (or_suspectGen orc) (f sh) \<and> rewritten (clear_one glob p (or_suspectGen orc)) sh (f sh)"
    if "shard_ok (or_suspectFloor orc) sh" "gens_ok (or_suspectGen orc) sh" for sh
  proof -
    note r = rewritten_clear [OF that(1), where glob = glob and pattern = p and gen = "or_suspectGen orc"
        and floor' = floor, folded f_def]
    have "shard_ok floor (f sh)"
      by (rule rewritten_ok [OF r(1) that(1) r(2)]) (simp add: clear_one_def Let_def)
    moreover have "en_gen (clear_one glob p (or_suspectGen orc) k e) \<le> or_suspectGen orc"
      if "en_gen e \<le> or_suspectGen orc" for k e using that by (simp add: clear_one_def Let_def)
    then have "gens_ok (or_suspectGen orc) (f sh)"
      using r(1) that(2) by (auto simp: rewritten_def gens_ok_def)
    ultimately show ?thesis using r(1) by blast
  qed
  then show ?thesis
    unfolding ClearSuspect_eq Let_def floor_def [symmetric] f_def [symmetric]
    by (intro map_shards_ok [OF ok]) (use ok in \<open>auto simp: oracle_ok_def floor_def rewritten_def\<close>)
qed

subsection \<open>A new oracle\<close>

lemma applyDefaults_ok: "cfg_ok (oracle_applyDefaults c)"
  by (simp add: cfg_ok_def oracle_applyDefaults_def Let_def)

lemma applyDefaults_shards: "oc_shards c \<le> max_i64 \<Longrightarrow> oc_shards (oracle_applyDefaults c) \<le> max_i64"
  by (auto simp: oracle_applyDefaults_def Let_def max_i64_def)

text \<open>The shares of the key budget sum to exactly the budget.\<close>

lemma sum_shares:
  "0 \<le> r \<Longrightarrow> sum_list (map (\<lambda>i. if int i < r then b + 1 else b) [0..<n]) = b * int n + min r (int n)"
  by (induction n) (auto simp: algebra_simps min_def)

lemma Oracle_New_ok:
  assumes "oc_shards cfg \<le> max_i64"
  shows "oracle_ok hash (Oracle_New cfg)" and "oracle_timed (Oracle_New cfg) T"
    and "or_cfg (Oracle_New cfg) = oracle_applyDefaults cfg"
proof -
  define c where "c = oracle_applyDefaults cfg"
  define b where "b = go_div (oc_maxTrackedKeys c) (oc_shards c)"
  define r where "r = oc_maxTrackedKeys c - b * oc_shards c"
  have cfg: "cfg_ok c" "oc_shards c \<le> max_i64"
    using applyDefaults_ok applyDefaults_shards [OF assms] by (simp_all add: c_def)
  then have pos: "0 < oc_shards c" "oc_shards c \<le> oc_maxTrackedKeys c" "0 < oc_bucketWidth c"
    by (simp_all add: cfg_ok_def)
  have b: "b = oc_maxTrackedKeys c div oc_shards c" using pos by (simp add: b_def go_div_def)
  have r: "r = oc_maxTrackedKeys c mod oc_shards c" by (simp add: r_def b minus_div_mult_eq_mod)
  have b1: "1 \<le> b" using pos by (simp add: b int_one_le_iff_zero_less pos_imp_zdiv_pos_iff)
  have eq: "Oracle_New cfg = \<lparr>or_cfg = c, or_shards = map (\<lambda>i. newShard (oc_bucketWidth c)
      (if int i < r then b + 1 else b)) [0..<nat (oc_shards c)], or_window = oc_settlementWindow c,
      or_suspectGen = 0, or_suspectFloor = 0\<rparr>"
    by (simp add: Oracle_New_def Let_def c_def b_def r_def)
  have "sum_list (map sh_maxKeys (or_shards (Oracle_New cfg))) = oc_maxTrackedKeys c"
  proof -
    have "map sh_maxKeys (or_shards (Oracle_New cfg)) =
        map (\<lambda>i. if int i < r then b + 1 else b) [0..<nat (oc_shards c)]"
      by (simp add: eq newShard_def)
    moreover have "0 \<le> r" "r \<le> oc_shards c" using pos(1) by (simp_all add: r less_imp_le)
    ultimately show ?thesis using pos(1) by (simp add: sum_shares b r_def min_def)
  qed
  then show "oracle_ok hash (Oracle_New cfg)"
    using cfg pos b1 newShard_ok [OF pos(3)]
    by (auto simp: oracle_ok_def eq cfg_ok_def gens_ok_def homed_def newShard_def)
  show "oracle_timed (Oracle_New cfg) T" by (auto simp: oracle_timed_def eq timed_def newShard_def)
  show "or_cfg (Oracle_New cfg) = oracle_applyDefaults cfg" by (simp add: eq c_def)
qed

subsection \<open>Promotion of every shard\<close>

definition promoted :: "Oracle \<Rightarrow> time \<Rightarrow> Oracle" where
  "promoted orc now =
     orc\<lparr>or_shards := map (\<lambda>sh. promote sh now (oc_maxSettlementWindow (or_cfg orc))) (or_shards orc)\<rparr>"

lemma promoted_eq:
  "fst (SettledKeys orc now) = promoted orc now" "fst (Oracle_Counts orc now) = promoted orc now"
  by (simp_all add: SettledKeys_def Oracle_Counts_def promoted_def Let_def)

lemma sh_maxKeys_promote: "sh_maxKeys (promote sh now w) = sh_maxKeys sh"
  unfolding promote_def Let_def by (rule foldl_keeps) (simp add: promote_one_def)

lemma promoted_ok:
  assumes ok: "oracle_ok hash orc"
  shows "oracle_ok hash (promoted orc now)"
    and "lookup hash (promoted orc now) k = lookup hash orc k"
    and "oracle_timed orc T \<Longrightarrow> T \<le> now \<Longrightarrow> unix_ok (now - oc_maxSettlementWindow (or_cfg orc)) \<Longrightarrow>
      oracle_timed (promoted orc now) now"
proof -
  have eq: "promoted orc now = orc\<lparr>or_shards := map (\<lambda>sh. promote sh now (oc_maxSettlementWindow (or_cfg orc)))
      (or_shards orc), or_suspectGen := or_suspectGen orc, or_suspectFloor := or_suspectFloor orc\<rparr>"
    by (simp add: promoted_def)
  show "oracle_ok hash (promoted orc now)"
    unfolding eq using ok
    by (intro map_shards_ok [OF ok])
      (auto simp: oracle_ok_def promote_spec sh_maxKeys_promote gens_ok_def)
  show "lookup hash (promoted orc now) k = lookup hash orc k"
    unfolding eq lookup_map_shards [OF ok] promote_spec(2) [OF shardFor_ok(1) [OF ok]] by (simp add: lookup_def)
  show "oracle_timed (promoted orc now) now" if "oracle_timed orc T" "T \<le> now"
    "unix_ok (now - oc_maxSettlementWindow (or_cfg orc))"
    using that ok promote_timed by (fastforce simp: oracle_timed_def promoted_def oracle_ok_def in_set_conv_nth)
qed

section \<open>Runs\<close>

text \<open>
  A run of the oracle from its construction, with the instant \<open>T\<close> of the last promotion. Each step
  is one operation on one snapshot of the state; times stay within the range of \<open>UnixNano\<close>, sweeps
  do not go back in time, and the generation counter does not wrap.
\<close>

inductive oracle_run ::
    "(string \<Rightarrow> u64) \<Rightarrow> (string \<Rightarrow> string \<Rightarrow> bool option) \<Rightarrow> OracleConfig \<Rightarrow> Oracle \<Rightarrow> time \<Rightarrow> bool"
  for hash glob cfg where
  start: "oc_shards cfg \<le> max_i64 \<Longrightarrow> oracle_run hash glob cfg (Oracle_New cfg) T"
| applied: "oracle_run hash glob cfg orc T \<Longrightarrow> unix_ok (observedAt e clock) \<Longrightarrow>
    oracle_run hash glob cfg (fst (Oracle_Apply hash orc m e verdict trust clock)) T"
| adopted: "oracle_run hash glob cfg orc T \<Longrightarrow> unix_ok at \<Longrightarrow>
    oracle_run hash glob cfg (AdoptSnapshot hash orc vs at) T"
| marked: "oracle_run hash glob cfg orc T \<Longrightarrow> or_suspectGen orc \<noteq> - 1 \<Longrightarrow>
    oracle_run hash glob cfg (MarkSuspect glob orc p) T"
| cleared: "oracle_run hash glob cfg orc T \<Longrightarrow> oracle_run hash glob cfg (ClearSuspect glob orc p) T"
| window: "oracle_run hash glob cfg orc T \<Longrightarrow> oracle_run hash glob cfg (SetSettlementWindow orc d) T"
| swept: "oracle_run hash glob cfg orc T \<Longrightarrow> T \<le> now \<Longrightarrow>
    unix_ok (now - oc_maxSettlementWindow (or_cfg orc)) \<Longrightarrow>
    oracle_run hash glob cfg (fst (SettledKeys orc now)) now"

lemma mark_timed:
  assumes ok: "oracle_ok hash orc" and t: "oracle_timed orc T"
  shows "oracle_timed (MarkSuspect glob orc p) T"
proof (cases "p = []")
  case True
  then show ?thesis using t by (auto simp: MarkSuspect_all_eq oracle_timed_def timed_def bucketOf_def)
next
  case False
  have "timed (foldl (mark_one glob p (or_suspectFloor orc)) sh (sh_entries sh)) T (oc_maxSettlementWindow (or_cfg orc))"
    if "sh \<in> set (or_shards orc)" for sh
  proof -
    have s: "shard_ok (or_suspectFloor orc) sh" using ok that by (auto simp: oracle_ok_def in_set_conv_nth)
    show ?thesis
      by (rule rewritten_timed [OF rewritten_mark(1) [OF s]]) (use t that in \<open>auto simp: oracle_timed_def suspect_entry_def\<close>)
  qed
  then show ?thesis by (simp add: MarkSuspect_pattern_eq [OF False] oracle_timed_def)
qed

lemma clear_timed:
  assumes ok: "oracle_ok hash orc" and t: "oracle_timed orc T"
  shows "oracle_timed (ClearSuspect glob orc p) T"
proof -
  have "timed (recount (sh\<lparr>sh_entries := map (\<lambda>kv. (fst kv, clear_one glob p (or_suspectGen orc)
      (fst kv) (snd kv))) (sh_entries sh)\<rparr>) fl) T (oc_maxSettlementWindow (or_cfg orc))"
    if "sh \<in> set (or_shards orc)" for sh fl
  proof -
    have s: "shard_ok (or_suspectFloor orc) sh" using ok that by (auto simp: oracle_ok_def in_set_conv_nth)
    show ?thesis
      by (rule rewritten_timed [OF rewritten_clear(1) [OF s]])
        (use t that in \<open>auto simp: oracle_timed_def clear_one_def Let_def\<close>)
  qed
  then show ?thesis by (simp add: ClearSuspect_eq Let_def oracle_timed_def)
qed

lemma or_cfg_suspect [simp]:
  "or_cfg (MarkSuspect glob orc p) = or_cfg orc" "or_cfg (ClearSuspect glob orc p) = or_cfg orc"
  by (simp_all add: MarkSuspect_def ClearSuspect_def Let_def)

lemma oracle_run_ok:
  "oracle_run hash glob cfg orc T \<Longrightarrow>
    oracle_ok hash orc \<and> oracle_timed orc T \<and> or_cfg orc = oracle_applyDefaults cfg"
proof (induction rule: oracle_run.induct)
  case (start T)
  then show ?case by (simp add: Oracle_New_ok)
next
  case (applied orc T e clock m verdict trust)
  show ?case
  proof (cases "mu_action m = ActionNone")
    case True
    then show ?thesis using applied.IH by (simp add: Oracle_Apply_none)
  next
    case False
    obtain orc' res where eq: "Oracle_Apply hash orc m e verdict trust clock = (orc', res)"
      by (cases "Oracle_Apply hash orc m e verdict trust clock")
    from applied.IH have "oracle_ok hash orc" by simp
    note sp = Oracle_Apply_spec [OF this False eq]
    have "oracle_timed orc' T" using sp(10) applied by blast
    then show ?thesis using sp(1,8) applied.IH by (simp add: eq)
  qed
next
  case (adopted orc T at vs)
  then show ?case using AdoptSnapshot_ok [of hash orc vs at T] by simp
next
  case (marked orc T p)
  then show ?case by (auto simp: MarkSuspect_ok intro: mark_timed)
next
  case (cleared orc T p)
  then show ?case by (auto simp: ClearSuspect_ok intro: clear_timed)
next
  case (window orc T d)
  then show ?case
    by (auto simp: SetSettlementWindow_def Let_def oracle_ok_def oracle_timed_def cfg_ok_def)
next
  case (swept orc T now)
  then have ok: "oracle_ok hash orc" by simp
  have "oracle_timed (promoted orc now) now" using swept by (intro promoted_ok(3) [OF ok, of T]) auto
  then show ?case using promoted_ok(1) [OF ok] swept.IH by (simp add: promoted_eq promoted_def)
qed

section \<open>Properties\<close>

text \<open>A small oracle for the witnesses: one shard, room for one key, every event stamped at \<open>t0\<close>.\<close>

definition t0 :: time where
  "t0 = 63835596800000000000"

definition sample_ocfg :: OracleConfig where
  "sample_ocfg = \<lparr>oc_shards = 1, oc_maxTrackedKeys = 1, oc_ringSize = 2, oc_retainRaw = False,
     oc_settlementWindow = 5000000000, oc_neverSettledFactor = 0, oc_maxSettlementWindow = 0,
     oc_bucketWidth = 0\<rparr>"

abbreviation sample_hash :: "string \<Rightarrow> u64" where
  "sample_hash \<equiv> (\<lambda>_. 0)"

abbreviation sample_glob :: "string \<Rightarrow> string \<Rightarrow> bool option" where
  "sample_glob \<equiv> (\<lambda>p k. Some (p = k))"

definition sample_mut :: "string \<Rightarrow> bytes \<Rightarrow> Mutation" where
  "sample_mut k b = zero_Mutation\<lparr>mu_key := k, mu_action := ActionUpsert,
     mu_value := zero_Value\<lparr>v_kind := ValueScalar, v_scalar := b\<rparr>\<rparr>"

definition sample_set :: "string \<Rightarrow> bytes \<Rightarrow> Event" where
  "sample_set k b = (sample_op OpSet k [] (Some b) 0)\<lparr>ev_observedAt := t0\<rparr>"

definition sample_apply :: "Oracle \<Rightarrow> string \<Rightarrow> bytes \<Rightarrow> Oracle" where
  "sample_apply orc k b =
     fst (Oracle_Apply sample_hash orc (sample_mut k b) (sample_set k b) Accept TrustComplete 0)"

definition sample_orc :: Oracle where
  "sample_orc = sample_apply (Oracle_New sample_ocfg) ''k'' ''v''"

lemma sample_run_apply:
  "oracle_run sample_hash sample_glob sample_ocfg orc T \<Longrightarrow>
    oracle_run sample_hash sample_glob sample_ocfg (sample_apply orc k b) T"
  unfolding sample_apply_def
  by (rule oracle_run.applied)
    (simp_all add: observedAt_def sample_set_def t0_def unix_ok_def unix_offset_def min_i64_def max_i64_def)

lemma sample_run_start: "oracle_run sample_hash sample_glob sample_ocfg (Oracle_New sample_ocfg) t0"
  by (rule oracle_run.start) (simp add: sample_ocfg_def max_i64_def)

lemma sample_run: "oracle_run sample_hash sample_glob sample_ocfg sample_orc t0"
  unfolding sample_orc_def by (rule sample_run_apply [OF sample_run_start])

lemma sample_times: "unix_ok (t0 + 10000000000 - oc_maxSettlementWindow (or_cfg sample_orc))"
  by code_simp

lemma Len_le_budget:
  assumes "oracle_ok hash orc"
  shows "Oracle_Len orc \<le> oc_maxTrackedKeys (or_cfg orc)"
proof -
  have "Oracle_Len orc \<le> sum_list (map sh_maxKeys (or_shards orc))"
    unfolding Oracle_Len_def
    by (rule sum_list_mono) (use assms in \<open>auto simp: oracle_ok_def shard_ok_def in_set_conv_nth\<close>)
  then show ?thesis using assms by (simp add: oracle_ok_def)
qed





text \<open>A snapshot read by \<open>Get\<close> is the stored entry with its effective trust; its value is absent
  exactly when the stored value is or the entry's own positive TTL has run out since its last
  event.\<close>

theorem Get_expiry:
  assumes "lookup hash orc key = Some ent"
  shows "\<exists>out. Oracle_Get hash orc key now = Some out \<and> eo_version out = en_version ent
    \<and> eo_trust out = effectiveTrust ent (or_suspectFloor orc)
    \<and> (eo_expired out \<longleftrightarrow> (\<exists>ttl. en_ttl ent = Some ttl \<and> 0 < ttl \<and> en_lastEventAt ent \<noteq> 0
          \<and> en_lastEventAt ent + ttl < now))
    \<and> obs_of (eo_value out) = (if eo_expired out then ONone else obs_of (en_value ent))"
  using assms
  by (auto simp: Oracle_Get_def lookup_def entry_snapshot_def expired_def Let_def split: option.splits if_splits)

theorem Get_expiry_witness:
  "\<exists>out. Oracle_Get sample_hash sample_orc ''k'' (t0 + 1) = Some out \<and> \<not> eo_expired out
    \<and> obs_of (eo_value out) = OScalar ''v''"
proof -
  obtain ent where "lookup sample_hash sample_orc ''k'' = Some ent" "en_ttl ent = None"
    "obs_of (en_value ent) = OScalar ''v''"
  proof -
    have "map_option en_ttl (lookup sample_hash sample_orc ''k'') = Some None"
      "map_option (\<lambda>e. obs_of (en_value e)) (lookup sample_hash sample_orc ''k'') = Some (OScalar ''v'')"
      by code_simp+
    then show ?thesis using that by auto
  qed
  with Get_expiry [OF this(1), of "t0 + 1"] show ?thesis by auto
qed

text \<open>The trust a reader sees for a key.\<close>

definition trust_of :: "(string \<Rightarrow> u64) \<Rightarrow> Oracle \<Rightarrow> string \<Rightarrow> TrustState option" where
  "trust_of hash orc k =
     map_option (\<lambda>e. effectiveTrust e (or_suspectFloor orc)) (lookup hash orc k)"

lemma lookup_gen: "oracle_ok hash orc \<Longrightarrow> lookup hash orc k = Some e \<Longrightarrow> en_gen e \<le> or_suspectGen orc"
  using shardFor_ok(2) by (fastforce simp: gens_ok_def lookup_def)

lemma lookup_mark:
  assumes ok: "oracle_ok hash orc"
  shows "lookup hash (MarkSuspect glob orc p) k =
    (if p = [] then lookup hash orc k else map_option (suspect_entry glob p k) (lookup hash orc k))"
proof (cases "p = []")
  case True
  then show ?thesis unfolding True MarkSuspect_all_eq lookup_map_shards [OF ok] by (simp add: lookup_def)
next
  case False
  then show ?thesis
    unfolding MarkSuspect_pattern_eq [OF False] lookup_map_shards [OF ok]
    using rewritten_mark(1) [OF shardFor_ok(1) [OF ok]] by (simp add: rewritten_def lookup_def)
qed

text \<open>Adoption makes no key trusted: what is Complete afterwards is an entry it did not touch.\<close>

lemma adopt_trust:
  "oracle_ok hash orc \<Longrightarrow> lookup hash (AdoptSnapshot hash orc vs at) k = Some ent \<Longrightarrow>
    en_trust ent = TrustComplete \<Longrightarrow> lookup hash orc k = Some ent"
  "oracle_ok hash orc \<Longrightarrow> or_suspectFloor (AdoptSnapshot hash orc vs at) = or_suspectFloor orc"
  "oracle_ok hash orc \<Longrightarrow> or_suspectGen (AdoptSnapshot hash orc vs at) = or_suspectGen orc"
  unfolding AdoptSnapshot_def
proof (induction vs arbitrary: orc)
  case (Cons kv vs)
  obtain key v where kv: "kv = (key, v)" by (cases kv)
  note a = adopt_one_spec [where at = at and key = key and v = v and hash = hash]
  {
    case 1
    have "lookup hash (adopt_one hash at orc kv) k = Some ent"
      using Cons.IH(1) [OF a(1) [OF 1(1)]] 1(2,3) kv by simp
    then show ?case using a(4,5) [OF 1(1)] 1(3) kv by (cases "k = key") auto
  next
    case 2
    then show ?case using Cons.IH(2) [OF a(1)] a(6) kv by simp
  next
    case 3
    then show ?case using Cons.IH(3) [OF a(1)] a(7) kv by simp
  }
qed simp_all

text \<open>An application leaves its key with the trust given, and every other key that is still there as
  it was.\<close>

lemma apply_entries:
  fixes m :: Mutation and e :: Event and verdict :: Verdict and trust :: TrustState and clock :: time
  assumes ok: "oracle_ok hash orc"
  defines "orc' \<equiv> fst (Oracle_Apply hash orc m e verdict trust clock)"
  shows "oracle_ok hash orc'" "or_suspectFloor orc' = or_suspectFloor orc" "or_suspectGen orc' = or_suspectGen orc"
    and "lookup hash orc' k = Some ent \<Longrightarrow> lookup hash orc k = Some ent
      \<or> mu_action m \<noteq> ActionNone \<and> k = mu_key m \<and> en_trust ent = trust \<and> en_lastPublisher ent = ev_publisher e"
proof -
  have "oracle_ok hash orc' \<and> or_suspectFloor orc' = or_suspectFloor orc \<and> or_suspectGen orc' = or_suspectGen orc
    \<and> (lookup hash orc' k = Some ent \<longrightarrow> lookup hash orc k = Some ent
      \<or> mu_action m \<noteq> ActionNone \<and> k = mu_key m \<and> en_trust ent = trust \<and> en_lastPublisher ent = ev_publisher e)"
  proof (cases "mu_action m = ActionNone")
    case True
    then show ?thesis using ok Oracle_Apply_none by (simp add: orc'_def)
  next
    case False
    obtain o1 res where eq: "Oracle_Apply hash orc m e verdict trust clock = (o1, res)"
      by (cases "Oracle_Apply hash orc m e verdict trust clock")
    note sp = Oracle_Apply_spec [OF ok False eq]
    show ?thesis
      using sp(1,6,7) sp(2) [of k] False
      by (auto simp: orc'_def eq applied_entry_def applied_value_def Let_def split: if_splits)
  qed
  then show "oracle_ok hash orc'" "or_suspectFloor orc' = or_suspectFloor orc" "or_suspectGen orc' = or_suspectGen orc"
    and "lookup hash orc' k = Some ent \<Longrightarrow> lookup hash orc k = Some ent
      \<or> mu_action m \<noteq> ActionNone \<and> k = mu_key m \<and> en_trust ent = trust \<and> en_lastPublisher ent = ev_publisher e"
    by auto
qed

lemma mark_trust:
  assumes ok: "oracle_ok hash orc" and g: "or_suspectGen orc \<noteq> - 1"
  shows "trust_of hash (MarkSuspect glob orc p) k =
      map_option (\<lambda>t. if t = TrustComplete \<and> (p = [] \<or> matchGlob glob p k) then TrustSuspect else t)
        (trust_of hash orc k)"
    and "map_option en_value (lookup hash (MarkSuspect glob orc p) k) = map_option en_value (lookup hash orc k)"
    and "Oracle_Version hash (MarkSuspect glob orc p) k = Oracle_Version hash orc k"
proof -
  have lt: "en_gen e < or_suspectGen orc + 1" if "lookup hash orc k = Some e" for e
    using lookup_gen [OF ok that] g by (simp add: u64_less_suc_iff)
  have fl: "or_suspectFloor (MarkSuspect glob orc p) =
      (if p = [] then or_suspectGen orc + 1 else or_suspectFloor orc)"
    by (cases "p = []") (simp_all add: MarkSuspect_all_eq MarkSuspect_pattern_eq)
  show "trust_of hash (MarkSuspect glob orc p) k =
      map_option (\<lambda>t. if t = TrustComplete \<and> (p = [] \<or> matchGlob glob p k) then TrustSuspect else t)
        (trust_of hash orc k)"
    using lt lookup_mark [OF ok, of glob p k] fl
    by (cases "lookup hash orc k"; cases "p = []") (auto simp: trust_of_def effectiveTrust_def suspect_entry_def)
  show "map_option en_value (lookup hash (MarkSuspect glob orc p) k) = map_option en_value (lookup hash orc k)"
    and "Oracle_Version hash (MarkSuspect glob orc p) k = Oracle_Version hash orc k"
    using lookup_mark [OF ok, of glob p k]
    by (cases "lookup hash orc k"; auto simp: Oracle_Version_def lookup_def [symmetric] suspect_entry_def)+
qed

text \<open>\<open>MarkSuspect\<close> implements its O(1) mass marking correctly: with the empty pattern every key
  a reader saw as Complete is Suspect afterwards, exactly as if each entry had been written; with a
  pattern, exactly the matching ones. Adopted keys stay adopted, and no value or version moves.\<close>

theorem MarkSuspect_marks:
  assumes "oracle_run hash glob cfg orc T" and "or_suspectGen orc \<noteq> - 1"
  shows "trust_of hash (MarkSuspect glob orc p) k =
      map_option (\<lambda>t. if t = TrustComplete \<and> (p = [] \<or> matchGlob glob p k) then TrustSuspect else t)
        (trust_of hash orc k)
    \<and> map_option en_value (lookup hash (MarkSuspect glob orc p) k) = map_option en_value (lookup hash orc k)
    \<and> Oracle_Version hash (MarkSuspect glob orc p) k = Oracle_Version hash orc k"
  using mark_trust [OF _ assms(2)] oracle_run_ok [OF assms(1)] by blast

theorem MarkSuspect_marks_witness:
  "trust_of sample_hash (MarkSuspect sample_glob sample_orc []) ''k'' = Some TrustSuspect"
proof -
  have "or_suspectGen sample_orc \<noteq> - 1" "trust_of sample_hash sample_orc ''k'' = Some TrustComplete"
    by code_simp+
  then show ?thesis using MarkSuspect_marks [OF sample_run, of "[]" "''k''"] by simp
qed

lemma lookup_clear:
  assumes ok: "oracle_ok hash orc"
  shows "lookup hash (ClearSuspect glob orc p) k = map_option (clear_one glob p (or_suspectGen orc) k) (lookup hash orc k)"
  unfolding ClearSuspect_eq Let_def lookup_map_shards [OF ok]
  using rewritten_clear(1) [OF shardFor_ok(1) [OF ok], where glob = glob and pattern = p]
  by (simp add: rewritten_def lookup_def)

lemma clear_trust:
  assumes ok: "oracle_ok hash orc"
  shows "trust_of hash (ClearSuspect glob orc p) k =
      map_option (\<lambda>t. if t = TrustSuspect \<and> (p = [] \<or> matchGlob glob p k) then TrustComplete else t)
        (trust_of hash orc k)"
proof -
  have fl: "or_suspectFloor orc \<le> or_suspectGen orc" using ok by (simp add: oracle_ok_def)
  have "or_suspectFloor (ClearSuspect glob orc p) = (if p = [] then 0 else or_suspectFloor orc)"
    by (simp add: ClearSuspect_eq Let_def)
  then show ?thesis
    using lookup_clear [OF ok, of glob p k] fl trust_cases
    by (cases "lookup hash orc k")
      (auto simp: trust_of_def effectiveTrust_def clear_one_def Let_def not_less)
qed

text \<open>\<open>ClearSuspect\<close> undoes both ways of being suspect: afterwards every key in scope that a reader
  saw as Suspect is Complete, whether it was marked itself or swept up by the generation floor;
  adopted keys and keys out of scope keep their trust.\<close>

theorem ClearSuspect_clears:
  assumes "oracle_run hash glob cfg orc T"
  shows "trust_of hash (ClearSuspect glob orc p) k =
      map_option (\<lambda>t. if t = TrustSuspect \<and> (p = [] \<or> matchGlob glob p k) then TrustComplete else t)
        (trust_of hash orc k)"
  using clear_trust oracle_run_ok [OF assms] by blast

theorem ClearSuspect_clears_witness:
  "trust_of sample_hash (ClearSuspect sample_glob (MarkSuspect sample_glob sample_orc []) []) ''k'' = Some TrustComplete"
proof -
  have g: "or_suspectGen sample_orc \<noteq> - 1" and t: "trust_of sample_hash (MarkSuspect sample_glob sample_orc []) ''k'' = Some TrustSuspect"
    by code_simp+
  show ?thesis using ClearSuspect_clears [OF oracle_run.marked [OF sample_run g], of "[]" "[]" "''k''"] t by simp
qed

text \<open>C12: \<open>SettledKeys\<close> yields exactly the keys that may be compared under the current window: those
  quiet for longer than \<open>W\<close>, and those whose value has been still for the never-settled threshold.
  The coalesced index neither rushes nor misses one, whatever the window was before.\<close>

theorem SettledKeys_exact:
  assumes "oracle_run hash glob cfg orc T" and "T \<le> now"
    and "unix_ok (now - oc_maxSettlementWindow (or_cfg orc))"
  shows "k \<in> set (snd (SettledKeys orc now)) \<longleftrightarrow>
    (\<exists>e. lookup hash orc k = Some e
       \<and> isSettled e now (or_window orc) (neverSettledThreshold orc (or_window orc)))"
proof -
  define W where "W = oc_maxSettlementWindow (or_cfg orc)"
  define ns where "ns = neverSettledThreshold orc (or_window orc)"
  have ok: "oracle_ok hash orc" and t: "oracle_timed orc T" using oracle_run_ok [OF assms(1)] by auto
  have w: "or_window orc \<le> W" using ok by (simp add: oracle_ok_def W_def)
  have each: "k \<in> set (settledKeys (promote sh now W) now (or_window orc) ns) \<longleftrightarrow>
      (\<exists>e. map_get (sh_entries sh) k = Some e \<and> isSettled e now (or_window orc) ns)"
    if "sh \<in> set (or_shards orc)" for sh
  proof -
    have s: "shard_ok (or_suspectFloor orc) sh" using ok that by (auto simp: oracle_ok_def in_set_conv_nth)
    have "timed (promote sh now W) now W"
      using promote_timed [OF s] t that assms(2,3) by (auto simp: oracle_timed_def W_def)
    from settledKeys_iff [OF promote_spec(1) [OF s] this w] promote_spec(2) [OF s] show ?thesis by simp
  qed
  have "k \<in> set (snd (SettledKeys orc now)) \<longleftrightarrow>
      (\<exists>sh \<in> set (or_shards orc). \<exists>e. map_get (sh_entries sh) k = Some e \<and> isSettled e now (or_window orc) ns)"
    using each by (auto simp: SettledKeys_def Let_def W_def [symmetric] ns_def [symmetric])
  also have "\<dots> \<longleftrightarrow> (\<exists>e. lookup hash orc k = Some e \<and> isSettled e now (or_window orc) ns)"
  proof -
    have "map_get (sh_entries sh) k = lookup hash orc k"
      if "sh \<in> set (or_shards orc)" "map_get (sh_entries sh) k \<noteq> None" for sh
      using that oracle_okD(3) [OF ok]
      by (auto simp: in_set_conv_nth homed_def lookup_def shardFor_def shardIdx_def)
    then show ?thesis using shardFor_mem [OF ok, of k] by (metis lookup_def option.distinct(1))
  qed
  finally show ?thesis by (simp add: ns_def)
qed

theorem SettledKeys_exact_witness:
  "''k'' \<in> set (snd (SettledKeys sample_orc (t0 + 10000000000))) \<longleftrightarrow>
    (\<exists>e. lookup sample_hash sample_orc ''k'' = Some e \<and> isSettled e (t0 + 10000000000) (or_window sample_orc)
      (neverSettledThreshold sample_orc (or_window sample_orc)))"
  by (rule SettledKeys_exact [OF sample_run _ sample_times]) simp

text \<open>All the entries of all the shards.\<close>

definition all_entries :: "Oracle \<Rightarrow> (string, entry) go_map" where
  "all_entries orc = concat (map sh_entries (or_shards orc))"

lemma count_if_concat: "count_if P (concat ms) = sum_list (map (count_if P) ms)"
  by (induction ms) auto

lemma counts_foldl:
  assumes "\<And>sh. sh \<in> set shs \<Longrightarrow> countSettled sh now w ns = (S sh, N sh)"
  shows "foldl (count_shard now w ns) out shs =
    out\<lparr>ct_total := ct_total out + sum_list (map (\<lambda>sh. int (length (sh_entries sh))) shs),
        ct_settled := ct_settled out + sum_list (map S shs),
        ct_neverSettled := ct_neverSettled out + sum_list (map N shs),
        ct_truncated := ct_truncated out + sum_list (map sh_truncated shs),
        ct_complete := ct_complete out + sum_list (map sh_fresh shs),
        ct_adopted := ct_adopted out + sum_list (map sh_adopted shs),
        ct_suspect := ct_suspect out + sum_list (map suspectCount shs)\<rparr>"
  using assms by (induction shs arbitrary: out) (simp_all add: count_shard_def add.assoc)

lemma shards_ok: "oracle_ok hash orc \<Longrightarrow> sh \<in> set (or_shards orc) \<Longrightarrow> shard_ok (or_suspectFloor orc) sh"
  by (auto simp: oracle_ok_def in_set_conv_nth)

text \<open>A figure that every shard caches correctly is correct in the sum.\<close>

lemma sum_count:
  assumes "oracle_ok hash orc"
    and "\<And>s. s \<in> set (or_shards orc) \<Longrightarrow> shard_ok (or_suspectFloor orc) s \<Longrightarrow> f s = count_if P (sh_entries s)"
  shows "sum_list (map f (or_shards orc)) = count_if P (all_entries orc)"
proof -
  have "map f (or_shards orc) = map (\<lambda>sh. count_if P (sh_entries sh)) (or_shards orc)"
    using assms shards_ok by auto
  then have "sum_list (map f (or_shards orc)) = sum_list (map (\<lambda>sh. count_if P (sh_entries sh)) (or_shards orc))"
    by (rule arg_cong)
  then show ?thesis by (simp add: all_entries_def count_if_concat comp_def)
qed

lemma all_entries_promoted:
  assumes "oracle_ok hash orc"
  shows "all_entries (promoted orc now) = all_entries orc"
proof -
  have "map (sh_entries \<circ> (\<lambda>sh. promote sh now w)) (or_shards orc) = map sh_entries (or_shards orc)" for w
    using promote_spec(2) [OF shards_ok [OF assms]] by simp
  then have "concat (map (sh_entries \<circ> (\<lambda>sh. promote sh now w)) (or_shards orc)) = concat (map sh_entries (or_shards orc))" for w
    by (rule arg_cong)
  then show ?thesis by (simp add: all_entries_def promoted_def)
qed

lemma counts_of_ok:
  assumes ok: "oracle_ok hash orc" and t: "oracle_timed orc now"
    and o: "out = foldl (count_shard now (or_window orc) ns) \<lparr>ct_total = 0, ct_settled = 0, ct_inFlight = 0,
      ct_neverSettled = 0, ct_complete = 0, ct_adopted = 0, ct_suspect = 0, ct_truncated = 0\<rparr> (or_shards orc)"
  shows "ct_total out = int (length (all_entries orc))"
    and "ct_settled out = count_if (\<lambda>e. isSettled e now (or_window orc) ns) (all_entries orc)"
    and "ct_truncated out = count_if en_truncated (all_entries orc)"
    and "ct_complete out = count_if (\<lambda>e. effectiveTrust e (or_suspectFloor orc) = TrustComplete) (all_entries orc)"
    and "ct_suspect out = count_if (\<lambda>e. effectiveTrust e (or_suspectFloor orc) = TrustSuspect) (all_entries orc)"
    and "ct_adopted out = count_if (\<lambda>e. effectiveTrust e (or_suspectFloor orc) = TrustAdopted) (all_entries orc)"
proof -
  define S :: "shard \<Rightarrow> int" where "S sh = count_if (\<lambda>e. isSettled e now (or_window orc) ns) (sh_entries sh)" for sh
  define N :: "shard \<Rightarrow> int" where
    "N sh = count_if (\<lambda>e. \<not> isSettled e now (or_window orc) ns \<and> en_createdAt e < now - ns) (sh_entries sh)" for sh
  have cs: "countSettled s now (or_window orc) ns = (S s, N s)" if "s \<in> set (or_shards orc)" for s
    unfolding S_def N_def
    by (rule countSettled_correct [OF shards_ok [OF ok that]]) (use ok t that in \<open>auto simp: oracle_ok_def oracle_timed_def\<close>)
  note out = trans [OF o counts_foldl [of "or_shards orc" now "or_window orc" ns S N, OF cs]]
  have "ct_total out = count_if (\<lambda>_. True) (all_entries orc)"
    using sum_count [OF ok, of "\<lambda>sh. int (length (sh_entries sh))" "\<lambda>_. True"] by (simp add: out count_if_def)
  then show "ct_total out = int (length (all_entries orc))" by (simp add: count_if_def)
  show "ct_settled out = count_if (\<lambda>e. isSettled e now (or_window orc) ns) (all_entries orc)"
    using sum_count [OF ok, of S] by (simp add: out S_def)
  show "ct_truncated out = count_if en_truncated (all_entries orc)"
    using sum_count [OF ok, of sh_truncated en_truncated] by (simp add: out shard_ok_def counts_ok_def)
  show "ct_complete out = count_if (\<lambda>e. effectiveTrust e (or_suspectFloor orc) = TrustComplete) (all_entries orc)"
    using sum_count [OF ok suspectCount_correct(2)] by (simp add: out)
  show "ct_suspect out = count_if (\<lambda>e. effectiveTrust e (or_suspectFloor orc) = TrustSuspect) (all_entries orc)"
    using sum_count [OF ok suspectCount_correct(1)] by (simp add: out)
  show "ct_adopted out = count_if (\<lambda>e. effectiveTrust e (or_suspectFloor orc) = TrustAdopted) (all_entries orc)"
    using sum_count [OF ok suspectCount_correct(3)] by (simp add: out)
qed

text \<open>\<open>Counts\<close> reports the true cardinalities although none of them is recomputed: the number of
  keys, of settled and in-flight ones, of truncated ones, and of each trust as a reader sees it
  (the suspect ones include those only the generation floor makes suspect).\<close>

theorem Counts_exact:
  assumes "oracle_run hash glob cfg orc T" and "T \<le> now"
    and "unix_ok (now - oc_maxSettlementWindow (or_cfg orc))"
  defines "c \<equiv> snd (Oracle_Counts orc now)"
    and "settled \<equiv> (\<lambda>e. isSettled e now (or_window orc) (neverSettledThreshold orc (or_window orc)))"
  shows "ct_total c = int (length (all_entries orc)) \<and> ct_settled c = count_if settled (all_entries orc)
    \<and> ct_inFlight c = count_if (\<lambda>e. \<not> settled e) (all_entries orc)
    \<and> ct_truncated c = count_if en_truncated (all_entries orc)
    \<and> ct_complete c = count_if (\<lambda>e. effectiveTrust e (or_suspectFloor orc) = TrustComplete) (all_entries orc)
    \<and> ct_suspect c = count_if (\<lambda>e. effectiveTrust e (or_suspectFloor orc) = TrustSuspect) (all_entries orc)
    \<and> ct_adopted c = count_if (\<lambda>e. effectiveTrust e (or_suspectFloor orc) = TrustAdopted) (all_entries orc)"
proof -
  let ?p = "promoted orc now" and ?ns = "neverSettledThreshold orc (or_window orc)"
  have ok: "oracle_ok hash orc" and t: "oracle_timed orc T" using oracle_run_ok [OF assms(1)] by auto
  note pok = promoted_ok(1) [OF ok] and pt = promoted_ok(3) [OF ok t assms(2,3)]
  have same: "or_window ?p = or_window orc" "or_suspectFloor ?p = or_suspectFloor orc" by (simp_all add: promoted_def)
  note co = counts_of_ok [OF pok pt refl, of ?ns, unfolded all_entries_promoted [OF ok] same]
  have "c = (let out = foldl (count_shard now (or_window orc) ?ns) \<lparr>ct_total = 0, ct_settled = 0, ct_inFlight = 0,
      ct_neverSettled = 0, ct_complete = 0, ct_adopted = 0, ct_suspect = 0, ct_truncated = 0\<rparr> (or_shards ?p)
     in out\<lparr>ct_inFlight := ct_total out - ct_settled out\<rparr>)"
    by (simp add: c_def Oracle_Counts_def Let_def promoted_def)
  then show ?thesis
    using co count_if_split [of settled "all_entries orc"] by (simp add: Let_def settled_def)
qed

theorem Counts_exact_witness:
  "ct_settled (snd (Oracle_Counts sample_orc (t0 + 10000000000))) =
    count_if (\<lambda>e. isSettled e (t0 + 10000000000) (or_window sample_orc)
      (neverSettledThreshold sample_orc (or_window sample_orc))) (all_entries sample_orc)"
  using Counts_exact [OF sample_run _ sample_times] by simp

text \<open>a version is not unique over a key's life: when a key is evicted and comes back, its
  version starts again at 1, so a reader that held version 1 before the eviction finds version 1
  again with a different value.\<close>

theorem version_reused_after_eviction:
  "\<exists>orc orc'. oracle_run sample_hash sample_glob sample_ocfg orc t0
    \<and> orc' = sample_apply (sample_apply orc ''other'' ''x'') ''k'' ''new''
    \<and> Oracle_Version sample_hash orc ''k'' = Some 1 \<and> Oracle_Version sample_hash orc' ''k'' = Some 1
    \<and> map_option (obs_of \<circ> en_value) (lookup sample_hash orc ''k'')
        \<noteq> map_option (obs_of \<circ> en_value) (lookup sample_hash orc' ''k'')"
proof -
  have "Oracle_Version sample_hash sample_orc ''k'' = Some 1"
    "Oracle_Version sample_hash (sample_apply (sample_apply sample_orc ''other'' ''x'') ''k'' ''new'') ''k'' = Some 1"
    "map_option (obs_of \<circ> en_value) (lookup sample_hash sample_orc ''k'') = Some (OScalar ''v'')"
    "map_option (obs_of \<circ> en_value)
      (lookup sample_hash (sample_apply (sample_apply sample_orc ''other'' ''x'') ''k'' ''new'') ''k'') = Some (OScalar ''new'')"
    by code_simp+
  moreover from this(3,4) have "map_option (obs_of \<circ> en_value) (lookup sample_hash sample_orc ''k'')
      \<noteq> map_option (obs_of \<circ> en_value)
        (lookup sample_hash (sample_apply (sample_apply sample_orc ''other'' ''x'') ''k'' ''new'') ''k'')" by force
  ultimately show ?thesis using sample_run by blast
qed

end
