(* ===== verification/Differ.thy ===== *)
theory Differ
  imports Shard
begin

text \<open>
  \<open>pkg/differ\<close>: the comparison of one oracle entry with what the target holds, the categories
  that explain a disagreement, and the report that aggregates the findings of a sweep.
  \<open>Compare\<close> is pure in the code and a function here; a \<open>*Finding\<close> is an \<open>option\<close> with \<open>nil\<close> as
  \<open>None\<close>. The textual and JSON renderings of a report are left out.
\<close>

section \<open>Categories, policies and options\<close>

datatype Category =
    CatMissingInTarget | CatExtraInTarget | CatValueMismatch | CatMemberMismatch
  | CatTypeMismatch | CatTTLMismatch | CatCounterMismatch

datatype ExpiryPolicy = ExpiryStrict | ExpiryIgnore | ExpiryModel

record Options =
  op_TTLTolerance :: duration
  op_ExpiryPolicy :: ExpiryPolicy
  op_AssumedTTL :: duration
  op_MaxMembersReported :: int
  op_MaxFindings :: int
  op_Now :: time

definition differ_applyDefaults :: "Options \<Rightarrow> Options" where
  "differ_applyDefaults opts =
     opts\<lparr>op_TTLTolerance := (if op_TTLTolerance opts \<le> 0 then 5000000000 else op_TTLTolerance opts),
          op_MaxMembersReported :=
            (if op_MaxMembersReported opts \<le> 0 then 20 else op_MaxMembersReported opts),
          op_MaxFindings := (if op_MaxFindings opts \<le> 0 then 10000 else op_MaxFindings opts)\<rparr>"

record Finding =
  f_Key :: string
  f_Category :: Category
  f_Trust :: TrustState
  f_OracleValue :: Value
  f_TargetValue :: Value
  f_MissingMembers :: "string list"
  f_ExtraMembers :: "string list"
  f_MissingMemberCount :: int
  f_ExtraMemberCount :: int
  f_OracleVersion :: u64
  f_LastEventAt :: time
  f_LastSeq :: u64
  f_LastPublisher :: string
  f_TargetType :: string
  f_OracleTTL :: "duration option"
  f_TargetTTL :: "duration option"
  f_FirstSeenAt :: time
  f_Confirmed :: bool

section \<open>Comparison\<close>

text \<open>The loop of \<open>diffMembers\<close>: \<open>a\<close> in iteration order, what is listed so far, the count so far.\<close>

fun diff_loop :: "string go_set \<Rightarrow> int \<Rightarrow> string list \<Rightarrow> string list \<Rightarrow> int \<Rightarrow> string list \<times> int" where
  "diff_loop b limit [] listed n = (listed, n)"
| "diff_loop b limit (member # a) listed n =
     (if member \<in> set b then diff_loop b limit a listed n
      else diff_loop b limit a
             (if int (length listed) < limit then listed @ [member] else listed) (n + 1))"

definition diffMembers :: "string go_set \<Rightarrow> string go_set \<Rightarrow> int \<Rightarrow> string list \<times> int" where
  "diffMembers a b limit =
     (if length a = 0 then ([], 0)
      else let (listed, n) = diff_loop b limit a [] 0
           in if n = 0 then ([], 0) else (sort listed, n))"

definition newFinding :: "string \<Rightarrow> Category \<Rightarrow> Entry \<Rightarrow> Value \<Rightarrow> Options \<Rightarrow> Finding" where
  "newFinding key cat oe tv opts =
     (let f = \<lparr>f_Key = key, f_Category = cat, f_Trust = eo_trust oe, f_OracleValue = eo_value oe,
               f_TargetValue = tv, f_MissingMembers = [], f_ExtraMembers = [],
               f_MissingMemberCount = 0, f_ExtraMemberCount = 0,
               f_OracleVersion = eo_version oe, f_LastEventAt = eo_lastEventAt oe,
               f_LastSeq = eo_lastSeq oe, f_LastPublisher = eo_lastPublisher oe,
               f_TargetType = [], f_OracleTTL = eo_ttl oe, f_TargetTTL = None,
               f_FirstSeenAt = 0, f_Confirmed = False\<rparr>
      in if v_kind (eo_value oe) = ValueSet \<or> v_kind tv = ValueSet
         then let (missing, missingCount) =
                    diffMembers (v_members (eo_value oe)) (v_members tv) (op_MaxMembersReported opts);
                  (extra, extraCount) =
                    diffMembers (v_members tv) (v_members (eo_value oe)) (op_MaxMembersReported opts)
              in f\<lparr>f_MissingMembers := missing, f_MissingMemberCount := missingCount,
                   f_ExtraMembers := extra, f_ExtraMemberCount := extraCount\<rparr>
         else f)"

definition suppressedByExpiry :: "Entry \<Rightarrow> Options \<Rightarrow> bool" where
  "suppressedByExpiry oe opts =
     (if op_ExpiryPolicy opts \<noteq> ExpiryIgnore then False
      else if op_AssumedTTL opts \<le> 0 \<or> op_Now opts = 0 \<or> eo_lastEventAt oe = 0 then False
      else op_AssumedTTL opts < time_sub (op_Now opts) (eo_lastEventAt oe))"

fun ValueKind_String :: "ValueKind \<Rightarrow> string" where
  "ValueKind_String ValueAbsent = ''absent''"
| "ValueKind_String ValueScalar = ''scalar''"
| "ValueKind_String ValueSet = ''set''"
| "ValueKind_String ValueCounter = ''counter''"
| "ValueKind_String (ValueKindOther n) = ''ValueKind('' @ itoa_nat n @ '')''"

definition Compare :: "string \<Rightarrow> Entry \<Rightarrow> Value \<Rightarrow> Options \<Rightarrow> Finding option" where
  "Compare key oe tv opts0 =
     (let opts = differ_applyDefaults opts0;
          oracleAbsent = IsAbsent (eo_value oe);
          targetAbsent = IsAbsent tv
      in if oracleAbsent \<and> targetAbsent then None
         else if oracleAbsent \<and> \<not> targetAbsent then
           (if eo_trust oe = TrustAdopted then None
            else Some (newFinding key CatExtraInTarget oe tv opts))
         else if \<not> oracleAbsent \<and> targetAbsent then
           (if suppressedByExpiry oe opts then None
            else Some (newFinding key CatMissingInTarget oe tv opts))
         else if Value_Equal (eo_value oe) tv then None
         else if v_kind (eo_value oe) \<noteq> v_kind tv then
           Some ((newFinding key CatTypeMismatch oe tv opts)
                   \<lparr>f_TargetType := ValueKind_String (v_kind tv)\<rparr>)
         else (case v_kind (eo_value oe) of
                 ValueSet \<Rightarrow> Some (newFinding key CatMemberMismatch oe tv opts)
               | ValueCounter \<Rightarrow> Some (newFinding key CatCounterMismatch oe tv opts)
               | ValueScalar \<Rightarrow> Some (newFinding key CatValueMismatch oe tv opts)
               | ValueAbsent \<Rightarrow> None
               | ValueKindOther n \<Rightarrow> Some (newFinding key CatValueMismatch oe tv opts)))"

definition CompareUnreadable :: "string \<Rightarrow> Entry \<Rightarrow> string \<Rightarrow> Options \<Rightarrow> Finding option" where
  "CompareUnreadable key oe targetType opts =
     Some ((newFinding key CatTypeMismatch oe zero_Value (differ_applyDefaults opts))
             \<lparr>f_TargetType := targetType\<rparr>)"

text \<open>\<open>delta\<close> of \<open>CompareTTL\<close>: an \<open>int64\<close> subtraction and negation, each wrapping.\<close>

definition ttl_delta :: "duration \<Rightarrow> duration \<Rightarrow> duration" where
  "ttl_delta a b =
     (let delta = wrap_i64 (a - b) in if delta < 0 then wrap_i64 (- delta) else delta)"

definition CompareTTL :: "string \<Rightarrow> Entry \<Rightarrow> duration option \<Rightarrow> Options \<Rightarrow> Finding option" where
  "CompareTTL key oe targetTTL opts0 =
     (let opts = differ_applyDefaults opts0;
          oracleTTL = eo_ttl oe;
          rest = (if op_ExpiryPolicy opts = ExpiryIgnore then None
                  else Some ((newFinding key CatTTLMismatch oe zero_Value opts)
                               \<lparr>f_OracleTTL := oracleTTL, f_TargetTTL := targetTTL\<rparr>))
      in case (oracleTTL, targetTTL) of
           (None, None) \<Rightarrow> None
         | (Some a, Some b) \<Rightarrow> if ttl_delta a b \<le> op_TTLTolerance opts then None else rest
         | _ \<Rightarrow> rest)"

section \<open>Reports\<close>

datatype Pass = PassOracleToTarget | PassTargetToOracle

record Health =
  h_Reachable :: bool
  h_EvictedKeys :: u64
  h_ExpiredKeys :: u64
  h_UsedMemoryBytes :: u64
  h_MaxMemoryBytes :: u64
  h_KeyspaceSize :: i64
  h_Role :: string
  h_ReplicationLagMs :: i64
  h_Version :: string

definition zero_Health :: Health where
  "zero_Health =
     \<lparr>h_Reachable = False, h_EvictedKeys = 0, h_ExpiredKeys = 0, h_UsedMemoryBytes = 0,
      h_MaxMemoryBytes = 0, h_KeyspaceSize = 0, h_Role = [], h_ReplicationLagMs = 0,
      h_Version = []\<rparr>"

record Report =
  r_Pass :: Pass
  r_StartedAt :: time
  r_FinishedAt :: time
  r_KeysCompared :: int
  r_KeysSkippedInFlight :: int
  r_KeysSkippedSuspect :: int
  r_KeysSkippedAdopted :: int
  r_SettlementWindow :: duration
  r_Findings :: "Finding list"
  r_ByCategory :: "(Category, int) go_map"
  r_ByTrust :: "(TrustState, int) go_map"
  r_EvictionSuspected :: bool
  r_TargetHealth :: Health
  r_Truncated :: bool
  r_maxFindings :: int

definition NewReport :: "time \<Rightarrow> Options \<Rightarrow> Report" where
  "NewReport startedAt opts =
     \<lparr>r_Pass = PassOracleToTarget, r_StartedAt = startedAt, r_FinishedAt = 0, r_KeysCompared = 0,
      r_KeysSkippedInFlight = 0, r_KeysSkippedSuspect = 0, r_KeysSkippedAdopted = 0,
      r_SettlementWindow = 0, r_Findings = [], r_ByCategory = [], r_ByTrust = [],
      r_EvictionSuspected = False, r_TargetHealth = zero_Health, r_Truncated = False,
      r_maxFindings = op_MaxFindings (differ_applyDefaults opts)\<rparr>"

text \<open>\<open>m[k]\<close> of a map of counters, zero for a missing key, and \<open>m[k]++\<close>.\<close>

definition count_of :: "('k, int) go_map \<Rightarrow> 'k \<Rightarrow> int" where
  "count_of m k = (case map_get m k of None \<Rightarrow> 0 | Some n \<Rightarrow> n)"

definition count_inc :: "'k \<Rightarrow> ('k, int) go_map \<Rightarrow> ('k, int) go_map" where
  "count_inc k m = map_put k (count_of m k + 1) m"

definition Report_Add :: "Report \<Rightarrow> Finding option \<Rightarrow> Report" where
  "Report_Add r fo =
     (case fo of
        None \<Rightarrow> r
      | Some f \<Rightarrow>
          let r = r\<lparr>r_ByCategory := count_inc (f_Category f) (r_ByCategory r),
                    r_ByTrust := count_inc (f_Trust f) (r_ByTrust r)\<rparr>
          in if r_maxFindings r \<le> int (length (r_Findings r)) then r\<lparr>r_Truncated := True\<rparr>
             else r\<lparr>r_Findings := r_Findings r @ [f]\<rparr>)"

definition Report_Total :: "Report \<Rightarrow> int" where
  "Report_Total r = foldl (\<lambda>n kv. n + snd kv) 0 (r_ByCategory r)"

definition Alertable :: "Report \<Rightarrow> int" where
  "Alertable r = Report_Total r - count_of (r_ByTrust r) TrustSuspect"

definition Report_Duration :: "Report \<Rightarrow> duration" where
  "Report_Duration r =
     (if r_StartedAt r = 0 \<or> r_FinishedAt r = 0 then 0
      else time_sub (r_FinishedAt r) (r_StartedAt r))"

section \<open>Member differences\<close>

lemma diff_loop_eq:
  "diff_loop b limit a listed n =
     (let ms = filter (\<lambda>m. m \<notin> set b) a
      in (listed @ take (nat limit - length listed) ms, n + int (length ms)))"
proof (induction a arbitrary: listed n)
  case Nil
  then show ?case by simp
next
  case (Cons m a)
  show ?case
  proof (cases "m \<in> set b")
    case True
    then show ?thesis by (simp add: Cons.IH)
  next
    case False
    have "nat limit - length listed = Suc (nat limit - Suc (length listed))"
      if "int (length listed) < limit"
      using that by linarith
    moreover have "nat limit - length listed = 0" if "\<not> int (length listed) < limit"
      using that by linarith
    ultimately show ?thesis using False by (simp add: Cons.IH Let_def)
  qed
qed

lemma diffMembers_eq:
  "diffMembers a b limit =
     (let ms = filter (\<lambda>m. m \<notin> set b) a in (sort (take (nat limit) ms), int (length ms)))"
  by (auto simp: diffMembers_def diff_loop_eq Let_def)

lemma length_filter_notin: "wf_set a \<Longrightarrow> length (filter (\<lambda>m. m \<notin> set b) a) = card (set a - set b)"
proof -
  assume "wf_set a"
  then have "length (filter (\<lambda>m. m \<notin> set b) a) = card (set (filter (\<lambda>m. m \<notin> set b) a))"
    by (intro distinct_card [symmetric] distinct_filter)
  also have "set (filter (\<lambda>m. m \<notin> set b) a) = set a - set b" by (simp add: set_diff_eq)
  finally show ?thesis .
qed

lemma snd_diffMembers: "wf_set a \<Longrightarrow> snd (diffMembers a b limit) = int (card (set a - set b))"
  by (simp add: diffMembers_eq Let_def length_filter_notin)

text \<open>\<open>diffMembers\<close> counts exactly the members of one set that the other lacks, whatever the
  limit and whatever order the map is iterated in; what it lists is sorted, without repetition,
  made of such members only, and as long as the limit allows: a truncated list never loses the
  magnitude of the difference.\<close>

theorem diffMembers_exact:
  assumes "wf_set a" and "diffMembers a b limit = (listed, n)"
  shows "n = int (card (set a - set b)) \<and> set listed \<subseteq> set a - set b \<and> sorted listed \<and>
    distinct listed \<and> int (length listed) = min (max 0 limit) n"
proof -
  define ms where "ms = filter (\<lambda>m. m \<notin> set b) a"
  have eq: "listed = sort (take (nat limit) ms)" "n = int (length ms)"
    using assms(2) by (auto simp: diffMembers_eq ms_def Let_def)
  have "set ms = set a - set b" by (auto simp: ms_def)
  moreover have "distinct ms" using assms(1) by (simp add: ms_def)
  ultimately show ?thesis
    using set_take_subset [of "nat limit" ms] assms(1)
    by (auto simp: eq length_filter_notin ms_def)
qed

theorem diffMembers_exact_witness:
  "diffMembers [''c'', ''a'', ''b''] [''b''] 1 = ([''c''], 2) \<and>
   (2::int) = int (card (set [''c'', ''a'', ''b''] - set [''b'']))"
proof -
  have wf: "wf_set [''c'', ''a'', ''b'']" by simp
  have d: "diffMembers [''c'', ''a'', ''b''] [''b''] 1 = ([''c''], 2)"
    by (simp add: diffMembers_def)
  show ?thesis using diffMembers_exact [OF wf d] d by (intro conjI) blast+
qed

section \<open>What a comparison reports\<close>

lemma newFinding_simps [simp]:
  "f_Key (newFinding key cat oe tv opts) = key"
  "f_Category (newFinding key cat oe tv opts) = cat"
  "f_Trust (newFinding key cat oe tv opts) = eo_trust oe"
  "f_OracleValue (newFinding key cat oe tv opts) = eo_value oe"
  "f_TargetValue (newFinding key cat oe tv opts) = tv"
  "f_OracleVersion (newFinding key cat oe tv opts) = eo_version oe"
  "f_OracleTTL (newFinding key cat oe tv opts) = eo_ttl oe"
  "f_TargetTTL (newFinding key cat oe tv opts) = None"
  "f_TargetType (newFinding key cat oe tv opts) = []"
  "f_Confirmed (newFinding key cat oe tv opts) = False"
  "f_FirstSeenAt (newFinding key cat oe tv opts) = 0"
  by (simp_all add: newFinding_def Let_def case_prod_beta)

lemma newFinding_counts:
  assumes "wf_value (eo_value oe)" and "wf_value tv"
    and "v_kind (eo_value oe) = ValueSet \<or> v_kind tv = ValueSet"
  shows "f_MissingMemberCount (newFinding key cat oe tv opts) =
           int (card (set (v_members (eo_value oe)) - set (v_members tv)))"
    and "f_ExtraMemberCount (newFinding key cat oe tv opts) =
           int (card (set (v_members tv) - set (v_members (eo_value oe))))"
  using assms by (simp_all add: newFinding_def Let_def case_prod_beta snd_diffMembers wf_value_def)

text \<open>The disagreements that are no finding: a key the target was adopted from and events have not
  touched, and a key whose absence the \<open>ignore\<close> policy puts down to expiry.\<close>

definition excused :: "Entry \<Rightarrow> Value \<Rightarrow> Options \<Rightarrow> bool" where
  "excused oe tv opts \<longleftrightarrow>
     obs_of (eo_value oe) = ONone \<and> obs_of tv \<noteq> ONone \<and> eo_trust oe = TrustAdopted \<or>
     obs_of (eo_value oe) \<noteq> ONone \<and> obs_of tv = ONone \<and> op_ExpiryPolicy opts = ExpiryIgnore \<and>
       0 < op_AssumedTTL opts \<and> op_Now opts \<noteq> 0 \<and> eo_lastEventAt oe \<noteq> 0 \<and>
       op_AssumedTTL opts < time_sub (op_Now opts) (eo_lastEventAt oe)"

text \<open>The category that two different observations of a key fall in.\<close>

fun category_of :: "obs \<Rightarrow> obs \<Rightarrow> Category" where
  "category_of ONone t = CatExtraInTarget"
| "category_of s ONone = CatMissingInTarget"
| "category_of (OScalar a) (OScalar b) = CatValueMismatch"
| "category_of (OSet a) (OSet b) = CatMemberMismatch"
| "category_of (OCounter a) (OCounter b) = CatCounterMismatch"
| "category_of s t = CatTypeMismatch"

lemma suppressedByExpiry_iff:
  "suppressedByExpiry oe (differ_applyDefaults opts) \<longleftrightarrow>
     op_ExpiryPolicy opts = ExpiryIgnore \<and> 0 < op_AssumedTTL opts \<and> op_Now opts \<noteq> 0 \<and>
     eo_lastEventAt oe \<noteq> 0 \<and> op_AssumedTTL opts < time_sub (op_Now opts) (eo_lastEventAt oe)"
  by (auto simp: suppressedByExpiry_def differ_applyDefaults_def)

lemma Compare_nil:
  assumes "wf_value (eo_value oe)" and "wf_value tv"
  shows "Compare key oe tv opts = None \<longleftrightarrow> obs_of (eo_value oe) = obs_of tv \<or> excused oe tv opts"
  using assms IsAbsent_iff_obs [OF assms(1)] IsAbsent_iff_obs [OF assms(2)]
    Value_Equal_iff_obs [OF assms]
  by (cases "v_kind (eo_value oe)")
    (auto simp: Compare_def excused_def suppressedByExpiry_iff Let_def IsAbsent_def wf_value_def)

lemma Compare_finding:
  assumes "wf_value (eo_value oe)" and "wf_value tv" and "Compare key oe tv opts = Some f"
  shows "f_Category f = category_of (obs_of (eo_value oe)) (obs_of tv) \<and> f_Key f = key \<and>
    f_Trust f = eo_trust oe \<and> f_OracleVersion f = eo_version oe \<and>
    f_OracleValue f = eo_value oe \<and> f_TargetValue f = tv \<and> \<not> f_Confirmed f"
  using assms
  by (cases "v_kind (eo_value oe)"; cases "v_kind tv")
    (auto simp: Compare_def Let_def IsAbsent_def wf_value_def obs_of_def split: if_splits)

text \<open>C3: A comparison is the equality of what the oracle expects and what the target holds, an
  empty set being an absent key: it yields no finding exactly when the two are observably equal
  or the difference is one of the two excused by policy (an adopted key the oracle holds nothing
  for, a key that the \<open>ignore\<close> policy takes to be expired). Trust in any other state and every
  other policy never suppress a finding.\<close>

theorem Compare_sound_complete:
  assumes "wf_value (eo_value oe)" and "wf_value tv"
  shows "Compare key oe tv opts = None \<longleftrightarrow> obs_of (eo_value oe) = obs_of tv \<or> excused oe tv opts"
  using assms by (rule Compare_nil)

text \<open>An oracle snapshot of a key, and a comparison under the default policy.\<close>

definition sample_snap :: "Value \<Rightarrow> TrustState \<Rightarrow> Entry" where
  "sample_snap v trust =
     \<lparr>eo_key = ''k'', eo_value = v, eo_version = 3, eo_trust = trust, eo_lastEventAt = 1,
      eo_lastValueChangeAt = 1, eo_lastSeq = 7, eo_lastEpoch = 1, eo_lastPublisher = ''p'',
      eo_ttl = None, eo_expired = False, eo_truncated = False, eo_createdAt = 1\<rparr>"

definition sample_opts :: Options where
  "sample_opts =
     \<lparr>op_TTLTolerance = 0, op_ExpiryPolicy = ExpiryStrict, op_AssumedTTL = 0,
      op_MaxMembersReported = 0, op_MaxFindings = 0, op_Now = 0\<rparr>"

definition sample_members :: "string list \<Rightarrow> Value" where
  "sample_members ms = \<lparr>v_kind = ValueSet, v_scalar = [], v_members = ms, v_counter = 0\<rparr>"

theorem Compare_sound_complete_witness:
  "Compare ''k'' (sample_snap (sample_members []) TrustComplete) zero_Value sample_opts = None \<and>
   Compare ''k'' (sample_snap (sample_members [''a'']) TrustSuspect) zero_Value sample_opts \<noteq> None"
proof -
  have "wf_value (eo_value (sample_snap (sample_members []) TrustComplete))"
    and "wf_value (eo_value (sample_snap (sample_members [''a'']) TrustSuspect))"
    by (simp_all add: wf_value_def sample_snap_def sample_members_def)
  then show ?thesis
    by (simp add: Compare_sound_complete)
      (simp add: obs_of_def sample_snap_def sample_members_def zero_Value_def excused_def
         sample_opts_def)
qed

text \<open>A finding explains the disagreement it reports: its category is the one that the two
  observations determine (missing, extra, a different scalar, membership or counter, or a
  different type), it carries the oracle's version and trust and both values, it is not yet
  confirmed, and for a set its two member counts are the exact sizes of the two differences, at
  least one of them positive.\<close>

theorem Compare_explains:
  assumes "wf_value (eo_value oe)" and "wf_value tv" and "Compare key oe tv opts = Some f"
  shows "f_Category f = category_of (obs_of (eo_value oe)) (obs_of tv) \<and> f_Key f = key \<and>
    f_Trust f = eo_trust oe \<and> f_OracleVersion f = eo_version oe \<and>
    f_OracleValue f = eo_value oe \<and> f_TargetValue f = tv \<and> \<not> f_Confirmed f \<and>
    (f_Category f = CatMemberMismatch \<longrightarrow>
       f_MissingMemberCount f = int (card (set (v_members (eo_value oe)) - set (v_members tv))) \<and>
       f_ExtraMemberCount f = int (card (set (v_members tv) - set (v_members (eo_value oe)))) \<and>
       0 < f_MissingMemberCount f + f_ExtraMemberCount f)"
proof -
  let ?a = "set (v_members (eo_value oe))" and ?b = "set (v_members tv)"
  have member: "f_MissingMemberCount f = int (card (?a - ?b)) \<and>
      f_ExtraMemberCount f = int (card (?b - ?a)) \<and> ?a \<noteq> ?b"
    if "f_Category f = CatMemberMismatch"
  proof -
    have f: "f = newFinding key CatMemberMismatch oe tv (differ_applyDefaults opts)"
      and k: "v_kind (eo_value oe) = ValueSet" "v_kind tv = ValueSet"
      and ne: "\<not> Value_Equal (eo_value oe) tv"
      using assms(3) that
      by (auto simp: Compare_def Let_def split: if_splits ValueKind.splits)
    have "v_members (eo_value oe) = [] \<longleftrightarrow> v_members tv = []" if "?a = ?b"
      using that by (metis set_empty)
    then have "?a \<noteq> ?b" using ne assms(1,2) k by (auto simp: Value_Equal_iff_obs obs_of_def)
    then show ?thesis using newFinding_counts [OF assms(1,2)] f k by simp
  qed
  have "0 < card (?a - ?b) + card (?b - ?a)" if "?a \<noteq> ?b"
    using that by (auto simp: card_gt_0_iff)
  then show ?thesis using Compare_finding [OF assms] member by fastforce
qed

theorem Compare_explains_witness:
  "map_option f_Category
     (Compare ''k'' (sample_snap (sample_members [''a'']) TrustSuspect)
        (sample_members [''b'', ''c'']) sample_opts) = Some CatMemberMismatch \<and>
   map_option f_ExtraMemberCount
     (Compare ''k'' (sample_snap (sample_members [''a'']) TrustSuspect)
        (sample_members [''b'', ''c'']) sample_opts) = Some 2"
proof -
  let ?oe = "sample_snap (sample_members [''a'']) TrustSuspect"
  let ?tv = "sample_members [''b'', ''c'']"
  have wf: "wf_value (eo_value ?oe)" "wf_value ?tv"
    by (simp_all add: wf_value_def sample_snap_def sample_members_def)
  have "{''a''} \<noteq> {''b'', ''c''}" by auto
  then have "Compare ''k'' ?oe ?tv sample_opts \<noteq> None"
    using wf by (simp add: Compare_nil)
      (simp add: obs_of_def sample_snap_def sample_members_def excused_def)
  then obtain f where f: "Compare ''k'' ?oe ?tv sample_opts = Some f" by blast
  have "f_Category f = CatMemberMismatch \<and> f_ExtraMemberCount f = 2"
    using Compare_explains [OF wf f] by (simp add: obs_of_def sample_snap_def sample_members_def)
  with f show ?thesis by simp
qed

section \<open>Expiries\<close>

lemma ttl_delta_abs:
  assumes "min_i64 < a - b" and "a - b \<le> max_i64"
  shows "ttl_delta a b = \<bar>a - b\<bar>"
proof -
  have "wrap_i64 (a - b) = a - b" using assms by (simp add: wrap_i64_id)
  moreover have "wrap_i64 (- (a - b)) = - (a - b)" if "a - b < 0"
    using that assms by (intro wrap_i64_id) (simp_all add: min_i64_def max_i64_def)
  ultimately show ?thesis by (auto simp: ttl_delta_def Let_def)
qed

lemma CompareTTL_finding:
  "CompareTTL key oe ttl opts = Some f \<Longrightarrow>
     f_Category f = CatTTLMismatch \<and> f_OracleTTL f = eo_ttl oe \<and> f_TargetTTL f = ttl"
  by (auto simp: CompareTTL_def Let_def split: option.splits if_splits)

text \<open>Two expiries of sane size are a finding exactly when the policy is not \<open>ignore\<close> and they
  differ by more than the tolerance, one of them present and the other not counting as a
  difference; the finding carries both (\<open>CompareTTL_finding\<close> shows there is no other).\<close>

theorem CompareTTL_exact:
  assumes "\<forall>a b. eo_ttl oe = Some a \<longrightarrow> ttl = Some b \<longrightarrow> min_i64 < a - b \<and> a - b \<le> max_i64"
  shows "(\<exists>f. CompareTTL key oe ttl opts = Some f \<and> f_Category f = CatTTLMismatch \<and>
            f_OracleTTL f = eo_ttl oe \<and> f_TargetTTL f = ttl) \<longleftrightarrow>
      op_ExpiryPolicy opts \<noteq> ExpiryIgnore \<and>
      (case (eo_ttl oe, ttl) of
         (None, None) \<Rightarrow> False
       | (Some a, Some b) \<Rightarrow> op_TTLTolerance (differ_applyDefaults opts) < \<bar>a - b\<bar>
       | _ \<Rightarrow> True)"
  using assms
  by (auto simp: CompareTTL_def Let_def ttl_delta_abs differ_applyDefaults_def
      split: option.splits if_splits)

theorem CompareTTL_exact_witness:
  "CompareTTL ''k'' ((sample_snap zero_Value TrustComplete)\<lparr>eo_ttl := Some 9000000000\<rparr>)
     (Some 3000000000) sample_opts \<noteq> None"
proof -
  have "\<forall>a b. eo_ttl ((sample_snap zero_Value TrustComplete)\<lparr>eo_ttl := Some 9000000000\<rparr>) = Some a \<longrightarrow>
      Some 3000000000 = Some b \<longrightarrow> min_i64 < a - b \<and> a - b \<le> max_i64"
    by (simp add: min_i64_def max_i64_def)
  from CompareTTL_exact [OF this, of "''k''" sample_opts] show ?thesis
    by (auto simp: sample_opts_def differ_applyDefaults_def)
qed

section \<open>What a report counts\<close>

lemma wf_count_inc: "wf_map m \<Longrightarrow> wf_map (count_inc k m)"
  by (simp add: count_inc_def wf_map_put)

lemma count_of_inc [simp]: "count_of (count_inc k m) k' = count_of m k' + (if k' = k then 1 else 0)"
  by (auto simp: count_inc_def count_of_def)

lemma foldl_add_snd: "foldl (\<lambda>n kv. n + snd kv) z m = z + sum_list (map snd (m :: ('k \<times> int) list))"
  by (induction m arbitrary: z) auto

lemma sum_count_inc: "sum_list (map snd (count_inc k m)) = sum_list (map snd m) + 1"
  by (induction m) (auto simp: count_inc_def map_put_def count_of_def map_get_def)

text \<open>What the findings offered to a report add up to.\<close>

definition tally :: "Report \<Rightarrow> Finding list \<Rightarrow> bool" where
  "tally r fs \<longleftrightarrow>
     (\<forall>c. count_of (r_ByCategory r) c = int (length (filter (\<lambda>f. f_Category f = c) fs))) \<and>
     (\<forall>t. count_of (r_ByTrust r) t = int (length (filter (\<lambda>f. f_Trust f = t) fs))) \<and>
     sum_list (map snd (r_ByCategory r)) = int (length fs) \<and>
     0 < r_maxFindings r \<and>
     r_Findings r = take (nat (r_maxFindings r)) fs \<and>
     (r_Truncated r \<longleftrightarrow> r_maxFindings r < int (length fs))"

lemma tally_New: "tally (NewReport startedAt opts) []"
  by (simp add: tally_def NewReport_def count_of_def differ_applyDefaults_def)

lemma tally_Add:
  assumes "tally r fs"
  shows "tally (Report_Add r fo) (fs @ (case fo of None \<Rightarrow> [] | Some f \<Rightarrow> [f]))"
proof (cases fo)
  case None
  then show ?thesis using assms by (simp add: Report_Add_def)
next
  case (Some f)
  have "take (nat (r_maxFindings r)) fs = fs"
    if "int (length (take (nat (r_maxFindings r)) fs)) < r_maxFindings r"
    using that by (auto simp: min_def split: if_splits)
  then show ?thesis
    using assms Some by (auto simp: Report_Add_def tally_def Let_def sum_count_inc)
qed

lemma tally_fold:
  "tally r fs \<Longrightarrow> tally (foldl Report_Add r fos) (fs @ concat (map (\<lambda>fo. case fo of None \<Rightarrow> [] | Some f \<Rightarrow> [f]) fos))"
proof (induction fos arbitrary: r fs)
  case Nil
  then show ?case by simp
next
  case (Cons fo fos)
  from Cons.IH [OF tally_Add [OF Cons.prems, of fo]] show ?case by simp
qed

lemma tally_Total: "tally r fs \<Longrightarrow> Report_Total r = int (length fs)"
  by (simp add: tally_def Report_Total_def foldl_add_snd)

lemma tally_Alertable:
  assumes "tally r fs"
  shows "Alertable r = int (length (filter (\<lambda>f. f_Trust f \<noteq> TrustSuspect) fs))"
  using assms sum_length_filter_compl [of "\<lambda>f. f_Trust f = TrustSuspect" fs]
  by (simp add: Alertable_def tally_Total) (simp add: tally_def)

text \<open>A report counts every finding it is given, also those past its cap: after any sequence of
  additions the total is their number, each category and trust count is exact, the alertable
  number leaves out precisely the findings on suspect keys, and the list is the first
  \<open>MaxFindings\<close> of them with the truncation flag set exactly when some are left out.\<close>

theorem Report_counts_exact:
  fixes startedAt :: time and opts :: Options and fs :: "Finding list"
  defines "r \<equiv> foldl Report_Add (NewReport startedAt opts) (map Some fs)"
  shows "Report_Total r = int (length fs) \<and>
    (\<forall>c. count_of (r_ByCategory r) c = int (length (filter (\<lambda>f. f_Category f = c) fs))) \<and>
    Alertable r = int (length (filter (\<lambda>f. f_Trust f \<noteq> TrustSuspect) fs)) \<and>
    r_Findings r = take (nat (op_MaxFindings (differ_applyDefaults opts))) fs \<and>
    (r_Truncated r \<longleftrightarrow> op_MaxFindings (differ_applyDefaults opts) < int (length fs))"
proof -
  have "concat (map (\<lambda>fo. case fo of None \<Rightarrow> [] | Some f \<Rightarrow> [f]) (map Some fs)) = fs"
    by (induction fs) auto
  then have t: "tally r fs"
    unfolding r_def using tally_fold [OF tally_New, of startedAt opts "map Some fs"] by simp
  have keep: "r_maxFindings (Report_Add q fo) = r_maxFindings q" for q fo
    by (simp add: Report_Add_def Let_def split: option.split)
  have "r_maxFindings r = op_MaxFindings (differ_applyDefaults opts)"
    unfolding r_def using foldl_keeps [where f = r_maxFindings and g = Report_Add, OF keep]
    by (simp add: NewReport_def)
  then show ?thesis using t tally_Total [OF t] tally_Alertable [OF t] by (simp add: tally_def)
qed

end
