(* ===== verification/Reorder.thy ===== *)
theory Reorder
  imports Event "HOL-Library.Multiset"
begin

text \<open>
  \<open>pkg/check/reorder.go\<close>: the bounded buffer that restores sequence order per publisher before
  anything downstream looks at an event. A \<open>*publisherOrder\<close> is a value that its callers store
  back; an operation returns the new state and the events it releases. The buffer's mutex only
  serialises \<open>heldCount\<close> with the applier and has no counterpart.
\<close>

section \<open>The buffer\<close>

record publisherOrder =
  po_epoch :: u64
  po_next :: u64
  po_held :: "(u64, Event) go_map"
  po_oldestAt :: time
  po_started :: bool

record reorderBuffer =
  rb_window :: duration
  rb_maxHeld :: int
  rb_pubs :: "(string, publisherOrder) go_map"

definition defaultMaxHeldPerPublisher :: int where
  "defaultMaxHeldPerPublisher = 1024"

definition newReorderBuffer :: "duration \<Rightarrow> int \<Rightarrow> reorderBuffer" where
  "newReorderBuffer window maxHeld =
     \<lparr>rb_window = window,
      rb_maxHeld = (if maxHeld \<le> 0 then defaultMaxHeldPerPublisher else maxHeld),
      rb_pubs = []\<rparr>"

definition rb_enabled :: "reorderBuffer \<Rightarrow> bool" where
  "rb_enabled r \<longleftrightarrow> 0 < rb_window r"

text \<open>\<open>&publisherOrder{held: map[uint64]event.Event{}}\<close>.\<close>

definition new_order :: publisherOrder where
  "new_order =
     \<lparr>po_epoch = 0, po_next = 0, po_held = [], po_oldestAt = 0, po_started = False\<rparr>"

text \<open>The loop ends because every round takes an event out of \<open>held\<close>.\<close>

function releaseConsecutive :: "publisherOrder \<Rightarrow> Event list \<Rightarrow> publisherOrder \<times> Event list" where
  "releaseConsecutive pb out =
     (case map_get (po_held pb) (po_next pb) of
        None \<Rightarrow> (pb, out)
      | Some e \<Rightarrow>
          releaseConsecutive
            (pb\<lparr>po_held := map_del (po_next pb) (po_held pb), po_next := po_next pb + 1\<rparr>)
            (out @ [e]))"
  by pat_completeness auto

lemma length_del_less: "map_get m k = Some v \<Longrightarrow> length (map_del k m) < length m"
  unfolding map_del_def
  by (rule length_filter_less [of "(k, v)"]) (auto dest: map_get_SomeD)

termination releaseConsecutive
  by (relation "measure (\<lambda>(pb, out). length (po_held pb))") (auto simp: length_del_less)

declare releaseConsecutive.simps [simp del]

text \<open>\<open>drain\<close>: the keys sorted, the events looked up in that order. A key of the map is always
  found, so the empty list for a missing one is never used.\<close>

definition drain :: "publisherOrder \<Rightarrow> publisherOrder \<times> Event list" where
  "drain pb =
     (if length (po_held pb) = 0 then (pb, [])
      else
        let seqs = sort (map fst (po_held pb));
            out = concat (map (\<lambda>s. case map_get (po_held pb) s of None \<Rightarrow> [] | Some e \<Rightarrow> [e]) seqs);
            last_seq = last seqs;
            pb' = pb\<lparr>po_held := []\<rparr>
        in (if po_next pb' \<le> last_seq then pb'\<lparr>po_next := last_seq + 1\<rparr> else pb', out))"

definition hold :: "int \<Rightarrow> publisherOrder \<Rightarrow> Event \<Rightarrow> time \<Rightarrow> publisherOrder \<times> Event list" where
  "hold maxHeld pb e now =
     (let pb' = (case map_get (po_held pb) (ev_seq e) of
                   Some x \<Rightarrow> pb
                 | None \<Rightarrow>
                     let pb1 = (if length (po_held pb) = 0 then pb\<lparr>po_oldestAt := now\<rparr> else pb)
                     in pb1\<lparr>po_held := map_put (ev_seq e) e (po_held pb1)\<rparr>)
      in if int (length (po_held pb')) < maxHeld then (pb', []) else drain pb')"

text \<open>The body of \<open>offer\<close> on the publisher's own state.\<close>

definition offer_pub :: "int \<Rightarrow> publisherOrder \<Rightarrow> Event \<Rightarrow> time \<Rightarrow> publisherOrder \<times> Event list" where
  "offer_pub maxHeld pb e now =
     (if \<not> po_started pb then
        (pb\<lparr>po_started := True, po_epoch := ev_epoch e, po_next := ev_seq e + 1\<rparr>, [e])
      else if ev_epoch e \<noteq> po_epoch pb then
        (let (pb', out) = drain pb
         in (pb'\<lparr>po_epoch := ev_epoch e, po_next := ev_seq e + 1\<rparr>, out @ [e]))
      else if ev_seq e < po_next pb then (pb, [e])
      else if ev_seq e = po_next pb then
        releaseConsecutive (pb\<lparr>po_next := po_next pb + 1\<rparr>) [e]
      else hold maxHeld pb e now)"

definition offer :: "reorderBuffer \<Rightarrow> Event \<Rightarrow> time \<Rightarrow> reorderBuffer \<times> Event list" where
  "offer r e now =
     (if \<not> rb_enabled r then (r, [e])
      else
        let pb = (case map_get (rb_pubs r) (ev_publisher e) of None \<Rightarrow> new_order | Some pb \<Rightarrow> pb);
            (pb', out) = offer_pub (rb_maxHeld r) pb e now
        in (r\<lparr>rb_pubs := map_put (ev_publisher e) pb' (rb_pubs r)\<rparr>, out))"

definition expire_pub :: "duration \<Rightarrow> time \<Rightarrow> publisherOrder \<Rightarrow> publisherOrder \<times> Event list" where
  "expire_pub window now pb =
     (if length (po_held pb) = 0 \<or> time_sub now (po_oldestAt pb) < window then (pb, [])
      else drain pb)"

definition expire :: "reorderBuffer \<Rightarrow> time \<Rightarrow> reorderBuffer \<times> Event list" where
  "expire r now =
     (if \<not> rb_enabled r then (r, [])
      else
        (r\<lparr>rb_pubs := map (\<lambda>(p, pb). (p, fst (expire_pub (rb_window r) now pb))) (rb_pubs r)\<rparr>,
         concat (map (\<lambda>(p, pb). snd (expire_pub (rb_window r) now pb)) (rb_pubs r))))"

definition heldCount :: "reorderBuffer \<Rightarrow> int" where
  "heldCount r =
     (if \<not> rb_enabled r then 0
      else foldl (\<lambda>n kv. n + int (length (po_held (snd kv)))) 0 (rb_pubs r))"

section \<open>One publisher's stream\<close>

lemma mset_map_del:
  "wf_map m \<Longrightarrow> map_get m k = Some v \<Longrightarrow>
     mset (map snd m) = add_mset v (mset (map snd (map_del k m)))"
proof (induction m)
  case Nil
  then show ?case by simp
next
  case (Cons kv m)
  show ?case
  proof (cases "fst kv = k")
    case True
    with Cons.prems have "map_get m k = None" and "snd kv = v"
      by (auto simp: map_get_def map_of_eq_None_iff split: if_splits)
    then have "map_del k m = m" by (simp add: length_del_notin)
    then show ?thesis using True \<open>snd kv = v\<close> by (simp add: map_del_def)
  next
    case False
    with Cons.prems have "map_get m k = Some v" by (cases kv) (auto simp: map_get_def)
    with Cons False show ?thesis by (simp add: map_del_def)
  qed
qed

lemma u64_next: "x < y \<Longrightarrow> unat (x + 1 :: u64) = Suc (unat x)"
  by unat_arith

lemma u64_succ_le: "x < y \<Longrightarrow> (x + 1 :: u64) \<le> y"
  by unat_arith

text \<open>Every held event is filed under its sequence number, belongs to the publisher's current
  incarnation and is ahead of the one awaited; fewer than \<open>maxHeld\<close> are held.\<close>

definition filed :: "string \<Rightarrow> u64 \<Rightarrow> (u64, Event) go_map \<Rightarrow> bool" where
  "filed p ep h \<longleftrightarrow> wf_map h \<and>
     (\<forall>(s, e) \<in> set h. ev_seq e = s \<and> ev_epoch e = ep \<and> ev_publisher e = p)"

definition order_ok :: "int \<Rightarrow> string \<Rightarrow> publisherOrder \<Rightarrow> bool" where
  "order_ok maxHeld p pb \<longleftrightarrow>
     filed p (po_epoch pb) (po_held pb) \<and> (\<forall>s \<in> fst ` set (po_held pb). po_next pb < s) \<and>
     int (length (po_held pb)) < maxHeld \<and> (\<not> po_started pb \<longrightarrow> po_held pb = [])"

lemma filed_del: "filed p ep h \<Longrightarrow> filed p ep (map_del k h)"
  by (auto simp: filed_def wf_map_del set_map_del)

lemma filed_put:
  "filed p ep h \<Longrightarrow> ev_epoch e = ep \<Longrightarrow> ev_publisher e = p \<Longrightarrow> filed p ep (map_put (ev_seq e) e h)"
  by (auto simp: filed_def wf_map_put set_map_put)

lemma filed_Nil [simp]: "filed p ep []"
  by (simp add: filed_def)

lemma order_ok_new [simp]: "0 < maxHeld \<Longrightarrow> order_ok maxHeld p new_order"
  by (simp add: order_ok_def new_order_def)

text \<open>What \<open>releaseConsecutive\<close> leaves and what it lets through: the run of consecutive numbers
  that starts at the awaited one, and nothing else.\<close>

definition released :: "publisherOrder \<Rightarrow> publisherOrder \<Rightarrow> Event list \<Rightarrow> bool" where
  "released pb pb' rel \<longleftrightarrow>
     po_epoch pb' = po_epoch pb \<and> po_started pb' = po_started pb \<and>
     po_oldestAt pb' = po_oldestAt pb \<and> po_next pb' = po_next pb + of_nat (length rel) \<and>
     set (po_held pb') \<subseteq> set (po_held pb) \<and> length (po_held pb') \<le> length (po_held pb) \<and>
     mset rel + mset (map snd (po_held pb')) = mset (map snd (po_held pb)) \<and>
     map (unat \<circ> ev_seq) rel = [unat (po_next pb) ..< unat (po_next pb) + length rel]"

lemma released_step:
  assumes f: "filed p (po_epoch pb) (po_held pb)" and ge: "\<forall>s \<in> fst ` set (po_held pb). po_next pb \<le> s"
    and g: "map_get (po_held pb) (po_next pb) = Some e"
    and pb1: "pb1 = pb\<lparr>po_held := map_del (po_next pb) (po_held pb), po_next := po_next pb + 1\<rparr>"
    and r: "released pb1 pb' rel"
  shows "released pb pb' (e # rel)"
proof -
  have e: "ev_seq e = po_next pb"
    using f map_get_SomeD [OF g] by (auto simp: filed_def)
  have m: "mset (map snd (po_held pb)) = add_mset e (mset (map snd (po_held pb1)))"
    using mset_map_del [of "po_held pb", OF _ g] f pb1 by (simp add: filed_def)
  have "map (unat \<circ> ev_seq) rel = [Suc (unat (po_next pb)) ..< Suc (unat (po_next pb)) + length rel]"
  proof (cases "po_held pb1 = []")
    case True
    then show ?thesis using r by (simp add: released_def)
  next
    case False
    then obtain s x where "(s, x) \<in> set (po_held pb1)" by (cases "po_held pb1") auto
    then have "po_next pb < s" using ge pb1 by (force simp: set_map_del)
    then have "unat (po_next pb1) = Suc (unat (po_next pb))" using pb1 by (simp add: u64_next)
    then show ?thesis using r by (simp add: released_def)
  qed
  moreover have "Suc (length (po_held pb1)) = length (po_held pb)"
    using f g pb1 by (simp add: filed_def length_del)
  ultimately show ?thesis
    using r e m pb1 by (auto simp: released_def set_map_del upt_rec algebra_simps)
qed

lemma releaseConsecutive_spec:
  assumes "filed p (po_epoch pb) (po_held pb)" and "\<forall>s \<in> fst ` set (po_held pb). po_next pb \<le> s"
    and "releaseConsecutive pb out = (pb', out')"
  shows "\<exists>rel. out' = out @ rel \<and> released pb pb' rel \<and>
    filed p (po_epoch pb') (po_held pb') \<and> (\<forall>s \<in> fst ` set (po_held pb'). po_next pb' < s)"
  using assms
proof (induction pb out rule: releaseConsecutive.induct)
  case (1 pb out)
  show ?case
  proof (cases "map_get (po_held pb) (po_next pb)")
    case None
    then have "po_next pb \<notin> fst ` set (po_held pb)" by (simp add: map_get_None_iff)
    then have "\<forall>s \<in> fst ` set (po_held pb). po_next pb < s"
      using 1(3) by (metis order_le_imp_less_or_eq)
    moreover have "pb' = pb" "out' = out"
      using 1(4) None by (simp_all add: releaseConsecutive.simps [of pb])
    ultimately show ?thesis using 1(2) by (auto simp: released_def)
  next
    case (Some e)
    define pb1 where
      "pb1 = pb\<lparr>po_held := map_del (po_next pb) (po_held pb), po_next := po_next pb + 1\<rparr>"
    have f1: "filed p (po_epoch pb1) (po_held pb1)" using 1(2) by (simp add: pb1_def filed_del)
    have ge1: "\<forall>s \<in> fst ` set (po_held pb1). po_next pb1 \<le> s"
    proof
      fix s assume "s \<in> fst ` set (po_held pb1)"
      then have "s \<in> fst ` set (po_held pb)" "s \<noteq> po_next pb" by (auto simp: pb1_def keys_del)
      then have "po_next pb < s" using 1(3) by (metis order_le_imp_less_or_eq)
      then show "po_next pb1 \<le> s" by (simp add: pb1_def u64_succ_le)
    qed
    have "releaseConsecutive pb1 (out @ [e]) = (pb', out')"
      using 1(4) Some by (simp add: releaseConsecutive.simps [of pb] pb1_def)
    from 1(1) [OF Some, folded pb1_def, OF f1 ge1 this] obtain rel where
      "out' = (out @ [e]) @ rel" "released pb1 pb' rel" "filed p (po_epoch pb') (po_held pb')"
      "\<forall>s \<in> fst ` set (po_held pb'). po_next pb' < s"
      by blast
    then show ?thesis using released_step [OF 1(2,3) Some pb1_def] by (intro exI [of _ "e # rel"]) simp
  qed
qed

lemma drain_spec:
  assumes "filed p ep (po_held pb)" and "drain pb = (pb', out)"
  shows "mset out = mset (map snd (po_held pb)) \<and> map ev_seq out = sort (map fst (po_held pb)) \<and>
    po_held pb' = [] \<and> po_epoch pb' = po_epoch pb \<and> po_started pb' = po_started pb"
proof (cases "po_held pb = []")
  case True
  then show ?thesis using assms(2) by (auto simp: drain_def)
next
  case False
  let ?h = "po_held pb" and ?get = "\<lambda>s. the (map_get (po_held pb) s)"
  have get: "map_get ?h (fst kv) = Some (snd kv)" if "kv \<in> set ?h" for kv
    using that assms(1) by (simp add: filed_def map_get_eq_Some_iff)
  have "out = concat (map (\<lambda>s. case map_get ?h s of None \<Rightarrow> [] | Some e \<Rightarrow> [e]) (sort (map fst ?h)))"
    using assms(2) False by (simp add: drain_def Let_def)
  also have "\<dots> = concat (map (\<lambda>s. [?get s]) (sort (map fst ?h)))"
    using get by (intro arg_cong [of _ _ concat] map_cong) auto
  finally have out: "out = map ?get (sort (map fst ?h))" by (simp add: concat_map_singleton)
  have "mset out = mset (map (?get \<circ> fst) ?h)" by (simp add: out image_mset.compositionality)
  also have "map (?get \<circ> fst) ?h = map snd ?h" using get by simp
  finally have "mset out = mset (map snd ?h)" .
  moreover have "map ev_seq out = sort (map fst ?h)"
    unfolding out map_map using get assms(1) by (intro map_idI) (auto simp: filed_def)
  moreover have "po_held pb' = [] \<and> po_epoch pb' = po_epoch pb \<and> po_started pb' = po_started pb"
    using assms(2) False by (auto simp: drain_def Let_def split: if_splits)
  ultimately show ?thesis by blast
qed

lemma po_filedD:
  assumes "filed p ep h" and "(s, e) \<in> set h"
  shows "ev_seq e = s" and "ev_epoch e = ep" and "ev_publisher e = p"
  using assms by (auto simp: filed_def)

text \<open>What an offer does with the event: lets it through together with what it unblocks, or parks
  it. An event that repeats a parked one is dropped, which is the only way one disappears.\<close>

definition offered :: "publisherOrder \<Rightarrow> Event \<Rightarrow> publisherOrder \<Rightarrow> Event list \<Rightarrow> bool" where
  "offered pb e pb' out \<longleftrightarrow>
     mset out + mset (map snd (po_held pb')) =
       mset (map snd (po_held pb)) +
       (if po_started pb \<and> ev_epoch e = po_epoch pb \<and> ev_seq e \<in> fst ` set (po_held pb)
        then {#} else {#e#})"

lemma hold_spec:
  assumes ok: "order_ok n p pb" and n: "0 < n" and st: "po_started pb"
    and e: "ev_publisher e = p" "ev_epoch e = po_epoch pb" "po_next pb < ev_seq e"
    and h: "hold n pb e now = (pb', out)"
  shows "order_ok n p pb' \<and> offered pb e pb' out \<and> po_started pb'"
proof -
  define pb1 where "pb1 = (case map_get (po_held pb) (ev_seq e) of
      Some x \<Rightarrow> pb
    | None \<Rightarrow>
        let pb1 = (if length (po_held pb) = 0 then pb\<lparr>po_oldestAt := now\<rparr> else pb)
        in pb1\<lparr>po_held := map_put (ev_seq e) e (po_held pb1)\<rparr>)"
  have keep: "po_next pb1 = po_next pb" "po_epoch pb1 = po_epoch pb" "po_started pb1"
    using st by (auto simp: pb1_def Let_def split: option.split)
  have held: "po_held pb1 = (if ev_seq e \<in> fst ` set (po_held pb) then po_held pb
      else po_held pb @ [(ev_seq e, e)])"
    by (auto simp: pb1_def Let_def map_put_new in_keys_iff_get split: option.split)
  have f1: "filed p (po_epoch pb1) (po_held pb1)"
    using ok e held keep filed_put [of p "po_epoch pb" "po_held pb" e]
    by (auto simp: order_ok_def map_put_new map_get_None_iff split: if_splits)
  have gt: "\<forall>s \<in> fst ` set (po_held pb1). po_next pb1 < s"
    using ok e held keep by (auto simp: order_ok_def)
  have off: "offered pb e pb1 []"
    using held st e by (auto simp: offered_def)
  show ?thesis
  proof (cases "int (length (po_held pb1)) < n")
    case True
    then have "pb' = pb1" "out = []" using h by (auto simp: hold_def pb1_def [symmetric])
    then show ?thesis using True f1 gt off keep by (simp add: order_ok_def)
  next
    case False
    then have "drain pb1 = (pb', out)" using h by (simp add: hold_def pb1_def [symmetric])
    from drain_spec [OF f1 this] show ?thesis
      using n off keep by (simp add: order_ok_def offered_def)
  qed
qed

lemma offer_pub_spec:
  assumes ok: "order_ok n p pb" and n: "0 < n" and e: "ev_publisher e = p"
    and o: "offer_pub n pb e now = (pb', out)"
  shows "order_ok n p pb' \<and> offered pb e pb' out \<and> po_started pb'"
proof -
  have f: "filed p (po_epoch pb) (po_held pb)" using ok by (simp add: order_ok_def)
  consider "\<not> po_started pb" | "po_started pb" "ev_epoch e \<noteq> po_epoch pb"
    | "po_started pb" "ev_epoch e = po_epoch pb" "ev_seq e < po_next pb"
    | "po_started pb" "ev_epoch e = po_epoch pb" "ev_seq e = po_next pb"
    | "po_started pb" "ev_epoch e = po_epoch pb" "po_next pb < ev_seq e"
    by (metis linorder_neqE)
  then show ?thesis
  proof cases
    case 1
    then show ?thesis using o ok n by (auto simp: offer_pub_def order_ok_def offered_def)
  next
    case 2
    obtain pb1 out1 where d: "drain pb = (pb1, out1)" by fastforce
    from drain_spec [OF f d] show ?thesis
      using 2 d o n by (auto simp: offer_pub_def order_ok_def offered_def)
  next
    case 3
    then have "ev_seq e \<notin> fst ` set (po_held pb)" using ok by (force simp: order_ok_def)
    then show ?thesis using 3 o ok by (auto simp: offer_pub_def offered_def)
  next
    case 4
    define pb1 where "pb1 = pb\<lparr>po_next := po_next pb + 1\<rparr>"
    have ge: "\<forall>s \<in> fst ` set (po_held pb1). po_next pb1 \<le> s"
      using ok by (simp add: order_ok_def pb1_def u64_succ_le)
    have "releaseConsecutive pb1 [e] = (pb', out)"
      using 4 o by (simp add: offer_pub_def pb1_def)
    from releaseConsecutive_spec [OF _ ge this, of p] f obtain rel where
      "out = [e] @ rel" "released pb1 pb' rel" "filed p (po_epoch pb') (po_held pb')"
      "\<forall>s \<in> fst ` set (po_held pb'). po_next pb' < s"
      by (auto simp: pb1_def)
    moreover have "ev_seq e \<notin> fst ` set (po_held pb)" using 4 ok by (force simp: order_ok_def)
    ultimately show ?thesis using ok 4 by (auto simp: order_ok_def offered_def released_def pb1_def)
  next
    case 5
    then have "\<not> ev_seq e < po_next pb" and "ev_seq e \<noteq> po_next pb" by (simp_all add: order.asym)
    then have "hold n pb e now = (pb', out)"
      using o 5(1,2) by (simp add: offer_pub_def)
    then show ?thesis using hold_spec [OF ok n 5(1) e 5(2,3)] by blast
  qed
qed

lemma expire_pub_spec:
  assumes ok: "order_ok n p pb" and x: "expire_pub w now pb = (pb', out)"
  shows "order_ok n p pb' \<and> mset out + mset (map snd (po_held pb')) = mset (map snd (po_held pb)) \<and>
    (po_held pb' \<noteq> [] \<longrightarrow> pb' = pb \<and> time_sub now (po_oldestAt pb) < w)"
proof (cases "po_held pb = [] \<or> time_sub now (po_oldestAt pb) < w")
  case True
  then show ?thesis using ok x by (auto simp: expire_pub_def)
next
  case False
  then have d: "drain pb = (pb', out)" using x by (simp add: expire_pub_def)
  have "filed p (po_epoch pb) (po_held pb)" and "0 < n"
    using ok by (auto simp: order_ok_def)
  with drain_spec [OF _ d, of p] ok show ?thesis by (simp add: order_ok_def)
qed

section \<open>Every publisher's stream\<close>

definition buffer_ok :: "reorderBuffer \<Rightarrow> bool" where
  "buffer_ok r \<longleftrightarrow> wf_map (rb_pubs r) \<and> 0 < rb_maxHeld r \<and>
     (\<forall>(p, pb) \<in> set (rb_pubs r). order_ok (rb_maxHeld r) p pb)"

definition held_events :: "reorderBuffer \<Rightarrow> Event list" where
  "held_events r = concat (map (\<lambda>kv. map snd (po_held (snd kv))) (rb_pubs r))"

text \<open>The state of a publisher, a fresh one when the buffer has not seen it.\<close>

definition order_of :: "reorderBuffer \<Rightarrow> string \<Rightarrow> publisherOrder" where
  "order_of r p = (case map_get (rb_pubs r) p of None \<Rightarrow> new_order | Some pb \<Rightarrow> pb)"

lemma buffer_ok_new [simp]: "buffer_ok (newReorderBuffer w n)"
  by (simp add: buffer_ok_def newReorderBuffer_def defaultMaxHeldPerPublisher_def)

lemma buffer_ok_order: "buffer_ok r \<Longrightarrow> order_ok (rb_maxHeld r) p (order_of r p)"
  by (auto simp: buffer_ok_def order_of_def split: option.split dest: map_get_SomeD)

lemma mset_concat_put:
  "mset (concat (map (\<lambda>kv. f (snd kv)) (map_put k v m))) +
     (case map_get m k of None \<Rightarrow> {#} | Some u \<Rightarrow> mset (f u)) =
   mset (concat (map (\<lambda>kv. f (snd kv)) m)) + mset (f v)"
  by (induction m) (auto simp: map_put_def map_get_def)

lemma held_events_put:
  "mset (held_events (r\<lparr>rb_pubs := map_put p pb' (rb_pubs r)\<rparr>)) +
     mset (map snd (po_held (order_of r p))) =
   mset (held_events r) + mset (map snd (po_held pb'))"
  using mset_concat_put [of "\<lambda>pb. map snd (po_held pb)" p pb' "rb_pubs r"]
  by (cases "map_get (rb_pubs r) p")
    (simp_all add: held_events_def order_of_def new_order_def)

lemma offer_eq:
  "rb_enabled r \<Longrightarrow> offer_pub (rb_maxHeld r) (order_of r (ev_publisher e)) e now = (pb', out) \<Longrightarrow>
   offer r e now = (r\<lparr>rb_pubs := map_put (ev_publisher e) pb' (rb_pubs r)\<rparr>, out)"
  by (simp add: offer_def order_of_def Let_def)

text \<open>Whether a held event has the fingerprint of \<open>e\<close>.\<close>

definition repeats_held :: "reorderBuffer \<Rightarrow> Event \<Rightarrow> bool" where
  "repeats_held r e \<longleftrightarrow> Event_Fingerprint e \<in> Event_Fingerprint ` set (held_events r)"

lemma held_order:
  "x \<in> set (held_events r) \<Longrightarrow> buffer_ok r \<Longrightarrow>
     (ev_seq x, x) \<in> set (po_held (order_of r (ev_publisher x))) \<and>
     ev_epoch x = po_epoch (order_of r (ev_publisher x))"
proof -
  assume x: "x \<in> set (held_events r)" and ok: "buffer_ok r"
  then obtain p pb s where pb: "(p, pb) \<in> set (rb_pubs r)" and s: "(s, x) \<in> set (po_held pb)"
    by (auto simp: held_events_def)
  then have f: "filed p (po_epoch pb) (po_held pb)"
    using ok by (auto simp: buffer_ok_def order_ok_def)
  note px = po_filedD [OF f s]
  have "map_get (rb_pubs r) p = Some pb" using ok pb by (simp add: buffer_ok_def map_get_eq_Some_iff)
  then have "order_of r (ev_publisher x) = pb" using px by (simp add: order_of_def)
  then show ?thesis using s px by simp
qed

lemma order_held:
  assumes "(s, x) \<in> set (po_held (order_of r p))"
  shows "x \<in> set (held_events r)"
proof (cases "map_get (rb_pubs r) p")
  case None
  then show ?thesis using assms by (simp add: order_of_def new_order_def)
next
  case (Some pb)
  then have "(p, pb) \<in> set (rb_pubs r)" by (rule map_get_SomeD)
  then show ?thesis using Some assms by (force simp: held_events_def order_of_def)
qed

lemma repeats_held_iff:
  assumes "buffer_ok r"
  shows "repeats_held r e \<longleftrightarrow>
    po_started (order_of r (ev_publisher e)) \<and> ev_epoch e = po_epoch (order_of r (ev_publisher e)) \<and>
    ev_seq e \<in> fst ` set (po_held (order_of r (ev_publisher e)))"
    (is "_ \<longleftrightarrow> ?r")
proof
  let ?pb = "order_of r (ev_publisher e)"
  assume "repeats_held r e"
  then obtain x where x: "x \<in> set (held_events r)" "Event_Fingerprint e = Event_Fingerprint x"
    by (auto simp: repeats_held_def)
  then have eq: "ev_publisher x = ev_publisher e" "ev_epoch x = ev_epoch e" "ev_seq x = ev_seq e"
    by (simp_all add: Event_Fingerprint_def)
  with held_order [OF x(1) assms] have "(ev_seq e, x) \<in> set (po_held ?pb)" "ev_epoch e = po_epoch ?pb"
    by simp_all
  moreover have "po_started ?pb"
    using calculation(1) buffer_ok_order [OF assms, of "ev_publisher e"] by (auto simp: order_ok_def)
  ultimately show ?r by force
next
  let ?pb = "order_of r (ev_publisher e)"
  assume r: ?r
  then obtain x where x: "(ev_seq e, x) \<in> set (po_held ?pb)" by auto
  have "filed (ev_publisher e) (po_epoch ?pb) (po_held ?pb)"
    using buffer_ok_order [OF assms, of "ev_publisher e"] by (simp add: order_ok_def)
  note px = po_filedD [OF this x]
  then have "Event_Fingerprint e = Event_Fingerprint x" using r by (simp add: Event_Fingerprint_def)
  then show "repeats_held r e" using order_held [OF x] by (auto simp: repeats_held_def)
qed

lemma offer_spec:
  assumes ok: "buffer_ok r" and o: "offer r e now = (r', out)"
  shows "buffer_ok r' \<and> rb_window r' = rb_window r \<and> rb_maxHeld r' = rb_maxHeld r \<and>
    mset out + mset (held_events r') =
      mset (held_events r) + (if rb_enabled r \<and> repeats_held r e then {#} else {#e#})"
proof (cases "rb_enabled r")
  case False
  then show ?thesis using ok o by (auto simp: offer_def)
next
  case True
  let ?p = "ev_publisher e"
  obtain pb' out' where op: "offer_pub (rb_maxHeld r) (order_of r ?p) e now = (pb', out')" by fastforce
  have r': "r' = r\<lparr>rb_pubs := map_put ?p pb' (rb_pubs r)\<rparr>" "out = out'"
    using o offer_eq [OF True op] by auto
  have "0 < rb_maxHeld r" using ok by (simp add: buffer_ok_def)
  from offer_pub_spec [OF buffer_ok_order [OF ok] this refl op] have
    s: "order_ok (rb_maxHeld r) ?p pb'" "offered (order_of r ?p) e pb' out'" by blast+
  have "buffer_ok r'" using ok s(1) r' by (auto simp: buffer_ok_def wf_map_put set_map_put)
  moreover have "mset out + mset (held_events r') + mset (map snd (po_held (order_of r ?p))) =
      mset (held_events r) + (if repeats_held r e then {#} else {#e#}) +
      mset (map snd (po_held (order_of r ?p)))"
    using held_events_put [where r = r and p = ?p and pb' = pb'] s(2)
    unfolding offered_def repeats_held_iff [OF ok] r'
    by (metis (no_types, lifting) union_assoc union_commute)
  ultimately show ?thesis using True r' by simp
qed

lemma mset_sums: "A + B = C \<Longrightarrow> D + E = F \<Longrightarrow> A + D + (B + E) = C + (F :: 'a multiset)"
  by (auto simp: ac_simps)

lemma expire_spec:
  assumes ok: "buffer_ok r" and x: "expire r now = (r', out)"
  shows "buffer_ok r' \<and> rb_window r' = rb_window r \<and> rb_maxHeld r' = rb_maxHeld r \<and>
    mset out + mset (held_events r') = mset (held_events r)"
proof (cases "rb_enabled r")
  case False
  then show ?thesis using ok x by (auto simp: expire_def)
next
  case True
  let ?x = "expire_pub (rb_window r) now"
  have r': "r' = r\<lparr>rb_pubs := map (\<lambda>(p, pb). (p, fst (?x pb))) (rb_pubs r)\<rparr>"
    and out: "out = concat (map (\<lambda>(p, pb). snd (?x pb)) (rb_pubs r))"
    using True x by (auto simp: expire_def)
  have each: "order_ok (rb_maxHeld r) p (fst (?x pb)) \<and>
      mset (snd (?x pb)) + mset (map snd (po_held (fst (?x pb)))) = mset (map snd (po_held pb))"
    if "(p, pb) \<in> set (rb_pubs r)" for p pb
  proof -
    have "order_ok (rb_maxHeld r) p pb" using that ok by (auto simp: buffer_ok_def)
    from expire_pub_spec [OF this prod.collapse [symmetric]] show ?thesis by blast
  qed
  have fst: "map (fst \<circ> (\<lambda>(p, pb). (p, fst (?x pb)))) l = map fst l" for l by (induction l) auto
  have sums: "mset (concat (map (\<lambda>(p, pb). snd (?x pb)) l)) +
      mset (concat (map (\<lambda>kv. map snd (po_held (snd kv))) (map (\<lambda>(p, pb). (p, fst (?x pb))) l))) =
      mset (concat (map (\<lambda>kv. map snd (po_held (snd kv))) l))"
    if "set l \<subseteq> set (rb_pubs r)" for l
    using that
  proof (induction l)
    case (Cons kv l)
    then show ?case using each [of "fst kv" "snd kv"] mset_sums by (cases kv) force
  qed simp
  have "wf_map (rb_pubs r')" using ok by (simp add: r' fst buffer_ok_def)
  then have "buffer_ok r'" using ok each r' by (auto simp: buffer_ok_def)
  then show ?thesis using sums [of "rb_pubs r"] r' out by (simp add: held_events_def)
qed

lemma expire_waits:
  assumes ok: "buffer_ok r" and en: "rb_enabled r" and x: "expire r now = (r', out)"
    and h: "(s, e) \<in> set (po_held (order_of r' p))"
  shows "order_of r' p = order_of r p \<and> time_sub now (po_oldestAt (order_of r p)) < rb_window r"
proof -
  let ?x = "expire_pub (rb_window r) now"
  have r': "r' = r\<lparr>rb_pubs := map (\<lambda>(p, pb). (p, fst (?x pb))) (rb_pubs r)\<rparr>"
    using en x by (auto simp: expire_def)
  have "map_get (map (\<lambda>(p, pb). (p, fst (?x pb))) m) p = map_option (\<lambda>pb. fst (?x pb)) (map_get m p)"
    for m by (induction m) (auto simp: map_get_def)
  then have get: "map_get (rb_pubs r') p = map_option (\<lambda>pb. fst (?x pb)) (map_get (rb_pubs r) p)"
    using r' by simp
  then obtain pb where pb: "map_get (rb_pubs r) p = Some pb"
    using h by (cases "map_get (rb_pubs r) p") (auto simp: order_of_def new_order_def)
  then have "order_ok (rb_maxHeld r) p pb" using buffer_ok_order [OF ok, of p] by (simp add: order_of_def)
  from expire_pub_spec [OF this prod.collapse [symmetric], of "rb_window r" now] show ?thesis
    using h get pb by (auto simp: order_of_def)
qed

section \<open>Runs of the buffer\<close>

text \<open>A run from an empty buffer: what was offered and when, what was released, the last clock
  reading. Only the applier calls \<open>offer\<close> and \<open>expire\<close>, so a sequence of calls is every behaviour.\<close>

inductive reorder_run ::
  "duration \<Rightarrow> int \<Rightarrow> reorderBuffer \<Rightarrow> (time \<times> Event) list \<Rightarrow> Event list \<Rightarrow> time \<Rightarrow> bool"
  for w n where
  start: "reorder_run w n (newReorderBuffer w n) [] [] T"
| offer: "reorder_run w n r off rel T \<Longrightarrow> T \<le> now \<Longrightarrow> offer r e now = (r', out) \<Longrightarrow>
    reorder_run w n r' (off @ [(now, e)]) (rel @ out) now"
| expire: "reorder_run w n r off rel T \<Longrightarrow> T \<le> now \<Longrightarrow> expire r now = (r', out) \<Longrightarrow>
    reorder_run w n r' off (rel @ out) now"

lemma reorder_run_ok:
  "reorder_run w n r off rel T \<Longrightarrow> buffer_ok r \<and> rb_window r = w \<and>
     rb_maxHeld r = (if n \<le> 0 then defaultMaxHeldPerPublisher else n)"
proof (induction rule: reorder_run.induct)
  case (start T)
  have "rb_window (newReorderBuffer w n) = w"
    and "rb_maxHeld (newReorderBuffer w n) = (if n \<le> 0 then defaultMaxHeldPerPublisher else n)"
    by (simp_all add: newReorderBuffer_def)
  then show ?case by simp
next
  case (offer r off rel T now e r' out)
  then show ?case using offer_spec [of r e now r' out] by simp
next
  case (expire r off rel T now r' out)
  then show ?case using expire_spec [of r now r' out] by simp
qed


text \<open>The buffer is bounded: after any sequence of offers and expiries each publisher has fewer
  than \<open>maxHeld\<close> events waiting, all of its current incarnation, filed under their own sequence
  number and ahead of the one awaited, and \<open>heldCount\<close> is the number of events held.\<close>

theorem reorder_bounded:
  assumes "reorder_run w n r off rel T" and "0 < w"
  shows "heldCount r = int (length (held_events r)) \<and>
    (\<forall>p. int (length (po_held (order_of r p))) <
       (if n \<le> 0 then defaultMaxHeldPerPublisher else n)) \<and>
    (\<forall>p s e. (s, e) \<in> set (po_held (order_of r p)) \<longrightarrow>
       ev_seq e = s \<and> ev_publisher e = p \<and> ev_epoch e = po_epoch (order_of r p) \<and>
       po_next (order_of r p) < s)"
proof -
  have ok: "buffer_ok r" and w: "rb_window r = w"
    and n: "rb_maxHeld r = (if n \<le> 0 then defaultMaxHeldPerPublisher else n)"
    using reorder_run_ok [OF assms(1)] by auto
  have "foldl (\<lambda>n kv. n + int (length (po_held (snd kv)))) z m =
      z + int (length (concat (map (\<lambda>kv. map snd (po_held (snd kv))) (m :: (string, publisherOrder) go_map))))"
    for z m by (induction m arbitrary: z) auto
  then have "heldCount r = int (length (held_events r))"
    using assms(2) w by (simp add: heldCount_def rb_enabled_def held_events_def)
  moreover have "order_ok (rb_maxHeld r) p (order_of r p)" for p using ok by (rule buffer_ok_order)
  ultimately show ?thesis unfolding n [symmetric]
    by (force simp: order_ok_def filed_def)
qed

text \<open>Where a held event comes from, and what becomes of the start of the wait.\<close>

lemma offer_pub_oldest:
  assumes ok: "order_ok n p pb" and o: "offer_pub n pb e now = (pb', out)"
    and x: "(s, x) \<in> set (po_held pb')"
  shows "(s, x) \<in> set (po_held pb) \<and> po_oldestAt pb' = po_oldestAt pb \<or>
    x = e \<and> (po_oldestAt pb' = now \<or> po_held pb \<noteq> [] \<and> po_oldestAt pb' = po_oldestAt pb)"
proof -
  have f: "filed p (po_epoch pb) (po_held pb)" using ok by (simp add: order_ok_def)
  have drained: "po_held q' = []" if "drain q = (q', xs)" for q q' xs
    using that by (auto simp: drain_def Let_def split: if_splits)
  consider "\<not> po_started pb" | "po_started pb" "ev_epoch e \<noteq> po_epoch pb"
    | "po_started pb" "ev_epoch e = po_epoch pb" "ev_seq e < po_next pb"
    | "po_started pb" "ev_epoch e = po_epoch pb" "\<not> ev_seq e < po_next pb" "ev_seq e = po_next pb"
    | "po_started pb" "ev_epoch e = po_epoch pb" "\<not> ev_seq e < po_next pb" "ev_seq e \<noteq> po_next pb"
    by blast
  then show ?thesis
  proof cases
    case 1
    then show ?thesis using ok o x by (auto simp: offer_pub_def order_ok_def)
  next
    case 2
    then show ?thesis using o x by (auto simp: offer_pub_def dest!: drained split: prod.splits)
  next
    case 3
    then show ?thesis using o x by (auto simp: offer_pub_def)
  next
    case 4
    define pb1 where "pb1 = pb\<lparr>po_next := po_next pb + 1\<rparr>"
    have ge: "\<forall>s \<in> fst ` set (po_held pb1). po_next pb1 \<le> s"
      using ok by (simp add: order_ok_def pb1_def u64_succ_le)
    have "releaseConsecutive pb1 [e] = (pb', out)" using 4 o by (simp add: offer_pub_def pb1_def)
    from releaseConsecutive_spec [OF _ ge this, of p] f obtain rel where "released pb1 pb' rel"
      by (auto simp: pb1_def)
    then show ?thesis using x by (auto simp: released_def pb1_def)
  next
    case 5
    then have "hold n pb e now = (pb', out)" using o by (simp add: offer_pub_def)
    then show ?thesis
      using x f
      by (auto simp: hold_def Let_def filed_def wf_map_put set_map_put split: option.splits if_splits
          dest!: drained)
  qed
qed

lemma reorder_run_arrivals:
  assumes "reorder_run w n r off rel T" and "0 < w"
  shows "\<forall>p s e. (s, e) \<in> set (po_held (order_of r p)) \<longrightarrow>
    (\<exists>t. (t, e) \<in> set off \<and> po_oldestAt (order_of r p) \<le> t \<and> t \<le> T)"
  using assms
proof (induction rule: reorder_run.induct)
  case (start T)
  show ?case by (simp add: newReorderBuffer_def order_of_def new_order_def)
next
  case (offer r off rel T now e r' out)
  have ok: "buffer_ok r" and en: "rb_enabled r"
    using reorder_run_ok [OF offer.hyps(1)] offer.prems by (auto simp: rb_enabled_def)
  let ?q = "ev_publisher e"
  obtain pb' out' where op: "offer_pub (rb_maxHeld r) (order_of r ?q) e now = (pb', out')" by fastforce
  have r': "r' = r\<lparr>rb_pubs := map_put ?q pb' (rb_pubs r)\<rparr>" using offer.hyps(3) offer_eq [OF en op] by auto
  have IH: "\<exists>t. (t, x) \<in> set off \<and> po_oldestAt (order_of r p) \<le> t \<and> t \<le> T"
    if "(s, x) \<in> set (po_held (order_of r p))" for p s x
    using offer.IH [OF offer.prems] that by blast
  show ?case
  proof (intro allI impI)
    fix p s x assume h: "(s, x) \<in> set (po_held (order_of r' p))"
    show "\<exists>t. (t, x) \<in> set (off @ [(now, e)]) \<and> po_oldestAt (order_of r' p) \<le> t \<and> t \<le> now"
    proof (cases "p = ?q")
      case False
      then have "order_of r' p = order_of r p" by (simp add: r' order_of_def)
      then show ?thesis using IH [of s x p] h offer.hyps(2) by force
    next
      case True
      then have pb': "order_of r' p = pb'" by (simp add: r' order_of_def)
      then have h': "(s, x) \<in> set (po_held pb')" using h by simp
      have "po_oldestAt (order_of r ?q) \<le> now" if "po_held (order_of r ?q) \<noteq> []"
        using that IH [of _ _ ?q] offer.hyps(2) by (cases "po_held (order_of r ?q)") force+
      then show ?thesis
        using offer_pub_oldest [OF buffer_ok_order [OF ok] op h'] IH [of s x ?q] offer.hyps(2)
        unfolding pb' by force
    qed
  qed
next
  case (expire r off rel T now r' out)
  have ok: "buffer_ok r" and en: "rb_enabled r"
    using reorder_run_ok [OF expire.hyps(1)] expire.prems by (auto simp: rb_enabled_def)
  show ?case
  proof (intro allI impI)
    fix p s x assume h: "(s, x) \<in> set (po_held (order_of r' p))"
    have "order_of r' p = order_of r p" using expire_waits [OF ok en expire.hyps(3) h] by blast
    then show "\<exists>t. (t, x) \<in> set off \<and> po_oldestAt (order_of r' p) \<le> t \<and> t \<le> now"
      using expire.IH [OF expire.prems] expire.hyps(2) h by force
  qed
qed

text \<open>C22: No event waits longer than the window: after an expiry at time \<open>now\<close>, every event still
  held was offered less than one window ago, whatever happened before. One message that never
  arrives cannot stall its publisher.\<close>

theorem reorder_bounded_wait:
  assumes "reorder_run w n r off rel T" and "0 < w" and "T \<le> now"
    and "expire r now = (r', out)" and "e \<in> set (held_events r')"
  shows "\<exists>t. (t, e) \<in> set off \<and> time_sub now t < w"
proof -
  have ok: "buffer_ok r" and en: "rb_enabled r" and w: "rb_window r = w"
    using reorder_run_ok [OF assms(1)] assms(2) by (auto simp: rb_enabled_def)
  have "buffer_ok r'" using expire_spec [OF ok assms(4)] by blast
  from held_order [OF assms(5) this] have
    h: "(ev_seq e, e) \<in> set (po_held (order_of r' (ev_publisher e)))" by blast
  from expire_waits [OF ok en assms(4) h] w have
    o: "order_of r' (ev_publisher e) = order_of r (ev_publisher e)"
      "time_sub now (po_oldestAt (order_of r (ev_publisher e))) < w" by auto
  from reorder_run_arrivals [OF assms(1,2)] h o(1) obtain t where
    t: "(t, e) \<in> set off" "po_oldestAt (order_of r (ev_publisher e)) \<le> t" by metis
  have "time_sub now t \<le> time_sub now (po_oldestAt (order_of r (ev_publisher e)))"
    using t(2) by (auto simp: time_sub_def)
  with o(2) t(1) show ?thesis by force
qed

section \<open>Order is restored\<close>

text \<open>A sequence of offers, and the same on one publisher's state.\<close>

fun offer_all :: "reorderBuffer \<Rightarrow> (Event \<times> time) list \<Rightarrow> reorderBuffer \<times> Event list" where
  "offer_all r [] = (r, [])"
| "offer_all r ((e, now) # es) =
     (let (r1, out1) = offer r e now; (r2, out2) = offer_all r1 es in (r2, out1 @ out2))"

fun offer_pubs :: "int \<Rightarrow> publisherOrder \<Rightarrow> (Event \<times> time) list \<Rightarrow> publisherOrder \<times> Event list" where
  "offer_pubs n pb [] = (pb, [])"
| "offer_pubs n pb ((e, now) # es) =
     (let (pb1, out1) = offer_pub n pb e now; (pb2, out2) = offer_pubs n pb1 es
      in (pb2, out1 @ out2))"

lemma offer_all_pubs:
  assumes "rb_enabled r" and "\<forall>(e, now) \<in> set es. ev_publisher e = p"
  shows "order_of (fst (offer_all r es)) p = fst (offer_pubs (rb_maxHeld r) (order_of r p) es) \<and>
    snd (offer_all r es) = snd (offer_pubs (rb_maxHeld r) (order_of r p) es)"
  using assms
proof (induction es arbitrary: r)
  case Nil
  then show ?case by simp
next
  case (Cons ex es)
  obtain e now where ex: "ex = (e, now)" by fastforce
  obtain pb1 out1 where op: "offer_pub (rb_maxHeld r) (order_of r p) e now = (pb1, out1)" by fastforce
  have e: "ev_publisher e = p" using Cons.prems ex by simp
  define r1 where "r1 = r\<lparr>rb_pubs := map_put p pb1 (rb_pubs r)\<rparr>"
  have o: "offer r e now = (r1, out1)" using offer_eq [OF Cons.prems(1)] op e by (simp add: r1_def)
  have "order_of r1 p = pb1" "rb_enabled r1" "rb_maxHeld r1 = rb_maxHeld r"
    using Cons.prems(1) by (auto simp: r1_def order_of_def rb_enabled_def)
  with Cons.IH [of r1] Cons.prems(2) show ?case by (simp add: ex o op case_prod_beta)
qed

text \<open>Waiting and coming events have exactly the next \<open>k\<close> sequence numbers, in some order.\<close>

definition completes :: "publisherOrder \<Rightarrow> Event list \<Rightarrow> bool" where
  "completes pb es \<longleftrightarrow>
     (let k = length (po_held pb) + length es
      in mset (map (unat \<circ> ev_seq) (map snd (po_held pb))) + mset (map (unat \<circ> ev_seq) es) =
           mset [unat (po_next pb) ..< unat (po_next pb) + k] \<and> unat (po_next pb) + k < 2 ^ 64)"

lemma completesD:
  assumes "completes pb es"
  shows "mset (map (unat \<circ> ev_seq) (map snd (po_held pb))) + mset (map (unat \<circ> ev_seq) es) =
           mset [unat (po_next pb) ..< unat (po_next pb) + (length (po_held pb) + length es)]"
    and "unat (po_next pb) + (length (po_held pb) + length es) < 2 ^ 64"
  using assms by (simp_all only: completes_def Let_def)

lemma completes_done:
  assumes "order_ok n p pb" and "completes pb []"
  shows "po_held pb = []"
proof (rule ccontr)
  assume "po_held pb \<noteq> []"
  then have "unat (po_next pb) \<in> set [unat (po_next pb) ..< unat (po_next pb) + length (po_held pb)]"
    by simp
  also have "\<dots> = set (map (unat \<circ> ev_seq) (map snd (po_held pb)))"
    using assms(2) unfolding completes_def Let_def
    by (intro mset_eq_setD) (simp only: list.map mset.simps add_0_right list.size)
  finally obtain s e where e: "(s, e) \<in> set (po_held pb)" "unat (ev_seq e) = unat (po_next pb)"
    by auto
  then have "ev_seq e = s" and "po_next pb < s"
    using assms(1) by (auto simp: order_ok_def filed_def)
  then show False using e(2) by (auto simp: word_less_nat_alt)
qed

lemma upt_split: "i + j \<le> n \<Longrightarrow> [i..<n] = [i..<i + j] @ [i + j..<n]"
  by (metis le_add1 le_add_diff_inverse upt_add_eq_append)

lemma completes_release:
  assumes c: "completes pb (e # es)" and e: "ev_seq e = po_next pb"
    and r: "released (pb\<lparr>po_next := po_next pb + 1\<rparr>) pb' rel"
  shows "completes pb' es \<and> unat (po_next pb') = unat (po_next pb) + Suc (length rel) \<and>
    map (unat \<circ> ev_seq) (e # rel) = [unat (po_next pb) ..< unat (po_next pb) + Suc (length rel)]"
proof -
  let ?n = "unat (po_next pb)" and ?k = "length (po_held pb) + length (e # es)"
  let ?sq = "\<lambda>xs. mset (map (unat \<circ> ev_seq) xs)"
  have bound: "?n + ?k < 2 ^ 64" using c by (rule completesD)
  have split: "mset rel + mset (map snd (po_held pb')) = mset (map snd (po_held pb))"
    using r by (simp add: released_def)
  have len: "length rel + length (po_held pb') = length (po_held pb)"
    using arg_cong [OF split, of size] by simp
  have n1: "unat (po_next pb + 1) = Suc ?n" using bound by (simp add: unat_word_ariths)
  have next': "unat (po_next pb') = ?n + Suc (length rel)"
  proof -
    have "unat (of_nat (length rel) :: u64) = length rel" using bound len by (simp add: unat_of_nat)
    then have "unat (po_next pb + 1 + of_nat (length rel)) = Suc ?n + length rel"
      using n1 bound len by (subst unat_word_ariths) (simp del: of_nat_Suc)
    then show ?thesis using r by (simp add: released_def)
  qed
  have rel: "map (unat \<circ> ev_seq) (e # rel) = [?n ..< ?n + Suc (length rel)]"
    using r e n1 by (simp add: released_def upt_conv_Cons del: upt_Suc)
  have rest: "?sq (map snd (po_held pb')) + ?sq es =
      mset [?n + Suc (length rel) ..< ?n + ?k]"
  proof -
    have "?sq (map snd (po_held pb)) = ?sq rel + ?sq (map snd (po_held pb'))"
      using arg_cong [OF split, of "image_mset (unat \<circ> ev_seq)"] by (simp add: multiset.map_comp)
    moreover have "?sq (map snd (po_held pb)) + ?sq (e # es) = mset [?n ..< ?n + ?k]"
      using c by (rule completesD)
    moreover have "[?n ..< ?n + ?k] = map (unat \<circ> ev_seq) (e # rel) @ [?n + Suc (length rel) ..< ?n + ?k]"
      unfolding rel using len by (intro upt_split) simp
    ultimately have "?sq (e # rel) + (?sq (map snd (po_held pb')) + ?sq es) =
        ?sq (e # rel) + mset [?n + Suc (length rel) ..< ?n + ?k]"
      by (simp only: mset_append) (simp add: ac_simps)
    then show ?thesis by (simp only: add_left_cancel)
  qed
  have sum: "?n + Suc (length rel) + (length (po_held pb') + length es) = ?n + ?k" using len by simp
  have "completes pb' es"
    unfolding completes_def Let_def next' sum using rest bound by (rule conjI)
  with next' rel show ?thesis by (intro conjI)
qed

lemma completes_hold:
  assumes ok: "order_ok n p pb" and c: "completes pb (e # es)" and n: "length (po_held pb) + Suc (length es) \<le> nat n"
    and e: "po_next pb < ev_seq e" and h: "hold n pb e now = (pb', out)"
  shows "out = [] \<and> po_next pb' = po_next pb \<and> po_epoch pb' = po_epoch pb \<and>
    po_started pb' = po_started pb \<and> po_held pb' = po_held pb @ [(ev_seq e, e)] \<and> completes pb' es"
proof -
  let ?n = "unat (po_next pb)" and ?k = "length (po_held pb) + length (e # es)"
  have m: "mset (map (unat \<circ> ev_seq) (map snd (po_held pb))) + mset (map (unat \<circ> ev_seq) (e # es)) =
      mset [?n ..< ?n + ?k]" using c by (rule completesD)
  have seqs: "\<forall>(s, x) \<in> set (po_held pb). ev_seq x = s \<and> po_next pb < s"
    using ok by (auto simp: order_ok_def filed_def)
  have "distinct (map (unat \<circ> ev_seq) (map snd (po_held pb)) @ map (unat \<circ> ev_seq) (e # es))"
    using mset_eq_imp_distinct_iff [of "map (unat \<circ> ev_seq) (map snd (po_held pb)) @ map (unat \<circ> ev_seq) (e # es)"
      "[?n ..< ?n + ?k]"] m by (simp only: mset_append distinct_upt)
  then have new: "ev_seq e \<notin> fst ` set (po_held pb)" using seqs by force
  have "es \<noteq> []"
  proof
    assume "es = []"
    then have "set (map (unat \<circ> ev_seq) (map snd (po_held pb)) @ map (unat \<circ> ev_seq) [e]) = set [?n ..< ?n + ?k]"
      using m by (intro mset_eq_setD) (simp only: mset_append)
    moreover have "?n \<in> set [?n ..< ?n + ?k]" by simp
    ultimately have "?n \<in> set (map (unat \<circ> ev_seq) (map snd (po_held pb)) @ map (unat \<circ> ev_seq) [e])" by blast
    then show False using seqs e by (auto simp: word_less_nat_alt)
  qed
  then have lt: "1 + int (length (po_held pb)) < n" using n by (cases es) auto
  have new': "map_get (po_held pb) (ev_seq e) = None" using new by (simp add: map_get_None_iff)
  then have len: "length (map_put (ev_seq e) e (po_held pb)) = Suc (length (po_held pb))"
    by (simp add: length_put)
  have "pb' = (if po_held pb = [] then pb\<lparr>po_oldestAt := now\<rparr> else pb)
        \<lparr>po_held := po_held pb @ [(ev_seq e, e)]\<rparr> \<and> out = []"
    using h lt len by (auto simp: hold_def Let_def new' map_put_new split: if_splits)
  then show ?thesis using c by (auto simp: completes_def Let_def ac_simps)
qed

lemma offer_pubs_in_order:
  assumes "order_ok n p pb" and "po_started pb" and "completes pb (map fst es)"
    and "length (po_held pb) + length es \<le> nat n"
    and "\<forall>(e, now) \<in> set es. ev_publisher e = p \<and> ev_epoch e = po_epoch pb"
    and "offer_pubs n pb es = (pb', out)"
  shows "po_held pb' = [] \<and> mset out = mset (map snd (po_held pb)) + mset (map fst es) \<and>
    map (unat \<circ> ev_seq) out =
      [unat (po_next pb) ..< unat (po_next pb) + (length (po_held pb) + length es)]"
  using assms
proof (induction es arbitrary: pb out)
  case Nil
  then show ?case using completes_done [of n p pb] by simp
next
  case (Cons ex es)
  obtain e now where ex: "ex = (e, now)" by fastforce
  have e: "ev_publisher e = p" "ev_epoch e = po_epoch pb" using Cons.prems(5) ex by auto
  obtain pb1 out1 where o1: "offer_pub n pb e now = (pb1, out1)" by fastforce
  obtain out2 where o2: "offer_pubs n pb1 es = (pb', out2)" and out: "out = out1 @ out2"
    using Cons.prems(6) ex o1 by (auto split: prod.splits)
  have n: "0 < n" using Cons.prems(4) by simp
  have ok1: "order_ok n p pb1" "po_started pb1"
    using offer_pub_spec [OF Cons.prems(1) n e(1) o1] by auto
  have c: "completes pb (e # map fst es)" using Cons.prems(3) ex by simp
  have "unat (ev_seq e) \<in> set [unat (po_next pb) ..< unat (po_next pb) + (length (po_held pb) + length (e # map fst es))]"
  proof -
    have "unat (ev_seq e) \<in># mset (map (unat \<circ> ev_seq) (map snd (po_held pb))) + mset (map (unat \<circ> ev_seq) (e # map fst es))"
      by simp
    then show ?thesis using c unfolding completes_def Let_def by (metis set_mset_mset)
  qed
  then have "\<not> ev_seq e < po_next pb" by (auto simp: word_less_nat_alt)
  then consider "ev_seq e = po_next pb" | "\<not> ev_seq e < po_next pb" "po_next pb < ev_seq e" by fastforce
  then show ?case
  proof cases
    case 1
    define q where "q = pb\<lparr>po_next := po_next pb + 1\<rparr>"
    have ge: "\<forall>s \<in> fst ` set (po_held q). po_next q \<le> s"
      using Cons.prems(1) by (simp add: order_ok_def q_def u64_succ_le)
    have "releaseConsecutive q [e] = (pb1, out1)"
      using 1 o1 e Cons.prems(2) by (simp add: offer_pub_def q_def)
    from releaseConsecutive_spec [OF _ ge this, of p] Cons.prems(1) obtain rel where
      o: "out1 = e # rel" "released q pb1 rel" by (auto simp: q_def order_ok_def)
    note cr = completes_release [OF c 1 o(2) [unfolded q_def]]
    have m: "mset rel + mset (map snd (po_held pb1)) = mset (map snd (po_held pb))"
      and ep: "po_epoch pb1 = po_epoch pb" using o(2) by (simp_all add: released_def q_def)
    have len: "length rel + length (po_held pb1) = length (po_held pb)"
      using arg_cong [OF m, of size] by simp
    have I: "po_held pb' = [] \<and> mset out2 = mset (map snd (po_held pb1)) + mset (map fst es) \<and>
        map (unat \<circ> ev_seq) out2 =
          [unat (po_next pb1) ..< unat (po_next pb1) + (length (po_held pb1) + length es)]"
    proof (rule Cons.IH [OF ok1 _ _ _ o2])
      show "completes pb1 (map fst es)" using cr by blast
      show "length (po_held pb1) + length es \<le> nat n" using len Cons.prems(4) by simp
      show "\<forall>(e, now) \<in> set es. ev_publisher e = p \<and> ev_epoch e = po_epoch pb1"
        using Cons.prems(5) ep by auto
    qed
    have "[unat (po_next pb) ..< unat (po_next pb) + (length (po_held pb) + Suc (length es))] =
        [unat (po_next pb) ..< unat (po_next pb) + Suc (length rel)] @
        [unat (po_next pb1) ..< unat (po_next pb1) + (length (po_held pb1) + length es)]"
    proof -
      have "unat (po_next pb1) + (length (po_held pb1) + length es) =
          unat (po_next pb) + (length (po_held pb) + Suc (length es))" using len cr by simp
      moreover have "unat (po_next pb1) = unat (po_next pb) + Suc (length rel)" using cr by blast
      ultimately show ?thesis using len by (simp only:) (intro upt_split, simp)
    qed
    then have "map (unat \<circ> ev_seq) out =
        [unat (po_next pb) ..< unat (po_next pb) + (length (po_held pb) + Suc (length es))]"
      using I cr out o(1) by (simp only: map_append)
    moreover have "mset out = mset (map snd (po_held pb)) + mset (map fst (ex # es))"
    proof -
      have "mset out = {#e#} + (mset rel + mset (map snd (po_held pb1))) + mset (map fst es)"
        using I by (simp add: out o(1) ac_simps)
      also have "\<dots> = mset (map snd (po_held pb)) + mset (map fst (ex # es))"
        unfolding m by (simp add: ex)
      finally show ?thesis .
    qed
    ultimately show ?thesis using I by (simp only: length_Cons)
  next
    case 2
    then have "ev_seq e \<noteq> po_next pb" by auto
    then have "hold n pb e now = (pb1, out1)"
      using 2(1) o1 e Cons.prems(2) by (simp add: offer_pub_def)
    from completes_hold [OF Cons.prems(1) c _ 2(2) this] Cons.prems(4)
    have h: "out1 = []" "po_next pb1 = po_next pb" "po_epoch pb1 = po_epoch pb"
        "po_held pb1 = po_held pb @ [(ev_seq e, e)]" "completes pb1 (map fst es)"
      by auto
    then show ?thesis
      using Cons.IH [OF ok1 h(5) _ _ o2] Cons.prems(4,5) out ex by (auto simp: ac_simps)
  qed
qed

text \<open>C4: Order is restored: when a publisher's next \<open>k\<close> events of one incarnation arrive in any
  order, at any times between two expiries, and \<open>k\<close> does not exceed the buffer's bound, the buffer
  releases exactly those events, each once, in ascending sequence order, and holds none back.\<close>

theorem reorder_restores_order:
  assumes run: "reorder_run w n r off rel T" and w: "0 < w"
    and idle: "po_started (order_of r p)" "po_held (order_of r p) = []"
    and es: "\<forall>(e, now) \<in> set es. ev_publisher e = p \<and> ev_epoch e = po_epoch (order_of r p)"
    and seqs: "mset (map (unat \<circ> ev_seq) (map fst es)) =
      mset [unat (po_next (order_of r p)) ..< unat (po_next (order_of r p)) + length es]"
    and small: "unat (po_next (order_of r p)) + length es < 2 ^ 64" "int (length es) \<le> rb_maxHeld r"
  shows "snd (offer_all r es) = sort_key ev_seq (map fst es) \<and>
    po_held (order_of (fst (offer_all r es)) p) = []"
proof -
  let ?pb = "order_of r p"
  have ok: "buffer_ok r" and en: "rb_enabled r"
    using reorder_run_ok [OF run] w by (auto simp: rb_enabled_def)
  obtain pb' out where o: "offer_pubs (rb_maxHeld r) ?pb es = (pb', out)" by fastforce
  have c: "completes ?pb (map fst es)"
    unfolding completes_def Let_def idle(2) using seqs small(1)
    by (simp only: list.map mset.simps add_0_left list.size length_map)
  have "length (po_held ?pb) + length es \<le> nat (rb_maxHeld r)" using small(2) idle(2) by simp
  from offer_pubs_in_order [OF buffer_ok_order [OF ok] idle(1) c this es o] have
    fin: "po_held pb' = []" "mset out = mset (map fst es)"
      "map (unat \<circ> ev_seq) out = [unat (po_next ?pb) ..< unat (po_next ?pb) + length es]"
    by (simp_all add: idle(2) del: upt_Suc)
  have "sorted (map (unat \<circ> ev_seq) out)" and d: "distinct (map (unat \<circ> ev_seq) out)"
    unfolding fin(3) by (rule sorted_upt, rule distinct_upt)
  then have "sorted (map ev_seq out)" by (simp add: sorted_map word_le_nat_alt)
  moreover have "inj_on ev_seq (set (map fst es))"
    using d mset_eq_setD [OF fin(2)] by (auto simp: distinct_map inj_on_def)
  ultimately have "sort_key ev_seq (map fst es) = out"
    by (intro sort_key_inj_key_eq) (simp_all only: fin(2))
  moreover have "\<forall>(e, now) \<in> set es. ev_publisher e = p" using es by auto
  ultimately show ?thesis using offer_all_pubs [OF en] o fin(1) by simp
qed

section \<open>Samples\<close>

definition sample_buffer :: reorderBuffer where
  "sample_buffer = fst (offer (newReorderBuffer 10 8) (sample_event ''p'' 1) 1)"

lemma sample_buffer_run: "reorder_run 10 8 sample_buffer [(1, sample_event ''p'' 1)] [sample_event ''p'' 1] 1"
proof -
  have "offer (newReorderBuffer 10 8) (sample_event ''p'' 1) 1 = (sample_buffer, [sample_event ''p'' 1])"
    unfolding sample_buffer_def by code_simp
  from reorder_run.offer [OF reorder_run.start [of 10 8 0] _ this] show ?thesis by simp
qed

lemma sample_hold_run:
  "reorder_run 10 8 (fst (offer sample_buffer (sample_event ''p'' 3) 2))
     [(1, sample_event ''p'' 1), (2, sample_event ''p'' 3)] [sample_event ''p'' 1] 2"
proof -
  have "offer sample_buffer (sample_event ''p'' 3) 2 =
      (fst (offer sample_buffer (sample_event ''p'' 3) 2), [])"
    by (rule prod_eqI) (simp, code_simp)
  from reorder_run.offer [OF sample_buffer_run _ this] show ?thesis by simp
qed

theorem reorder_restores_order_witness:
  "snd (offer_all sample_buffer [(sample_event ''p'' 3, 5), (sample_event ''p'' 2, 7)]) =
     sort_key ev_seq [sample_event ''p'' 3, sample_event ''p'' 2]"
proof -
  let ?es = "[(sample_event ''p'' 3, 5), (sample_event ''p'' 2, 7)]"
  have o: "order_of sample_buffer ''p'' =
      \<lparr>po_epoch = 1, po_next = 2, po_held = [], po_oldestAt = 0, po_started = True\<rparr>"
    and m: "rb_maxHeld sample_buffer = 8"
    by code_simp+
  have "unat (2 :: u64) = 2" "unat (3 :: u64) = 3" by simp_all
  then show ?thesis
    using reorder_restores_order [OF sample_buffer_run, of "''p''" ?es]
    by (simp add: o m sample_event_def upt_rec)
qed


theorem reorder_bounded_witness:
  "heldCount (fst (offer sample_buffer (sample_event ''p'' 3) 2)) = 1 \<and>
   int (length (po_held (order_of (fst (offer sample_buffer (sample_event ''p'' 3) 2)) ''p''))) < 8"
proof -
  have "length (held_events (fst (offer sample_buffer (sample_event ''p'' 3) 2))) = 1" by code_simp
  then show ?thesis using reorder_bounded [OF sample_hold_run] by simp
qed

theorem reorder_bounded_wait_witness:
  "sample_event ''p'' 3 \<in>
     set (held_events (fst (expire (fst (offer sample_buffer (sample_event ''p'' 3) 2)) 9))) \<and>
   (\<exists>t. (t, sample_event ''p'' 3) \<in> set [(1, sample_event ''p'' 1), (2, sample_event ''p'' 3)] \<and>
     time_sub 9 t < 10)"
proof -
  have "sample_event ''p'' 3 \<in>
      set (held_events (fst (expire (fst (offer sample_buffer (sample_event ''p'' 3) 2)) 9)))"
    by code_simp
  with reorder_bounded_wait [OF sample_hold_run _ _ prod.collapse [symmetric] this] show ?thesis
    by simp
qed

text \<open>The wait is measured from the first event that was held since the buffer was last empty,
  not from the oldest event held now: when the oldest one is let through, the others inherit its
  arrival time, so here an event that has waited one tick of a window of ten is released by an
  expiry, ahead of its predecessor.\<close>

theorem reorder_wait_inherited:
  "let r = fst (offer_all (newReorderBuffer 10 8)
        [(sample_event ''p'' 1, 1), (sample_event ''p'' 3, 2), (sample_event ''p'' 5, 11),
         (sample_event ''p'' 2, 11)])
   in held_events r = [sample_event ''p'' 5] \<and> po_oldestAt (order_of r ''p'') = 2 \<and>
      snd (expire r 12) = [sample_event ''p'' 5]"
  by code_simp

end
