(* ===== verification/Target.thy ===== *)
theory Target
  imports Differ
begin

text \<open>
  \<open>pkg/target/target.go\<close>: what a read of the audited store returns. A missing key is an absent
  value and not an error, so the sweeper can tell "the key is not there" from "no answer".
\<close>

section \<open>Outcomes of a read\<close>

text \<open>What a read of the store may fail with: the key holds another type, or no answer.\<close>

datatype TargetErr = WrongTypeError string | TransportError

record Read =
  rd_Value :: Value
  rd_Err :: "TargetErr option"

end
