(* ===== verification/Sweeper.thy ===== *)
theory Sweeper
  imports Differ Oracle Target
begin

text \<open>
  \<open>pkg/sweeper/sweeper.go\<close>, \<open>confirm.go\<close> and \<open>extras.go\<close>: the settle, diff and two-phase confirm
  cycle. The sweeper runs beside the applier that writes the oracle and against a store it does
  not control, so every operation takes an \<open>env\<close>: before each access of the sweeper to the outside
  the applier may change the oracle in any way (\<open>env_oracle\<close>), and the store, the clock, the
  settlement window and the context answer as they like. A theorem for every \<open>env\<close> is a theorem
  for every interleaving with the applier at the granularity of the oracle's own locks, and for
  every behaviour of the store. The sweeper's own operations run one at a time, as in \<open>Run\<close>.
\<close>

section \<open>The outside world\<close>

record env =
  env_hash :: "string \<Rightarrow> u64"
  env_oracle :: "nat \<Rightarrow> Oracle \<Rightarrow> Oracle"
  env_now :: "nat \<Rightarrow> time"
  env_window :: "nat \<Rightarrow> duration"
  env_done :: "nat \<Rightarrow> bool"
  env_health :: "nat \<Rightarrow> TargetErr + Health"
  env_readMany :: "nat \<Rightarrow> string list \<Rightarrow> TargetErr + Read list"
  env_get :: "nat \<Rightarrow> string \<Rightarrow> TargetErr + Value"
  env_scan :: "nat \<Rightarrow> string list list \<times> bool"

record World =
  wo_tick :: nat
  wo_orc :: Oracle

text \<open>Time passes before an access: the applier does what it does.\<close>

definition tick :: "env \<Rightarrow> World \<Rightarrow> World" where
  "tick env w = \<lparr>wo_tick = wo_tick w + 1, wo_orc = env_oracle env (wo_tick w) (wo_orc w)\<rparr>"

text \<open>The oracle operations the sweeper calls, each an access.\<close>

definition ask_Version :: "env \<Rightarrow> World \<Rightarrow> string \<Rightarrow> World \<times> u64 option" where
  "ask_Version env w key =
     (let w = tick env w in (w, Oracle_Version (env_hash env) (wo_orc w) key))"

definition ask_Get :: "env \<Rightarrow> World \<Rightarrow> string \<Rightarrow> World \<times> Entry option" where
  "ask_Get env w key =
     (let w = tick env w
      in (w, Oracle_Get (env_hash env) (wo_orc w) key (env_now env (wo_tick w))))"

definition ask_Counts :: "env \<Rightarrow> World \<Rightarrow> time \<Rightarrow> World \<times> Counts" where
  "ask_Counts env w now =
     (let w = tick env w; (orc, out) = Oracle_Counts (wo_orc w) now in (w\<lparr>wo_orc := orc\<rparr>, out))"

section \<open>State\<close>

record SweeperConfig =
  sf_DifferOptions :: Options
  sf_SweepInterval :: duration
  sf_ExtraScanInterval :: duration
  sf_ConfirmInterval :: duration
  sf_ReadBatchSize :: int
  sf_MaxConfirmQueue :: int
  sf_MaxExtrasTracked :: int
  sf_ExtraScanPattern :: string
  sf_RequirePrimary :: bool

definition sweeper_applyDefaults :: "SweeperConfig \<Rightarrow> SweeperConfig" where
  "sweeper_applyDefaults c =
     c\<lparr>sf_SweepInterval := (if sf_SweepInterval c \<le> 0 then 30000000000 else sf_SweepInterval c),
       sf_ExtraScanInterval :=
         (if sf_ExtraScanInterval c \<le> 0 then 300000000000 else sf_ExtraScanInterval c),
       sf_ConfirmInterval := (if sf_ConfirmInterval c \<le> 0 then 1000000000 else sf_ConfirmInterval c),
       sf_ReadBatchSize := (if sf_ReadBatchSize c \<le> 0 then 500 else sf_ReadBatchSize c),
       sf_MaxConfirmQueue := (if sf_MaxConfirmQueue c \<le> 0 then 10000 else sf_MaxConfirmQueue c),
       sf_MaxExtrasTracked := (if sf_MaxExtrasTracked c \<le> 0 then 100000 else sf_MaxExtrasTracked c),
       sf_ExtraScanPattern := (if sf_ExtraScanPattern c = [] then ''*'' else sf_ExtraScanPattern c)\<rparr>"

record Episode =
  ep_Key :: string
  ep_Finding :: Finding
  ep_FirstSeenAt :: time
  ep_ConfirmedAt :: time
  ep_Window :: duration

record candidate =
  ca_finding :: Finding
  ca_version :: u64
  ca_seenAt :: time
  ca_window :: duration

record extrasPass =
  xp_keys :: "string go_set"
  xp_startedAt :: time
  xp_window :: duration
  xp_truncated :: bool

record counters =
  k_sweeps :: int
  k_sweepsSkipped :: int
  k_keysCompared :: int
  k_fenceFailures :: int
  k_candidatesEnqueued :: int
  k_confirmQueueDropped :: int
  k_confirmCycles :: int
  k_confirmations :: int
  k_transientResolved :: int
  k_transientOracleAdvanced :: int
  k_transientKeyEvicted :: int
  k_confirmReadFailed :: int
  k_driftResolved :: int
  k_confirmedDroppedEvicted :: int
  k_confirmedSuperseded :: int
  k_suspectNotConfirmed :: int
  k_lastDriftDuration :: int
  k_extraScans :: int
  k_extrasReported :: int
  k_extrasSelfResolved :: int
  k_extrasTruncated :: int
  k_targetUnavailable :: int
  k_subscriberDropped :: int

definition zero_counters :: counters where
  "zero_counters =
     \<lparr>k_sweeps = 0, k_sweepsSkipped = 0, k_keysCompared = 0, k_fenceFailures = 0,
      k_candidatesEnqueued = 0, k_confirmQueueDropped = 0, k_confirmCycles = 0,
      k_confirmations = 0, k_transientResolved = 0, k_transientOracleAdvanced = 0,
      k_transientKeyEvicted = 0, k_confirmReadFailed = 0, k_driftResolved = 0,
      k_confirmedDroppedEvicted = 0, k_confirmedSuperseded = 0, k_suspectNotConfirmed = 0,
      k_lastDriftDuration = 0, k_extraScans = 0, k_extrasReported = 0, k_extrasSelfResolved = 0,
      k_extrasTruncated = 0, k_targetUnavailable = 0, k_subscriberDropped = 0\<rparr>"

text \<open>A subscriber's channel is the list of findings in its buffer.\<close>

record Sweeper =
  sw_queue :: "candidate list"
  sw_queued :: "string go_set"
  sw_confirmed :: "(string, Episode) go_map"
  sw_requeued :: "string go_set"
  sw_extras :: "extrasPass option"
  sw_subs :: "Finding list list"
  sw_closed :: bool
  sw_c :: counters

definition Sweeper_New :: Sweeper where
  "Sweeper_New =
     \<lparr>sw_queue = [], sw_queued = [], sw_confirmed = [], sw_requeued = [], sw_extras = None,
      sw_subs = [], sw_closed = False, sw_c = zero_counters\<rparr>"

datatype SweepError =
    SwErrClosed | SwErrTargetUnavailable | SwErrNotPrimary | SwErrCanceled | SwErrRead
  | SwPanicIndex \<comment> \<open>\<open>reads[i]\<close> past the end of a short answer\<close>

definition count_up :: "(counters \<Rightarrow> counters) \<Rightarrow> Sweeper \<Rightarrow> Sweeper" where
  "count_up f s = s\<lparr>sw_c := f (sw_c s)\<rparr>"

section \<open>Small operations on the state\<close>

definition markRequeued :: "string \<Rightarrow> Sweeper \<Rightarrow> Sweeper" where
  "markRequeued key s = s\<lparr>sw_requeued := set_add key (sw_requeued s)\<rparr>"

definition drainRequeued :: "Sweeper \<Rightarrow> Sweeper" where
  "drainRequeued s = s\<lparr>sw_requeued := []\<rparr>"

definition episode :: "Sweeper \<Rightarrow> string \<Rightarrow> Episode option" where
  "episode s key = map_get (sw_confirmed s) key"

definition refresh :: "string \<Rightarrow> Finding \<Rightarrow> Sweeper \<Rightarrow> Sweeper" where
  "refresh key f s =
     (case map_get (sw_confirmed s) key of
        None \<Rightarrow> s
      | Some ep \<Rightarrow> s\<lparr>sw_confirmed := map_put key (ep\<lparr>ep_Finding := f\<rparr>) (sw_confirmed s)\<rparr>)"

definition resolve :: "string \<Rightarrow> time \<Rightarrow> Sweeper \<Rightarrow> Sweeper" where
  "resolve key now s =
     (case map_get (sw_confirmed s) key of
        None \<Rightarrow> s
      | Some ep \<Rightarrow>
          count_up (\<lambda>c. c\<lparr>k_driftResolved := k_driftResolved c + 1,
                         k_lastDriftDuration := time_sub now (ep_FirstSeenAt ep)\<rparr>)
            (s\<lparr>sw_confirmed := map_del key (sw_confirmed s)\<rparr>))"

definition defaultSubscriberBuffer :: nat where
  "defaultSubscriberBuffer = 256"

fun publish_loop :: "Finding \<Rightarrow> Finding list list \<Rightarrow> Finding list list \<times> int" where
  "publish_loop f [] = ([], 0)"
| "publish_loop f (ch # chs) =
     (let (chs', n) = publish_loop f chs
      in if length ch < defaultSubscriberBuffer then ((ch @ [f]) # chs', n) else (ch # chs', n + 1))"

definition publish :: "Finding \<Rightarrow> Sweeper \<Rightarrow> Sweeper" where
  "publish f s =
     (let (subs, n) = publish_loop f (sw_subs s)
      in count_up (\<lambda>c. c\<lparr>k_subscriberDropped := k_subscriberDropped c + n\<rparr>) (s\<lparr>sw_subs := subs\<rparr>))"

definition Subscribe :: "Sweeper \<Rightarrow> Sweeper" where
  "Subscribe s = (if sw_closed s then s else s\<lparr>sw_subs := sw_subs s @ [[]]\<rparr>)"

definition Sweeper_Close :: "Sweeper \<Rightarrow> Sweeper" where
  "Sweeper_Close s = (if sw_closed s then s else s\<lparr>sw_closed := True, sw_subs := []\<rparr>)"

text \<open>The loop of \<open>liveEpisodes\<close> over the keys of \<open>confirmed\<close>: what stands, what is withdrawn.\<close>

fun live_loop ::
    "env \<Rightarrow> string list \<Rightarrow> World \<Rightarrow> Sweeper \<Rightarrow> (string, Episode) go_map
      \<Rightarrow> World \<times> Sweeper \<times> (string, Episode) go_map" where
  "live_loop env [] w s out = (w, s, out)"
| "live_loop env (key # keys) w s out =
     (let (w, version) = ask_Version env w key
      in case map_get (sw_confirmed s) key of
           None \<Rightarrow> live_loop env keys w s out
         | Some ep \<Rightarrow>
             (case version of
                None \<Rightarrow>
                  live_loop env keys w
                    (count_up (\<lambda>c. c\<lparr>k_confirmedDroppedEvicted := k_confirmedDroppedEvicted c + 1\<rparr>)
                      (s\<lparr>sw_confirmed := map_del key (sw_confirmed s)\<rparr>)) out
              | Some v \<Rightarrow>
                  if v \<noteq> f_OracleVersion (ep_Finding ep) then
                    live_loop env keys w
                      (count_up (\<lambda>c. c\<lparr>k_confirmedSuperseded := k_confirmedSuperseded c + 1\<rparr>)
                        (s\<lparr>sw_confirmed := map_del key (sw_confirmed s)\<rparr>)) out
                  else live_loop env keys w s (map_put key ep out)))"

definition liveEpisodes :: "env \<Rightarrow> World \<Rightarrow> Sweeper \<Rightarrow> World \<times> Sweeper \<times> (string, Episode) go_map" where
  "liveEpisodes env w s = live_loop env (map fst (sw_confirmed s)) w s []"

definition Sweeper_Confirmed ::
    "env \<Rightarrow> World \<Rightarrow> Sweeper \<Rightarrow> World \<times> Sweeper \<times> (string, Finding) go_map" where
  "Sweeper_Confirmed env w s =
     (let (w, s, eps) = liveEpisodes env w s
      in (w, s, map (\<lambda>kv. (fst kv, ep_Finding (snd kv))) eps))"

section \<open>The confirm queue\<close>

definition dueAt :: "candidate \<Rightarrow> time" where
  "dueAt c = ca_seenAt c + ca_window c"

definition enqueue :: "SweeperConfig \<Rightarrow> Finding \<Rightarrow> u64 \<Rightarrow> time \<Rightarrow> duration \<Rightarrow> Sweeper \<Rightarrow> Sweeper" where
  "enqueue cfg f version now w s =
     (if f_Key f \<in> set (sw_queued s) then s
      else if sf_MaxConfirmQueue cfg \<le> int (length (sw_queue s)) then
        count_up (\<lambda>c. c\<lparr>k_confirmQueueDropped := k_confirmQueueDropped c + 1\<rparr>) s
      else
        count_up (\<lambda>c. c\<lparr>k_candidatesEnqueued := k_candidatesEnqueued c + 1\<rparr>)
          (s\<lparr>sw_queue := sw_queue s @
               [\<lparr>ca_finding = f, ca_version = version, ca_seenAt = now, ca_window = w\<rparr>],
             sw_queued := set_add (f_Key f) (sw_queued s)\<rparr>))"

fun take_due :: "time \<Rightarrow> candidate list \<Rightarrow> candidate list \<Rightarrow> candidate list \<Rightarrow> string go_set
    \<Rightarrow> candidate list \<times> candidate list \<times> string go_set" where
  "take_due now [] due keep queued = (due, keep, queued)"
| "take_due now (c # cs) due keep queued =
     (if now < dueAt c then take_due now cs due (keep @ [c]) queued
      else take_due now cs (due @ [c]) keep (set_del (f_Key (ca_finding c)) queued))"

definition takeDue :: "time \<Rightarrow> Sweeper \<Rightarrow> Sweeper \<times> candidate list" where
  "takeDue now s =
     (let (due, keep, queued) = take_due now (sw_queue s) [] [] (sw_queued s)
      in (s\<lparr>sw_queue := keep, sw_queued := queued\<rparr>, due))"

fun requeueAll :: "SweeperConfig \<Rightarrow> candidate list \<Rightarrow> Sweeper \<Rightarrow> Sweeper" where
  "requeueAll cfg [] s = s"
| "requeueAll cfg (c # cs) s =
     requeueAll cfg cs
       (if f_Key (ca_finding c) \<in> set (sw_queued s) then s
        else if sf_MaxConfirmQueue cfg \<le> int (length (sw_queue s)) then
          count_up (\<lambda>c. c\<lparr>k_confirmQueueDropped := k_confirmQueueDropped c + 1\<rparr>) s
        else s\<lparr>sw_queue := sw_queue s @ [c],
               sw_queued := set_add (f_Key (ca_finding c)) (sw_queued s)\<rparr>)"

definition confirm :: "string \<Rightarrow> Episode \<Rightarrow> Sweeper \<Rightarrow> Sweeper" where
  "confirm key ep0 s =
     (let ep = (case map_get (sw_confirmed s) key of
                  None \<Rightarrow> ep0
                | Some existing \<Rightarrow>
                    ep0\<lparr>ep_FirstSeenAt := ep_FirstSeenAt existing,
                        ep_Finding := (ep_Finding ep0)\<lparr>f_FirstSeenAt := ep_FirstSeenAt existing\<rparr>\<rparr>)
      in publish (ep_Finding ep)
           (count_up (\<lambda>c. c\<lparr>k_confirmations := k_confirmations c + 1\<rparr>)
             (s\<lparr>sw_confirmed := map_put key ep (sw_confirmed s)\<rparr>)))"

text \<open>\<open>confirmOne\<close> from the second read of the oracle on: \<open>answer\<close> is what the store held, or the
  type it held instead.\<close>

definition decide_candidate ::
    "SweeperConfig \<Rightarrow> candidate \<Rightarrow> time \<Rightarrow> string + Value \<Rightarrow> Entry option \<Rightarrow> Sweeper \<Rightarrow> Sweeper" where
  "decide_candidate cfg c now answer eo s =
     (let key = f_Key (ca_finding c);
          advanced = markRequeued key
            (count_up (\<lambda>k. k\<lparr>k_transientOracleAdvanced := k_transientOracleAdvanced k + 1\<rparr>) s)
      in case eo of
           None \<Rightarrow> advanced
         | Some e \<Rightarrow>
             if eo_version e \<noteq> ca_version c then advanced
             else if eo_trust e = TrustSuspect then
               count_up (\<lambda>k. k\<lparr>k_suspectNotConfirmed := k_suspectNotConfirmed k + 1\<rparr>) s
             else
               let opts = (sf_DifferOptions cfg)\<lparr>op_Now := now\<rparr>;
                   fo = (case answer of
                           Inl got \<Rightarrow> CompareUnreadable key e got opts
                         | Inr v \<Rightarrow> Compare key e v opts)
               in case fo of
                    None \<Rightarrow> count_up (\<lambda>k. k\<lparr>k_transientResolved := k_transientResolved k + 1\<rparr>) s
                  | Some f \<Rightarrow>
                      let f = f\<lparr>f_Confirmed := True, f_FirstSeenAt := ca_seenAt c\<rparr>
                      in confirm key
                           \<lparr>ep_Key = key, ep_Finding = f, ep_FirstSeenAt = ca_seenAt c,
                            ep_ConfirmedAt = now, ep_Window = ca_window c\<rparr> s)"

definition confirmOne ::
    "env \<Rightarrow> SweeperConfig \<Rightarrow> candidate \<Rightarrow> time \<Rightarrow> World \<Rightarrow> Sweeper \<Rightarrow> World \<times> Sweeper" where
  "confirmOne env cfg c now w s =
     (let key = f_Key (ca_finding c);
          (w, version) = ask_Version env w key
      in case version of
           None \<Rightarrow> (w, count_up (\<lambda>k. k\<lparr>k_transientKeyEvicted := k_transientKeyEvicted k + 1\<rparr>) s)
         | Some v \<Rightarrow>
             if v \<noteq> ca_version c then
               (w, markRequeued key
                     (count_up (\<lambda>k. k\<lparr>k_transientOracleAdvanced := k_transientOracleAdvanced k + 1\<rparr>) s))
             else
               let w = tick env w in
               case env_get env (wo_tick w) key of
                 Inl TransportError \<Rightarrow>
                   (w, markRequeued key
                         (count_up (\<lambda>k. k\<lparr>k_confirmReadFailed := k_confirmReadFailed k + 1\<rparr>) s))
               | Inl (WrongTypeError got) \<Rightarrow>
                   let (w, eo) = ask_Get env w key in (w, decide_candidate cfg c now (Inl got) eo s)
               | Inr value \<Rightarrow>
                   let (w, eo) = ask_Get env w key in (w, decide_candidate cfg c now (Inr value) eo s))"

fun confirm_loop ::
    "env \<Rightarrow> SweeperConfig \<Rightarrow> time \<Rightarrow> candidate list \<Rightarrow> int \<Rightarrow> World \<Rightarrow> Sweeper
      \<Rightarrow> World \<times> Sweeper \<times> int" where
  "confirm_loop env cfg now [] decided w s = (w, s, decided)"
| "confirm_loop env cfg now (c # cs) decided w s =
     (let w = tick env w
      in if env_done env (wo_tick w) then (w, requeueAll cfg (c # cs) s, decided)
         else let (w, s) = confirmOne env cfg c now w s
              in confirm_loop env cfg now cs (decided + 1) w s)"

definition reachable_health :: "TargetErr + Health \<Rightarrow> bool" where
  "reachable_health h = (case h of Inl err \<Rightarrow> False | Inr health \<Rightarrow> h_Reachable health)"

definition ConfirmDue :: "env \<Rightarrow> SweeperConfig \<Rightarrow> time \<Rightarrow> World \<Rightarrow> Sweeper \<Rightarrow> World \<times> Sweeper \<times> int" where
  "ConfirmDue env cfg now w s =
     (if sw_closed s then (w, s, 0)
      else
        let (s, due) = takeDue now s
        in if length due = 0 then (w, s, 0)
           else
             let w = tick env w
             in if \<not> reachable_health (env_health env (wo_tick w)) then
                  (w, count_up (\<lambda>c. c\<lparr>k_targetUnavailable := k_targetUnavailable c + 1\<rparr>)
                        (requeueAll cfg due s), 0)
                else
                  confirm_loop env cfg now due 0 w
                    (count_up (\<lambda>c. c\<lparr>k_confirmCycles := k_confirmCycles c + 1\<rparr>) s))"

section \<open>The oracle to target pass\<close>

definition checkHealth ::
    "env \<Rightarrow> SweeperConfig \<Rightarrow> World \<Rightarrow> Sweeper \<Rightarrow> World \<times> Sweeper \<times> (SweepError + Health)" where
  "checkHealth env cfg w s =
     (let w = tick env w;
          unavailable = count_up (\<lambda>c. c\<lparr>k_targetUnavailable := k_targetUnavailable c + 1\<rparr>) s
      in if env_done env (wo_tick w) then (w, s, Inl SwErrCanceled)
         else case env_health env (wo_tick w) of
                Inl err \<Rightarrow> (w, unavailable, Inl SwErrTargetUnavailable)
              | Inr health \<Rightarrow>
                  if \<not> h_Reachable health then (w, unavailable, Inl SwErrTargetUnavailable)
                  else if sf_RequirePrimary cfg \<and> h_Role health \<noteq> ''master'' then
                    (w, s, Inl SwErrNotPrimary)
                  else (w, s, Inr health))"

definition compareRead :: "string \<Rightarrow> Entry \<Rightarrow> Read \<Rightarrow> Options \<Rightarrow> SweepError + Finding option" where
  "compareRead key e read opts =
     (case rd_Err read of
        None \<Rightarrow> Inr (Compare key e (rd_Value read) opts)
      | Some (WrongTypeError got) \<Rightarrow> Inr (CompareUnreadable key e got opts)
      | Some TransportError \<Rightarrow> Inl SwErrRead)"

definition handleComparison ::
    "SweeperConfig \<Rightarrow> Finding option \<Rightarrow> u64 \<Rightarrow> string \<Rightarrow> time \<Rightarrow> duration \<Rightarrow> Report \<Rightarrow> Sweeper
      \<Rightarrow> Report \<times> Sweeper" where
  "handleComparison cfg fo version key now w rep s =
     (case fo of
        None \<Rightarrow> (rep, resolve key now s)
      | Some f \<Rightarrow>
          if f_Trust f = TrustSuspect then
            (Report_Add rep (Some f),
             count_up (\<lambda>c. c\<lparr>k_suspectNotConfirmed := k_suspectNotConfirmed c + 1\<rparr>) s)
          else case episode s key of
            Some ep \<Rightarrow>
              let f = f\<lparr>f_Confirmed := True, f_FirstSeenAt := ep_FirstSeenAt ep\<rparr>
              in (Report_Add rep (Some f), refresh key f s)
          | None \<Rightarrow>
              let f = f\<lparr>f_FirstSeenAt := now\<rparr>
              in (Report_Add rep (Some f), enqueue cfg f version now w s))"

text \<open>The state of a walk: the world, the sweeper, the report so far, the batch being filled with
  the versions its keys were read at, and the error that stopped it.\<close>

record sweep_st =
  st_w :: World
  st_s :: Sweeper
  st_rep :: Report
  st_batch :: "string list"
  st_versions :: "(string, u64) go_map"
  st_err :: "SweepError option"

definition fence_failed :: "string \<Rightarrow> World \<Rightarrow> sweep_st \<Rightarrow> sweep_st" where
  "fence_failed key w st =
     st\<lparr>st_w := w,
        st_s := markRequeued key
          (count_up (\<lambda>c. c\<lparr>k_fenceFailures := k_fenceFailures c + 1\<rparr>) (st_s st))\<rparr>"

text \<open>One round of the loop of \<open>processBatch\<close>; \<open>reads\<close> is what is left of the answers.\<close>

definition batch_key ::
    "env \<Rightarrow> SweeperConfig \<Rightarrow> Options \<Rightarrow> time \<Rightarrow> duration \<Rightarrow> (string, u64) go_map \<Rightarrow> string
      \<Rightarrow> Read list \<Rightarrow> sweep_st \<Rightarrow> sweep_st" where
  "batch_key env cfg opts now w versions key reads st =
     (let v1 = (case map_get versions key of None \<Rightarrow> 0 | Some v \<Rightarrow> v);
          (wo, v2) = ask_Version env (st_w st) key
      in if v2 \<noteq> Some v1 then fence_failed key wo st
         else
           let (wo, eo) = ask_Get env wo key
           in case eo of
                None \<Rightarrow> fence_failed key wo st
              | Some e \<Rightarrow>
                  if eo_version e \<noteq> v1 then fence_failed key wo st
                  else
                    let rep = (st_rep st)\<lparr>r_KeysCompared := r_KeysCompared (st_rep st) + 1\<rparr>;
                        s = count_up (\<lambda>c. c\<lparr>k_keysCompared := k_keysCompared c + 1\<rparr>) (st_s st);
                        st = st\<lparr>st_w := wo, st_s := s, st_rep := rep\<rparr>
                    in case reads of
                         [] \<Rightarrow> st\<lparr>st_err := Some SwPanicIndex\<rparr>
                       | read # rest \<Rightarrow>
                           (case compareRead key e read opts of
                              Inl err \<Rightarrow> st\<lparr>st_err := Some err\<rparr>
                            | Inr fo \<Rightarrow>
                                let (rep, s) = handleComparison cfg fo (eo_version e) key now w rep s
                                in st\<lparr>st_s := s, st_rep := rep\<rparr>))"

fun batch_loop ::
    "env \<Rightarrow> SweeperConfig \<Rightarrow> Options \<Rightarrow> time \<Rightarrow> duration \<Rightarrow> (string, u64) go_map \<Rightarrow> string list
      \<Rightarrow> Read list \<Rightarrow> sweep_st \<Rightarrow> sweep_st" where
  "batch_loop env cfg opts now w versions [] reads st = st"
| "batch_loop env cfg opts now w versions (key # keys) reads st =
     (let st = batch_key env cfg opts now w versions key reads st
      in if st_err st \<noteq> None then st
         else batch_loop env cfg opts now w versions keys (tl reads) st)"

definition processBatch ::
    "env \<Rightarrow> SweeperConfig \<Rightarrow> Options \<Rightarrow> time \<Rightarrow> duration \<Rightarrow> sweep_st \<Rightarrow> sweep_st" where
  "processBatch env cfg opts now w st =
     (let wo = tick env (st_w st)
      in case env_readMany env (wo_tick wo) (st_batch st) of
           Inl err \<Rightarrow> st\<lparr>st_w := wo, st_err := Some SwErrRead\<rparr>
         | Inr reads \<Rightarrow>
             batch_loop env cfg opts now w (st_versions st) (st_batch st) reads (st\<lparr>st_w := wo\<rparr>))"

definition walk_key ::
    "env \<Rightarrow> SweeperConfig \<Rightarrow> Options \<Rightarrow> time \<Rightarrow> duration \<Rightarrow> string \<Rightarrow> sweep_st \<Rightarrow> sweep_st" where
  "walk_key env cfg opts now w key st =
     (let wo = tick env (st_w st)
      in if env_done env (wo_tick wo) then st\<lparr>st_w := wo, st_err := Some SwErrCanceled\<rparr>
         else
           let (wo, eo) = ask_Get env wo key; st = st\<lparr>st_w := wo\<rparr>
           in case eo of
                None \<Rightarrow> st
              | Some e \<Rightarrow>
                  if eo_trust e = TrustAdopted then
                    st\<lparr>st_rep := (st_rep st)\<lparr>r_KeysSkippedAdopted := r_KeysSkippedAdopted (st_rep st) + 1\<rparr>\<rparr>
                  else
                    let st = st\<lparr>st_versions := map_put key (eo_version e) (st_versions st),
                                st_batch := st_batch st @ [key]\<rparr>
                    in if int (length (st_batch st)) < sf_ReadBatchSize cfg then st
                       else
                         let st = processBatch env cfg opts now w st
                         in if st_err st \<noteq> None then st else st\<lparr>st_batch := [], st_versions := []\<rparr>)"

fun walk_keys ::
    "env \<Rightarrow> SweeperConfig \<Rightarrow> Options \<Rightarrow> time \<Rightarrow> duration \<Rightarrow> string list \<Rightarrow> sweep_st \<Rightarrow> sweep_st" where
  "walk_keys env cfg opts now w [] st = st"
| "walk_keys env cfg opts now w (key # keys) st =
     (let st = walk_key env cfg opts now w key st
      in if st_err st \<noteq> None then st else walk_keys env cfg opts now w keys st)"

text \<open>The iterator \<open>Oracle.SettledKeys\<close> as the walk consumes it: the window is read once, and the
  keys of a shard are collected, under its lock, when the walk reaches it.\<close>

fun walk_shards ::
    "env \<Rightarrow> SweeperConfig \<Rightarrow> Options \<Rightarrow> time \<Rightarrow> duration \<Rightarrow> duration \<Rightarrow> duration \<Rightarrow> nat list
      \<Rightarrow> sweep_st \<Rightarrow> sweep_st" where
  "walk_shards env cfg opts now w orcW neverSettled [] st = st"
| "walk_shards env cfg opts now w orcW neverSettled (i # is) st =
     (let wo = tick env (st_w st);
          orc = wo_orc wo;
          sh = promote (or_shards orc ! i) now (oc_maxSettlementWindow (or_cfg orc));
          wo = wo\<lparr>wo_orc := orc\<lparr>or_shards := (or_shards orc)[i := sh]\<rparr>\<rparr>;
          st = walk_keys env cfg opts now w (settledKeys sh now orcW neverSettled) (st\<lparr>st_w := wo\<rparr>)
      in if st_err st \<noteq> None then st
         else walk_shards env cfg opts now w orcW neverSettled is st)"

definition walk ::
    "env \<Rightarrow> SweeperConfig \<Rightarrow> Options \<Rightarrow> time \<Rightarrow> duration \<Rightarrow> Report \<Rightarrow> World \<Rightarrow> Sweeper \<Rightarrow> sweep_st" where
  "walk env cfg opts now w rep wo s =
     (let wo = tick env wo;
          orcW = or_window (wo_orc wo);
          neverSettled = neverSettledThreshold (wo_orc wo) orcW;
          st = walk_shards env cfg opts now w orcW neverSettled [0..<length (or_shards (wo_orc wo))]
                 \<lparr>st_w = wo, st_s = drainRequeued s, st_rep = rep, st_batch = [], st_versions = [],
                  st_err = None\<rparr>
      in if st_err st \<noteq> None then st
         else if length (st_batch st) = 0 then st
         else processBatch env cfg opts now w st)"

definition sweep ::
    "env \<Rightarrow> SweeperConfig \<Rightarrow> World \<Rightarrow> Sweeper \<Rightarrow> World \<times> Sweeper \<times> (SweepError + Report)" where
  "sweep env cfg wo s =
     (if sw_closed s then (wo, s, Inl SwErrClosed)
      else
        case checkHealth env cfg wo s of
          (wo, s, Inl err) \<Rightarrow> (wo, s, Inl err)
        | (wo, s, Inr health) \<Rightarrow>
            let now = env_now env (wo_tick wo);
                w = env_window env (wo_tick wo);
                opts = (sf_DifferOptions cfg)\<lparr>op_Now := now\<rparr>;
                (wo, counts) = ask_Counts env wo now;
                rep = (NewReport now opts)
                        \<lparr>r_SettlementWindow := w, r_KeysSkippedInFlight := ct_inFlight counts\<rparr>;
                st = walk env cfg opts now w rep wo s
            in case st_err st of
                 Some err \<Rightarrow> (st_w st, st_s st, Inl err)
               | None \<Rightarrow>
                   let wo = tick env (st_w st);
                       rep = (case env_health env (wo_tick wo) of
                                Inr after \<Rightarrow>
                                  (st_rep st)\<lparr>r_EvictionSuspected := h_EvictedKeys health < h_EvictedKeys after,
                                              r_TargetHealth := after\<rparr>
                              | Inl err \<Rightarrow> (st_rep st)\<lparr>r_TargetHealth := health\<rparr>);
                       (wo, s, eps) = liveEpisodes env wo (st_s st);
                       wo = tick env wo
                   in (wo, count_up (\<lambda>c. c\<lparr>k_sweeps := k_sweeps c + 1\<rparr>) s,
                       Inr (rep\<lparr>r_FinishedAt := env_now env (wo_tick wo)\<rparr>)))"

text \<open>\<open>SweepOnce\<close> takes the guard and sweeps; \<open>TrySweepOnce\<close> counts a skip when another sweep
  holds it.\<close>

definition SweepOnce ::
    "env \<Rightarrow> SweeperConfig \<Rightarrow> World \<Rightarrow> Sweeper \<Rightarrow> World \<times> Sweeper \<times> (SweepError + Report)" where
  "SweepOnce env cfg wo s = sweep env cfg wo s"

definition TrySweepOnce ::
    "env \<Rightarrow> SweeperConfig \<Rightarrow> bool \<Rightarrow> World \<Rightarrow> Sweeper
      \<Rightarrow> World \<times> Sweeper \<times> (SweepError + Report) option" where
  "TrySweepOnce env cfg guard_held wo s =
     (if guard_held then
        (wo, count_up (\<lambda>c. c\<lparr>k_sweepsSkipped := k_sweepsSkipped c + 1\<rparr>) s, None)
      else let (wo, s, r) = sweep env cfg wo s in (wo, s, Some r))"

section \<open>The target to oracle pass\<close>

definition extras_dueAt :: "extrasPass \<Rightarrow> time" where
  "extras_dueAt p = xp_startedAt p + xp_window p"

definition oracleKnows :: "env \<Rightarrow> World \<Rightarrow> string \<Rightarrow> World \<times> bool" where
  "oracleKnows env w key = (let (w, eo) = ask_Get env w key in (w, eo \<noteq> None))"

text \<open>The keys of one scan batch; the flag says that the pass hit its bound and is over.\<close>

fun first_keys ::
    "env \<Rightarrow> SweeperConfig \<Rightarrow> string list \<Rightarrow> extrasPass \<Rightarrow> World \<Rightarrow> Sweeper
      \<Rightarrow> World \<times> Sweeper \<times> extrasPass \<times> bool" where
  "first_keys env cfg [] pass w s = (w, s, pass, False)"
| "first_keys env cfg (key # keys) pass w s =
     (let (w, tracked) = oracleKnows env w key
      in if tracked then first_keys env cfg keys pass w s
         else if sf_MaxExtrasTracked cfg \<le> int (length (xp_keys pass)) then
           (w, count_up (\<lambda>c. c\<lparr>k_extrasTruncated := k_extrasTruncated c + 1\<rparr>) s,
            pass\<lparr>xp_truncated := True\<rparr>, True)
         else first_keys env cfg keys (pass\<lparr>xp_keys := set_add key (xp_keys pass)\<rparr>) w s)"

fun first_batches ::
    "env \<Rightarrow> SweeperConfig \<Rightarrow> string list list \<Rightarrow> bool \<Rightarrow> extrasPass \<Rightarrow> World \<Rightarrow> Sweeper
      \<Rightarrow> World \<times> Sweeper \<times> (SweepError + extrasPass)" where
  "first_batches env cfg [] failed pass w s = (w, s, if failed then Inl SwErrRead else Inr pass)"
| "first_batches env cfg (keys # batches) failed pass w s =
     (let w = tick env w
      in if env_done env (wo_tick w) then (w, s, Inl SwErrCanceled)
         else case first_keys env cfg keys pass w s of
                (w, s, pass, full) \<Rightarrow>
                  if full then (w, s, Inr pass) else first_batches env cfg batches failed pass w s)"

definition firstPass ::
    "env \<Rightarrow> SweeperConfig \<Rightarrow> duration \<Rightarrow> time \<Rightarrow> World \<Rightarrow> Sweeper
      \<Rightarrow> World \<times> Sweeper \<times> (SweepError + extrasPass)" where
  "firstPass env cfg win now w s =
     (let pass = \<lparr>xp_keys = [], xp_startedAt = now, xp_window = win, xp_truncated = False\<rparr>;
          w = tick env w;
          (batches, failed) = env_scan env (wo_tick w)
      in first_batches env cfg batches failed pass w s)"

definition extraSurvives :: "env \<Rightarrow> World \<Rightarrow> string \<Rightarrow> Read \<Rightarrow> World \<times> bool" where
  "extraSurvives env w key read =
     (if rd_Err read \<noteq> None then (w, False)
      else if v_kind (rd_Value read) = ValueAbsent then (w, False)
      else let (w, tracked) = oracleKnows env w key in (w, \<not> tracked))"

text \<open>The finding of an extra key: a \<open>Finding\<close> literal, every other field zero.\<close>

definition extra_finding :: "string \<Rightarrow> Value \<Rightarrow> time \<Rightarrow> Finding" where
  "extra_finding key v at =
     \<lparr>f_Key = key, f_Category = CatExtraInTarget, f_Trust = TrustComplete,
      f_OracleValue = zero_Value, f_TargetValue = v, f_MissingMembers = [], f_ExtraMembers = [],
      f_MissingMemberCount = 0, f_ExtraMemberCount = 0, f_OracleVersion = 0, f_LastEventAt = 0,
      f_LastSeq = 0, f_LastPublisher = [], f_TargetType = [], f_OracleTTL = None,
      f_TargetTTL = None, f_FirstSeenAt = at, f_Confirmed = True\<rparr>"

fun second_keys ::
    "env \<Rightarrow> time \<Rightarrow> string list \<Rightarrow> Read list \<Rightarrow> World \<Rightarrow> Sweeper \<Rightarrow> Report
      \<Rightarrow> World \<times> Sweeper \<times> Report \<times> SweepError option" where
  "second_keys env at [] reads w s rep = (w, s, rep, None)"
| "second_keys env at (key # keys) [] w s rep = (w, s, rep, Some SwPanicIndex)"
| "second_keys env at (key # keys) (read # reads) w s rep =
     (let (w, survives) = extraSurvives env w key read
      in if \<not> survives then
           second_keys env at keys reads w
             (count_up (\<lambda>c. c\<lparr>k_extrasSelfResolved := k_extrasSelfResolved c + 1\<rparr>) s) rep
         else
           second_keys env at keys reads w
             (count_up (\<lambda>c. c\<lparr>k_extrasReported := k_extrasReported c + 1\<rparr>) s)
             (Report_Add rep (Some (extra_finding key (rd_Value read) at))))"

text \<open>The slices \<open>keys[start:end]\<close> of \<open>for start := 0; start < len(keys); start += ReadBatchSize\<close>. The
  batch size is positive once the configuration has its defaults, so the test for 0 is there only
  to make the recursion end for every argument.\<close>

function chunks :: "nat \<Rightarrow> 'a list \<Rightarrow> 'a list list" where
  "chunks n keys = (if keys = [] \<or> n = 0 then [] else take n keys # chunks n (drop n keys))"
  by pat_completeness auto

termination chunks
  by (relation "measure (\<lambda>(n, keys). length keys)") auto

declare chunks.simps [simp del]

fun second_batches ::
    "env \<Rightarrow> time \<Rightarrow> string list list \<Rightarrow> World \<Rightarrow> Sweeper \<Rightarrow> Report
      \<Rightarrow> World \<times> Sweeper \<times> Report \<times> SweepError option" where
  "second_batches env at [] w s rep = (w, s, rep, None)"
| "second_batches env at (batch # batches) w s rep =
     (let w = tick env w
      in if env_done env (wo_tick w) then (w, s, rep, Some SwErrCanceled)
         else case env_readMany env (wo_tick w) batch of
                Inl err \<Rightarrow> (w, s, rep, Some SwErrRead)
              | Inr reads \<Rightarrow>
                  (case second_keys env at batch reads w s rep of
                     (w, s, rep, Some err) \<Rightarrow> (w, s, rep, Some err)
                   | (w, s, rep, None) \<Rightarrow> second_batches env at batches w s rep))"

definition secondPass ::
    "env \<Rightarrow> SweeperConfig \<Rightarrow> extrasPass \<Rightarrow> World \<Rightarrow> Sweeper \<Rightarrow> Report
      \<Rightarrow> World \<times> Sweeper \<times> Report \<times> SweepError option" where
  "secondPass env cfg pass w s rep =
     (case second_batches env (xp_startedAt pass) (chunks (nat (sf_ReadBatchSize cfg)) (xp_keys pass)) w s rep of
        (w, s, rep, Some err) \<Rightarrow> (w, s, rep, Some err)
      | (w, s, rep, None) \<Rightarrow>
          (w, s, rep\<lparr>r_Truncated := (r_Truncated rep \<or> xp_truncated pass)\<rparr>, None))"

definition takePendingExtras :: "time \<Rightarrow> Sweeper \<Rightarrow> Sweeper \<times> extrasPass option" where
  "takePendingExtras now s =
     (case sw_extras s of
        None \<Rightarrow> (s, None)
      | Some pass \<Rightarrow> if now < extras_dueAt pass then (s, None) else (s\<lparr>sw_extras := None\<rparr>, Some pass))"

definition setPendingExtras :: "extrasPass \<Rightarrow> Sweeper \<Rightarrow> Sweeper" where
  "setPendingExtras pass s = s\<lparr>sw_extras := Some pass\<rparr>"

definition ScanExtrasOnce ::
    "env \<Rightarrow> SweeperConfig \<Rightarrow> World \<Rightarrow> Sweeper \<Rightarrow> World \<times> Sweeper \<times> (SweepError + Report)" where
  "ScanExtrasOnce env cfg w s =
     (if sw_closed s then (w, s, Inl SwErrClosed)
      else
        case checkHealth env cfg w s of
          (w, s, Inl err) \<Rightarrow> (w, s, Inl err)
        | (w, s, Inr health) \<Rightarrow>
            let now = env_now env (wo_tick w);
                win = env_window env (wo_tick w);
                opts = (sf_DifferOptions cfg)\<lparr>op_Now := now\<rparr>;
                rep = (NewReport now opts)\<lparr>r_Pass := PassTargetToOracle, r_SettlementWindow := win\<rparr>;
                (s, pending) = takePendingExtras now s;
                (w, s, rep, err2) = (case pending of
                   None \<Rightarrow> (w, s, rep, None)
                 | Some pass \<Rightarrow> secondPass env cfg pass w s rep)
            in case err2 of
                 Some err \<Rightarrow> (w, s, Inl err)
               | None \<Rightarrow>
                   (case firstPass env cfg win now w s of
                      (w, s, Inl err) \<Rightarrow> (w, s, Inl err)
                    | (w, s, Inr pass) \<Rightarrow>
                        let w = tick env w
                        in (w, count_up (\<lambda>c. c\<lparr>k_extraScans := k_extraScans c + 1\<rparr>)
                                 (setPendingExtras pass s),
                            Inr (rep\<lparr>r_KeysCompared := int (length (xp_keys pass)),
                                     r_Truncated := xp_truncated pass,
                                     r_FinishedAt := env_now env (wo_tick w)\<rparr>))))"

section \<open>The loop\<close>

text \<open>A tick of the loop in \<open>Run\<close>: which ticker fired, with the reading a confirm tick carries.\<close>

datatype Tick = SweepTick | ConfirmTick time | ExtrasTick

definition Run_step ::
    "env \<Rightarrow> SweeperConfig \<Rightarrow> bool \<Rightarrow> Tick \<Rightarrow> World \<Rightarrow> Sweeper
      \<Rightarrow> World \<times> Sweeper \<times> (SweepError + Report) option" where
  "Run_step env cfg paused tk w s =
     (if paused then (w, s, None)
      else case tk of
             SweepTick \<Rightarrow> TrySweepOnce env cfg False w s
           | ConfirmTick now \<Rightarrow> let (w, s, n) = ConfirmDue env cfg now w s in (w, s, None)
           | ExtrasTick \<Rightarrow> let (w, s, r) = ScanExtrasOnce env cfg w s in (w, s, Some r))"

section \<open>The invariant\<close>

abbreviation ckey :: "candidate \<Rightarrow> string" where
  "ckey c \<equiv> f_Key (ca_finding c)"

text \<open>A candidate is a disagreement on a trusted key at one version of the oracle; an episode is a
  confirmed one whose two reads are a window apart.\<close>

definition raised :: "candidate \<Rightarrow> bool" where
  "raised c \<longleftrightarrow> f_Trust (ca_finding c) \<noteq> TrustSuspect \<and> f_FirstSeenAt (ca_finding c) = ca_seenAt c \<and>
     f_OracleVersion (ca_finding c) = ca_version c"

definition stands :: "string \<Rightarrow> Episode \<Rightarrow> bool" where
  "stands key ep \<longleftrightarrow> ep_Key ep = key \<and> f_Key (ep_Finding ep) = key \<and> f_Confirmed (ep_Finding ep) \<and>
     f_Trust (ep_Finding ep) \<noteq> TrustSuspect \<and> f_FirstSeenAt (ep_Finding ep) = ep_FirstSeenAt ep \<and>
     ep_FirstSeenAt ep + ep_Window ep \<le> ep_ConfirmedAt ep"

definition queue_inv :: "int \<Rightarrow> candidate list \<Rightarrow> string go_set \<Rightarrow> bool" where
  "queue_inv n q qd \<longleftrightarrow> wf_set qd \<and> set qd = ckey ` set q \<and> distinct (map ckey q) \<and>
     int (length q) \<le> n \<and> (\<forall>c \<in> set q. raised c)"

definition sw_inv :: "int \<Rightarrow> candidate list \<Rightarrow> string go_set \<Rightarrow> (string, Episode) go_map \<Rightarrow> bool" where
  "sw_inv n q qd cf \<longleftrightarrow> queue_inv n q qd \<and> wf_map cf \<and> (\<forall>(k, ep) \<in> set cf. stands k ep) \<and>
     ckey ` set q \<inter> fst ` set cf = {}"

definition sw_ok :: "SweeperConfig \<Rightarrow> Sweeper \<Rightarrow> bool" where
  "sw_ok cfg s \<longleftrightarrow> sw_inv (sf_MaxConfirmQueue cfg) (sw_queue s) (sw_queued s) (sw_confirmed s)"

lemma count_up_simps [simp]:
  "sw_queue (count_up f s) = sw_queue s" "sw_queued (count_up f s) = sw_queued s"
  "sw_confirmed (count_up f s) = sw_confirmed s" "sw_requeued (count_up f s) = sw_requeued s"
  "sw_extras (count_up f s) = sw_extras s" "sw_subs (count_up f s) = sw_subs s"
  "sw_closed (count_up f s) = sw_closed s" "sw_c (count_up f s) = f (sw_c s)"
  by (simp_all add: count_up_def)

lemma markRequeued_simps [simp]:
  "sw_queue (markRequeued key s) = sw_queue s" "sw_queued (markRequeued key s) = sw_queued s"
  "sw_confirmed (markRequeued key s) = sw_confirmed s" "sw_extras (markRequeued key s) = sw_extras s"
  "sw_closed (markRequeued key s) = sw_closed s" "sw_c (markRequeued key s) = sw_c s"
  by (simp_all add: markRequeued_def)

lemma publish_simps [simp]:
  "sw_queue (publish f s) = sw_queue s" "sw_queued (publish f s) = sw_queued s"
  "sw_confirmed (publish f s) = sw_confirmed s" "sw_extras (publish f s) = sw_extras s"
  "sw_closed (publish f s) = sw_closed s"
  by (simp_all add: publish_def case_prod_beta)

lemma sw_inv_del: "sw_inv n q qd cf \<Longrightarrow> sw_inv n q qd (map_del k cf)"
  by (auto simp: sw_inv_def wf_map_del set_map_del)

lemma sw_inv_put:
  "sw_inv n q qd cf \<Longrightarrow> stands k ep \<Longrightarrow> k \<notin> ckey ` set q \<Longrightarrow> sw_inv n q qd (map_put k ep cf)"
  by (auto simp: sw_inv_def wf_map_put set_map_put)

lemma sw_inv_stands: "sw_inv n q qd cf \<Longrightarrow> map_get cf k = Some ep \<Longrightarrow> stands k ep"
  by (auto simp: sw_inv_def dest: map_get_SomeD)

lemma sw_inv_confirmed_not_queued:
  "sw_inv n q qd cf \<Longrightarrow> map_get cf k = Some ep \<Longrightarrow> k \<notin> ckey ` set q"
  by (auto simp: sw_inv_def dest: map_get_Some_key)

lemma sw_ok_new: "0 < sf_MaxConfirmQueue cfg \<Longrightarrow> sw_ok cfg Sweeper_New"
  by (simp add: sw_ok_def sw_inv_def queue_inv_def Sweeper_New_def)

lemma sw_ok_resolve: "sw_ok cfg s \<Longrightarrow> sw_ok cfg (resolve key now s)"
  by (auto simp: sw_ok_def resolve_def sw_inv_del split: option.split)

lemma sw_ok_refresh:
  assumes "sw_ok cfg s" and "episode s key = Some ep" and "f_Key f = key"
    and "f_Trust f \<noteq> TrustSuspect"
  shows "sw_ok cfg (refresh key (f\<lparr>f_Confirmed := True, f_FirstSeenAt := ep_FirstSeenAt ep\<rparr>) s)"
proof -
  have get: "map_get (sw_confirmed s) key = Some ep" using assms(2) by (simp add: episode_def)
  have "stands key (ep\<lparr>ep_Finding := f\<lparr>f_Confirmed := True, f_FirstSeenAt := ep_FirstSeenAt ep\<rparr>\<rparr>)"
    using sw_inv_stands [OF assms(1) [unfolded sw_ok_def] get] assms(3,4) by (simp add: stands_def)
  moreover have "key \<notin> ckey ` set (sw_queue s)"
    using sw_inv_confirmed_not_queued [OF assms(1) [unfolded sw_ok_def] get] .
  ultimately show ?thesis
    using assms(1) get sw_inv_put by (simp add: sw_ok_def refresh_def)
qed

lemma queue_inv_snoc:
  "queue_inv n q qd \<Longrightarrow> ckey c \<notin> set qd \<Longrightarrow> int (length q) < n \<Longrightarrow> raised c \<Longrightarrow>
     queue_inv n (q @ [c]) (set_add (ckey c) qd)"
  by (auto simp: queue_inv_def wf_set_add)

lemma sw_ok_enqueue:
  assumes "sw_ok cfg s" and "episode s (f_Key f) = None" and "f_Trust f \<noteq> TrustSuspect"
    and "f_FirstSeenAt f = now" and "f_OracleVersion f = version"
  shows "sw_ok cfg (enqueue cfg f version now w s)"
proof -
  let ?c = "\<lparr>ca_finding = f, ca_version = version, ca_seenAt = now, ca_window = w\<rparr>"
  have "raised ?c" using assms(3-5) by (simp add: raised_def)
  moreover have "f_Key f \<notin> fst ` set (sw_confirmed s)"
    using assms(2) by (simp add: episode_def map_get_None_iff)
  ultimately show ?thesis
    using assms(1) queue_inv_snoc [of "sf_MaxConfirmQueue cfg" "sw_queue s" "sw_queued s" ?c]
    by (auto simp: sw_ok_def enqueue_def sw_inv_def)
qed

lemma newFinding_Compare:
  assumes "Compare key e v opts = Some f"
  shows "f_Key f = key \<and> f_Trust f = eo_trust e \<and> f_OracleVersion f = eo_version e \<and> \<not> f_Confirmed f"
  using assms by (auto simp: Compare_def Let_def split: if_splits ValueKind.splits)

lemma CompareUnreadable_Some:
  assumes "CompareUnreadable key e got opts = Some f"
  shows "f_Key f = key \<and> f_Trust f = eo_trust e \<and> f_OracleVersion f = eo_version e \<and> \<not> f_Confirmed f"
  using assms by (auto simp: CompareUnreadable_def)

lemma compareRead_Some:
  assumes "compareRead key e read opts = Inr (Some f)"
  shows "f_Key f = key \<and> f_Trust f = eo_trust e \<and> f_OracleVersion f = eo_version e \<and> \<not> f_Confirmed f"
  using assms newFinding_Compare CompareUnreadable_Some
  by (auto simp: compareRead_def split: option.splits TargetErr.splits)

lemma sw_ok_handleComparison:
  assumes "sw_ok cfg s" and "handleComparison cfg fo version key now w rep s = (rep', s')"
    and "\<And>f. fo = Some f \<Longrightarrow> f_Key f = key \<and> f_OracleVersion f = version"
  shows "sw_ok cfg s'"
proof (cases fo)
  case None
  then show ?thesis using assms by (auto simp: handleComparison_def sw_ok_resolve)
next
  case (Some f)
  have f: "f_Key f = key" "f_OracleVersion f = version" using assms(3) Some by auto
  show ?thesis
  proof (cases "f_Trust f = TrustSuspect")
    case True
    then show ?thesis using assms(1,2) Some by (auto simp: handleComparison_def sw_ok_def)
  next
    case trusted: False
    show ?thesis
    proof (cases "episode s key")
      case None
      then show ?thesis
        using assms(1,2) Some trusted f sw_ok_enqueue [of cfg s "f\<lparr>f_FirstSeenAt := now\<rparr>" now version]
        by (auto simp: handleComparison_def Let_def)
    next
      case ep: (Some ep)
      then show ?thesis
        using assms(1,2) Some trusted f sw_ok_refresh [of cfg s key ep f]
        by (auto simp: handleComparison_def Let_def)
    qed
  qed
qed

section \<open>The confirm loop keeps the invariant\<close>

lemma take_due_eq:
  "take_due now cs due keep qd =
     (due @ filter (\<lambda>c. \<not> now < dueAt c) cs, keep @ filter (\<lambda>c. now < dueAt c) cs,
      foldl (\<lambda>q c. set_del (ckey c) q) qd (filter (\<lambda>c. \<not> now < dueAt c) cs))"
  by (induction cs arbitrary: due keep qd) auto

lemma foldl_set_del:
  "set (foldl (\<lambda>q c. set_del (ckey c) q) qd cs) = set qd - ckey ` set cs \<and>
   (wf_set qd \<longrightarrow> wf_set (foldl (\<lambda>q c. set_del (ckey c) q) qd cs))"
  by (induction cs arbitrary: qd) (auto simp: wf_set_del)

text \<open>Candidates taken out of the queue and not yet decided.\<close>

definition taken :: "int \<Rightarrow> time \<Rightarrow> candidate list \<Rightarrow> candidate list \<Rightarrow> (string, Episode) go_map \<Rightarrow> bool" where
  "taken n now cs q cf \<longleftrightarrow> distinct (map ckey cs) \<and> (\<forall>c \<in> set cs. raised c \<and> dueAt c \<le> now) \<and>
     ckey ` set cs \<inter> ckey ` set q = {} \<and> ckey ` set cs \<inter> fst ` set cf = {} \<and>
     int (length cs) + int (length q) \<le> n"

lemma takeDue_spec:
  assumes "sw_ok cfg s" and "takeDue now s = (s', due)"
  shows "sw_ok cfg s' \<and> taken (sf_MaxConfirmQueue cfg) now due (sw_queue s') (sw_confirmed s') \<and>
    due = filter (\<lambda>c. dueAt c \<le> now) (sw_queue s) \<and>
    sw_queue s' = filter (\<lambda>c. now < dueAt c) (sw_queue s) \<and> sw_confirmed s' = sw_confirmed s"
proof -
  let ?due = "filter (\<lambda>c. dueAt c \<le> now) (sw_queue s)"
    and ?keep = "filter (\<lambda>c. now < dueAt c) (sw_queue s)"
  let ?qd = "foldl (\<lambda>q c. set_del (ckey c) q) (sw_queued s) ?due"
  have eq: "s' = s\<lparr>sw_queue := ?keep, sw_queued := ?qd\<rparr>" "due = ?due"
    using assms(2) by (auto simp: takeDue_def take_due_eq not_less)
  have inv: "sw_inv (sf_MaxConfirmQueue cfg) (sw_queue s) (sw_queued s) (sw_confirmed s)"
    using assms(1) by (simp add: sw_ok_def)
  have dist: "distinct (map ckey (sw_queue s))" and qd: "set (sw_queued s) = ckey ` set (sw_queue s)"
    and len: "int (length (sw_queue s)) \<le> sf_MaxConfirmQueue cfg"
    using inv by (auto simp: sw_inv_def queue_inv_def)
  have disj: "ckey ` set ?due \<inter> ckey ` set ?keep = {}"
  proof -
    have "inj_on ckey (set (sw_queue s))" using dist by (simp add: distinct_map)
    then have "c = d" if "c \<in> set ?due" "d \<in> set ?keep" "ckey c = ckey d" for c d
      using inj_onD [of ckey "set (sw_queue s)" c d] that by simp
    then show ?thesis by fastforce
  qed
  have "set (sw_queue s) = set ?due \<union> set ?keep" by auto
  then have split: "set (sw_queued s) = ckey ` set ?due \<union> ckey ` set ?keep" using qd by (metis image_Un)
  have del: "set ?qd = set (sw_queued s) - ckey ` set ?due" and "wf_set ?qd"
    using foldl_set_del [of "sw_queued s" ?due] inv by (simp_all add: sw_inv_def queue_inv_def)
  have keys: "set ?qd = ckey ` set ?keep"
    unfolding del split using disj by (simp only: Un_Diff Diff_cancel Un_empty_left) (rule Diff_triv, subst Int_commute)
  have "int (length ?keep) \<le> sf_MaxConfirmQueue cfg"
    using len length_filter_le [of "\<lambda>c. now < dueAt c" "sw_queue s"] by linarith
  then have "sw_inv (sf_MaxConfirmQueue cfg) ?keep ?qd (sw_confirmed s)"
    using inv keys \<open>wf_set ?qd\<close>
    by (auto simp: sw_inv_def queue_inv_def distinct_map_filter)
  moreover have "length ?due + length ?keep = length (sw_queue s)"
    using sum_length_filter_compl [of "\<lambda>c. dueAt c \<le> now" "sw_queue s"] by (simp add: not_le)
  ultimately show ?thesis
    using inv disj len eq dist
    by (auto simp: sw_ok_def taken_def sw_inv_def queue_inv_def distinct_map_filter)
qed

lemma requeueAll_spec:
  assumes "sw_ok cfg s" and "taken (sf_MaxConfirmQueue cfg) now cs (sw_queue s) (sw_confirmed s)"
  shows "sw_ok cfg (requeueAll cfg cs s) \<and> sw_queue (requeueAll cfg cs s) = sw_queue s @ cs \<and>
    sw_confirmed (requeueAll cfg cs s) = sw_confirmed s"
  using assms
proof (induction cs arbitrary: s)
  case Nil
  then show ?case by simp
next
  case (Cons c cs)
  let ?n = "sf_MaxConfirmQueue cfg"
  let ?s = "s\<lparr>sw_queue := sw_queue s @ [c], sw_queued := set_add (ckey c) (sw_queued s)\<rparr>"
  have inv: "sw_inv ?n (sw_queue s) (sw_queued s) (sw_confirmed s)" using Cons.prems(1) by (simp add: sw_ok_def)
  have c: "ckey c \<notin> set (sw_queued s)" "int (length (sw_queue s)) < ?n" "raised c"
    "ckey c \<notin> fst ` set (sw_confirmed s)"
    using inv Cons.prems(2) by (auto simp: sw_inv_def queue_inv_def taken_def)
  have "sw_ok cfg ?s"
    using inv c queue_inv_snoc [of ?n "sw_queue s" "sw_queued s" c] by (auto simp: sw_ok_def sw_inv_def)
  moreover have "taken ?n now cs (sw_queue ?s) (sw_confirmed ?s)"
    using Cons.prems(2) by (auto simp: taken_def)
  ultimately show ?case using Cons.IH [of ?s] c(1,2) by simp
qed

text \<open>What a decision on a candidate does to the confirmed episodes: nothing, or it adds one for a
  key that still disagrees at the version the candidate was raised against.\<close>

definition confirmable :: "SweeperConfig \<Rightarrow> candidate \<Rightarrow> time \<Rightarrow> string + Value \<Rightarrow> Entry option \<Rightarrow> bool" where
  "confirmable cfg c now answer eo \<longleftrightarrow>
     (\<exists>e. eo = Some e \<and> eo_version e = ca_version c \<and> eo_trust e \<noteq> TrustSuspect \<and>
       (let opts = (sf_DifferOptions cfg)\<lparr>op_Now := now\<rparr>
        in case answer of Inl got \<Rightarrow> True | Inr v \<Rightarrow> Compare (ckey c) e v opts \<noteq> None))"

lemma decide_candidate_spec:
  fixes cfg :: SweeperConfig and c :: candidate and now :: time and answer :: "string + Value"
    and eo :: "Entry option" and s :: Sweeper
  assumes "map_get (sw_confirmed s) (ckey c) = None" and "raised c" and "dueAt c \<le> now"
  defines "s' \<equiv> decide_candidate cfg c now answer eo s"
  shows "sw_queue s' = sw_queue s \<and> sw_queued s' = sw_queued s \<and> sw_closed s' = sw_closed s \<and>
    sw_extras s' = sw_extras s \<and>
    (if confirmable cfg c now answer eo
     then \<exists>ep. sw_confirmed s' = map_put (ckey c) ep (sw_confirmed s) \<and> stands (ckey c) ep \<and>
       ep_FirstSeenAt ep = ca_seenAt c \<and> ep_ConfirmedAt ep = now \<and> ep_Window ep = ca_window c \<and>
       f_OracleVersion (ep_Finding ep) = ca_version c
     else sw_confirmed s' = sw_confirmed s)"
proof -
  define opts where "opts = (sf_DifferOptions cfg)\<lparr>op_Now := now\<rparr>"
  consider (skip) "\<not> (\<exists>e. eo = Some e \<and> eo_version e = ca_version c \<and> eo_trust e \<noteq> TrustSuspect)"
    | (live) e where "eo = Some e" "eo_version e = ca_version c" "eo_trust e \<noteq> TrustSuspect" by blast
  then show ?thesis
  proof cases
    case skip
    then have "\<not> confirmable cfg c now answer eo" by (auto simp: confirmable_def)
    then show ?thesis
      using skip by (cases eo) (auto simp: s'_def decide_candidate_def Let_def)
  next
    case live
    define fo where "fo = (case answer of
        Inl got \<Rightarrow> CompareUnreadable (ckey c) e got opts | Inr v \<Rightarrow> Compare (ckey c) e v opts)"
    have conf: "confirmable cfg c now answer eo \<longleftrightarrow> fo \<noteq> None"
      using live by (auto simp: confirmable_def fo_def opts_def CompareUnreadable_def Let_def split: sum.splits)
    have s'': "s' = (case fo of
        None \<Rightarrow> count_up (\<lambda>k. k\<lparr>k_transientResolved := k_transientResolved k + 1\<rparr>) s
      | Some f \<Rightarrow> confirm (ckey c)
          \<lparr>ep_Key = ckey c, ep_Finding = f\<lparr>f_Confirmed := True, f_FirstSeenAt := ca_seenAt c\<rparr>,
           ep_FirstSeenAt = ca_seenAt c, ep_ConfirmedAt = now, ep_Window = ca_window c\<rparr> s)"
      unfolding s'_def decide_candidate_def fo_def opts_def Let_def using live by simp
    show ?thesis
    proof (cases fo)
      case None
      then show ?thesis using conf by (simp add: s'')
    next
      case (Some f)
      have f: "f_Key f = ckey c" "f_Trust f = eo_trust e" "f_OracleVersion f = eo_version e"
        using Some newFinding_Compare [of "ckey c" e _ opts f] CompareUnreadable_Some [of "ckey c" e _ opts f]
        by (auto simp: fo_def split: sum.splits)
      let ?f = "f\<lparr>f_Confirmed := True, f_FirstSeenAt := ca_seenAt c\<rparr>"
      let ?ep = "\<lparr>ep_Key = ckey c, ep_Finding = ?f, ep_FirstSeenAt = ca_seenAt c,
        ep_ConfirmedAt = now, ep_Window = ca_window c\<rparr>"
      have s': "s' = confirm (ckey c) ?ep s"
        using Some by (simp add: s'')
      have "stands (ckey c) ?ep"
        using f live assms(2,3) by (simp add: stands_def dueAt_def)
      moreover have "confirmable cfg c now answer eo" using conf Some by simp
      ultimately show ?thesis
        using assms(1) f live by (auto simp: s' confirm_def)
    qed
  qed
qed

text \<open>\<open>confirmOne\<close> as a decision: the answer and the entry it decides on, when it gets that far.\<close>

lemma confirmOne_cases:
  assumes "confirmOne env cfg c now w s = (w', s')"
  shows "sw_queue s' = sw_queue s \<and> sw_queued s' = sw_queued s \<and> sw_confirmed s' = sw_confirmed s \<and>
      sw_closed s' = sw_closed s \<and> sw_extras s' = sw_extras s \<or>
    (\<exists>answer w1 eo. s' = decide_candidate cfg c now answer eo s \<and>
       ask_Version env w (ckey c) = (w1, Some (ca_version c)) \<and>
       ask_Get env (tick env w1) (ckey c) = (w', eo) \<and>
       (case answer of
          Inl got \<Rightarrow> env_get env (wo_tick (tick env w1)) (ckey c) = Inl (WrongTypeError got)
        | Inr v \<Rightarrow> env_get env (wo_tick (tick env w1)) (ckey c) = Inr v))"
proof -
  obtain w1 vo where v: "ask_Version env w (ckey c) = (w1, vo)" by fastforce
  obtain w2 eo where g: "ask_Get env (tick env w1) (ckey c) = (w2, eo)" by fastforce
  show ?thesis
  proof (cases "vo = Some (ca_version c)")
    case False
    then show ?thesis using assms v by (cases vo) (auto simp: confirmOne_def)
  next
    case True
    show ?thesis
    proof (cases "env_get env (wo_tick (tick env w1)) (ckey c)")
      case (Inl err)
      then show ?thesis
      proof (cases err)
        case (WrongTypeError got)
        then have "w' = w2" "s' = decide_candidate cfg c now (Inl got) eo s"
          using assms v g True Inl by (auto simp: confirmOne_def)
        then show ?thesis using v g True Inl WrongTypeError by (intro disjI2) (force split: sum.split)
      next
        case TransportError
        then show ?thesis using assms v True Inl by (auto simp: confirmOne_def)
      qed
    next
      case (Inr val)
      then have "w' = w2" "s' = decide_candidate cfg c now (Inr val) eo s"
        using assms v g True by (auto simp: confirmOne_def)
      then show ?thesis using v g True Inr by (intro disjI2) (force split: sum.split)
    qed
  qed
qed

lemma confirmOne_keeps:
  assumes "sw_ok cfg s" and "taken (sf_MaxConfirmQueue cfg) now (c # cs) (sw_queue s) (sw_confirmed s)"
    and "confirmOne env cfg c now w s = (w', s')"
  shows "sw_ok cfg s' \<and> taken (sf_MaxConfirmQueue cfg) now cs (sw_queue s') (sw_confirmed s') \<and>
    sw_queue s' = sw_queue s \<and> sw_closed s' = sw_closed s \<and> sw_extras s' = sw_extras s"
proof -
  have c: "raised c" "dueAt c \<le> now" "map_get (sw_confirmed s) (ckey c) = None"
      "ckey c \<notin> ckey ` set (sw_queue s)"
    using assms(2) by (auto simp: taken_def map_get_None_iff)
  have keep: "taken (sf_MaxConfirmQueue cfg) now cs (sw_queue s) (sw_confirmed s)"
    using assms(2) by (auto simp: taken_def)
  from confirmOne_cases [OF assms(3)] show ?thesis
  proof (elim disjE exE conjE, goal_cases)
    case 1
    then show ?thesis using assms(1) keep by (simp add: sw_ok_def)
  next
    case (2 answer w1 eo)
    note d = decide_candidate_spec [OF c(3,1,2), where cfg = cfg and answer = answer and eo = eo, folded 2(1)]
    show ?thesis
    proof (cases "confirmable cfg c now answer eo")
      case False
      then show ?thesis using d assms(1) keep by (simp add: sw_ok_def)
    next
      case True
      with d obtain ep where
        ep: "sw_confirmed s' = map_put (ckey c) ep (sw_confirmed s)" "stands (ckey c) ep" by auto
      have "taken (sf_MaxConfirmQueue cfg) now cs (sw_queue s) (map_put (ckey c) ep (sw_confirmed s))"
        using assms(2) by (auto simp: taken_def keys_put)
      then show ?thesis
        using d ep sw_inv_put [OF assms(1) [unfolded sw_ok_def] ep(2) c(4)] by (simp add: sw_ok_def)
    qed
  qed
qed

lemma confirm_loop_keeps:
  assumes "sw_ok cfg s" and "taken (sf_MaxConfirmQueue cfg) now cs (sw_queue s) (sw_confirmed s)"
    and "confirm_loop env cfg now cs n w s = (w', s', n')"
  shows "sw_ok cfg s'"
  using assms
proof (induction cs arbitrary: n w s)
  case Nil
  then show ?case by simp
next
  case (Cons c cs)
  show ?case
  proof (cases "env_done env (wo_tick (tick env w))")
    case True
    then show ?thesis using Cons.prems requeueAll_spec [OF Cons.prems(1,2)] by (auto simp: Let_def)
  next
    case False
    obtain w1 s1 where one: "confirmOne env cfg c now (tick env w) s = (w1, s1)" by fastforce
    from confirmOne_keeps [OF Cons.prems(1,2) one] Cons.IH [of s1] Cons.prems(3) False one
    show ?thesis by auto
  qed
qed

lemma sw_ok_ConfirmDue:
  assumes "sw_ok cfg s" and "ConfirmDue env cfg now w s = (w', s', n)"
  shows "sw_ok cfg s'"
proof (cases "sw_closed s")
  case True
  then show ?thesis using assms by (auto simp: ConfirmDue_def)
next
  case False
  obtain s1 due where t: "takeDue now s = (s1, due)" by fastforce
  have td: "sw_ok cfg s1" "taken (sf_MaxConfirmQueue cfg) now due (sw_queue s1) (sw_confirmed s1)"
    using takeDue_spec [OF assms(1) t] by auto
  show ?thesis
  proof (cases "due = [] \<or> \<not> reachable_health (env_health env (wo_tick (tick env w)))")
    case True
    then show ?thesis
      using td assms(2) False t requeueAll_spec [of cfg s1 now due]
      by (auto simp: ConfirmDue_def Let_def sw_ok_def split: if_splits)
  next
    case reach: False
    let ?s1 = "count_up (\<lambda>c. c\<lparr>k_confirmCycles := k_confirmCycles c + 1\<rparr>) s1"
    have "confirm_loop env cfg now due 0 (tick env w) ?s1 = (w', s', n)"
      using reach assms(2) False t by (simp add: ConfirmDue_def Let_def)
    moreover have "sw_ok cfg ?s1" "taken (sf_MaxConfirmQueue cfg) now due (sw_queue ?s1) (sw_confirmed ?s1)"
      using td by (simp_all only: sw_ok_def count_up_simps)
    ultimately show ?thesis using confirm_loop_keeps by blast
  qed
qed

section \<open>Sweeps and scans keep the invariant\<close>

text \<open>The three ways a round of \<open>processBatch\<close> goes: the fence fails, the answer cannot be used,
  or the entry, unchanged since its version was noted, is compared with the answer.\<close>

definition noted :: "(string, u64) go_map \<Rightarrow> string \<Rightarrow> u64" where
  "noted versions key = (case map_get versions key of None \<Rightarrow> 0 | Some v \<Rightarrow> v)"

abbreviation counted :: "sweep_st \<Rightarrow> Sweeper" where
  "counted st \<equiv> count_up (\<lambda>c. c\<lparr>k_keysCompared := k_keysCompared c + 1\<rparr>) (st_s st)"

abbreviation counted_rep :: "sweep_st \<Rightarrow> Report" where
  "counted_rep st \<equiv> (st_rep st)\<lparr>r_KeysCompared := r_KeysCompared (st_rep st) + 1\<rparr>"

lemma batch_key_cases:
  assumes "batch_key env cfg opts now w versions key reads st = st'"
  obtains (fence) wo where "st' = fence_failed key wo st"
  | (fail) wo err where "st' = st\<lparr>st_w := wo, st_s := counted st, st_rep := counted_rep st, st_err := Some err\<rparr>"
  | (cmp) wo1 wo e read rest fo rep s where
      "ask_Version env (st_w st) key = (wo1, Some (noted versions key))" "ask_Get env wo1 key = (wo, Some e)"
      "eo_version e = noted versions key" "reads = read # rest" "compareRead key e read opts = Inr fo"
      "handleComparison cfg fo (eo_version e) key now w (counted_rep st) (counted st) = (rep, s)"
      "st' = st\<lparr>st_w := wo, st_s := s, st_rep := rep\<rparr>"
proof -
  obtain wo1 v2 where v: "ask_Version env (st_w st) key = (wo1, v2)" by fastforce
  obtain wo eo where g: "ask_Get env wo1 key = (wo, eo)" by fastforce
  note step = assms [unfolded batch_key_def Let_def noted_def [symmetric] v g prod.case]
  show ?thesis
  proof (cases "v2 = Some (noted versions key) \<and> (\<exists>e. eo = Some e \<and> eo_version e = noted versions key)")
    case False
    then have "st' = fence_failed key wo1 st \<or> st' = fence_failed key wo st"
      using step by (cases eo) (auto split: if_splits)
    then show ?thesis using fence by blast
  next
    case True
    then obtain e where e: "v2 = Some (noted versions key)" "eo = Some e" "eo_version e = noted versions key"
      by blast
    show ?thesis
    proof (cases reads)
      case Nil
      then show ?thesis using step e fail [where wo = wo and err = SwPanicIndex] by simp
    next
      case (Cons read rest)
      show ?thesis
      proof (cases "compareRead key e read opts")
        case (Inl err)
        then show ?thesis using step e Cons fail [where wo = wo and err = err] by simp
      next
        case (Inr fo)
        obtain rep s where hc:
          "handleComparison cfg fo (eo_version e) key now w (counted_rep st) (counted st) = (rep, s)"
          by fastforce
        then show ?thesis
          using step e Cons Inr v g cmp [where wo = wo and rep = rep and s = s] by simp
      qed
    qed
  qed
qed

text \<open>What a sweep does to the sweeper is a sequence of four kinds of change: a counter moves, the
  deferred keys change, a comparison is routed, an episode is withdrawn. A property of the state
  that each of them keeps is kept by every sweep, against every store and beside every applier.\<close>

locale sweep_invariant =
  fixes cfg :: SweeperConfig and P :: "Sweeper \<Rightarrow> bool"
  assumes count: "P s \<Longrightarrow> P (count_up f s)"
    and requeue: "P s \<Longrightarrow> P (s\<lparr>sw_requeued := ks\<rparr>)"
    and withdraw: "P s \<Longrightarrow> P (s\<lparr>sw_confirmed := map_del key (sw_confirmed s)\<rparr>)"
    and compare: "P s \<Longrightarrow> compareRead key e read opts = Inr fo \<Longrightarrow>
      handleComparison cfg fo (eo_version e) key now w rep s = (rep', s') \<Longrightarrow> P s'"
begin

lemma batch_key: "P (st_s st) \<Longrightarrow> P (st_s (batch_key env cfg opts now w versions key reads st))"
proof (rule batch_key_cases [OF refl, of env cfg opts now w versions key reads st], goal_cases)
  case (1 wo)
  then show ?case using requeue [OF count] by (simp add: fence_failed_def markRequeued_def)
next
  case (2 wo err)
  then show ?case using count by simp
next
  case (3 wo1 wo e read rest fo rep s)
  then show ?case using compare [OF count 3(6) 3(7)] by simp
qed

lemma batch_loop: "P (st_s st) \<Longrightarrow> P (st_s (batch_loop env cfg opts now w versions keys reads st))"
  by (induction keys arbitrary: reads st) (simp_all add: Let_def batch_key)

lemma processBatch: "P (st_s st) \<Longrightarrow> P (st_s (processBatch env cfg opts now w st))"
  by (auto simp: processBatch_def Let_def batch_loop split: sum.split)

lemma walk_key: "P (st_s st) \<Longrightarrow> P (st_s (walk_key env cfg opts now w key st))"
  by (auto simp: walk_key_def Let_def case_prod_beta processBatch split: option.split)

lemma walk_keys: "P (st_s st) \<Longrightarrow> P (st_s (walk_keys env cfg opts now w keys st))"
  by (induction keys arbitrary: st) (simp_all add: Let_def walk_key)

lemma walk_shards: "P (st_s st) \<Longrightarrow> P (st_s (walk_shards env cfg opts now w orcW ns is st))"
  by (induction "is" arbitrary: st) (simp_all add: Let_def walk_keys)

lemma walk: "P s \<Longrightarrow> P (st_s (walk env cfg opts now w rep wo s))"
  by (auto simp: walk_def Let_def drainRequeued_def requeue intro!: walk_shards processBatch)

lemma live_loop: "P s \<Longrightarrow> live_loop env keys w s out = (w', s', out') \<Longrightarrow> P s'"
proof (induction keys arbitrary: w s out)
  case (Cons key keys)
  have del: "P (count_up f (s\<lparr>sw_confirmed := map_del key (sw_confirmed s)\<rparr>))" for f
    using Cons.prems(1) by (intro count withdraw)
  show ?case
    using Cons.prems Cons.IH del
    by (auto simp: case_prod_beta split: option.splits if_splits)
qed simp

lemma checkHealth: "P s \<Longrightarrow> checkHealth env cfg w s = (w', s', r) \<Longrightarrow> P s'"
  by (auto simp: checkHealth_def Let_def count split: if_splits sum.splits)

lemma sweep:
  assumes "P s" and "sweep env cfg wo s = (wo', s', r)"
  shows "P s'"
proof (cases "sw_closed s")
  case True
  then show ?thesis using assms by (simp add: sweep_def)
next
  case False
  obtain w1 s1 h where ch: "checkHealth env cfg wo s = (w1, s1, h)" by (metis prod_cases3)
  have s1: "P s1" using checkHealth [OF assms(1) ch] .
  show ?thesis
  proof (cases h)
    case (Inl err)
    then show ?thesis using assms(2) False ch s1 by (simp add: sweep_def)
  next
    case (Inr health)
    have live: "P (fst (snd (liveEpisodes env w2 s2)))" if "P s2" for w2 s2
      using live_loop [OF that, of env _ w2 "[]"] unfolding liveEpisodes_def by (metis prod.collapse)
    show ?thesis
      using assms(2) False ch Inr s1
      by (auto simp: sweep_def Let_def case_prod_beta split: option.splits intro!: count live walk)
  qed
qed

end

interpretation inv: sweep_invariant cfg "sw_ok cfg" for cfg
proof
  show "sw_ok cfg s \<Longrightarrow> sw_ok cfg (count_up f s)" for s f by (simp add: sw_ok_def)
  show "sw_ok cfg s \<Longrightarrow> sw_ok cfg (s\<lparr>sw_requeued := ks\<rparr>)" for s ks by (simp add: sw_ok_def)
  show "sw_ok cfg s \<Longrightarrow> sw_ok cfg (s\<lparr>sw_confirmed := map_del key (sw_confirmed s)\<rparr>)" for s key
    by (simp add: sw_ok_def sw_inv_del)
next
  fix s key e read opts fo now w rep rep' s'
  assume "sw_ok cfg s" "compareRead key e read opts = Inr fo"
    "handleComparison cfg fo (eo_version e) key now w rep s = (rep', s')"
  then show "sw_ok cfg s'" using sw_ok_handleComparison compareRead_Some by blast
qed

lemma handleComparison_keys:
  assumes "handleComparison cfg fo version key now w rep s = (rep', s')"
  shows "fst ` set (sw_confirmed s') \<subseteq> fst ` set (sw_confirmed s)"
proof (cases fo)
  case None
  then have "s' = resolve key now s" using assms by (simp add: handleComparison_def)
  then show ?thesis by (cases "map_get (sw_confirmed s) key") (simp_all add: resolve_def keys_del Diff_subset)
next
  case (Some f)
  show ?thesis
  proof (cases "map_get (sw_confirmed s) key")
    case None
    then show ?thesis
      using assms Some by (auto simp: handleComparison_def Let_def episode_def enqueue_def split: if_splits)
  next
    case ep: (Some ep)
    then have "fst ` set (map_put key x (sw_confirmed s)) = fst ` set (sw_confirmed s)" for x
      using map_get_Some_key [OF ep] by (simp only: keys_put insert_absorb)
    moreover have "sw_confirmed s' = sw_confirmed s \<or> (\<exists>x. sw_confirmed s' = map_put key x (sw_confirmed s))"
      using assms Some ep by (auto simp: handleComparison_def Let_def episode_def refresh_def split: if_splits)
    ultimately show ?thesis by (metis order_refl)
  qed
qed

text \<open>A sweep opens no episode: the keys it leaves confirmed were confirmed before.\<close>

interpretation opens: sweep_invariant cfg "\<lambda>s. fst ` set (sw_confirmed s) \<subseteq> K" for cfg K
proof
  fix s key e read opts fo now w rep rep' s'
  assume *: "fst ` set (sw_confirmed s) \<subseteq> K"
    "handleComparison cfg fo (eo_version e) key now w rep s = (rep', s')"
  then show "fst ` set (sw_confirmed s') \<subseteq> K"
    using handleComparison_keys [OF *(2)] by blast
qed (simp_all add: keys_del subset_iff)

lemma checkHealth_keeps:
  "checkHealth env cfg w s = (w', s', r) \<Longrightarrow>
     sw_queue s' = sw_queue s \<and> sw_queued s' = sw_queued s \<and> sw_confirmed s' = sw_confirmed s \<and>
     sw_requeued s' = sw_requeued s \<and> sw_extras s' = sw_extras s \<and> sw_subs s' = sw_subs s \<and>
     sw_closed s' = sw_closed s"
  by (auto simp: checkHealth_def Let_def split: if_splits sum.splits)

lemma first_keys_keeps:
  "first_keys env cfg keys pass w s = (w', s', r) \<Longrightarrow>
     sw_queue s' = sw_queue s \<and> sw_queued s' = sw_queued s \<and> sw_confirmed s' = sw_confirmed s"
  by (induction keys arbitrary: pass w s) (auto simp: case_prod_beta Let_def split: if_splits)

lemma first_batches_keeps:
  "first_batches env cfg bs failed pass w s = (w', s', r) \<Longrightarrow>
     sw_queue s' = sw_queue s \<and> sw_queued s' = sw_queued s \<and> sw_confirmed s' = sw_confirmed s"
  by (induction bs arbitrary: pass w s)
    (auto simp: Let_def split: if_splits prod.splits dest!: first_keys_keeps)

lemma second_keys_keeps:
  "second_keys env at keys reads w s rep = (w', s', r) \<Longrightarrow>
     sw_queue s' = sw_queue s \<and> sw_queued s' = sw_queued s \<and> sw_confirmed s' = sw_confirmed s"
proof (induction keys arbitrary: reads w s rep)
  case Nil
  then show ?case by simp
next
  case (Cons key keys)
  show ?case
  proof (cases reads)
    case (Cons read rest)
    then show ?thesis
      using Cons.prems Cons.IH [of rest "fst (extraSurvives env w key read)"]
      by (auto simp: case_prod_beta Let_def split: if_splits)
  qed (use Cons.prems in simp)
qed

lemma second_batches_keeps:
  "second_batches env at bs w s rep = (w', s', r) \<Longrightarrow>
     sw_queue s' = sw_queue s \<and> sw_queued s' = sw_queued s \<and> sw_confirmed s' = sw_confirmed s"
proof (induction bs arbitrary: w s rep)
  case Nil
  then show ?case by simp
next
  case (Cons b bs)
  show ?case
  proof (cases "env_done env (wo_tick (tick env w))")
    case True
    then show ?thesis using Cons.prems by simp
  next
    case False
    show ?thesis
    proof (cases "env_readMany env (wo_tick (tick env w)) b")
      case (Inl e)
      then show ?thesis using Cons.prems False by simp
    next
      case (Inr reads)
      obtain w2 s2 rep2 err where sk: "second_keys env at b reads (tick env w) s rep = (w2, s2, rep2, err)"
        by (metis prod_cases4)
      show ?thesis
        using Cons.prems False Inr sk second_keys_keeps [OF sk] Cons.IH [of w2 s2 rep2] by (cases err) auto
    qed
  qed
qed

lemma ScanExtrasOnce_keeps:
  "ScanExtrasOnce env cfg w s = (w', s', r) \<Longrightarrow>
     sw_queue s' = sw_queue s \<and> sw_queued s' = sw_queued s \<and> sw_confirmed s' = sw_confirmed s"
  by (auto simp: ScanExtrasOnce_def Let_def takePendingExtras_def secondPass_def firstPass_def
      setPendingExtras_def split: if_splits prod.splits sum.splits option.splits
      dest!: checkHealth_keeps first_batches_keeps second_batches_keeps)

lemma sw_ok_ScanExtrasOnce:
  "sw_ok cfg s \<Longrightarrow> ScanExtrasOnce env cfg w s = (w', s', r) \<Longrightarrow> sw_ok cfg s'"
  using ScanExtrasOnce_keeps by (metis sw_ok_def)

end
