(* ===== verification/SweepSafety.thy ===== *)
theory SweepSafety
  imports Sweeper "HOL-Library.Multiset"
begin

text \<open>
  What the sweeper promises, for every store, every clock and every interleaving with the
  applier: nothing is confirmed on one read, nothing is compared against an expectation that
  moved, an outage reports nothing, extras need two passes, and the queue stays bounded. The last
  part holds the witnesses.
\<close>

section \<open>Runs of the sweeper\<close>

text \<open>Everything a client can do: let the loop tick, ask for a sweep, read the confirmed findings,
  subscribe, take a finding from a channel, close. The world is arbitrary at each step.\<close>

inductive sweeper_run :: "SweeperConfig \<Rightarrow> Sweeper \<Rightarrow> bool" for cfg where
  start: "sweeper_run cfg Sweeper_New"
| loop: "sweeper_run cfg s \<Longrightarrow> Run_step env (sweeper_applyDefaults cfg) paused tk w s = (w', s', r) \<Longrightarrow>
    sweeper_run cfg s'"
| once: "sweeper_run cfg s \<Longrightarrow> SweepOnce env (sweeper_applyDefaults cfg) w s = (w', s', r) \<Longrightarrow>
    sweeper_run cfg s'"
| attempt: "sweeper_run cfg s \<Longrightarrow>
    TrySweepOnce env (sweeper_applyDefaults cfg) held w s = (w', s', r) \<Longrightarrow> sweeper_run cfg s'"
| reading: "sweeper_run cfg s \<Longrightarrow> Sweeper_Confirmed env w s = (w', s', fs) \<Longrightarrow> sweeper_run cfg s'"
| subscribe: "sweeper_run cfg s \<Longrightarrow> sweeper_run cfg (Subscribe s)"
| receive: "sweeper_run cfg s \<Longrightarrow> sw_subs s = xs @ (f # ch) # ys \<Longrightarrow>
    sweeper_run cfg (s\<lparr>sw_subs := xs @ ch # ys\<rparr>)"
| close: "sweeper_run cfg s \<Longrightarrow> sweeper_run cfg (Sweeper_Close s)"

lemma sw_ok_TrySweepOnce:
  "sw_ok cfg s \<Longrightarrow> TrySweepOnce env cfg held w s = (w', s', r) \<Longrightarrow> sw_ok cfg s'"
  by (auto simp: TrySweepOnce_def sw_ok_def split: if_splits prod.splits
      dest: inv.sweep [unfolded sw_ok_def])

lemma sw_ok_Run_step:
  "sw_ok cfg s \<Longrightarrow> Run_step env cfg paused tk w s = (w', s', r) \<Longrightarrow> sw_ok cfg s'"
  by (auto simp: Run_step_def split: if_splits Tick.splits prod.splits
      dest: sw_ok_TrySweepOnce sw_ok_ConfirmDue sw_ok_ScanExtrasOnce)

lemma sw_ok_Confirmed: "sw_ok cfg s \<Longrightarrow> Sweeper_Confirmed env w s = (w', s', fs) \<Longrightarrow> sw_ok cfg s'"
  by (auto simp: Sweeper_Confirmed_def liveEpisodes_def split: prod.splits dest: inv.live_loop)

lemma sweeper_run_ok: "sweeper_run cfg s \<Longrightarrow> sw_ok (sweeper_applyDefaults cfg) s"
proof (induction rule: sweeper_run.induct)
  case start
  show ?case by (rule sw_ok_new) (simp add: sweeper_applyDefaults_def)
next
  case (once s env w w' s' r)
  then show ?case using inv.sweep by (simp add: SweepOnce_def)
next
  case (receive s xs f ch ys)
  then show ?case by (simp add: sw_ok_def)
qed (auto simp: Subscribe_def Sweeper_Close_def sw_ok_def [symmetric]
    intro: sw_ok_Run_step sw_ok_TrySweepOnce sw_ok_Confirmed split: if_splits,
    simp_all add: sw_ok_def)


text \<open>The confirm queue is bounded and holds each key once: in every reachable state it has at
  most \<open>MaxConfirmQueue\<close> candidates, all on different keys, the \<open>queued\<close> set is exactly their keys,
  and every candidate is a disagreement on a key that was trusted when it was raised, at the
  version its finding names.\<close>

theorem sweeper_queue_bounded:
  assumes "sweeper_run cfg s"
  shows "int (length (sw_queue s)) \<le> sf_MaxConfirmQueue (sweeper_applyDefaults cfg) \<and>
    distinct (map ckey (sw_queue s)) \<and> set (sw_queued s) = ckey ` set (sw_queue s) \<and>
    (\<forall>c \<in> set (sw_queue s). f_Trust (ca_finding c) \<noteq> TrustSuspect \<and>
       f_OracleVersion (ca_finding c) = ca_version c)"
  using sweeper_run_ok [OF assms] by (simp add: sw_ok_def sw_inv_def queue_inv_def raised_def)

section \<open>What it takes to be confirmed\<close>

text \<open>A re-read that confirms: at three instants in a row the oracle is at the candidate's version,
  the store answers, and the oracle's entry, still at that version and trusted, disagrees.\<close>

definition reread :: "env \<Rightarrow> SweeperConfig \<Rightarrow> candidate \<Rightarrow> time \<Rightarrow> World \<Rightarrow> bool" where
  "reread env cfg c now w \<longleftrightarrow>
     (\<exists>w1 w2 e. ask_Version env w (ckey c) = (w1, Some (ca_version c)) \<and>
        ask_Get env (tick env w1) (ckey c) = (w2, Some e) \<and>
        eo_version e = ca_version c \<and> eo_trust e \<noteq> TrustSuspect \<and>
        ((\<exists>got. env_get env (wo_tick (tick env w1)) (ckey c) = Inl (WrongTypeError got)) \<or>
         (\<exists>v. env_get env (wo_tick (tick env w1)) (ckey c) = Inr v \<and>
            Compare (ckey c) e v ((sf_DifferOptions cfg)\<lparr>op_Now := now\<rparr>) \<noteq> None)))"

definition opened_by :: "candidate \<Rightarrow> time \<Rightarrow> Episode \<Rightarrow> bool" where
  "opened_by c now ep \<longleftrightarrow> ep_FirstSeenAt ep = ca_seenAt c \<and> ep_ConfirmedAt ep = now \<and>
     ep_Window ep = ca_window c \<and> f_OracleVersion (ep_Finding ep) = ca_version c"

lemma confirmOne_opens:
  assumes "raised c" and "dueAt c \<le> now" and "map_get (sw_confirmed s) (ckey c) = None"
    and "confirmOne env cfg c now w s = (w', s')"
  shows "(\<forall>key. key \<noteq> ckey c \<longrightarrow> map_get (sw_confirmed s') key = map_get (sw_confirmed s) key) \<and>
    (\<forall>ep. map_get (sw_confirmed s') (ckey c) = Some ep \<longrightarrow> reread env cfg c now w \<and> opened_by c now ep)"
  using confirmOne_cases [OF assms(4)]
proof (elim disjE exE conjE, goal_cases)
  case 1
  then show ?case using assms(3) by simp
next
  case (2 answer w1 eo)
  note d = decide_candidate_spec [OF assms(3,1,2), where cfg = cfg and answer = answer and eo = eo, folded 2(1)]
  show ?case
  proof (cases "confirmable cfg c now answer eo")
    case False
    then show ?thesis using d assms(3) by simp
  next
    case True
    then have "reread env cfg c now w"
      using 2 by (auto simp: reread_def confirmable_def Let_def split: sum.splits)
    moreover obtain ep where "sw_confirmed s' = map_put (ckey c) ep (sw_confirmed s)" "opened_by c now ep"
      using d True by (auto simp: opened_by_def)
    ultimately show ?thesis by simp
  qed
qed

text \<open>Every world inside a confirm cycle is the first one some accesses later.\<close>

lemma confirmOne_world: "confirmOne env cfg c now w s = (w', s') \<Longrightarrow> \<exists>n. w' = (tick env ^^ n) w"
proof -
  have v: "fst (ask_Version env w k) = (tick env ^^ 1) w" and g: "fst (ask_Get env w k) = (tick env ^^ 1) w" for w k
    by (simp_all add: ask_Version_def ask_Get_def Let_def)
  have ticks: "tick env w = (tick env ^^ 1) w" "tick env (tick env w) = (tick env ^^ 2) w"
    "tick env (tick env (tick env w)) = (tick env ^^ 3) w" for w
    by (simp_all add: numeral_2_eq_2 numeral_3_eq_3)
  assume "confirmOne env cfg c now w s = (w', s')"
  then have "w' = tick env w \<or> w' = tick env (tick env w) \<or> w' = tick env (tick env (tick env w))"
    using v g by (auto simp: confirmOne_def Let_def case_prod_beta split: option.splits if_splits
        sum.splits TargetErr.splits)
  then show ?thesis using ticks by metis
qed

lemma confirm_loop_other:
  assumes "sw_ok cfg s" and "taken (sf_MaxConfirmQueue cfg) now cs (sw_queue s) (sw_confirmed s)"
    and "confirm_loop env cfg now cs n w s = (w', s', n')" and "key \<notin> ckey ` set cs"
  shows "map_get (sw_confirmed s') key = map_get (sw_confirmed s) key"
  using assms
proof (induction cs arbitrary: n w s)
  case Nil
  then show ?case by simp
next
  case (Cons c cs)
  show ?case
  proof (cases "env_done env (wo_tick (tick env w))")
    case True
    then show ?thesis using Cons.prems requeueAll_spec [OF Cons.prems(1,2)] by auto
  next
    case False
    obtain w1 s1 where one: "confirmOne env cfg c now (tick env w) s = (w1, s1)" by fastforce
    have loop: "confirm_loop env cfg now cs (n + 1) w1 s1 = (w', s', n')"
      using Cons.prems(3) False one by simp
    have c: "raised c" "dueAt c \<le> now" "map_get (sw_confirmed s) (ckey c) = None"
      using Cons.prems(2) by (auto simp: taken_def map_get_None_iff)
    have "map_get (sw_confirmed s1) key = map_get (sw_confirmed s) key"
      using confirmOne_opens [OF c one] Cons.prems(4) by auto
    moreover have "sw_ok cfg s1" "taken (sf_MaxConfirmQueue cfg) now cs (sw_queue s1) (sw_confirmed s1)"
      using confirmOne_keeps [OF Cons.prems(1,2) one] by blast+
    ultimately show ?thesis using Cons.IH [OF _ _ loop] Cons.prems(4) by simp
  qed
qed

lemma confirm_loop_opens:
  assumes "sw_ok cfg s" and "taken (sf_MaxConfirmQueue cfg) now cs (sw_queue s) (sw_confirmed s)"
    and "confirm_loop env cfg now cs n w s = (w', s', n')"
    and "map_get (sw_confirmed s) key = None" and "map_get (sw_confirmed s') key = Some ep"
  shows "\<exists>c \<in> set cs. ckey c = key \<and> opened_by c now ep \<and> (\<exists>i. reread env cfg c now ((tick env ^^ i) w))"
  using assms
proof (induction cs arbitrary: n w s)
  case Nil
  then show ?case by simp
next
  case (Cons c cs)
  show ?case
  proof (cases "env_done env (wo_tick (tick env w))")
    case True
    then show ?thesis using Cons.prems requeueAll_spec [OF Cons.prems(1,2)] by auto
  next
    case False
    obtain w1 s1 where one: "confirmOne env cfg c now (tick env w) s = (w1, s1)" by fastforce
    have loop: "confirm_loop env cfg now cs (n + 1) w1 s1 = (w', s', n')"
      using Cons.prems(3) False one by simp
    have k: "sw_ok cfg s1" "taken (sf_MaxConfirmQueue cfg) now cs (sw_queue s1) (sw_confirmed s1)"
      using confirmOne_keeps [OF Cons.prems(1,2) one] by blast+
    obtain i where i: "w1 = (tick env ^^ i) (tick env w)" using confirmOne_world [OF one] by blast
    have c: "raised c" "dueAt c \<le> now" "map_get (sw_confirmed s) (ckey c) = None"
      using Cons.prems(2) by (auto simp: taken_def map_get_None_iff)
    note opens = confirmOne_opens [OF c one]
    show ?thesis
    proof (cases "map_get (sw_confirmed s1) key")
      case None
      from Cons.IH [OF k loop this Cons.prems(5)] obtain d j where
        d: "d \<in> set cs" "ckey d = key" "opened_by d now ep" "reread env cfg d now ((tick env ^^ j) w1)" by blast
      have "(tick env ^^ j) w1 = (tick env ^^ (j + (i + 1))) w"
        by (simp add: i funpow_add funpow_swap1)
      then show ?thesis using d by (metis list.set_intros(2))
    next
      case (Some ep1)
      then have key: "key = ckey c" using opens Cons.prems(4) by (cases "key = ckey c") auto
      have "key \<notin> ckey ` set cs" using Cons.prems(2) key by (auto simp: taken_def)
      moreover have "map_get (sw_confirmed s') key = map_get (sw_confirmed s1) key"
        using confirm_loop_other [OF k loop] calculation by blast
      ultimately have "ep1 = ep" using Some Cons.prems(5) by simp
      then show ?thesis using opens Some key by (metis funpow_0 funpow_simps_right(2) list.set_intros(1) o_apply)
    qed
  qed
qed

text \<open>C1: A key becomes confirmed only by a confirm tick, and only from a candidate that an earlier
  pass had queued and whose whole window has elapsed; at that tick the oracle is still at the
  version the candidate was raised against before and after the store is read, the key is
  trusted, and the store's answer still disagrees. No sweep and no scan ever confirms a key.\<close>

theorem confirmed_needs_reread:
  assumes "sweeper_run cfg s" and "Run_step env (sweeper_applyDefaults cfg) paused tk w s = (w', s', r)"
    and "map_get (sw_confirmed s) key = None" and "map_get (sw_confirmed s') key = Some ep"
  shows "\<exists>now c i. tk = ConfirmTick now \<and> c \<in> set (sw_queue s) \<and> ckey c = key \<and>
    ca_seenAt c + ca_window c \<le> now \<and> opened_by c now ep \<and>
    reread env (sweeper_applyDefaults cfg) c now ((tick env ^^ i) w)"
proof -
  let ?cfg = "sweeper_applyDefaults cfg"
  have ok: "sw_ok ?cfg s" using sweeper_run_ok [OF assms(1)] .
  have live: "\<not> paused" using assms(2-4) by (auto simp: Run_step_def)
  show ?thesis
  proof (cases tk)
    case SweepTick
    then obtain r' where "sweep env ?cfg w s = (w', s', r')"
      using assms(2) live by (auto simp: Run_step_def TrySweepOnce_def split: prod.splits)
    from opens.sweep [OF order_refl this] assms(3,4) show ?thesis
      using map_get_Some_key [OF assms(4)] by (auto simp: map_get_None_iff)
  next
    case ExtrasTick
    then obtain r' where "ScanExtrasOnce env ?cfg w s = (w', s', r')"
      using assms(2) live by (auto simp: Run_step_def split: prod.splits)
    then show ?thesis using ScanExtrasOnce_keeps assms(3,4) by (metis option.distinct(1))
  next
    case (ConfirmTick now)
    then obtain n where cd: "ConfirmDue env ?cfg now w s = (w', s', n)"
      using assms(2) live by (auto simp: Run_step_def split: prod.splits)
    obtain s1 due where t: "takeDue now s = (s1, due)" by fastforce
    note td = takeDue_spec [OF ok t]
    have s1: "sw_ok ?cfg s1" "taken (sf_MaxConfirmQueue ?cfg) now due (sw_queue s1) (sw_confirmed s1)"
      "map_get (sw_confirmed s1) key = None" using td assms(3) by auto
    have go: "\<not> sw_closed s" "due \<noteq> []" "reachable_health (env_health env (wo_tick (tick env w)))"
      using cd t s1 assms(3,4) requeueAll_spec [OF s1(1,2)]
      by (auto simp: ConfirmDue_def Let_def split: if_splits)
    let ?s1 = "count_up (\<lambda>c. c\<lparr>k_confirmCycles := k_confirmCycles c + 1\<rparr>) s1"
    have loop: "confirm_loop env ?cfg now due 0 (tick env w) ?s1 = (w', s', n)"
      using cd t go by (simp add: ConfirmDue_def Let_def)
    have ok1: "sw_ok ?cfg ?s1" "taken (sf_MaxConfirmQueue ?cfg) now due (sw_queue ?s1) (sw_confirmed ?s1)"
      "map_get (sw_confirmed ?s1) key = None"
      using s1 by (simp_all only: sw_ok_def count_up_simps)
    from confirm_loop_opens [OF ok1(1,2) loop ok1(3) assms(4)] obtain c i where
      c: "c \<in> set due" "ckey c = key" "opened_by c now ep" "reread env ?cfg c now ((tick env ^^ i) (tick env w))"
      by blast
    have "(tick env ^^ i) (tick env w) = (tick env ^^ Suc i) w" by (simp add: funpow_swap1)
    then have "reread env ?cfg c now ((tick env ^^ Suc i) w)" using c(4) by simp
    moreover have "c \<in> set (sw_queue s)" "ca_seenAt c + ca_window c \<le> now" using c(1) td by (auto simp: dueAt_def)
    ultimately show ?thesis using c(2,3) ConfirmTick by blast
  qed
qed

section \<open>An outage reports nothing\<close>

text \<open>C9: Absence of data is not evidence of divergence: when the store does not answer or reports
  itself unreachable, a sweep and a scan return the error and no report, and neither they nor a
  confirm cycle change what is confirmed; the cycle keeps every waiting candidate with its
  original timing, and no candidate is lost to the bound.\<close>

theorem outage_reports_nothing:
  assumes "sweeper_run cfg s" and "\<not> sw_closed s"
    and "\<not> env_done env (wo_tick (tick env w))"
    and "\<not> reachable_health (env_health env (wo_tick (tick env w)))"
  shows "(\<exists>s'. sweep env (sweeper_applyDefaults cfg) w s = (tick env w, s', Inl SwErrTargetUnavailable) \<and>
       sw_confirmed s' = sw_confirmed s \<and> sw_queue s' = sw_queue s) \<and>
    (\<exists>s'. ScanExtrasOnce env (sweeper_applyDefaults cfg) w s = (tick env w, s', Inl SwErrTargetUnavailable) \<and>
       sw_confirmed s' = sw_confirmed s \<and> sw_queue s' = sw_queue s \<and> sw_extras s' = sw_extras s) \<and>
    (\<exists>w' s' n. ConfirmDue env (sweeper_applyDefaults cfg) now w s = (w', s', n) \<and> n = 0 \<and>
       sw_confirmed s' = sw_confirmed s \<and> mset (sw_queue s') = mset (sw_queue s))"
proof -
  let ?cfg = "sweeper_applyDefaults cfg"
  let ?down = "count_up (\<lambda>c. c\<lparr>k_targetUnavailable := k_targetUnavailable c + 1\<rparr>) s"
  have ch: "checkHealth env ?cfg w s = (tick env w, ?down, Inl SwErrTargetUnavailable)"
    using assms(3,4) by (auto simp: checkHealth_def Let_def reachable_health_def split: sum.splits)
  have sweep: "sweep env ?cfg w s = (tick env w, ?down, Inl SwErrTargetUnavailable)"
    and scan: "ScanExtrasOnce env ?cfg w s = (tick env w, ?down, Inl SwErrTargetUnavailable)"
    using assms(2) ch by (simp_all add: sweep_def ScanExtrasOnce_def)
  obtain s1 due where t: "takeDue now s = (s1, due)" by fastforce
  note td = takeDue_spec [OF sweeper_run_ok [OF assms(1)] t]
  have rq: "sw_queue (requeueAll ?cfg due s1) = sw_queue s1 @ due" "sw_confirmed (requeueAll ?cfg due s1) = sw_confirmed s1"
    using requeueAll_spec [of ?cfg s1 now due] td by blast+
  have split: "mset (sw_queue s1) + mset due = mset (sw_queue s)"
    using td multiset_partition [of "mset (sw_queue s)" "\<lambda>c. now < dueAt c"]
    by (simp add: not_less mset_filter)
  have "\<exists>w' s' n. ConfirmDue env ?cfg now w s = (w', s', n) \<and> n = 0 \<and>
      sw_confirmed s' = sw_confirmed s \<and> mset (sw_queue s') = mset (sw_queue s)"
    using assms(2,4) t td rq split by (cases "due = []") (auto simp: ConfirmDue_def Let_def)
  with sweep scan show ?thesis by simp
qed

section \<open>The instants of an operation\<close>

text \<open>\<open>later env w w'\<close>: \<open>w'\<close> is the world \<open>w\<close> some accesses later.\<close>

definition later :: "env \<Rightarrow> World \<Rightarrow> World \<Rightarrow> bool" where
  "later env w w' \<longleftrightarrow> (\<exists>n. w' = (tick env ^^ n) w)"

lemma later_refl [simp, intro]: "later env w w"
  unfolding later_def by (rule exI [of _ 0]) simp

lemma later_trans [trans]: "later env w w' \<Longrightarrow> later env w' w'' \<Longrightarrow> later env w w''"
  unfolding later_def by (metis comp_apply funpow_add)

lemma later_tick [intro]: "later env w (tick env w)"
  unfolding later_def by (rule exI [of _ 1]) simp

lemma later_from_tick: "later env (tick env w) w' \<Longrightarrow> later env w w'"
  using later_trans later_tick by blast

lemma fst_ask_Version [simp]: "fst (ask_Version env w key) = tick env w"
  and fst_ask_Get [simp]: "fst (ask_Get env w key) = tick env w"
  by (simp_all add: ask_Version_def ask_Get_def Let_def)

section \<open>Confirmed findings are current\<close>

lemma live_loop_other:
  "live_loop env keys w s out = (w', s', out') \<Longrightarrow> k \<notin> set keys \<Longrightarrow>
     map_get (sw_confirmed s') k = map_get (sw_confirmed s) k \<and> map_get out' k = map_get out k"
proof (induction keys arbitrary: w s out)
  case (Cons key keys)
  then show ?case by (auto simp: case_prod_beta split: option.splits if_splits)
qed simp

definition current :: "env \<Rightarrow> World \<Rightarrow> string \<Rightarrow> Finding \<Rightarrow> bool" where
  "current env w k f \<longleftrightarrow>
     (\<exists>w'. later env w w' \<and> Oracle_Version (env_hash env) (wo_orc w') k = Some (f_OracleVersion f))"

lemma current_from_tick: "current env (tick env w) k f \<Longrightarrow> current env w k f"
  unfolding current_def using later_from_tick by blast

lemma live_loop_spec:
  assumes "live_loop env keys w s out = (w', s', out')" and "distinct keys"
    and "\<forall>k \<in> set keys. map_get out k = None" and "k \<in> set keys"
  shows "map_get out' k = map_get (sw_confirmed s') k \<and>
    (\<forall>ep. map_get (sw_confirmed s') k = Some ep \<longrightarrow>
       map_get (sw_confirmed s) k = Some ep \<and> current env w k (ep_Finding ep))"
  using assms
proof (induction keys arbitrary: w s out)
  case (Cons key keys)
  have out: "map_get out key = None" using Cons.prems(3) by simp
  have v: "snd (ask_Version env w key) = Oracle_Version (env_hash env) (wo_orc (tick env w)) key"
    by (simp add: ask_Version_def Let_def)
  let ?del = "s\<lparr>sw_confirmed := map_del key (sw_confirmed s)\<rparr>"
  from Cons.prems(1) obtain s1 out1 where
    loop: "live_loop env keys (tick env w) s1 out1 = (w', s', out')" and
    step: "map_get (sw_confirmed s) key = None \<and> s1 = s \<and> out1 = out \<or>
      (\<exists>f. s1 = count_up f ?del) \<and> out1 = out \<or>
      (\<exists>ep. map_get (sw_confirmed s) key = Some ep \<and> s1 = s \<and> out1 = map_put key ep out \<and>
         snd (ask_Version env w key) = Some (f_OracleVersion (ep_Finding ep)))"
    by (cases "map_get (sw_confirmed s) key") (auto simp: case_prod_beta split: option.splits if_splits)
  have keep: "map_get (sw_confirmed s1) x = map_get (sw_confirmed s) x \<and> map_get out1 x = map_get out x"
    if "x \<noteq> key" for x using step that by auto
  show ?case
  proof (cases "k = key")
    case True
    note other = live_loop_other [OF loop, of key] Cons.prems(2)
    show ?thesis
      using step other True out v by (auto simp: current_def intro: later_tick)
  next
    case False
    have "\<forall>x \<in> set keys. map_get out1 x = None" using Cons.prems(2,3) keep by (metis distinct.simps(2) list.set_intros(2))
    from Cons.IH [OF loop _ this] Cons.prems(2,4) False keep [of k] show ?thesis
      using current_from_tick by auto
  qed
qed simp

text \<open>A confirmed finding is about the expectation the oracle holds: \<open>Confirmed()\<close> returns exactly
  the findings of the episodes it leaves standing, each of them was standing before, and at an
  instant during the call the oracle was at the version the finding was raised against. What the
  oracle has forgotten or moved past is withdrawn (invariants I11 and I12).\<close>

theorem Confirmed_current:
  assumes "sweeper_run cfg s" and "Sweeper_Confirmed env w s = (w', s', fs)"
  shows "map_get fs k = map_option ep_Finding (map_get (sw_confirmed s') k) \<and>
    (\<forall>f. map_get fs k = Some f \<longrightarrow> current env w k f \<and>
       (\<exists>ep. map_get (sw_confirmed s) k = Some ep \<and> ep_Finding ep = f))"
proof -
  have wf: "wf_map (sw_confirmed s)" using sweeper_run_ok [OF assms(1)] by (simp add: sw_ok_def sw_inv_def)
  obtain out where loop: "live_loop env (map fst (sw_confirmed s)) w s [] = (w', s', out)"
    and fs: "fs = map (\<lambda>kv. (fst kv, ep_Finding (snd kv))) out"
    using assms(2) by (auto simp: Sweeper_Confirmed_def liveEpisodes_def split: prod.splits)
  have get: "map_get fs k = map_option ep_Finding (map_get out k)"
    unfolding fs by (induction out) (auto simp: map_get_def)
  show ?thesis
  proof (cases "k \<in> set (map fst (sw_confirmed s))")
    case True
    from live_loop_spec [OF loop wf _ True] show ?thesis by (auto simp: get)
  next
    case False
    then have "map_get (sw_confirmed s) k = None" by (simp add: map_get_None_iff)
    with live_loop_other [OF loop False] show ?thesis by (simp add: get)
  qed
qed

section \<open>The fence\<close>

lemma count_fields [simp]:
  "k_keysCompared (sw_c (resolve key now s)) = k_keysCompared (sw_c s)"
  "k_fenceFailures (sw_c (resolve key now s)) = k_fenceFailures (sw_c s)"
  "k_keysCompared (sw_c (refresh key f s)) = k_keysCompared (sw_c s)"
  "k_fenceFailures (sw_c (refresh key f s)) = k_fenceFailures (sw_c s)"
  "k_keysCompared (sw_c (enqueue cfg f v now w s)) = k_keysCompared (sw_c s)"
  "k_fenceFailures (sw_c (enqueue cfg f v now w s)) = k_fenceFailures (sw_c s)"
  by (simp_all add: resolve_def refresh_def enqueue_def split: option.split)

lemma Report_Add_fields [simp]:
  "r_KeysCompared (Report_Add rep fo) = r_KeysCompared rep"
  by (simp add: Report_Add_def Let_def split: option.split)

lemma Report_Add_findings:
  "x \<in> set (r_Findings (Report_Add rep fo)) \<Longrightarrow> x \<in> set (r_Findings rep) \<or> fo = Some x"
  by (auto simp: Report_Add_def Let_def split: option.splits if_splits)

lemma handleComparison_fields:
  assumes "handleComparison cfg fo version key now w rep s = (rep', s')"
  shows "k_keysCompared (sw_c s') = k_keysCompared (sw_c s) \<and>
    k_fenceFailures (sw_c s') = k_fenceFailures (sw_c s) \<and> r_KeysCompared rep' = r_KeysCompared rep \<and>
    (\<forall>x \<in> set (r_Findings rep'). x \<in> set (r_Findings rep) \<or>
       (\<exists>f. fo = Some f \<and> f_Key x = f_Key f \<and> f_OracleVersion x = f_OracleVersion f))"
  using assms
  by (auto simp: handleComparison_def Let_def split: option.splits if_splits
      dest!: Report_Add_findings)

text \<open>What a round, and then a batch, adds to the counters and the report.\<close>

definition fenced :: "(string, u64) go_map \<Rightarrow> string list \<Rightarrow> sweep_st \<Rightarrow> sweep_st \<Rightarrow> bool" where
  "fenced versions keys st st' \<longleftrightarrow>
     k_keysCompared (sw_c (st_s st')) + k_fenceFailures (sw_c (st_s st')) =
       k_keysCompared (sw_c (st_s st)) + k_fenceFailures (sw_c (st_s st)) + int (length keys) \<and>
     r_KeysCompared (st_rep st') - r_KeysCompared (st_rep st) =
       k_keysCompared (sw_c (st_s st')) - k_keysCompared (sw_c (st_s st)) \<and>
     (\<forall>f \<in> set (r_Findings (st_rep st')). f \<in> set (r_Findings (st_rep st)) \<or>
        f_Key f \<in> set keys \<and> f_OracleVersion f = noted versions (f_Key f))"

lemma fenced_batch_key:
  "st_err (batch_key env cfg opts now w versions key reads st) = None \<Longrightarrow>
     fenced versions [key] st (batch_key env cfg opts now w versions key reads st)"
proof (rule batch_key_cases [OF refl, of env cfg opts now w versions key reads st], goal_cases)
  case (1 wo)
  then show ?case by (simp add: fenced_def fence_failed_def)
next
  case (2 wo err)
  then show ?case by simp
next
  case (3 wo1 wo e read rest fo rep s)
  have f: "f_Key f = key \<and> f_OracleVersion f = noted versions key" if "fo = Some f" for f
    using compareRead_Some [of key e read opts f] 3(4,6) that by simp
  show ?case
    using handleComparison_fields [OF 3(7)] f unfolding 3(8) by (fastforce simp: fenced_def)
qed

lemma fenced_batch_loop:
  "st_err st = None \<Longrightarrow> st_err (batch_loop env cfg opts now w versions keys reads st) = None \<Longrightarrow>
     fenced versions keys st (batch_loop env cfg opts now w versions keys reads st)"
proof (induction keys arbitrary: reads st)
  case Nil
  then show ?case by (simp add: fenced_def)
next
  case (Cons key keys)
  let ?st1 = "batch_key env cfg opts now w versions key reads st"
  have err: "st_err ?st1 = None" using Cons.prems(2) by (auto simp: Let_def split: if_splits)
  have rest: "fenced versions keys ?st1 (batch_loop env cfg opts now w versions keys (tl reads) ?st1)"
    using Cons.IH [OF err] Cons.prems(2) err by simp
  with fenced_batch_key [OF err] err show ?case by (fastforce simp: fenced_def Let_def)
qed

text \<open>C7: The fence holds against every applier: in a batch that is read without error each key is
  either compared or counted as a fence failure, and every finding the batch adds to the report
  is on one of its keys and against exactly the version noted for it before the store was read.
  Nothing is reported against an expectation that moved under the read.\<close>

theorem processBatch_fenced:
  assumes "st_err st = None" and "processBatch env cfg opts now w st = st'" and "st_err st' = None"
  shows "k_keysCompared (sw_c (st_s st')) + k_fenceFailures (sw_c (st_s st')) =
      k_keysCompared (sw_c (st_s st)) + k_fenceFailures (sw_c (st_s st)) + int (length (st_batch st)) \<and>
    (\<forall>f \<in> set (r_Findings (st_rep st')). f \<in> set (r_Findings (st_rep st)) \<or>
       f_Key f \<in> set (st_batch st) \<and> f_OracleVersion f = noted (st_versions st) (f_Key f))"
proof -
  obtain reads where "st' = batch_loop env cfg opts now w (st_versions st) (st_batch st) reads
      (st\<lparr>st_w := tick env (st_w st)\<rparr>)"
    using assms by (auto simp: processBatch_def Let_def split: sum.splits)
  then have "fenced (st_versions st) (st_batch st) (st\<lparr>st_w := tick env (st_w st)\<rparr>) st'"
    using fenced_batch_loop [of "st\<lparr>st_w := tick env (st_w st)\<rparr>"] assms(1,3) by simp
  then show ?thesis by (simp add: fenced_def)
qed

section \<open>Extra keys need two passes\<close>

text \<open>The oracle holds no entry for the key at an instant of the operation.\<close>

definition untracked :: "env \<Rightarrow> World \<Rightarrow> string \<Rightarrow> bool" where
  "untracked env w key \<longleftrightarrow>
     (\<exists>w'. later env w w' \<and> Oracle_Get (env_hash env) (wo_orc w') key (env_now env (wo_tick w')) = None)"

lemma untracked_later: "later env w w' \<Longrightarrow> untracked env w' key \<Longrightarrow> untracked env w key"
  unfolding untracked_def using later_trans by blast

lemma oracleKnows_eq:
  "oracleKnows env w key = (tick env w,
     Oracle_Get (env_hash env) (wo_orc (tick env w)) key (env_now env (wo_tick (tick env w))) \<noteq> None)"
  by (simp add: oracleKnows_def ask_Get_def Let_def)

lemma first_keys_spec:
  assumes "first_keys env cfg keys pass w s = (w', s', pass', full)"
    and "int (length (xp_keys pass)) \<le> sf_MaxExtrasTracked cfg"
  shows "later env w w' \<and> int (length (xp_keys pass')) \<le> sf_MaxExtrasTracked cfg \<and>
    xp_startedAt pass' = xp_startedAt pass \<and> xp_window pass' = xp_window pass \<and>
    (\<forall>k \<in> set (xp_keys pass'). k \<in> set (xp_keys pass) \<or> untracked env w k)"
  using assms
proof (induction keys arbitrary: pass w s)
  case Nil
  then show ?case by simp
next
  case (Cons key keys)
  let ?w = "tick env w"
  let ?known = "Oracle_Get (env_hash env) (wo_orc ?w) key (env_now env (wo_tick ?w)) \<noteq> None"
  have bk: "later env w w'" if "later env ?w w'" using that by (rule later_from_tick)
  have un: "untracked env w k" if "untracked env ?w k" for k using that untracked_later [OF later_tick] by blast
  consider "?known" | "\<not> ?known" "sf_MaxExtrasTracked cfg \<le> int (length (xp_keys pass))"
    | "\<not> ?known" "\<not> sf_MaxExtrasTracked cfg \<le> int (length (xp_keys pass))" by blast
  then show ?case
  proof cases
    case 1
    then have "first_keys env cfg keys pass ?w s = (w', s', pass', full)"
      using Cons.prems(1) by (simp add: oracleKnows_eq)
    from Cons.IH [OF this Cons.prems(2)] bk un show ?thesis by blast
  next
    case 2
    then show ?thesis using Cons.prems by (auto simp: oracleKnows_eq)
  next
    case 3
    let ?pass = "pass\<lparr>xp_keys := set_add key (xp_keys pass)\<rparr>"
    have "first_keys env cfg keys ?pass ?w s = (w', s', pass', full)"
      using Cons.prems(1) 3 by (simp add: oracleKnows_eq)
    moreover have "int (length (xp_keys ?pass)) \<le> sf_MaxExtrasTracked cfg"
      using 3(2) by (simp add: length_set_add)
    moreover have "untracked env w key" using 3(1) by (auto simp: untracked_def)
    ultimately show ?thesis using Cons.IH [of ?pass ?w s] bk un by fastforce
  qed
qed

lemma first_batches_spec:
  assumes "first_batches env cfg bs failed pass w s = (w', s', Inr pass')"
    and "int (length (xp_keys pass)) \<le> sf_MaxExtrasTracked cfg"
  shows "int (length (xp_keys pass')) \<le> sf_MaxExtrasTracked cfg \<and>
    xp_startedAt pass' = xp_startedAt pass \<and> xp_window pass' = xp_window pass \<and>
    (\<forall>k \<in> set (xp_keys pass'). k \<in> set (xp_keys pass) \<or> untracked env w k)"
  using assms
proof (induction bs arbitrary: pass w s)
  case Nil
  then show ?case by (auto split: if_splits)
next
  case (Cons keys bs)
  obtain w1 s1 pass1 full where fk: "first_keys env cfg keys pass (tick env w) s = (w1, s1, pass1, full)"
    by (metis prod_cases4)
  note k = first_keys_spec [OF fk Cons.prems(2)]
  have un: "untracked env w x" if "untracked env (tick env w) x" for x
    using that untracked_later [OF later_tick] by blast
  have un1: "untracked env w x" if "untracked env w1 x" for x
    using that k untracked_later later_from_tick by blast
  have nd: "\<not> env_done env (wo_tick (tick env w))" using Cons.prems(1) by auto
  show ?case
  proof (cases full)
    case True
    then show ?thesis using Cons.prems(1) fk k un nd by auto
  next
    case False
    then have "first_batches env cfg bs failed pass1 w1 s1 = (w', s', Inr pass')"
      using Cons.prems(1) fk nd by simp
    from Cons.IH [OF this] k un un1 show ?thesis by (metis)
  qed
qed

text \<open>A finding of the second pass.\<close>

definition surviving :: "env \<Rightarrow> World \<Rightarrow> time \<Rightarrow> string list \<Rightarrow> Finding \<Rightarrow> bool" where
  "surviving env w at keys f \<longleftrightarrow> f_Key f \<in> set keys \<and> f_Category f = CatExtraInTarget \<and>
     f_Confirmed f \<and> f_FirstSeenAt f = at \<and> v_kind (f_TargetValue f) \<noteq> ValueAbsent \<and> untracked env w (f_Key f)"

lemma surviving_mono:
  "surviving env w at keys f \<Longrightarrow> later env w0 w \<Longrightarrow> set keys \<subseteq> set keys' \<Longrightarrow> surviving env w0 at keys' f"
  unfolding surviving_def using untracked_later by blast

lemma extraSurvives_spec:
  "later env w (fst (extraSurvives env w key read)) \<and>
   (snd (extraSurvives env w key read) \<longrightarrow> v_kind (rd_Value read) \<noteq> ValueAbsent \<and> untracked env w key)"
  by (auto simp: extraSurvives_def oracleKnows_eq untracked_def)

lemma second_keys_spec:
  assumes "second_keys env at keys reads w s rep = (w', s', rep', err)"
  shows "later env w w' \<and>
    (\<forall>f \<in> set (r_Findings rep'). f \<in> set (r_Findings rep) \<or> surviving env w at keys f)"
  using assms
proof (induction keys arbitrary: reads w s rep)
  case Nil
  then show ?case by simp
next
  case (Cons key keys)
  show ?case
  proof (cases reads)
    case Nil
    then show ?thesis using Cons.prems by simp
  next
    case (Cons read rest)
    let ?x = "extraSurvives env w key read"
    let ?rep = "if snd ?x then Report_Add rep (Some (extra_finding key (rd_Value read) at)) else rep"
    obtain s1 where loop: "second_keys env at keys rest (fst ?x) s1 ?rep = (w', s', rep', err)"
      using Cons.prems Cons by (auto simp: case_prod_beta split: if_splits)
    note x = extraSurvives_spec [of env w key read]
    have "surviving env w at (key # keys) f" if "f \<in> set (r_Findings ?rep)" "f \<notin> set (r_Findings rep)" for f
      using that x by (auto simp: surviving_def extra_finding_def split: if_splits dest!: Report_Add_findings)
    moreover have "surviving env w at (key # keys) f" if "surviving env (fst ?x) at keys f" for f
      using that x by (rule_tac surviving_mono) auto
    moreover have "later env w w'" using Cons.IH [OF loop] x later_trans by blast
    ultimately show ?thesis using Cons.IH [OF loop] by blast
  qed
qed

lemma second_batches_spec:
  assumes "second_batches env at bs w s rep = (w', s', rep', err)"
  shows "later env w w' \<and>
    (\<forall>f \<in> set (r_Findings rep'). f \<in> set (r_Findings rep) \<or> surviving env w at (concat bs) f)"
  using assms
proof (induction bs arbitrary: w s rep)
  case Nil
  then show ?case by simp
next
  case (Cons b bs)
  show ?case
  proof (cases "env_done env (wo_tick (tick env w)) \<or> (\<exists>e. env_readMany env (wo_tick (tick env w)) b = Inl e)")
    case True
    then show ?thesis using Cons.prems by (auto simp: Let_def intro: later_tick split: if_splits)
  next
    case False
    then obtain reads where Inr: "env_readMany env (wo_tick (tick env w)) b = Inr reads"
      by (cases "env_readMany env (wo_tick (tick env w)) b") auto
    obtain w2 s2 rep2 err2 where sk: "second_keys env at b reads (tick env w) s rep = (w2, s2, rep2, err2)"
      by (metis prod_cases4)
    note k = second_keys_spec [OF sk]
    have l2: "later env w w2" using k later_from_tick by blast
    have here: "surviving env w at (concat (b # bs)) f" if "surviving env (tick env w) at b f" for f
      using that by (rule surviving_mono) auto
    show ?thesis
    proof (cases err2)
      case (Some e)
      then show ?thesis using Cons.prems False Inr sk k l2 here by auto
    next
      case None
      then have loop: "second_batches env at bs w2 s2 rep2 = (w', s', rep', err)"
        using Cons.prems False Inr sk by simp
      have "surviving env w at (concat (b # bs)) f" if "surviving env w2 at (concat bs) f" for f
        using that l2 by (rule surviving_mono) auto
      then show ?thesis using Cons.IH [OF loop] k l2 here later_trans by blast
    qed
  qed
qed

lemma concat_chunks: "0 < n \<Longrightarrow> concat (chunks n keys) = keys"
  by (induction n keys rule: chunks.induct) (subst chunks.simps, auto)

lemma secondPass_spec:
  assumes "secondPass env cfg pass w s rep = (w', s', rep', err)" and "0 < sf_ReadBatchSize cfg"
  shows "later env w w' \<and>
    (\<forall>f \<in> set (r_Findings rep'). f \<in> set (r_Findings rep) \<or>
       surviving env w (xp_startedAt pass) (xp_keys pass) f)"
proof -
  obtain rep1 where sb: "second_batches env (xp_startedAt pass) (chunks (nat (sf_ReadBatchSize cfg)) (xp_keys pass)) w s rep
      = (w', s', rep1, err)" and "r_Findings rep' = r_Findings rep1"
    using assms(1) by (auto simp: secondPass_def split: prod.splits option.splits)
  then show ?thesis using second_batches_spec [OF sb] assms(2) by (simp add: concat_chunks)
qed

text \<open>C20: An extra key is reported only after two passes a settlement window apart. Every finding of a
  scan is on a key that an earlier scan had parked at least a window ago, that the store still
  holds, and that the oracle knows nothing of at an instant of this scan; and what a scan parks
  for the next one are keys the oracle knew nothing of when it saw them, at most
  \<open>MaxExtrasTracked\<close> of them, stamped with its own time and window.\<close>

theorem extras_need_two_passes:
  assumes "ScanExtrasOnce env (sweeper_applyDefaults cfg) w s = (w', s', Inr rep)"
  shows "(\<forall>f \<in> set (r_Findings rep). \<exists>pass. sw_extras s = Some pass \<and>
       xp_startedAt pass + xp_window pass \<le> env_now env (wo_tick (tick env w)) \<and>
       surviving env w (xp_startedAt pass) (xp_keys pass) f) \<and>
    (\<exists>pass. sw_extras s' = Some pass \<and> xp_startedAt pass = env_now env (wo_tick (tick env w)) \<and>
       xp_window pass = env_window env (wo_tick (tick env w)) \<and>
       int (length (xp_keys pass)) \<le> sf_MaxExtrasTracked (sweeper_applyDefaults cfg) \<and>
       (\<forall>k \<in> set (xp_keys pass). untracked env w k))"
proof -
  let ?cfg = "sweeper_applyDefaults cfg" and ?w = "tick env w"
  let ?now = "env_now env (wo_tick ?w)" and ?win = "env_window env (wo_tick ?w)"
  let ?rep = "(NewReport ?now ((sf_DifferOptions ?cfg)\<lparr>op_Now := ?now\<rparr>))
      \<lparr>r_Pass := PassTargetToOracle, r_SettlementWindow := ?win\<rparr>"
  have pos: "0 < sf_ReadBatchSize ?cfg" "0 \<le> sf_MaxExtrasTracked ?cfg"
    by (simp_all add: sweeper_applyDefaults_def)
  have opn: "\<not> sw_closed s" using assms by (auto simp: ScanExtrasOnce_def)
  obtain w1 s1 h where ch: "checkHealth env ?cfg w s = (w1, s1, Inr h)"
    using assms opn by (auto simp: ScanExtrasOnce_def split: prod.splits sum.splits)
  then have w1: "w1 = ?w" by (auto simp: checkHealth_def Let_def split: if_splits sum.splits)
  obtain s2 pending where tp: "takePendingExtras ?now s1 = (s2, pending)" by fastforce
  obtain w3 s3 rep3 err where
    two: "(case pending of None \<Rightarrow> (?w, s2, ?rep, None) | Some pass \<Rightarrow> secondPass env ?cfg pass ?w s2 ?rep)
      = (w3, s3, rep3, err)" by (metis prod_cases4)
  note step = assms [unfolded ScanExtrasOnce_def Let_def]
  have err: "err = None"
    using step opn ch tp two by (cases err) (auto simp: w1)
  obtain w4 s4 pass' where fp: "firstPass env ?cfg ?win ?now w3 s3 = (w4, s4, Inr pass')"
    and s': "s' = count_up (\<lambda>c. c\<lparr>k_extraScans := k_extraScans c + 1\<rparr>) (setPendingExtras pass' s4)"
    and rep: "r_Findings rep = r_Findings rep3"
    using step opn ch tp two err by (auto simp: w1 split: prod.splits sum.splits)
  have l3: "later env w w3"
    using two secondPass_spec [OF _ pos(1)] by (cases pending) (auto intro: later_tick later_from_tick)
  have found: "\<exists>pass. sw_extras s = Some pass \<and> xp_startedAt pass + xp_window pass \<le> ?now \<and>
      surviving env w (xp_startedAt pass) (xp_keys pass) f" if f: "f \<in> set (r_Findings rep)" for f
  proof (cases pending)
    case None
    then show ?thesis using two f rep by (auto simp: NewReport_def)
  next
    case (Some pass)
    then have "secondPass env ?cfg pass ?w s2 ?rep = (w3, s3, rep3, err)" using two by simp
    from secondPass_spec [OF this pos(1)] f rep have
      "surviving env ?w (xp_startedAt pass) (xp_keys pass) f" by (auto simp: NewReport_def)
    then have "surviving env w (xp_startedAt pass) (xp_keys pass) f"
      by (rule surviving_mono) auto
    then show ?thesis
      using Some tp checkHealth_keeps [OF ch]
      by (auto simp: takePendingExtras_def extras_dueAt_def split: option.splits if_splits)
  qed
  obtain bs failed where fb: "first_batches env ?cfg bs failed
      \<lparr>xp_keys = [], xp_startedAt = ?now, xp_window = ?win, xp_truncated = False\<rparr> (tick env w3) s3
      = (w4, s4, Inr pass')"
    using fp by (auto simp: firstPass_def Let_def split: prod.splits)
  have "later env w (tick env w3)" using l3 later_trans later_tick by blast
  then show ?thesis
    using found first_batches_spec [OF fb] pos(2) s' untracked_later by (auto simp: setPendingExtras_def)
qed

section \<open>Samples\<close>

text \<open>A store that holds one value at every key it is asked for (or nothing), scans two keys, and
  always answers; nobody touches the oracle. The sweep runs ten seconds after the event with a
  window of five.\<close>

definition sample_env :: "Value \<Rightarrow> env" where
  "sample_env v =
     \<lparr>env_hash = sample_hash, env_oracle = (\<lambda>k orc. orc), env_now = (\<lambda>k. t0 + 10000000000),
      env_window = (\<lambda>k. 5000000000), env_done = (\<lambda>k. False),
      env_health = (\<lambda>k. Inr (zero_Health\<lparr>h_Reachable := True\<rparr>)),
      env_readMany = (\<lambda>k keys. Inr (map (\<lambda>key. \<lparr>rd_Value = v, rd_Err = None\<rparr>) keys)),
      env_get = (\<lambda>k key. Inr v), env_scan = (\<lambda>k. ([[''x'', ''y'']], False))\<rparr>"

definition sample_down :: env where
  "sample_down = (sample_env zero_Value)\<lparr>env_health := (\<lambda>k. Inl TransportError)\<rparr>"

definition sample_scfg :: SweeperConfig where
  "sample_scfg =
     \<lparr>sf_DifferOptions = sample_opts\<lparr>op_MaxFindings := 1\<rparr>, sf_SweepInterval = 0, sf_ExtraScanInterval = 0,
      sf_ConfirmInterval = 0, sf_ReadBatchSize = 0, sf_MaxConfirmQueue = 0, sf_MaxExtrasTracked = 0,
      sf_ExtraScanPattern = [], sf_RequirePrimary = False\<rparr>"

definition sample_world :: World where
  "sample_world = \<lparr>wo_tick = 0, wo_orc = sample_orc\<rparr>"

text \<open>A sweep raises the missing key, and a confirm tick a window later confirms it.\<close>

definition sample_raised :: Sweeper where
  "sample_raised = fst (snd (Run_step (sample_env zero_Value) (sweeper_applyDefaults sample_scfg) False
     SweepTick sample_world Sweeper_New))"

definition sample_confirmed :: Sweeper where
  "sample_confirmed = fst (snd (Run_step (sample_env zero_Value) (sweeper_applyDefaults sample_scfg) False
     (ConfirmTick (t0 + 15000000000)) sample_world sample_raised))"

lemma run_step:
  "sweeper_run cfg s \<Longrightarrow>
     sweeper_run cfg (fst (snd (Run_step env (sweeper_applyDefaults cfg) paused tk w s)))"
  by (rule sweeper_run.loop) (auto simp: prod_eq_iff)

lemma sample_raised_run: "sweeper_run sample_scfg sample_raised"
  unfolding sample_raised_def by (rule run_step [OF sweeper_run.start])

lemma sample_confirmed_run: "sweeper_run sample_scfg sample_confirmed"
  unfolding sample_confirmed_def by (rule run_step [OF sample_raised_run])

lemma sample_queue: "map ckey (sw_queue sample_raised) = [''k'']"
  by code_simp

lemma sample_none: "map_get (sw_confirmed sample_raised) ''k'' = None"
  by code_simp

lemma sample_open: "sw_closed sample_raised = False"
  by code_simp

lemma sample_ep: "map_option (\<lambda>ep. (ep_FirstSeenAt ep, ep_ConfirmedAt ep, f_OracleVersion (ep_Finding ep)))
    (map_get (sw_confirmed sample_confirmed) ''k'') = Some (t0 + 10000000000, t0 + 15000000000, 1)"
  by code_simp

text \<open>The rule that a new event withdraws a confirmed finding is applied when the findings are
  read and at the end of a sweep, not where a sweep meets the key again: here a key confirmed at
  version 1 is overwritten, and the next sweep, on the first read ever compared with version 2,
  reports the disagreement as confirmed and carries the old episode over to version 2 instead of
  raising a candidate.\<close>

theorem stale_episode_carries_over:
  "let orc = sample_apply sample_orc ''k'' ''w'';
       (w, s, r) = Run_step (sample_env zero_Value) (sweeper_applyDefaults sample_scfg) False SweepTick
         \<lparr>wo_tick = 0, wo_orc = orc\<rparr> sample_confirmed
   in Oracle_Version sample_hash orc ''k'' = Some 2 \<and>
      map_option (f_OracleVersion \<circ> ep_Finding) (map_get (sw_confirmed sample_confirmed) ''k'') = Some 1 \<and>
      (case r of Some (Inr rep) \<Rightarrow> map (\<lambda>f. (f_Confirmed f, f_OracleVersion f)) (r_Findings rep) | _ \<Rightarrow> []) =
        [(True, 2)] \<and>
      map_option (f_OracleVersion \<circ> ep_Finding) (map_get (sw_confirmed s) ''k'') = Some 2 \<and>
      sw_queue s = []"
  by code_simp

text \<open>Two scans a window apart over a store with two keys the oracle knows nothing of.\<close>

definition sample_parked :: Sweeper where
  "sample_parked = Sweeper_New\<lparr>sw_extras :=
     Some \<lparr>xp_keys = [''x'', ''y''], xp_startedAt = t0, xp_window = 5000000000, xp_truncated = False\<rparr>\<rparr>"

lemma extras_truncation_samp:
  "(case ScanExtrasOnce (sample_env (sample_members [''a''])) (sweeper_applyDefaults sample_scfg)
      sample_world sample_parked of
      (w, s, Inr rep) \<Rightarrow> Some (Report_Total rep, length (r_Findings rep), r_Truncated rep)
    | _ \<Rightarrow> None) = Some (2, 1, False)"
  by code_simp

text \<open>A scan's report forgets that it was truncated: the flag set when the finding list hits its
  cap is overwritten at the end with the flag of the new first pass. Here two extras survive a
  cap of one: the total is 2, one finding is listed, and the report says nothing is missing.\<close>

theorem extras_truncation_lost:
  "(case ScanExtrasOnce (sample_env (sample_members [''a''])) (sweeper_applyDefaults sample_scfg)
      sample_world sample_parked of
      (w, s, Inr rep) \<Rightarrow> Some (Report_Total rep, length (r_Findings rep), r_Truncated rep)
    | _ \<Rightarrow> None) = Some (2, 1, False)"
  by (rule extras_truncation_samp)

section \<open>Witnesses\<close>

lemma sample_ep_obtain:
  obtains ep where "map_get (sw_confirmed sample_confirmed) ''k'' = Some ep"
    "ep_FirstSeenAt ep = t0 + 10000000000" "ep_ConfirmedAt ep = t0 + 15000000000"
  using sample_ep by (cases "map_get (sw_confirmed sample_confirmed) ''k''") auto


theorem sweeper_queue_bounded_witness:
  "int (length (sw_queue sample_raised)) \<le> 10000 \<and> set (sw_queued sample_raised) = {''k''}"
proof -
  have "ckey ` set (sw_queue sample_raised) = {''k''}"
    using arg_cong [OF sample_queue, of set] by simp
  moreover have "sf_MaxConfirmQueue (sweeper_applyDefaults sample_scfg) = 10000" by code_simp
  ultimately show ?thesis using sweeper_queue_bounded [OF sample_raised_run] by simp
qed

theorem confirmed_needs_reread_witness:
  "\<exists>c i. c \<in> set (sw_queue sample_raised) \<and> ckey c = ''k'' \<and>
     ca_seenAt c + ca_window c \<le> t0 + 15000000000 \<and>
     reread (sample_env zero_Value) (sweeper_applyDefaults sample_scfg) c (t0 + 15000000000)
       ((tick (sample_env zero_Value) ^^ i) sample_world)"
proof -
  obtain ep where ep: "map_get (sw_confirmed sample_confirmed) ''k'' = Some ep" by (rule sample_ep_obtain)
  have step: "Run_step (sample_env zero_Value) (sweeper_applyDefaults sample_scfg) False
      (ConfirmTick (t0 + 15000000000)) sample_world sample_raised =
      (fst (Run_step (sample_env zero_Value) (sweeper_applyDefaults sample_scfg) False
        (ConfirmTick (t0 + 15000000000)) sample_world sample_raised), sample_confirmed,
       snd (snd (Run_step (sample_env zero_Value) (sweeper_applyDefaults sample_scfg) False
        (ConfirmTick (t0 + 15000000000)) sample_world sample_raised)))"
    unfolding sample_confirmed_def by simp
  from confirmed_needs_reread [OF sample_raised_run step sample_none ep] show ?thesis by blast
qed

theorem outage_reports_nothing_witness:
  "\<exists>s'. sweep sample_down (sweeper_applyDefaults sample_scfg) sample_world sample_raised =
     (tick sample_down sample_world, s', Inl SwErrTargetUnavailable) \<and>
   sw_queue s' = sw_queue sample_raised"
proof -
  have "\<not> env_done sample_down (wo_tick (tick sample_down sample_world))"
    and "\<not> reachable_health (env_health sample_down (wo_tick (tick sample_down sample_world)))"
    by (simp_all add: sample_down_def sample_env_def reachable_health_def)
  from outage_reports_nothing [OF sample_raised_run _ this] sample_open show ?thesis by blast
qed

theorem Confirmed_current_witness:
  "\<exists>f. map_get (snd (snd (Sweeper_Confirmed (sample_env zero_Value) sample_world sample_confirmed))) ''k'' = Some f \<and>
     current (sample_env zero_Value) sample_world ''k'' f"
proof -
  let ?c = "Sweeper_Confirmed (sample_env zero_Value) sample_world sample_confirmed"
  have "map_get (snd (snd ?c)) ''k'' \<noteq> None" by code_simp
  then obtain f where f: "map_get (snd (snd ?c)) ''k'' = Some f" by blast
  have "?c = (fst ?c, fst (snd ?c), snd (snd ?c))" by simp
  from Confirmed_current [OF sample_confirmed_run this, of "''k''"] f show ?thesis by blast
qed

definition sample_st :: sweep_st where
  "sample_st = \<lparr>st_w = sample_world, st_s = Sweeper_New, st_rep = NewReport t0 sample_opts,
     st_batch = [''k''], st_versions = [(''k'', 1)], st_err = None\<rparr>"

theorem processBatch_fenced_witness:
  "let st' = processBatch (sample_env zero_Value) sample_scfg sample_opts t0 5000000000 sample_st
   in k_keysCompared (sw_c (st_s st')) + k_fenceFailures (sw_c (st_s st')) = 1 \<and>
      (\<forall>f \<in> set (r_Findings (st_rep st')). f_Key f = ''k'' \<and> f_OracleVersion f = 1)"
proof -
  let ?st' = "processBatch (sample_env zero_Value) sample_scfg sample_opts t0 5000000000 sample_st"
  have e: "st_err sample_st = None" "st_err ?st' = None" by code_simp+
  have r: "r_Findings (st_rep sample_st) = []" "st_batch sample_st = [''k'']"
    "st_versions sample_st = [(''k'', 1)]" "k_keysCompared (sw_c (st_s sample_st)) = 0"
    "k_fenceFailures (sw_c (st_s sample_st)) = 0"
    by (simp_all add: sample_st_def NewReport_def Sweeper_New_def zero_counters_def)
  show ?thesis
    using processBatch_fenced [OF e(1) refl e(2)] unfolding r Let_def
    by (auto simp: noted_def map_get_def)
qed

theorem extras_need_two_passes_witness:
  "\<exists>w s rep. ScanExtrasOnce (sample_env (sample_members [''a''])) (sweeper_applyDefaults sample_scfg)
     sample_world sample_parked = (w, s, Inr rep) \<and>
   (\<forall>f \<in> set (r_Findings rep). f_Key f \<in> {''x'', ''y''} \<and> f_FirstSeenAt f = t0)"
proof -
  let ?x = "ScanExtrasOnce (sample_env (sample_members [''a''])) (sweeper_applyDefaults sample_scfg)
    sample_world sample_parked"
  obtain w s rep where x: "?x = (w, s, Inr rep)"
    using extras_truncation_samp by (auto split: prod.splits sum.splits)
  have "sw_extras sample_parked = Some \<lparr>xp_keys = [''x'', ''y''], xp_startedAt = t0,
      xp_window = 5000000000, xp_truncated = False\<rparr>" by (simp add: sample_parked_def)
  with extras_need_two_passes [OF x] show ?thesis by (auto simp: x surviving_def)
qed

end
