(* ===== verification/Lag.thy ===== *)
theory Lag
  imports Complex_Main "HOL-Library.Multiset" Oracle Target Ring
begin

text \<open>
  \<open>pkg/lag\<close>: the estimator that measures how long the target takes to reflect an event and derives
  the settlement window from it.

  The read of the target and the state of the oracle at each poll are the fields of \<open>poll_env\<close>,
  the draws of \<open>math/rand\<close> an argument of \<open>offer\<close>. Percentages are given in hundredths and
  \<open>float64\<close> arithmetic is exact here (\<open>rat\<close>): the code's products stay below \<open>2^53\<close> for windows of
  a hundred days, and its rounding constant is a millionth, far above an ulp. The estimator's own
  lock makes each operation one step; \<open>Observe\<close> calls that arrive inside a poll round are taken to
  come before or after it.
\<close>

section \<open>Constants and configuration\<close>

definition second :: duration where
  "second = 1000000000"

definition millisecond :: duration where
  "millisecond = 1000000"

definition minObservations :: nat where
  "minObservations = 100"

definition hysteresisRatio :: rat where
  "hysteresisRatio = 1 / 5"

definition minChangeInterval :: duration where
  "minChangeInterval = 60 * second"

definition basePollInterval :: duration where
  "basePollInterval = 10 * millisecond"

definition maxPollInterval :: duration where
  "maxPollInterval = second"

record LagConfig =
  lc_probeCount :: int
  lc_probeRotation :: duration
  lc_maxPollDelay :: duration
  lc_windowSize :: int
  lc_minWindow :: duration
  lc_maxWindow :: duration
  lc_safetyFactor :: rat
  lc_static :: "duration option"

definition lag_applyDefaults :: "LagConfig \<Rightarrow> LagConfig" where
  "lag_applyDefaults c =
     (let c = (if lc_probeCount c \<le> 0 then c\<lparr>lc_probeCount := 200\<rparr> else c);
          c = (if lc_probeRotation c \<le> 0 then c\<lparr>lc_probeRotation := 60 * second\<rparr> else c);
          c = (if lc_maxPollDelay c \<le> 0 then c\<lparr>lc_maxPollDelay := 60 * second\<rparr> else c);
          c = (if lc_windowSize c \<le> 0 then c\<lparr>lc_windowSize := 10000\<rparr> else c);
          c = (if lc_minWindow c \<le> 0 then c\<lparr>lc_minWindow := second\<rparr> else c);
          c = (if lc_maxWindow c \<le> 0 then c\<lparr>lc_maxWindow := 120 * second\<rparr> else c);
          c = (if lc_maxWindow c < lc_minWindow c then c\<lparr>lc_maxWindow := lc_minWindow c\<rparr> else c);
          c = (if lc_safetyFactor c \<le> 0 then c\<lparr>lc_safetyFactor := 3\<rparr> else c)
      in c)"

section \<open>The distribution\<close>

record window =
  wn_samples :: "duration list"
  wn_next :: nat
  wn_filled :: bool
  wn_timedOut :: int
  wn_total :: int

definition newWindow :: "int \<Rightarrow> window" where
  "newWindow sz =
     (let sz = (if sz \<le> 0 then 10000 else sz)
      in \<lparr>wn_samples = replicate (nat sz) 0, wn_next = 0, wn_filled = False, wn_timedOut = 0,
          wn_total = 0\<rparr>)"

definition window_push :: "window \<Rightarrow> duration \<Rightarrow> window" where
  "window_push w d =
     (let nxt = (wn_next w + 1) mod length (wn_samples w)
      in w\<lparr>wn_samples := (wn_samples w)[wn_next w := d], wn_next := nxt,
           wn_filled := (if nxt = 0 then True else wn_filled w), wn_total := wn_total w + 1\<rparr>)"

definition window_record :: "window \<Rightarrow> duration \<Rightarrow> window" where
  "window_record w d = window_push w d"

definition recordTimeout :: "window \<Rightarrow> duration \<Rightarrow> window" where
  "recordTimeout w maxPollDelay =
     window_push (w\<lparr>wn_timedOut := wn_timedOut w + 1\<rparr>) maxPollDelay"

definition window_snapshot :: "window \<Rightarrow> duration list \<times> int \<times> int" where
  "window_snapshot w =
     (let n = (if wn_filled w then length (wn_samples w) else wn_next w)
      in (sort (take n (wn_samples w)), wn_timedOut w, wn_total w))"

text \<open>\<open>p\<close> is in hundredths; \<open>int(p * n + 0.999999) - 1\<close>.\<close>

definition percentile :: "duration list \<Rightarrow> nat \<Rightarrow> duration" where
  "percentile srt p =
     (if srt = [] then 0
      else
        let rank = (int p * int (length srt) * 10000 + 999999) div 1000000 - 1;
            rank = (if rank < 0 then 0 else rank);
            rank = (if int (length srt) \<le> rank then int (length srt) - 1 else rank)
        in srt ! nat rank)"

section \<open>The controller\<close>

record controller =
  ct_minWindow :: duration
  ct_maxWindow :: duration
  ct_safetyFactor :: rat
  ct_current :: duration
  ct_lastChangeAt :: time
  ct_changes :: int
  ct_clamped :: bool
  ct_adaptive :: bool

text \<open>Conversion of a float to an integer: towards zero.\<close>

definition trunc :: "rat \<Rightarrow> int" where
  "trunc x = (if x < 0 then - \<lfloor>- x\<rfloor> else \<lfloor>x\<rfloor>)"

definition wanted :: "controller \<Rightarrow> duration list \<Rightarrow> duration \<times> bool" where
  "wanted c srt =
     (let p99 = percentile srt 99;
          want = trunc (of_int p99 * ct_safetyFactor c)
      in if want < ct_minWindow c then (ct_minWindow c, False)
         else if ct_maxWindow c < want then (ct_maxWindow c, True)
         else (want, False))"

definition decide :: "controller \<Rightarrow> duration list \<Rightarrow> nat \<Rightarrow> time \<Rightarrow> controller \<times> duration \<times> bool" where
  "decide c srt observations now =
     (if observations < minObservations then
        let c = c\<lparr>ct_adaptive := False\<rparr>
        in if ct_current c = 0 then
             let c = c\<lparr>ct_current := ct_minWindow c\<rparr> in (c, ct_current c, True)
           else (c, ct_current c, False)
      else
        let c = c\<lparr>ct_adaptive := True\<rparr>;
            (want, clamped) = wanted c srt;
            c = c\<lparr>ct_clamped := clamped\<rparr>;
            change = c\<lparr>ct_current := want, ct_lastChangeAt := now, ct_changes := ct_changes c + 1\<rparr>
        in if ct_current c = 0 then (change, want, True)
           else if want = ct_current c then (c, ct_current c, False)
           else
             let delta = of_int (want - ct_current c) / of_int (ct_current c);
                 delta = (if delta < 0 then - delta else delta)
             in if delta \<le> hysteresisRatio then (c, ct_current c, False)
                else if ct_lastChangeAt c \<noteq> 0
                        \<and> time_sub now (ct_lastChangeAt c) < minChangeInterval
                     then (c, ct_current c, False)
                else (change, want, True))"

section \<open>The probe sample\<close>

record probeSet =
  ps_capacity :: int
  ps_keys :: "string list"
  ps_index :: "string go_set"
  ps_seen :: int
  ps_rotatedAt :: time
  ps_rotations :: int

definition newProbeSet :: "int \<Rightarrow> probeSet" where
  "newProbeSet capacity =
     \<lparr>ps_capacity = (if capacity \<le> 0 then 200 else capacity), ps_keys = [], ps_index = [],
      ps_seen = 0, ps_rotatedAt = 0, ps_rotations = 0\<rparr>"

text \<open>\<open>intn n\<close> is the draw of \<open>rnd.Intn(n)\<close>.\<close>

definition probe_offer :: "(int \<Rightarrow> int) \<Rightarrow> string \<Rightarrow> probeSet \<Rightarrow> probeSet" where
  "probe_offer intn key p =
     (if key \<in> set (ps_index p) then p
      else
        let p = p\<lparr>ps_seen := ps_seen p + 1\<rparr>
        in if int (length (ps_keys p)) < ps_capacity p then
             p\<lparr>ps_keys := ps_keys p @ [key], ps_index := set_add key (ps_index p)\<rparr>
           else
             let j = intn (ps_seen p)
             in if j < ps_capacity p then
                  p\<lparr>ps_keys := (ps_keys p)[nat j := key],
                    ps_index := set_add key (set_del (ps_keys p ! nat j) (ps_index p))\<rparr>
                else p)"

definition probe_contains :: "probeSet \<Rightarrow> string \<Rightarrow> bool" where
  "probe_contains p key \<longleftrightarrow> key \<in> set (ps_index p)"

definition rotateIfDue :: "probeSet \<Rightarrow> time \<Rightarrow> duration \<Rightarrow> probeSet \<times> bool" where
  "rotateIfDue p now every =
     (if ps_rotatedAt p = 0 then (p\<lparr>ps_rotatedAt := now\<rparr>, False)
      else if time_sub now (ps_rotatedAt p) < every then (p, False)
      else (p\<lparr>ps_keys := [], ps_index := [], ps_seen := 0, ps_rotatedAt := now,
              ps_rotations := ps_rotations p + 1\<rparr>, True))"

section \<open>Measurements in flight\<close>

record pending =
  pd_key :: string
  pd_version :: u64
  pd_expected :: Value
  pd_startedAt :: time
  pd_nextPollAt :: time
  pd_interval :: duration

datatype pollOutcome = pollPending | pollConverged | pollTimedOut | pollAbandoned

record poll_env =
  pe_hash :: "string \<Rightarrow> u64"
  pe_orc :: "string \<Rightarrow> Oracle"
  pe_get :: "string \<Rightarrow> TargetErr + Value"
  pe_done :: "nat \<Rightarrow> bool"

definition not_yet :: "LagConfig \<Rightarrow> pending \<Rightarrow> time \<Rightarrow> pollOutcome \<times> pending" where
  "not_yet cfg p now =
     (if lc_maxPollDelay cfg \<le> time_sub now (pd_startedAt p) then (pollTimedOut, p)
      else
        let interval = pd_interval p * 2;
            interval = (if maxPollInterval < interval then maxPollInterval else interval)
        in (pollPending, p\<lparr>pd_interval := interval, pd_nextPollAt := now + interval\<rparr>))"

definition poll :: "poll_env \<Rightarrow> LagConfig \<Rightarrow> pending \<Rightarrow> time \<Rightarrow> pollOutcome \<times> pending" where
  "poll env cfg p now =
     (case Oracle_Version (pe_hash env) (pe_orc env (pd_key p)) (pd_key p) of
        None \<Rightarrow> (pollAbandoned, p)
      | Some current \<Rightarrow>
          if current \<noteq> pd_version p then (pollAbandoned, p)
          else
            (case pe_get env (pd_key p) of
               Inr tv \<Rightarrow> if Value_Equal (pd_expected p) tv then (pollConverged, p) else not_yet cfg p now
             | Inl (WrongTypeError got) \<Rightarrow> (pollAbandoned, p)
             | Inl TransportError \<Rightarrow> not_yet cfg p now))"

section \<open>The estimator\<close>

record Estimator =
  es_cfg :: LagConfig
  es_probes :: probeSet
  es_win :: window
  es_ctrl :: controller
  es_window :: duration
  es_pending :: "(string, pending) go_map"
  es_abandoned :: int
  es_polls :: int

definition Estimator_New :: "LagConfig \<Rightarrow> Estimator" where
  "Estimator_New cfg =
     (let cfg = lag_applyDefaults cfg
      in \<lparr>es_cfg = cfg, es_probes = newProbeSet (lc_probeCount cfg),
          es_win = newWindow (lc_windowSize cfg),
          es_ctrl = \<lparr>ct_minWindow = lc_minWindow cfg, ct_maxWindow = lc_maxWindow cfg,
                     ct_safetyFactor = lc_safetyFactor cfg, ct_current = 0, ct_lastChangeAt = 0,
                     ct_changes = 0, ct_clamped = False, ct_adaptive = False\<rparr>,
          es_window = (case lc_static cfg of Some s \<Rightarrow> s | None \<Rightarrow> lc_minWindow cfg),
          es_pending = [], es_abandoned = 0, es_polls = 0\<rparr>)"

definition SettlementWindow :: "Estimator \<Rightarrow> duration" where
  "SettlementWindow e = es_window e"

definition OfferKey :: "(int \<Rightarrow> int) \<Rightarrow> string \<Rightarrow> Estimator \<Rightarrow> Estimator" where
  "OfferKey intn key e = e\<lparr>es_probes := probe_offer intn key (es_probes e)\<rparr>"

text \<open>\<open>now\<close> is the clock when the oracle is read, \<open>started\<close> the start of the measurement.\<close>

definition lag_Observe ::
  "(string \<Rightarrow> u64) \<Rightarrow> Oracle \<Rightarrow> time \<Rightarrow> string \<Rightarrow> u64 \<Rightarrow> time \<Rightarrow> Estimator \<Rightarrow> Estimator" where
  "lag_Observe hash orc now key version started e =
     (if \<not> probe_contains (es_probes e) key then e
      else
        (case Oracle_Get hash orc key now of
           None \<Rightarrow> e
         | Some entry \<Rightarrow>
             if eo_version entry \<noteq> version then e
             else
               e\<lparr>es_pending := map_put key
                   \<lparr>pd_key = key, pd_version = version, pd_expected = eo_value entry,
                    pd_startedAt = started, pd_nextPollAt = started + basePollInterval,
                    pd_interval = basePollInterval\<rparr> (es_pending e)\<rparr>))"

definition lag_remove :: "string \<Rightarrow> Estimator \<Rightarrow> Estimator" where
  "lag_remove key e = e\<lparr>es_pending := map_del key (es_pending e)\<rparr>"

definition poll_one :: "poll_env \<Rightarrow> time \<Rightarrow> pending \<Rightarrow> Estimator \<Rightarrow> Estimator" where
  "poll_one env now p e =
     (let e = e\<lparr>es_polls := es_polls e + 1\<rparr>;
          (out, p') = poll env (es_cfg e) p now
      in case out of
           pollConverged \<Rightarrow>
             lag_remove (pd_key p)
               (e\<lparr>es_win := window_record (es_win e) (time_sub now (pd_startedAt p))\<rparr>)
         | pollTimedOut \<Rightarrow>
             lag_remove (pd_key p)
               (e\<lparr>es_win := recordTimeout (es_win e) (lc_maxPollDelay (es_cfg e))\<rparr>)
         | pollAbandoned \<Rightarrow> lag_remove (pd_key p) (e\<lparr>es_abandoned := es_abandoned e + 1\<rparr>)
         | pollPending \<Rightarrow> e\<lparr>es_pending := map_put (pd_key p) p' (es_pending e)\<rparr>)"

fun poll_loop :: "poll_env \<Rightarrow> time \<Rightarrow> nat \<Rightarrow> pending list \<Rightarrow> Estimator \<Rightarrow> Estimator" where
  "poll_loop env now i [] e = e"
| "poll_loop env now i (p # ps) e =
     (if pe_done env i then e else poll_loop env now (i + 1) ps (poll_one env now p e))"

definition pollDue :: "poll_env \<Rightarrow> time \<Rightarrow> Estimator \<Rightarrow> Estimator" where
  "pollDue env now e =
     poll_loop env now 0 (filter (\<lambda>p. \<not> now < pd_nextPollAt p) (map snd (es_pending e))) e"

definition dropNonProbes :: "Estimator \<Rightarrow> Estimator" where
  "dropNonProbes e =
     e\<lparr>es_pending := filter (\<lambda>kp. probe_contains (es_probes e) (fst kp)) (es_pending e)\<rparr>"

text \<open>The third result is the call of \<open>OnWindowChange\<close>, when there is one.\<close>

definition Recompute :: "time \<Rightarrow> Estimator \<Rightarrow> Estimator \<times> duration \<times> (duration \<times> duration) option" where
  "Recompute now e =
     (let (srt, timedOut, total) = window_snapshot (es_win e)
      in if lc_static (es_cfg e) \<noteq> None then (e, es_window e, None)
         else
           let old = es_window e;
               (c, nxt, changed) = decide (es_ctrl e) srt (length srt) now;
               e = e\<lparr>es_ctrl := c\<rparr>
           in if \<not> changed \<or> nxt = old then (e, old, None)
              else (e\<lparr>es_window := nxt\<rparr>, nxt, Some (old, nxt)))"

definition lag_Tick ::
  "poll_env \<Rightarrow> time \<Rightarrow> Estimator \<Rightarrow> Estimator \<times> (duration \<times> duration) option" where
  "lag_Tick env now e =
     (let e = pollDue env now e;
          (ps, rotated) = rotateIfDue (es_probes e) now (lc_probeRotation (es_cfg e));
          e = e\<lparr>es_probes := ps\<rparr>;
          e = (if rotated then dropNonProbes e else e);
          (e, w, change) = Recompute now e
      in (e, change))"

record LagStats =
  ls_p50 :: duration
  ls_p90 :: duration
  ls_p99 :: duration
  ls_max :: duration
  ls_observations :: int
  ls_timedOut :: int
  ls_currentWindow :: duration
  ls_adaptive :: bool
  ls_clamped :: bool
  ls_changes :: int

definition Estimator_Stats :: "Estimator \<Rightarrow> LagStats" where
  "Estimator_Stats e =
     (let (srt, timedOut, total) = window_snapshot (es_win e);
          c = es_ctrl e;
          pct = (\<lambda>p. if srt = [] then 0 else percentile srt p)
      in \<lparr>ls_p50 = pct 50, ls_p90 = pct 90, ls_p99 = pct 99,
          ls_max = (if srt = [] then 0 else srt ! (length srt - 1)),
          ls_observations = int (length srt), ls_timedOut = timedOut,
          ls_currentWindow = es_window e,
          ls_adaptive = (ct_adaptive c \<and> lc_static (es_cfg e) = None),
          ls_clamped = ct_clamped c, ls_changes = ct_changes c\<rparr>)"

section \<open>The percentile is the nearest rank\<close>

lemma sorted_rank:
  assumes "sorted xs" and "r < length xs"
  shows "r < length (filter (\<lambda>x. x \<le> xs ! r) xs)"
    and "length (filter (\<lambda>x. x < xs ! r) xs) \<le> r"
proof -
  have split: "filter P xs = filter P (take r xs) @ filter P (drop r xs)" for P
    by (metis append_take_drop_id filter_append)
  have "\<forall>x \<in> set (take (Suc r) xs). x \<le> xs ! r"
    using assms by (auto simp: in_set_conv_nth sorted_nth_mono)
  then have "filter (\<lambda>x. x \<le> xs ! r) (take (Suc r) xs) = take (Suc r) xs" by simp
  then have "length (filter (\<lambda>x. x \<le> xs ! r) (take (Suc r) xs)) = Suc r" using assms(2) by simp
  moreover have "filter (\<lambda>x. x \<le> xs ! r) xs
      = filter (\<lambda>x. x \<le> xs ! r) (take (Suc r) xs) @ filter (\<lambda>x. x \<le> xs ! r) (drop (Suc r) xs)"
    by (metis append_take_drop_id filter_append)
  ultimately show "r < length (filter (\<lambda>x. x \<le> xs ! r) xs)" by simp
  have "\<forall>x \<in> set (drop r xs). \<not> x < xs ! r"
    using assms by (auto simp: in_set_conv_nth sorted_nth_mono not_less)
  then have "filter (\<lambda>x. x < xs ! r) (drop r xs) = []" by (simp add: filter_empty_conv)
  then have "length (filter (\<lambda>x. x < xs ! r) xs) = length (filter (\<lambda>x. x < xs ! r) (take r xs))"
    by (simp add: split)
  also have "\<dots> \<le> length (take r xs)" by (rule length_filter_le)
  finally show "length (filter (\<lambda>x. x < xs ! r) xs) \<le> r" by simp
qed

text \<open>The rounding constant of the code makes the rank the exact ceiling of \<open>p * n / 100\<close>.\<close>

lemma rank_is_ceiling:
  fixes m :: int
  shows "m \<le> 100 * ((m * 10000 + 999999) div 1000000)"
    and "100 * ((m * 10000 + 999999) div 1000000 - 1) < m"
proof -
  define q where "q = (m * 10000 + 999999) div 1000000"
  define r where "r = (m * 10000 + 999999) mod 1000000"
  have e: "m * 10000 + 999999 = 1000000 * q + r" by (simp add: q_def r_def)
  have r: "0 \<le> r" "r < 1000000" by (simp_all add: r_def)
  from e r(2) have "m \<le> 100 * q" by linarith
  moreover from e r(1) have "1000000 * (q - 1) < 10000 * m" by simp
  then have "100 * (q - 1) < m" by simp
  ultimately have "m \<le> 100 * q" "100 * (q - 1) < m" .
  then show "m \<le> 100 * ((m * 10000 + 999999) div 1000000)"
    and "100 * ((m * 10000 + 999999) div 1000000 - 1) < m"
    by (simp_all only: q_def)
qed

lemma percentile_rank:
  assumes "xs \<noteq> []" and "0 < p" and "p \<le> 100"
  obtains r where "r < length xs" "percentile xs p = xs ! r"
    "p * length xs \<le> 100 * (r + 1)" "100 * r < p * length xs"
proof -
  let ?m = "int p * int (length xs)"
  let ?q = "(?m * 10000 + 999999) div 1000000"
  note c = rank_is_ceiling [of ?m]
  have m: "0 < ?m" "?m \<le> 100 * int (length xs)" using assms by (auto intro: mult_right_mono)
  have q: "1 \<le> ?q" "?q \<le> int (length xs)" using c m by linarith+
  have "percentile xs p = xs ! nat (?q - 1)"
    using assms(1) q by (simp add: percentile_def Let_def)
  moreover have "int (p * length xs) \<le> int (100 * (nat (?q - 1) + 1))"
    and "int (100 * nat (?q - 1)) < int (p * length xs)"
    using c q by simp_all
  moreover have "nat (?q - 1) < length xs" using q by linarith
  ultimately show ?thesis using that [of "nat (?q - 1)"] by (simp only: of_nat_le_iff of_nat_less_iff)
qed

text \<open>The percentile is an observed value, at least \<open>p\<close> per cent of the observations are no greater,
  and fewer are smaller: the nearest-rank percentile, which never interpolates.\<close>

theorem percentile_nearest_rank:
  assumes "sorted xs" and "xs \<noteq> []" and "0 < p" and "p \<le> 100"
  shows "percentile xs p \<in> set xs
    \<and> p * length xs \<le> 100 * length (filter (\<lambda>x. x \<le> percentile xs p) xs)
    \<and> 100 * length (filter (\<lambda>x. x < percentile xs p) xs) < p * length xs"
proof -
  from percentile_rank [OF assms(2-4)] obtain r where r: "r < length xs" "percentile xs p = xs ! r"
    "p * length xs \<le> 100 * (r + 1)" "100 * r < p * length xs" .
  from sorted_rank [OF assms(1) r(1)] r show ?thesis by simp
qed

section \<open>The distribution is the end of what was recorded\<close>

definition window_ok :: "window \<Rightarrow> bool" where
  "window_ok w \<longleftrightarrow> wn_next w < length (wn_samples w) \<and> 0 \<le> wn_timedOut w \<and> wn_timedOut w \<le> wn_total w"

definition recent :: "window \<Rightarrow> duration list" where
  "recent w =
     (if wn_filled w then drop (wn_next w) (wn_samples w) @ take (wn_next w) (wn_samples w)
      else take (wn_next w) (wn_samples w))"

abbreviation window_cap :: "window \<Rightarrow> nat" where
  "window_cap w \<equiv> length (wn_samples w)"

lemma newWindow_ok [simp, wf_intros]: "window_ok (newWindow n)" "recent (newWindow n) = []"
  "wn_timedOut (newWindow n) = 0" "wn_total (newWindow n) = 0"
  by (auto simp: window_ok_def newWindow_def recent_def Let_def)

lemma take_Suc_update: "k < length xs \<Longrightarrow> take (Suc k) (xs[k := d]) = take k xs @ [d]"
  by (simp add: take_Suc_conv_app_nth)

lemma window_push_recent:
  assumes "window_ok w"
  shows "recent (window_push w d) = last_n (window_cap w) (recent w @ [d])"
proof -
  let ?xs = "wn_samples w" and ?k = "wn_next w"
  have k: "?k < length ?xs" using assms by (simp add: window_ok_def)
  consider "wn_filled w" | "\<not> wn_filled w" "Suc ?k < length ?xs" | "\<not> wn_filled w" "Suc ?k = length ?xs"
    using k by linarith
  then show ?thesis
  proof cases
    case 1
    have "recent (window_push w d) = drop (Suc ?k) (?xs[?k := d]) @ take (Suc ?k) (?xs[?k := d])"
      using 1 k by (cases "Suc ?k = length ?xs") (auto simp: window_push_def recent_def Let_def)
    also have "\<dots> = drop 1 (recent w) @ [d]" using 1 drop_take_update [OF k] by (simp add: recent_def)
    finally show ?thesis using 1 k by (simp add: last_n_def recent_def neq_Nil_conv Suc_diff_le) 
  next
    case 2
    then have "recent (window_push w d) = recent w @ [d]"
      using k by (simp add: window_push_def recent_def Let_def take_Suc_conv_app_nth)
    with 2 show ?thesis by (simp add: last_n_def recent_def)
  next
    case 3
    then have "recent (window_push w d) = recent w @ [d]"
      using take_Suc_update [OF k, of d] by (simp add: window_push_def recent_def Let_def)
    with 3 show ?thesis by (simp add: last_n_def recent_def)
  qed
qed

lemma window_push_ok: "window_ok w \<Longrightarrow> window_ok (window_push w d)"
  by (auto simp: window_ok_def window_push_def Let_def intro: mod_less_divisor)

lemma window_push_cap: "window_cap (window_push w d) = window_cap w"
  by (simp add: window_push_def Let_def)

interpretation samples: bounded_log window_push recent window_cap window_ok
  by unfold_locales (simp_all add: window_push_recent window_push_ok window_push_cap)

lemma window_snapshot_recent:
  assumes "window_ok w"
  shows "fst (window_snapshot w) = sort (recent w)"
proof (cases "wn_filled w")
  case True
  have "mset (recent w) = mset (wn_samples w)"
    using True by (simp add: recent_def) (metis append_take_drop_id mset_append union_commute)
  then show ?thesis using True by (simp add: window_snapshot_def Let_def) (metis properties_for_sort sorted_sort mset_sort)
next
  case False
  then show ?thesis using assms by (simp add: window_snapshot_def recent_def Let_def)
qed

section \<open>The controller\<close>

definition ctrl_ok :: "controller \<Rightarrow> bool" where
  "ctrl_ok c \<longleftrightarrow> 0 < ct_minWindow c \<and> ct_minWindow c \<le> ct_maxWindow c \<and> 0 < ct_safetyFactor c
     \<and> (ct_current c = 0 \<or> ct_minWindow c \<le> ct_current c \<and> ct_current c \<le> ct_maxWindow c)"

definition same_limits :: "controller \<Rightarrow> controller \<Rightarrow> bool" where
  "same_limits c c' \<longleftrightarrow> ct_minWindow c' = ct_minWindow c \<and> ct_maxWindow c' = ct_maxWindow c
     \<and> ct_safetyFactor c' = ct_safetyFactor c"

lemma wanted_bounds:
  assumes "ct_minWindow c \<le> ct_maxWindow c"
  shows "ct_minWindow c \<le> fst (wanted c xs)" and "fst (wanted c xs) \<le> ct_maxWindow c"
  using assms by (auto simp: wanted_def Let_def)

text \<open>The two guards between a computed window and a change.\<close>

definition near :: "controller \<Rightarrow> duration \<Rightarrow> bool" where
  "near c want \<longleftrightarrow> \<bar>of_int (want - ct_current c)\<bar> \<le> hysteresisRatio * of_int (ct_current c)"

definition too_soon :: "controller \<Rightarrow> time \<Rightarrow> bool" where
  "too_soon c now \<longleftrightarrow> ct_lastChangeAt c \<noteq> 0 \<and> time_sub now (ct_lastChangeAt c) < minChangeInterval"

lemma decide_few:
  "n < minObservations \<Longrightarrow> decide c xs n now =
     (if ct_current c = 0
      then (c\<lparr>ct_adaptive := False, ct_current := ct_minWindow c\<rparr>, ct_minWindow c, True)
      else (c\<lparr>ct_adaptive := False\<rparr>, ct_current c, False))"
  by (simp add: decide_def)

lemma near_iff_ratio:
  assumes "0 < ct_current c"
  shows "near c want \<longleftrightarrow>
    (let delta = of_int (want - ct_current c) / of_int (ct_current c);
         delta = (if delta < 0 then - delta else delta) in delta \<le> hysteresisRatio)"
proof -
  have "0 < (of_int (ct_current c) :: rat)" using assms by simp
  moreover have "(if x < 0 then - x else x) = \<bar>x\<bar>" for x :: rat by simp
  ultimately show ?thesis
    by (simp add: near_def Let_def abs_divide pos_divide_le_eq del: of_int_diff)
qed

lemma decide_enough:
  assumes "\<not> n < minObservations" and "ctrl_ok c" and "wanted c xs = (want, cl)"
  shows "decide c xs n now =
    (let c1 = c\<lparr>ct_adaptive := True, ct_clamped := cl\<rparr>
     in if ct_current c \<noteq> 0 \<and> (near c want \<or> too_soon c now) then (c1, ct_current c, False)
        else (c1\<lparr>ct_current := want, ct_lastChangeAt := now, ct_changes := ct_changes c + 1\<rparr>, want, True))"
proof -
  have "wanted (c\<lparr>ct_adaptive := True\<rparr>) xs = wanted c xs" by (simp add: wanted_def Let_def)
  then have w: "wanted (c\<lparr>ct_adaptive := True\<rparr>) xs = (want, cl)" using assms(3) by simp
  show ?thesis
  proof (cases "ct_current c = 0")
    case True
    then show ?thesis using assms(1) by (simp add: decide_def w Let_def)
  next
    case False
    then have pos: "0 < ct_current c" using assms(2) by (auto simp: ctrl_ok_def)
    have "near c (ct_current c)" using pos by (simp add: near_def hysteresisRatio_def)
    then show ?thesis
      using assms(1) False near_iff_ratio [OF pos, of want]
      by (cases "want = ct_current c")
        (simp_all add: decide_def w too_soon_def Let_def del: of_int_diff)
  qed
qed

lemma decide_ok:
  assumes ok: "ctrl_ok c" and d: "decide c xs n now = (c', w, changed)"
  shows "ctrl_ok c'" and "same_limits c c'" and "ct_current c' = w" and "w \<noteq> 0"
proof -
  obtain want cl where want: "wanted c xs = (want, cl)" by force
  have b: "ct_minWindow c \<le> want" "want \<le> ct_maxWindow c"
    using wanted_bounds [of c xs] ok want by (auto simp: ctrl_ok_def)
  have "ctrl_ok c' \<and> same_limits c c' \<and> ct_current c' = w \<and> w \<noteq> 0"
  proof (cases "n < minObservations")
    case True
    then show ?thesis using d ok by (auto simp: decide_few ctrl_ok_def same_limits_def split: if_splits)
  next
    case False
    from d [unfolded decide_enough [OF False ok want]] b ok show ?thesis
      by (auto simp: Let_def ctrl_ok_def same_limits_def split: if_splits)
  qed
  then show "ctrl_ok c'" and "same_limits c c'" and "ct_current c' = w" and "w \<noteq> 0" by auto
qed

text \<open>A change is counted, and comes a minute after the one before.\<close>

lemma decide_changes:
  assumes ok: "ctrl_ok c" and d: "decide c xs n now = (c', w, changed)"
    and cur: "ct_current c = 0 \<longrightarrow> ct_lastChangeAt c = 0"
  shows "ct_changes c' = ct_changes c \<and> ct_lastChangeAt c' = ct_lastChangeAt c
    \<or> ct_changes c' = ct_changes c + 1 \<and> ct_lastChangeAt c' = now
      \<and> (ct_lastChangeAt c = 0 \<or> minChangeInterval \<le> time_sub now (ct_lastChangeAt c))"
proof -
  obtain want cl where want: "wanted c xs = (want, cl)" by force
  show ?thesis
  proof (cases "n < minObservations")
    case True
    then show ?thesis using d by (auto simp: decide_few split: if_splits)
  next
    case False
    from d [unfolded decide_enough [OF False ok want]] cur show ?thesis
      by (auto simp: Let_def too_soon_def split: if_splits)
  qed
qed

section \<open>Runs of the estimator\<close>

text \<open>
  The run starts at \<open>ts\<close>, rounds of \<open>Tick\<close> follow each other by at most \<open>g\<close>, and a measurement
  starts no earlier than the last round; \<open>t\<close> is the time of the last round. Everything else is
  free: the keys offered and drawn, what the oracle holds, what the target answers.
\<close>

inductive est_run :: "LagConfig \<Rightarrow> duration \<Rightarrow> time \<Rightarrow> Estimator \<Rightarrow> time \<Rightarrow> bool"
  for cfg :: LagConfig and g :: duration and ts :: time where
  start: "0 < ts \<Longrightarrow> est_run cfg g ts (Estimator_New cfg) ts"
| offer: "est_run cfg g ts e t \<Longrightarrow> est_run cfg g ts (OfferKey intn key e) t"
| observe: "est_run cfg g ts e t \<Longrightarrow> t \<le> started
    \<Longrightarrow> est_run cfg g ts (lag_Observe hash orc now key version started e) t"
| tick: "est_run cfg g ts e t \<Longrightarrow> t \<le> now \<Longrightarrow> now \<le> t + g
    \<Longrightarrow> est_run cfg g ts (fst (lag_Tick env now e)) now"

text \<open>What one poll leaves alone.\<close>

definition same_control :: "Estimator \<Rightarrow> Estimator \<Rightarrow> bool" where
  "same_control e e' \<longleftrightarrow> es_cfg e' = es_cfg e \<and> es_ctrl e' = es_ctrl e \<and> es_window e' = es_window e
     \<and> es_probes e' = es_probes e"

lemma poll_one_control: "same_control e (poll_one env now p e)"
  by (auto simp: poll_one_def Let_def lag_remove_def same_control_def split: prod.split pollOutcome.split)

lemma poll_loop_control: "same_control e (poll_loop env now i ps e)"
proof (induction env now i ps e rule: poll_loop.induct)
  case (2 env now i p ps e)
  then show ?case using poll_one_control [of e env now p] by (auto simp: same_control_def)
qed (simp add: same_control_def)

lemma pollDue_control: "same_control e (pollDue env now e)"
  by (simp add: pollDue_def poll_loop_control)

lemma Observe_control: "same_control e (lag_Observe hash orc now key version started e)"
  by (auto simp: lag_Observe_def same_control_def split: option.split)

text \<open>A round in parts.\<close>

lemma lag_Tick_parts:
  assumes "same_control e e1" and "e1 = pollDue env now e"
    and "rotateIfDue (es_probes e) now (lc_probeRotation (es_cfg e)) = (ps, rotated)"
  defines "e2 \<equiv> (if rotated then dropNonProbes (e1\<lparr>es_probes := ps\<rparr>) else e1\<lparr>es_probes := ps\<rparr>)"
  shows "fst (lag_Tick env now e) = fst (Recompute now e2)"
    and "es_cfg e2 = es_cfg e" "es_ctrl e2 = es_ctrl e" "es_window e2 = es_window e" "es_probes e2 = ps"
    and "es_win e2 = es_win e1"
  using assms
  by (auto simp: lag_Tick_def Let_def same_control_def dropNonProbes_def split: prod.split)

lemma Recompute_frame:
  "es_cfg (fst (Recompute now e)) = es_cfg e" "es_probes (fst (Recompute now e)) = es_probes e"
  "es_win (fst (Recompute now e)) = es_win e" "es_pending (fst (Recompute now e)) = es_pending e"
  by (auto simp: Recompute_def Let_def split: prod.split)

subsection \<open>The window and the controller\<close>

definition control_ok :: "LagConfig \<Rightarrow> time \<Rightarrow> Estimator \<Rightarrow> time \<Rightarrow> bool" where
  "control_ok cfg ts e t \<longleftrightarrow>
     (let c = es_ctrl e
      in es_cfg e = lag_applyDefaults cfg \<and> 0 < ts \<and> ts \<le> t
         \<and> ct_minWindow c = lc_minWindow (es_cfg e) \<and> ct_maxWindow c = lc_maxWindow (es_cfg e)
         \<and> ct_safetyFactor c = lc_safetyFactor (es_cfg e) \<and> ctrl_ok c
         \<and> (case lc_static (es_cfg e) of
              Some s \<Rightarrow> es_window e = s
            | None \<Rightarrow> es_window e = (if ct_current c = 0 then ct_minWindow c else ct_current c))
         \<and> (ct_current c = 0 \<longrightarrow> ct_lastChangeAt c = 0) \<and> (ct_lastChangeAt c = 0 \<longleftrightarrow> ct_changes c = 0)
         \<and> 0 \<le> ct_changes c \<and> ct_lastChangeAt c \<le> t
         \<and> (ct_changes c \<noteq> 0 \<longrightarrow> ts \<le> ct_lastChangeAt c
              \<and> minChangeInterval * (ct_changes c - 1) \<le> ct_lastChangeAt c - ts))"

lemma lag_defaults_ok:
  "0 < lc_minWindow (lag_applyDefaults c)" "lc_minWindow (lag_applyDefaults c) \<le> lc_maxWindow (lag_applyDefaults c)"
  "0 < lc_safetyFactor (lag_applyDefaults c)" "0 < lc_probeRotation (lag_applyDefaults c)"
  "0 < lc_maxPollDelay (lag_applyDefaults c)" "0 < lc_probeCount (lag_applyDefaults c)"
  by (auto simp: lag_applyDefaults_def Let_def second_def)

lemma New_control: "0 < ts \<Longrightarrow> control_ok cfg ts (Estimator_New cfg) ts"
  using lag_defaults_ok [of cfg]
  by (auto simp: control_ok_def Estimator_New_def Let_def ctrl_ok_def split: option.split)

lemma control_ok_frame:
  "control_ok cfg ts e t \<Longrightarrow> es_cfg e' = es_cfg e \<Longrightarrow> es_ctrl e' = es_ctrl e \<Longrightarrow> es_window e' = es_window e
    \<Longrightarrow> t \<le> t' \<Longrightarrow> control_ok cfg ts e' t'"
  unfolding control_ok_def Let_def by (cases "lc_static (es_cfg e)") auto

lemma time_sub_ge: "0 < d \<Longrightarrow> d \<le> time_sub a b \<Longrightarrow> d \<le> a - b"
  by (auto simp: time_sub_def min_i64_def max_i64_def split: if_splits)

lemma Recompute_control:
  assumes ok: "control_ok cfg ts e now"
  shows "control_ok cfg ts (fst (Recompute now e)) now"
proof (cases "lc_static (es_cfg e)")
  case (Some w)
  then show ?thesis using ok by (simp add: Recompute_def Let_def split: prod.split)
next
  case None
  obtain srt to total where snap: "window_snapshot (es_win e) = (srt, to, total)" by (metis prod_cases3)
  obtain c' w changed where d: "decide (es_ctrl e) srt (length srt) now = (c', w, changed)" by (metis prod_cases3)
  let ?e' = "fst (Recompute now e)"
  have c0: "ctrl_ok (es_ctrl e)" "ct_current (es_ctrl e) = 0 \<longrightarrow> ct_lastChangeAt (es_ctrl e) = 0"
    using ok by (auto simp: control_ok_def Let_def)
  note dk = decide_ok [OF c0(1) d] and dc = decide_changes [OF c0(1) d c0(2)]
  have e': "es_ctrl ?e' = c'" "es_window ?e' = (if changed \<and> w \<noteq> es_window e then w else es_window e)"
    using None by (auto simp: Recompute_def snap d Let_def)
  have unch: "\<not> changed \<Longrightarrow> w = ct_current (es_ctrl e) \<and> ct_current (es_ctrl e) \<noteq> 0"
  proof -
    obtain want cl where want: "wanted (es_ctrl e) srt = (want, cl)" by force
    show "\<not> changed \<Longrightarrow> ?thesis"
      using d decide_few [of "length srt" "es_ctrl e" srt now]
        decide_enough [OF _ c0(1) want, of "length srt" now]
      by (cases "length srt < minObservations") (auto simp: Let_def split: if_splits)
  qed
  have win: "es_window ?e' = ct_current c'"
    using ok None e'(2) unch dk(3) by (auto simp: control_ok_def Let_def)
  have step: "minChangeInterval \<le> time_sub now l \<Longrightarrow> minChangeInterval \<le> now - l" for l
    by (rule time_sub_ge) (simp add: minChangeInterval_def second_def)
  have "ct_lastChangeAt c' \<le> now \<and> (ct_lastChangeAt c' = 0 \<longleftrightarrow> ct_changes c' = 0) \<and> 0 \<le> ct_changes c'
      \<and> (ct_changes c' \<noteq> 0 \<longrightarrow> ts \<le> ct_lastChangeAt c'
           \<and> minChangeInterval * (ct_changes c' - 1) \<le> ct_lastChangeAt c' - ts)"
    using dc
  proof
    assume "ct_changes c' = ct_changes (es_ctrl e) \<and> ct_lastChangeAt c' = ct_lastChangeAt (es_ctrl e)"
    then show ?thesis using ok by (simp add: control_ok_def Let_def)
  next
    let ?c = "es_ctrl e"
    assume h: "ct_changes c' = ct_changes ?c + 1 \<and> ct_lastChangeAt c' = now
      \<and> (ct_lastChangeAt ?c = 0 \<or> minChangeInterval \<le> time_sub now (ct_lastChangeAt ?c))"
    show ?thesis
    proof (cases "ct_changes ?c = 0")
      case True
      then show ?thesis using h ok by (simp add: control_ok_def Let_def)
    next
      case False
      then have "minChangeInterval \<le> now - ct_lastChangeAt ?c"
        and "minChangeInterval * (ct_changes ?c - 1) \<le> ct_lastChangeAt ?c - ts"
        using h ok step by (auto simp: control_ok_def Let_def)
      then have "minChangeInterval * ct_changes ?c \<le> now - ts" by (simp add: algebra_simps)
      then show ?thesis using h ok by (simp add: control_ok_def Let_def)
    qed
  qed
  then show ?thesis
    using ok dk win None Recompute_frame(1) [of now e] e'(1)
    by (simp add: control_ok_def Let_def same_limits_def)
qed

lemma run_control: "est_run cfg g ts e t \<Longrightarrow> control_ok cfg ts e t"
proof (induction rule: est_run.induct)
  case start
  then show ?case by (rule New_control)
next
  case (offer e t intn key)
  show ?case by (rule control_ok_frame [OF offer.IH]) (simp_all add: OfferKey_def)
next
  case (observe e t started hash orc now key version)
  show ?case
    by (rule control_ok_frame [OF observe.IH])
      (use Observe_control [of e hash orc now key version started] in \<open>simp_all add: same_control_def\<close>)
next
  case (tick e t now env)
  obtain ps rotated where r: "rotateIfDue (es_probes e) now (lc_probeRotation (es_cfg e)) = (ps, rotated)"
    by force
  note parts = lag_Tick_parts [OF pollDue_control refl r]
  show ?case
    unfolding parts(1)
    by (rule Recompute_control, rule control_ok_frame [OF tick.IH]) (simp_all add: parts tick.hyps)
qed

text \<open>C34: In any run the settlement window is the configured static one, or stays between the floor and
  the ceiling; and it moves at most once a minute: after \<open>n\<close> changes at least \<open>n - 1\<close> minutes have
  passed, however the measured latency fluctuates.\<close>

theorem settlement_window_stable:
  assumes "est_run cfg g ts e t"
  shows "(case lc_static cfg of
      Some s \<Rightarrow> SettlementWindow e = s
    | None \<Rightarrow> lc_minWindow (lag_applyDefaults cfg) \<le> SettlementWindow e
        \<and> SettlementWindow e \<le> lc_maxWindow (lag_applyDefaults cfg))
    \<and> minChangeInterval * (ct_changes (es_ctrl e) - 1) \<le> t - ts"
proof -
  note ok = run_control [OF assms]
  have st: "lc_static (lag_applyDefaults cfg) = lc_static cfg"
    by (simp add: lag_applyDefaults_def Let_def)
  have "minChangeInterval * (ct_changes (es_ctrl e) - 1) \<le> t - ts"
  proof (cases "ct_changes (es_ctrl e) = 0")
    case True
    then show ?thesis using ok by (simp add: control_ok_def Let_def minChangeInterval_def second_def)
  next
    case False
    then show ?thesis using ok by (auto simp: control_ok_def Let_def)
  qed
  with ok show ?thesis
    by (auto simp: control_ok_def Let_def SettlementWindow_def ctrl_ok_def st split: option.splits if_splits)
qed

subsection \<open>Slow probes widen the window\<close>

lemma filter_le_split:
  fixes d v :: "'a :: linorder"
  assumes "v < d"
  shows "length (filter (\<lambda>x. x \<le> v) xs) + length (filter (\<lambda>x. d \<le> x) xs) \<le> length xs"
  using assms by (induction xs) auto

lemma percentile_ge:
  assumes "sorted xs" and "xs \<noteq> []" and "length xs < 100 * length (filter (\<lambda>x. d \<le> x) xs)"
  shows "d \<le> percentile xs 99"
proof (rule ccontr)
  let ?low = "length (filter (\<lambda>x. x \<le> percentile xs 99) xs)"
  assume "\<not> d \<le> percentile xs 99"
  then have "?low + length (filter (\<lambda>x. d \<le> x) xs) \<le> length xs" by (intro filter_le_split) simp
  then have "100 * ?low + 100 * length (filter (\<lambda>x. d \<le> x) xs) \<le> 100 * length xs" by simp
  moreover have "99 * length xs \<le> 100 * ?low"
  proof -
    have "0 < (99 :: nat)" "(99 :: nat) \<le> 100" by simp_all
    then obtain r where r: "r < length xs" "percentile xs 99 = xs ! r" "99 * length xs \<le> 100 * (r + 1)"
      using percentile_rank [OF assms(2)] by metis
    then show ?thesis using sorted_rank(1) [OF assms(1) r(1)] by simp
  qed
  ultimately show False using assms(3) by linarith
qed

lemma trunc_mono: "x \<le> y \<Longrightarrow> trunc x \<le> trunc y"
proof -
  assume le: "x \<le> y"
  consider "0 \<le> x" | "x < 0" "0 \<le> y" | "y < 0" by linarith
  then show "trunc x \<le> trunc y"
  proof cases
    case 1
    then show ?thesis using le by (simp add: trunc_def floor_mono)
  next
    case 2
    then have "0 \<le> \<lfloor>- x\<rfloor>" "0 \<le> \<lfloor>y\<rfloor>" by simp_all
    then have "- \<lfloor>- x\<rfloor> \<le> \<lfloor>y\<rfloor>" by linarith
    with 2 show ?thesis unfolding trunc_def by auto
  next
    case 3
    then show ?thesis using le by (simp add: trunc_def floor_mono)
  qed
qed

lemma wanted_ge:
  assumes "ctrl_ok c" and "d \<le> percentile xs 99"
  shows "min (ct_maxWindow c) (trunc (of_int d * ct_safetyFactor c)) \<le> fst (wanted c xs)"
proof -
  have "trunc (of_int d * ct_safetyFactor c) \<le> trunc (of_int (percentile xs 99) * ct_safetyFactor c)"
    using assms by (intro trunc_mono mult_right_mono) (auto simp: ctrl_ok_def)
  then show ?thesis using assms(1) by (auto simp: wanted_def Let_def ctrl_ok_def)
qed

text \<open>When more than one per cent of the retained observations took \<open>d\<close> or longer (a timed-out probe
  counts as one that took the full poll delay), the window decided on is at least five sixths of \<open>d\<close>
  times the safety factor, up to the ceiling, unless a change less than a minute ago holds it where
  it is: the slow tail is never averaged away.\<close>

theorem slow_probes_widen:
  assumes ok: "ctrl_ok c" and xs: "sorted xs" and n: "minObservations \<le> length xs"
    and slow: "length xs < 100 * length (filter (\<lambda>x. d \<le> x) xs)"
    and dec: "decide c xs (length xs) now = (c', w, changed)"
  shows "5 * min (ct_maxWindow c) (trunc (of_int d * ct_safetyFactor c)) \<le> 6 * w
    \<or> w = ct_current c \<and> too_soon c now"
proof -
  obtain want cl where want: "wanted c xs = (want, cl)" by force
  have ne: "xs \<noteq> []" using n by (auto simp: minObservations_def)
  have want_ge: "min (ct_maxWindow c) (trunc (of_int d * ct_safetyFactor c)) \<le> want"
    using wanted_ge [OF ok percentile_ge [OF xs ne slow]] want by simp
  have pos: "0 < want" using wanted_bounds(1) [of c xs] ok want by (auto simp: ctrl_ok_def)
  have near: "5 * want \<le> 6 * ct_current c" if "near c want"
  proof -
    have "(of_int (want - ct_current c) :: rat) \<le> of_int (ct_current c) / 5"
      using abs_le_D1 [OF that [unfolded near_def]] by (simp add: hysteresisRatio_def)
    then have "(of_int (5 * want) :: rat) \<le> of_int (6 * ct_current c)" by simp
    then show ?thesis by (simp only: of_int_le_iff)
  qed
  have "\<not> length xs < minObservations" using n by simp
  from dec [unfolded decide_enough [OF this ok want]] want_ge near pos show ?thesis
    by (auto simp: Let_def split: if_splits)
qed

subsection \<open>What becomes of a measurement\<close>

text \<open>The measurements in flight are filed under their own key and started at \<open>b\<close> or later.\<close>

definition flights_ok :: "time \<Rightarrow> (string, pending) go_map \<Rightarrow> bool" where
  "flights_ok b m \<longleftrightarrow> wf_map m \<and> (\<forall>(k, p) \<in> set m. pd_key p = k \<and> b \<le> pd_startedAt p)"

lemma flights_ok_mono: "flights_ok b m \<Longrightarrow> b' \<le> b \<Longrightarrow> flights_ok b' m"
  by (force simp: flights_ok_def)

lemma flights_ok_put:
  "flights_ok b m \<Longrightarrow> pd_key p = k \<Longrightarrow> b \<le> pd_startedAt p \<Longrightarrow> flights_ok b (map_put k p m)"
  by (auto simp: flights_ok_def set_map_put wf_intros)

lemma flights_ok_del: "flights_ok b m \<Longrightarrow> flights_ok b (map_del k m)"
  by (auto simp: flights_ok_def set_map_del wf_intros)

lemma flights_ok_filter: "flights_ok b m \<Longrightarrow> flights_ok b (filter P m)"
  by (auto simp: flights_ok_def distinct_map_filter)

lemma not_yet_frame:
  "not_yet cfg p now = (out, p') \<Longrightarrow> pd_key p' = pd_key p \<and> pd_startedAt p' = pd_startedAt p"
  by (auto simp: not_yet_def Let_def split: if_splits)

lemma poll_frame:
  assumes "poll env cfg p now = (out, p')"
  shows "pd_key p' = pd_key p \<and> pd_startedAt p' = pd_startedAt p"
  using assms not_yet_frame [of cfg p now out p']
  by (auto simp: poll_def split: option.splits sum.splits TargetErr.splits if_splits)

lemma poll_timedOut:
  "poll env cfg p now = (pollTimedOut, p') \<Longrightarrow> lc_maxPollDelay cfg \<le> time_sub now (pd_startedAt p)"
  by (auto simp: poll_def not_yet_def Let_def
      split: option.splits sum.splits TargetErr.splits if_splits)

lemma poll_one_flights:
  assumes "flights_ok b (es_pending e)" and "b \<le> pd_startedAt p"
  shows "flights_ok b (es_pending (poll_one env now p e))"
proof -
  obtain out p' where q: "poll env (es_cfg e) p now = (out, p')" by force
  from poll_frame [OF q] assms show ?thesis
    by (cases out) (auto simp: poll_one_def Let_def q lag_remove_def flights_ok_del flights_ok_put)
qed

lemma poll_loop_flights:
  "flights_ok b (es_pending e) \<Longrightarrow> \<forall>p \<in> set ps. b \<le> pd_startedAt p
    \<Longrightarrow> flights_ok b (es_pending (poll_loop env now i ps e))"
  by (induction env now i ps e rule: poll_loop.induct) (simp_all add: poll_one_flights)

lemma pollDue_flights:
  "flights_ok b (es_pending e) \<Longrightarrow> flights_ok b (es_pending (pollDue env now e))"
  unfolding pollDue_def by (rule poll_loop_flights) (auto simp: flights_ok_def)

text \<open>A poll ends a measurement exactly when it records it or gives it up.\<close>

definition census :: "Estimator \<Rightarrow> int" where
  "census e = wn_total (es_win e) + es_abandoned e + int (length (es_pending e))"

lemma push_total: "wn_total (window_push w d) = wn_total w + 1"
  by (simp add: window_push_def Let_def)

lemma poll_one_census:
  assumes "wf_map (es_pending e)" and k: "map_get (es_pending e) (pd_key p) \<noteq> None"
  shows "census (poll_one env now p e) = census e"
proof -
  obtain out p' where q: "poll env (es_cfg e) p now = (out, p')" by force
  have "int (length (map_del (pd_key p) (es_pending e))) = int (length (es_pending e)) - 1"
    using length_del [OF assms] by linarith
  then show ?thesis
    using k by (cases out) (auto simp: poll_one_def Let_def q lag_remove_def census_def
        window_record_def recordTimeout_def push_total length_put)
qed

lemma poll_one_others:
  assumes "k \<noteq> pd_key p"
  shows "map_get (es_pending (poll_one env now p e)) k = map_get (es_pending e) k"
  using assms by (auto simp: poll_one_def Let_def lag_remove_def split: prod.split pollOutcome.split)

lemma poll_one_wf: "wf_map (es_pending e) \<Longrightarrow> wf_map (es_pending (poll_one env now p e))"
  by (auto simp: poll_one_def Let_def lag_remove_def wf_intros split: prod.split pollOutcome.split)

lemma poll_loop_census:
  "wf_map (es_pending e) \<Longrightarrow> distinct (map pd_key ps)
    \<Longrightarrow> \<forall>p \<in> set ps. map_get (es_pending e) (pd_key p) \<noteq> None
    \<Longrightarrow> census (poll_loop env now i ps e) = census e"
proof (induction env now i ps e rule: poll_loop.induct)
  case (2 env now i p ps e)
  have "\<forall>q \<in> set ps. map_get (es_pending (poll_one env now p e)) (pd_key q) \<noteq> None"
  proof
    fix q assume "q \<in> set ps"
    moreover from this have "pd_key q \<noteq> pd_key p" using 2(3) by (auto simp: image_iff)
    ultimately show "map_get (es_pending (poll_one env now p e)) (pd_key q) \<noteq> None"
      using 2(4) by (simp add: poll_one_others)
  qed
  then have "\<not> pe_done env i \<Longrightarrow>
      census (poll_loop env now (i + 1) ps (poll_one env now p e)) = census (poll_one env now p e)"
    using 2 by (simp add: poll_one_wf)
  then show ?case using 2(2,4) by (simp add: poll_one_census)
qed simp

lemma pollDue_census:
  assumes ok: "flights_ok b (es_pending e)"
  shows "census (pollDue env now e) = census e"
  unfolding pollDue_def
proof (rule poll_loop_census)
  let ?m = "es_pending e" and ?due = "\<lambda>p. \<not> now < pd_nextPollAt p"
  show wf: "wf_map ?m" using ok by (simp add: flights_ok_def)
  have keys: "map pd_key (map snd ?m) = map fst ?m" using ok by (auto simp: flights_ok_def)
  then show "distinct (map pd_key (filter ?due (map snd ?m)))"
    using wf by (metis distinct_map_filter)
  show "\<forall>p \<in> set (filter ?due (map snd ?m)). map_get ?m (pd_key p) \<noteq> None"
    using ok by (auto simp: flights_ok_def map_get_def map_of_eq_None_iff image_iff) force
qed

text \<open>Where a run stands relative to the last rotation.\<close>

definition timed_ok :: "LagConfig \<Rightarrow> duration \<Rightarrow> time \<Rightarrow> Estimator \<Rightarrow> time \<Rightarrow> bool" where
  "timed_ok cfg g ts e t \<longleftrightarrow>
     (let rot = ps_rotatedAt (es_probes e)
      in es_cfg e = lag_applyDefaults cfg \<and> 0 < ts \<and> ts \<le> t
         \<and> (if rot = 0 then t = ts \<and> flights_ok ts (es_pending e)
            else rot \<le> t \<and> t - rot < lc_probeRotation (es_cfg e) \<and> flights_ok (rot - g) (es_pending e)))"

lemma New_timed: "0 < ts \<Longrightarrow> timed_ok cfg g ts (Estimator_New cfg) ts"
  by (simp add: timed_ok_def Estimator_New_def Let_def newProbeSet_def flights_ok_def)

lemma offer_rotatedAt: "ps_rotatedAt (probe_offer intn key p) = ps_rotatedAt p"
  by (simp add: probe_offer_def Let_def)

lemma Observe_flights:
  assumes "flights_ok b (es_pending e)" and "b \<le> started"
  shows "flights_ok b (es_pending (lag_Observe hash orc now key version started e))"
  using assms by (auto simp: lag_Observe_def split: option.split intro!: flights_ok_put)

lemma lag_Tick_pending:
  assumes r: "rotateIfDue (es_probes e) now (lc_probeRotation (es_cfg e)) = (ps, rotated)"
  shows "es_pending (fst (lag_Tick env now e)) = (if rotated then [] else es_pending (pollDue env now e))"
    and "es_probes (fst (lag_Tick env now e)) = ps"
    and "es_cfg (fst (lag_Tick env now e)) = es_cfg e"
    and "\<not> rotated \<Longrightarrow> census (fst (lag_Tick env now e)) = census (pollDue env now e)"
proof -
  note parts = lag_Tick_parts [OF pollDue_control refl r]
  have empty: "rotated \<Longrightarrow> ps_index ps = []" using r by (auto simp: rotateIfDue_def split: if_splits)
  show "es_pending (fst (lag_Tick env now e)) = (if rotated then [] else es_pending (pollDue env now e))"
    unfolding parts(1) by (auto simp: Recompute_frame dropNonProbes_def probe_contains_def empty)
  show "es_probes (fst (lag_Tick env now e)) = ps" "es_cfg (fst (lag_Tick env now e)) = es_cfg e"
    unfolding parts(1) by (simp_all add: Recompute_frame parts)
  have "es_abandoned (fst (Recompute now x)) = es_abandoned x" for x
    by (auto simp: Recompute_def Let_def split: prod.split)
  then show "\<not> rotated \<Longrightarrow> census (fst (lag_Tick env now e)) = census (pollDue env now e)"
    unfolding parts(1) by (simp add: census_def Recompute_frame)
qed

lemma time_sub_less: "d \<le> max_i64 \<Longrightarrow> b \<le> a \<Longrightarrow> time_sub a b < d \<Longrightarrow> a - b < d"
  by (auto simp: time_sub_def min_i64_def max_i64_def split: if_splits)

lemma Tick_timed:
  assumes ok: "timed_ok cfg g ts e t" and g: "0 \<le> g" and now: "t \<le> now" "now \<le> t + g"
    and every: "lc_probeRotation (lag_applyDefaults cfg) \<le> max_i64"
  shows "timed_ok cfg g ts (fst (lag_Tick env now e)) now"
proof -
  let ?every = "lc_probeRotation (es_cfg e)" and ?rot = "ps_rotatedAt (es_probes e)"
  obtain ps rotated where r: "rotateIfDue (es_probes e) now ?every = (ps, rotated)" by force
  note p = lag_Tick_pending [OF r, of env]
  have e: "es_cfg e = lag_applyDefaults cfg" "0 < ts" "ts \<le> t" "0 < ?every"
    using ok lag_defaults_ok(4) [of cfg] by (auto simp: timed_ok_def Let_def)
  consider "?rot = 0" | "?rot \<noteq> 0" "time_sub now ?rot < ?every" | "?rot \<noteq> 0" "\<not> time_sub now ?rot < ?every"
    by blast
  then show ?thesis
  proof cases
    case 1
    then have "flights_ok ts (es_pending (pollDue env now e))" "t = ts"
      using ok by (simp_all add: timed_ok_def Let_def pollDue_flights)
    then have "flights_ok (now - g) (es_pending (pollDue env now e))"
      using now flights_ok_mono [where b = ts and b' = "now - g"] by simp
    moreover have "ps_rotatedAt ps = now" "\<not> rotated" using 1 r by (auto simp: rotateIfDue_def)
    ultimately show ?thesis using e now by (simp add: timed_ok_def Let_def p)
  next
    case 2
    then have "?rot \<le> now" "flights_ok (?rot - g) (es_pending (pollDue env now e))"
      using ok now by (simp_all add: timed_ok_def Let_def pollDue_flights)
    moreover have "ps = es_probes e" "\<not> rotated" using 2 r by (auto simp: rotateIfDue_def)
    moreover have "now - ?rot < ?every"
      using 2 every e(1) \<open>?rot \<le> now\<close> by (intro time_sub_less) simp_all
    ultimately show ?thesis using 2(1) e now by (simp add: timed_ok_def Let_def p)
  next
    case 3
    then have "ps_rotatedAt ps = now" "rotated" using r by (auto simp: rotateIfDue_def)
    then show ?thesis using e now by (simp add: timed_ok_def Let_def p flights_ok_def)
  qed
qed

lemma run_timed:
  assumes "est_run cfg g ts e t" and "0 \<le> g" and "lc_probeRotation (lag_applyDefaults cfg) \<le> max_i64"
  shows "timed_ok cfg g ts e t"
  using assms
proof (induction rule: est_run.induct)
  case start
  then show ?case by (simp add: New_timed)
next
  case (offer e t intn key)
  then show ?case by (auto simp: timed_ok_def Let_def OfferKey_def offer_rotatedAt split: if_splits)
next
  case (observe e t started hash orc now key version)
  let ?rot = "ps_rotatedAt (es_probes e)"
  let ?e' = "lag_Observe hash orc now key version started e"
  have ok: "timed_ok cfg g ts e t" using observe by simp
  have "flights_ok b (es_pending ?e')" if "flights_ok b (es_pending e)" "b \<le> t" for b
    using that observe.hyps by (intro Observe_flights) simp_all
  then show ?case
    using ok observe.prems Observe_control [of e hash orc now key version started]
    by (auto simp: timed_ok_def Let_def same_control_def split: if_splits)
next
  case (tick e t now env)
  then show ?case by (auto intro: Tick_timed)
qed

text \<open>A round of polls loses no measurement: unless it ends with a rotation, every measurement in
  flight before it has been recorded, given up because the oracle moved on or the target holds
  another type, or is still in flight. A rotation throws every measurement in flight away.\<close>

theorem measurements_accounted:
  assumes "est_run cfg g ts e t" and "0 \<le> g" and "lc_probeRotation (lag_applyDefaults cfg) \<le> max_i64"
  shows "if snd (rotateIfDue (es_probes e) now (lc_probeRotation (es_cfg e)))
    then es_pending (fst (lag_Tick env now e)) = []
    else census (fst (lag_Tick env now e)) = census e"
proof -
  obtain ps rotated where r: "rotateIfDue (es_probes e) now (lc_probeRotation (es_cfg e)) = (ps, rotated)"
    by force
  obtain b where "flights_ok b (es_pending e)"
    using run_timed [OF assms] by (auto simp: timed_ok_def Let_def split: if_splits)
  from pollDue_census [OF this, of env now] show ?thesis
    using lag_Tick_pending [OF r, of env] r by simp
qed

text \<open>Because a rotation discards the measurements in flight, a poll can only time a measurement out
  if it started within \<open>rotation + g - maxPollDelay\<close> of the last rotation (and not more than one
  round before it), where \<open>g\<close> is the longest time between two rounds. With the defaults, where the
  rotation and the poll delay are both a minute and rounds come every ten milliseconds, that leaves
  ten milliseconds in each minute; the slow measurements of the rest of the minute are dropped
  unrecorded.\<close>

theorem timeouts_only_at_rotation:
  assumes run: "est_run cfg g ts e t" and g: "0 \<le> g"
    and every: "lc_probeRotation (lag_applyDefaults cfg) \<le> max_i64"
    and now: "t \<le> now" "now \<le> t + g" and rotated: "ps_rotatedAt (es_probes e) \<noteq> 0"
    and p: "(k, p) \<in> set (es_pending e)" "fst (poll env (es_cfg e) p now) = pollTimedOut"
  shows "ps_rotatedAt (es_probes e) - g \<le> pd_startedAt p
    \<and> pd_startedAt p < ps_rotatedAt (es_probes e)
        + (lc_probeRotation (lag_applyDefaults cfg) + g - lc_maxPollDelay (lag_applyDefaults cfg))"
proof -
  note ok = run_timed [OF run g every]
  obtain p' where "poll env (es_cfg e) p now = (pollTimedOut, p')" using p(2) by (metis prod.collapse)
  from poll_timedOut [OF this] have "lc_maxPollDelay (es_cfg e) \<le> time_sub now (pd_startedAt p)" .
  moreover have "0 < lc_maxPollDelay (es_cfg e)"
    using ok lag_defaults_ok(5) [of cfg] by (simp add: timed_ok_def Let_def)
  ultimately have "lc_maxPollDelay (es_cfg e) \<le> now - pd_startedAt p" by (simp add: time_sub_ge)
  with ok now rotated p(1) show ?thesis by (auto simp: timed_ok_def Let_def flights_ok_def)
qed

section \<open>Witnesses\<close>

definition sample_lag :: LagConfig where
  "sample_lag = \<lparr>lc_probeCount = 2, lc_probeRotation = 3 * second, lc_maxPollDelay = 3 * second,
     lc_windowSize = 4, lc_minWindow = 0, lc_maxWindow = 0, lc_safetyFactor = 0, lc_static = None\<rparr>"

text \<open>A target that never takes the event over.\<close>

definition sample_poll :: poll_env where
  "sample_poll = \<lparr>pe_hash = sample_hash, pe_orc = (\<lambda>_. sample_orc), pe_get = (\<lambda>_. Inr zero_Value),
     pe_done = (\<lambda>_. False)\<rparr>"

definition sample_est :: Estimator where
  "sample_est =
     fst (lag_Tick sample_poll (t0 + 2 * second)
       (fst (lag_Tick sample_poll (t0 + second)
         (lag_Observe sample_hash sample_orc t0 ''k'' 1 t0
           (OfferKey (\<lambda>_. 0) ''k'' (fst (lag_Tick sample_poll t0 (Estimator_New sample_lag))))))))"

lemma sample_est_run: "est_run sample_lag second t0 sample_est (t0 + 2 * second)"
  unfolding sample_est_def
  by (rule est_run.tick [where t = "t0 + second"], rule est_run.tick [where t = t0],
      rule est_run.observe, rule est_run.offer, rule est_run.tick [where t = t0], rule est_run.start)
    (simp_all add: t0_def second_def)

text \<open>What the witnesses read off the sample run, evaluated once.\<close>

definition sample_view :: "Estimator \<Rightarrow> time \<times> bool \<times> int \<times> bool \<times> bool" where
  "sample_view e =
     (ps_rotatedAt (es_probes e),
      snd (rotateIfDue (es_probes e) (t0 + 2 * second) (lc_probeRotation (es_cfg e))),
      census e,
      list_all (\<lambda>kp. fst (poll sample_poll (es_cfg e) (snd kp) (t0 + 3 * second)) = pollTimedOut)
        (es_pending e),
      es_pending e \<noteq> [])"

lemma sample_view: "sample_view sample_est = (t0, False, 1, True, True)"
  by code_simp

lemma sample_lag_facts:
  "lc_static sample_lag = None" "lc_maxWindow (lag_applyDefaults sample_lag) = 120 * second"
  "lc_probeRotation (lag_applyDefaults sample_lag) = 3 * second"
  "lc_maxPollDelay (lag_applyDefaults sample_lag) = 3 * second"
  by (simp_all add: sample_lag_def lag_applyDefaults_def Let_def second_def)

lemma sample_rotation: "lc_probeRotation (lag_applyDefaults sample_lag) \<le> max_i64"
  by (simp add: sample_lag_facts second_def max_i64_def)

theorem settlement_window_stable_witness:
  "SettlementWindow sample_est \<le> 120 * second"
  using settlement_window_stable [OF sample_est_run] by (simp add: sample_lag_facts)

theorem percentile_nearest_rank_witness: "percentile [1, 2, 3] 50 \<in> {1, 2, 3}"
  using percentile_nearest_rank [of "[1, 2, 3]" 50] by simp

definition sample_ctrl :: controller where
  "sample_ctrl = es_ctrl (Estimator_New sample_lag)"

text \<open>Two probes of a hundred timed out at a minute; the window is the ceiling.\<close>

theorem slow_probes_widen_witness:
  "5 * min (120 * second) (180 * second) \<le> 6 * fst (snd (decide sample_ctrl
      (replicate 98 (10 * millisecond) @ replicate 2 (60 * second)) 100 t0))"
proof -
  let ?xs = "replicate 98 (10 * millisecond) @ replicate 2 (60 * second)"
  have "ctrl_ok sample_ctrl" "ct_maxWindow sample_ctrl = 120 * second" "ct_lastChangeAt sample_ctrl = 0"
    "trunc (of_int (60 * second) * ct_safetyFactor sample_ctrl) = 180 * second"
    by code_simp+
  moreover have "sorted ?xs" "minObservations \<le> length ?xs" "length ?xs = 100"
    by (auto simp: sorted_append millisecond_def second_def minObservations_def)
  moreover have "length ?xs < 100 * length (filter (\<lambda>x. 60 * second \<le> x) ?xs)"
    by (simp add: millisecond_def second_def)
  ultimately show ?thesis
    using slow_probes_widen [of sample_ctrl ?xs "60 * second" t0] by (auto simp: too_soon_def) (metis prod.collapse)
qed

text \<open>A round that does not rotate keeps the census.\<close>

theorem measurements_accounted_witness:
  "census (fst (lag_Tick sample_poll (t0 + 2 * second) sample_est)) = 1"
  using measurements_accounted [OF sample_est_run _ sample_rotation, of "t0 + 2 * second" sample_poll]
    sample_view by (simp add: sample_view_def second_def)

text \<open>The one probe that can time out started at the rotation itself.\<close>

theorem timeouts_only_at_rotation_witness:
  "\<exists>k p. (k, p) \<in> set (es_pending sample_est)
     \<and> fst (poll sample_poll (es_cfg sample_est) p (t0 + 3 * second)) = pollTimedOut
     \<and> t0 - second \<le> pd_startedAt p \<and> pd_startedAt p < t0 + second"
proof -
  have a: "\<forall>kp \<in> set (es_pending sample_est).
      fst (poll sample_poll (es_cfg sample_est) (snd kp) (t0 + 3 * second)) = pollTimedOut"
    and b: "ps_rotatedAt (es_probes sample_est) = t0" and n: "es_pending sample_est \<noteq> []"
    using sample_view by (simp_all add: sample_view_def list_all_iff)
  obtain k p where kp: "(k, p) \<in> set (es_pending sample_est)"
    using n by (cases "es_pending sample_est") auto
  have to: "fst (poll sample_poll (es_cfg sample_est) p (t0 + 3 * second)) = pollTimedOut" using a kp by force
  have c: "t0 \<noteq> 0" "0 \<le> second" by (simp_all add: t0_def second_def)
  have "t0 - second \<le> pd_startedAt p \<and> pd_startedAt p < t0 + second"
    using timeouts_only_at_rotation [OF sample_est_run c(2) sample_rotation _ _ _ kp to] b c(1)
    by (simp add: second_def sample_lag_facts)
  with kp to show ?thesis by blast
qed

end
