(* ===== verification/Scan.thy ===== *)
theory Scan
  imports DW_Prelude
begin

text \<open>
  The scanner of \<open>pkg/codec/json.go\<close>: \<open>parser\<close> with its methods, and the decoding of string escapes.
  It validates the structure of a document without building a tree and bounds the nesting depth.

  The parser's position is the suffix of the payload that is still to be read, so that the bytes a
  method consumed are a prefix of what it was given. \<open>lastStringEscaped\<close> is read only right after
  a string, so \<open>scanValue\<close> returns it with the kind. The recursion ends because every method
  consumes at least one byte when it succeeds, which is proved before the termination of the
  recursion. The second half compares the scanner with a grammar.
\<close>

section \<open>Errors\<close>

datatype CodecError =
    ErrMalformed | ErrTooLarge | CodecErrUnknownOp | CodecErrMissingField
  | CodecErrUnexpectedField | CodecErrInvalidField

section \<open>The scanner\<close>

abbreviation quote_ch :: char where "quote_ch \<equiv> CHR 0x22"
abbreviation backslash :: char where "backslash \<equiv> CHR 0x5C"

definition is_ws :: "char \<Rightarrow> bool" where
  "is_ws c \<longleftrightarrow> c = CHR '' '' \<or> c = CHR 0x09 \<or> c = CHR 0x0A \<or> c = CHR 0x0D"

definition ws :: "bytes \<Rightarrow> bytes" where
  "ws s = dropWhile is_ws s"

definition starts :: "char \<Rightarrow> bytes \<Rightarrow> bool" where
  "starts c s \<longleftrightarrow> s \<noteq> [] \<and> hd s = c"

definition is_digit :: "char \<Rightarrow> bool" where
  "is_digit c \<longleftrightarrow> CHR ''0'' \<le> c \<and> c \<le> CHR ''9''"

definition eof :: "bytes \<Rightarrow> CodecError option" where
  "eof s = (if ws s \<noteq> [] then Some ErrMalformed else None)"

definition scanLiteral :: "bytes \<Rightarrow> bytes \<Rightarrow> CodecError + bytes" where
  "scanLiteral want s =
     (if take (length want) s = want then Inr (drop (length want) s) else Inl ErrMalformed)"

text \<open>The loop of \<open>scanString\<close> after the opening quote: the body, whether it has an escape, the rest.\<close>

fun scan_chars :: "bytes \<Rightarrow> CodecError + bytes \<times> bool \<times> bytes" where
  "scan_chars [] = Inl ErrMalformed"
| "scan_chars (c # s) =
     (if c = backslash then
        (case s of
           [] \<Rightarrow> Inl ErrMalformed
         | d # s \<Rightarrow>
             (case scan_chars s of
                Inl err \<Rightarrow> Inl err
              | Inr (body, _, rest) \<Rightarrow> Inr (c # d # body, True, rest)))
      else if c = quote_ch then Inr ([], False, s)
      else if c < CHR 0x20 then Inl ErrMalformed
      else
        (case scan_chars s of
           Inl err \<Rightarrow> Inl err
         | Inr (body, escaped, rest) \<Rightarrow> Inr (c # body, escaped, rest)))"

definition scanString :: "bytes \<Rightarrow> CodecError + bytes \<times> bool \<times> bytes" where
  "scanString s = (if \<not> starts quote_ch s then Inl ErrMalformed else scan_chars (tl s))"

text \<open>A run of at least one digit.\<close>

definition scan_digits :: "bytes \<Rightarrow> CodecError + bytes" where
  "scan_digits s =
     (if takeWhile is_digit s = [] then Inl ErrMalformed else Inr (dropWhile is_digit s))"

definition scan_fraction :: "bytes \<Rightarrow> CodecError + bytes" where
  "scan_fraction s = (if starts CHR ''.'' s then scan_digits (tl s) else Inr s)"

definition scan_exponent :: "bytes \<Rightarrow> CodecError + bytes" where
  "scan_exponent s =
     (if starts CHR ''e'' s \<or> starts CHR ''E'' s then
        let s = tl s;
            s = (if starts CHR ''+'' s \<or> starts CHR ''-'' s then tl s else s)
        in scan_digits s
      else Inr s)"

text \<open>The code's last test, that something was consumed, follows from the digits.\<close>

definition scanNumber :: "bytes \<Rightarrow> CodecError + bytes" where
  "scanNumber s =
     (case scan_digits (if starts CHR ''-'' s then tl s else s) of
        Inl err \<Rightarrow> Inl err
      | Inr s \<Rightarrow>
          (case scan_fraction s of
             Inl err \<Rightarrow> Inl err
           | Inr s \<Rightarrow> scan_exponent s))"

text \<open>The kind of a value: a string, a number, a boolean, null, a container.\<close>

definition keep_kind :: "char \<Rightarrow> CodecError + bytes \<Rightarrow> CodecError + char \<times> bool \<times> bytes" where
  "keep_kind k r = (case r of Inl err \<Rightarrow> Inl err | Inr rest \<Rightarrow> Inr (k, False, rest))"

function scanValue :: "nat \<Rightarrow> nat \<Rightarrow> bytes \<Rightarrow> CodecError + char \<times> bool \<times> bytes"
  and scanObject :: "nat \<Rightarrow> nat \<Rightarrow> bytes \<Rightarrow> CodecError + bytes"
  and object_loop :: "nat \<Rightarrow> nat \<Rightarrow> bytes \<Rightarrow> CodecError + bytes"
  and scanArray :: "nat \<Rightarrow> nat \<Rightarrow> bytes \<Rightarrow> CodecError + bytes"
  and array_loop :: "nat \<Rightarrow> nat \<Rightarrow> bytes \<Rightarrow> CodecError + bytes"
where
  "scanValue maxDepth depth s =
     (if maxDepth < depth then Inl ErrTooLarge
      else
        (case s of
           [] \<Rightarrow> Inl ErrMalformed
         | ch # r \<Rightarrow>
             if ch = quote_ch then
               (case scanString s of
                  Inl err \<Rightarrow> Inl err
                | Inr (body, escaped, rest) \<Rightarrow> Inr (CHR ''s'', escaped, rest))
             else if ch = CHR ''{'' then keep_kind CHR ''c'' (scanObject maxDepth depth r)
             else if ch = CHR ''['' then keep_kind CHR ''c'' (scanArray maxDepth depth r)
             else if ch = CHR ''t'' then keep_kind CHR ''b'' (scanLiteral ''true'' s)
             else if ch = CHR ''f'' then keep_kind CHR ''b'' (scanLiteral ''false'' s)
             else if ch = CHR ''n'' then keep_kind CHR ''z'' (scanLiteral ''null'' s)
             else if ch = CHR ''-'' \<or> is_digit ch then keep_kind CHR ''n'' (scanNumber s)
             else Inl ErrMalformed))"
| "scanObject maxDepth depth s =
     (let s = ws s
      in if starts CHR ''}'' s then Inr (tl s) else object_loop maxDepth depth s)"
| "object_loop maxDepth depth s =
     (case scanString (ws s) of
        Inl err \<Rightarrow> Inl err
      | Inr (body, escaped, s1) \<Rightarrow>
          if \<not> starts CHR '':'' (ws s1) then Inl ErrMalformed
          else
            (case scanValue maxDepth (depth + 1) (ws (tl (ws s1))) of
               Inl err \<Rightarrow> Inl err
             | Inr (kind, esc, s2) \<Rightarrow>
                 if starts CHR '','' (ws s2) then object_loop maxDepth depth (tl (ws s2))
                 else if starts CHR ''}'' (ws s2) then Inr (tl (ws s2))
                 else Inl ErrMalformed))"
| "scanArray maxDepth depth s =
     (let s = ws s
      in if starts CHR '']'' s then Inr (tl s) else array_loop maxDepth depth s)"
| "array_loop maxDepth depth s =
     (case scanValue maxDepth (depth + 1) (ws s) of
        Inl err \<Rightarrow> Inl err
      | Inr (kind, esc, s1) \<Rightarrow>
          if starts CHR '','' (ws s1) then array_loop maxDepth depth (tl (ws s1))
          else if starts CHR '']'' (ws s1) then Inr (tl (ws s1))
          else Inl ErrMalformed)"
  by pat_completeness auto

section \<open>Every method consumes what it accepts\<close>

lemma starts_Cons [simp]: "starts c (d # s) \<longleftrightarrow> d = c"
  by (auto simp: starts_def)

lemma starts_Nil [simp]: "\<not> starts c []"
  by (simp add: starts_def)

lemma starts_conv: "starts c s \<longleftrightarrow> (\<exists>r. s = c # r)"
  by (cases s) auto

lemma length_ws: "length (ws s) \<le> length s"
  by (simp add: ws_def length_dropWhile_le)

lemma length_tl_starts: "starts c s \<Longrightarrow> Suc (length (tl s)) = length s"
  by (cases s) auto

lemma length_tl_ws: "starts c (ws s) \<Longrightarrow> Suc (length (tl (ws s))) \<le> length s"
  using length_ws [of s] by (cases "ws s") auto

lemma scan_chars_shorter: "scan_chars s = Inr (b, e, rest) \<Longrightarrow> length rest < length s"
proof (induction s arbitrary: b e rest rule: scan_chars.induct)
  case (2 c s)
  then show ?case
    by (fastforce split: if_splits list.splits sum.splits)
qed simp

lemma scanString_shorter: "scanString s = Inr (b, e, rest) \<Longrightarrow> length rest < length s"
  by (cases s) (auto simp: scanString_def dest: scan_chars_shorter split: if_splits)

lemma scan_digits_shorter: "scan_digits s = Inr rest \<Longrightarrow> length rest < length s"
  by (cases s) (auto simp: scan_digits_def length_dropWhile_le le_imp_less_Suc split: if_splits)

lemma scan_fraction_le: "scan_fraction s = Inr rest \<Longrightarrow> length rest \<le> length s"
  using scan_digits_shorter [of "tl s" rest] by (auto simp: scan_fraction_def split: if_splits)

lemma scan_exponent_le: "scan_exponent s = Inr rest \<Longrightarrow> length rest \<le> length s"
  using scan_digits_shorter [of "tl s" rest] scan_digits_shorter [of "tl (tl s)" rest]
  by (auto simp: scan_exponent_def Let_def split: if_splits)

lemma scanNumber_shorter:
  assumes "scanNumber s = Inr rest"
  shows "length rest < length s"
proof -
  obtain s1 s2 where s: "scan_digits (if starts CHR ''-'' s then tl s else s) = Inr s1"
    "scan_fraction s1 = Inr s2" "scan_exponent s2 = Inr rest"
    using assms by (auto simp: scanNumber_def split: sum.splits)
  have "length s1 < length (if starts CHR ''-'' s then tl s else s)" by (rule scan_digits_shorter [OF s(1)])
  then have "length s1 < length s" by (auto split: if_splits)
  then show ?thesis using scan_fraction_le [OF s(2)] scan_exponent_le [OF s(3)] by simp
qed

lemma scanLiteral_shorter: "scanLiteral w s = Inr rest \<Longrightarrow> w \<noteq> [] \<Longrightarrow> s \<noteq> [] \<Longrightarrow> length rest < length s"
  by (auto simp: scanLiteral_def split: if_splits)

lemmas shorter = scanString_shorter scanNumber_shorter scanLiteral_shorter

lemma keep_kind_Inr: "keep_kind k r = Inr (k', e, rest) \<longleftrightarrow> r = Inr rest \<and> k' = k \<and> \<not> e"
  by (auto simp: keep_kind_def split: sum.splits)

lemma scan_consumes:
  shows "scanValue_scanObject_object_loop_scanArray_array_loop_dom (Inl (Inl (md1, d1, s1)))
      \<Longrightarrow> \<forall>k e rest. scanValue md1 d1 s1 = Inr (k, e, rest) \<longrightarrow> length rest < length s1"
    and "scanValue_scanObject_object_loop_scanArray_array_loop_dom (Inl (Inr (md2, d2, s2)))
      \<Longrightarrow> \<forall>rest. scanObject md2 d2 s2 = Inr rest \<longrightarrow> length rest < length s2"
    and "scanValue_scanObject_object_loop_scanArray_array_loop_dom (Inr (Inl (md3, d3, s3)))
      \<Longrightarrow> \<forall>rest. object_loop md3 d3 s3 = Inr rest \<longrightarrow> length rest < length s3"
    and "scanValue_scanObject_object_loop_scanArray_array_loop_dom (Inr (Inr (Inl (md4, d4, s4))))
      \<Longrightarrow> \<forall>rest. scanArray md4 d4 s4 = Inr rest \<longrightarrow> length rest < length s4"
    and "scanValue_scanObject_object_loop_scanArray_array_loop_dom (Inr (Inr (Inr (md5, d5, s5))))
      \<Longrightarrow> \<forall>rest. array_loop md5 d5 s5 = Inr rest \<longrightarrow> length rest < length s5"
proof (induction md1 d1 s1 and md2 d2 s2 and md3 d3 s3 and md4 d4 s4 and md5 d5 s5
    rule: scanValue_scanObject_object_loop_scanArray_array_loop.pinduct)
  case (1 md d s)
  show ?case
  proof (intro allI impI)
    fix k e rest assume r: "scanValue md d s = Inr (k, e, rest)"
    then have le: "\<not> md < d" by (auto simp: scanValue.psimps [OF 1(1)])
    then obtain ch t where s: "s = ch # t"
      using r [unfolded scanValue.psimps [OF 1(1)]] by (cases s) auto
    note eq = r [unfolded scanValue.psimps [OF 1(1)], unfolded s list.case if_not_P [OF le]]
    consider "ch = quote_ch" | "ch \<noteq> quote_ch" "ch = CHR ''{''" | "ch = CHR ''[''"
      | "ch \<noteq> quote_ch" "ch \<noteq> CHR ''{''" "ch \<noteq> CHR ''[''" by blast
    then show "length rest < length s"
    proof cases
      case 1
      then show ?thesis using eq scanString_shorter by (fastforce simp: s split: sum.splits)
    next
      case 2
      then show ?thesis using eq "1"(2) [OF le s 2] by (auto simp: keep_kind_Inr s)
    next
      case 3
      then show ?thesis using eq "1"(3) [OF le s] by (auto simp: keep_kind_Inr s)
    next
      case 4
      have "scanLiteral ''true'' s = Inr rest \<or> scanLiteral ''false'' s = Inr rest
          \<or> scanLiteral ''null'' s = Inr rest \<or> scanNumber s = Inr rest"
        using eq 4 by (simp add: keep_kind_Inr s split: if_splits)
      then show ?thesis using scanLiteral_shorter scanNumber_shorter s by blast
    qed
  qed
next
  case (2 md d s)
  then show ?case
    using length_ws [of s] length_tl_ws [of "CHR ''}''" s]
    by (auto simp: scanObject.psimps Let_def split: if_splits)
next
  case (3 md d s)
  show ?case
  proof (intro allI impI)
    fix rest assume r: "object_loop md d s = Inr rest"
    obtain b e s1 where s1: "scanString (ws s) = Inr (b, e, s1)" "starts CHR '':'' (ws s1)"
      using r by (auto simp: object_loop.psimps [OF 3(1)] split: sum.splits if_splits)
    obtain k e' s2 where s2: "scanValue md (d + 1) (ws (tl (ws s1))) = Inr (k, e', s2)"
      using r s1 by (auto simp: object_loop.psimps [OF 3(1)] split: sum.splits)
    have "length s2 < length (ws (tl (ws s1)))" using 3(2) [OF s1(1) refl refl] s1(2) s2 by auto
    moreover have "length s1 < length (ws s)" by (rule scanString_shorter [OF s1(1)])
    ultimately have "length s2 < length s"
      using length_ws [of s] length_ws [of s1] length_ws [of "tl (ws s1)"] length_tl_ws [OF s1(2)] by linarith
    moreover have "length rest \<le> length (tl (ws s2))" "Suc (length (tl (ws s2))) \<le> length s2"
      using r s1 s2 3(3) [OF s1(1) refl refl _ s2 refl refl] length_tl_ws [of "CHR '',''" s2] length_tl_ws [of "CHR ''}''" s2]
      by (auto simp: object_loop.psimps [OF 3(1)] less_imp_le split: if_splits)
    ultimately show "length rest < length s" by linarith
  qed
next
  case (4 md d s)
  then show ?case
    using length_ws [of s] length_tl_ws [of "CHR '']''" s]
    by (auto simp: scanArray.psimps Let_def split: if_splits)
next
  case (5 md d s)
  show ?case
  proof (intro allI impI)
    fix rest assume r: "array_loop md d s = Inr rest"
    obtain k e s1 where s1: "scanValue md (d + 1) (ws s) = Inr (k, e, s1)"
      using r by (auto simp: array_loop.psimps [OF 5(1)] split: sum.splits)
    have "length s1 < length s" using 5(2) s1 length_ws [of s] by force
    moreover have "length rest \<le> length (tl (ws s1))" "Suc (length (tl (ws s1))) \<le> length s1"
      using r s1 5(3) [OF s1 refl refl] length_tl_ws [of "CHR '',''" s1] length_tl_ws [of "CHR '']''" s1]
      by (auto simp: array_loop.psimps [OF 5(1)] less_imp_le split: if_splits)
    ultimately show "length rest < length s" by linarith
  qed
qed

text \<open>Within one method the order is: a value, the loop over elements, the container around it.\<close>

termination scanValue
proof (relation "measure (\<lambda>x. case x of
      Inl (Inl (md, d, s)) \<Rightarrow> 3 * length s
    | Inl (Inr (md, d, s)) \<Rightarrow> 3 * length s + 2
    | Inr (Inl (md, d, s)) \<Rightarrow> 3 * length s + 1
    | Inr (Inr (Inl (md, d, s))) \<Rightarrow> 3 * length s + 2
    | Inr (Inr (Inr (md, d, s))) \<Rightarrow> 3 * length s + 1)", goal_cases)
  case (4 md d s)
  then show ?case using length_ws [of s] by simp
next
  case (5 md d s b x y xa ya)
  then have "length ya < length (ws s)" using scanString_shorter by blast
  then show ?case
    using 5 length_ws [of s] length_ws [of ya] length_ws [of "tl (ws ya)"] length_tl_ws [of "CHR '':''" ya] by simp
next
  case (6 md d s b x y xa ya ba xb yb xc yc)
  then have "length ya < length (ws s)" using scanString_shorter by blast
  moreover have "length yc < length (ws (tl (ws ya)))" using 6 scan_consumes(1) by blast
  ultimately show ?case
    using 6 length_ws [of s] length_ws [of ya] length_ws [of "tl (ws ya)"] length_tl_ws [of "CHR '':''" ya]
      length_tl_ws [of "CHR '',''" yc] by simp
next
  case (7 md d s)
  then show ?case using length_ws [of s] by simp
next
  case (8 md d s)
  then show ?case using length_ws [of s] by simp
next
  case (9 md d s b x y xa ya)
  then have "length ya < length (ws s)" using scan_consumes(1) by blast
  then show ?case using 9 length_ws [of s] length_tl_ws [of "CHR '',''" ya] by simp
qed simp_all

declare scanValue.simps [simp del] scanObject.simps [simp del] object_loop.simps [simp del]
  scanArray.simps [simp del] array_loop.simps [simp del]

section \<open>The grammar\<close>

definition blank :: "bytes \<Rightarrow> bool" where
  "blank w \<longleftrightarrow> (\<forall>c \<in> set w. is_ws c)"

text \<open>The inside of a string: an escape is a backslash and any byte.\<close>

inductive str_body :: "bytes \<Rightarrow> bool" where
  str_end: "str_body []"
| str_char: "c \<noteq> backslash \<Longrightarrow> c \<noteq> quote_ch \<Longrightarrow> \<not> c < CHR 0x20 \<Longrightarrow> str_body b \<Longrightarrow> str_body (c # b)"
| str_escape: "str_body b \<Longrightarrow> str_body (backslash # d # b)"

definition all_digits :: "bytes \<Rightarrow> bool" where
  "all_digits s \<longleftrightarrow> s \<noteq> [] \<and> (\<forall>c \<in> set s. is_digit c)"

definition fraction_text :: "bytes \<Rightarrow> bool" where
  "fraction_text s \<longleftrightarrow> s = [] \<or> (\<exists>f. s = CHR ''.'' # f \<and> all_digits f)"

definition exponent_text :: "bytes \<Rightarrow> bool" where
  "exponent_text s \<longleftrightarrow> s = [] \<or>
     (\<exists>c sg x. s = c # sg @ x \<and> c \<in> {CHR ''e'', CHR ''E''} \<and> sg \<in> {[], ''+'', ''-''} \<and> all_digits x)"

definition number_text :: "bytes \<Rightarrow> bool" where
  "number_text s \<longleftrightarrow>
     (\<exists>sg d f x. s = sg @ d @ f @ x \<and> sg \<in> {[], ''-''} \<and> all_digits d \<and> fraction_text f \<and> exponent_text x)"

text \<open>A JSON value of a kind whose containers nest at most \<open>n\<close> deep; an empty container has no depth.
  Members and elements come with the bracket that ends them.\<close>

inductive json_value :: "nat \<Rightarrow> char \<Rightarrow> bytes \<Rightarrow> bool"
  and json_members :: "nat \<Rightarrow> bytes \<Rightarrow> bool"
  and json_elements :: "nat \<Rightarrow> bytes \<Rightarrow> bool"
where
  text_string: "str_body b \<Longrightarrow> json_value n CHR ''s'' (quote_ch # b @ [quote_ch])"
| text_number: "number_text s \<Longrightarrow> json_value n CHR ''n'' s"
| text_true: "json_value n CHR ''b'' ''true''"
| text_false: "json_value n CHR ''b'' ''false''"
| text_null: "json_value n CHR ''z'' ''null''"
| text_no_members: "blank w \<Longrightarrow> json_value n CHR ''c'' (CHR ''{'' # w @ ''}'')"
| text_object: "json_members n t \<Longrightarrow> json_value n CHR ''c'' (CHR ''{'' # t)"
| text_no_elements: "blank w \<Longrightarrow> json_value n CHR ''c'' (CHR ''['' # w @ '']'')"
| text_array: "json_elements n t \<Longrightarrow> json_value n CHR ''c'' (CHR ''['' # t)"
| last_member: "blank w1 \<Longrightarrow> blank w2 \<Longrightarrow> blank w3 \<Longrightarrow> blank w4 \<Longrightarrow> str_body b \<Longrightarrow> json_value n k v
    \<Longrightarrow> json_members (Suc n) (w1 @ quote_ch # b @ quote_ch # w2 @ CHR '':'' # w3 @ v @ w4 @ ''}'')"
| more_members: "blank w1 \<Longrightarrow> blank w2 \<Longrightarrow> blank w3 \<Longrightarrow> blank w4 \<Longrightarrow> str_body b \<Longrightarrow> json_value n k v
    \<Longrightarrow> json_members (Suc n) t
    \<Longrightarrow> json_members (Suc n) (w1 @ quote_ch # b @ quote_ch # w2 @ CHR '':'' # w3 @ v @ w4 @ CHR '','' # t)"
| last_element: "blank w1 \<Longrightarrow> blank w2 \<Longrightarrow> json_value n k v
    \<Longrightarrow> json_elements (Suc n) (w1 @ v @ w2 @ '']'')"
| more_elements: "blank w1 \<Longrightarrow> blank w2 \<Longrightarrow> json_value n k v \<Longrightarrow> json_elements (Suc n) t
    \<Longrightarrow> json_elements (Suc n) (w1 @ v @ w2 @ CHR '','' # t)"

section \<open>The scanner accepts the grammar\<close>

lemma ws_split: obtains w where "blank w" "s = w @ ws s"
proof
  show "s = takeWhile is_ws s @ ws s" by (simp add: ws_def)
  show "blank (takeWhile is_ws s)" by (auto simp: blank_def dest: set_takeWhileD)
qed

lemma ws_blank [simp]: "blank w \<Longrightarrow> ws (w @ s) = ws s"
  by (simp add: ws_def blank_def dropWhile_append2)

lemma ws_ws [simp]: "ws (ws s) = ws s"
  by (simp add: ws_def)

lemma ws_keep [simp]: "\<not> is_ws c \<Longrightarrow> ws (c # s) = c # s"
  by (simp add: ws_def)

lemma blank_Nil [simp]: "blank []"
  by (simp add: blank_def)

lemma blank_append [simp]: "blank (v @ w) \<longleftrightarrow> blank v \<and> blank w"
  by (auto simp: blank_def)

lemma not_ws [simp]: "\<not> is_ws quote_ch" "\<not> is_ws CHR '':''" "\<not> is_ws CHR '',''" "\<not> is_ws CHR ''}''"
  "\<not> is_ws CHR '']''" "\<not> is_ws CHR ''{''" "\<not> is_ws CHR ''[''"
  by (simp_all add: is_ws_def)

lemma ws_starts: "starts c (ws s) \<Longrightarrow> \<exists>w. blank w \<and> s = w @ c # tl (ws s)"
  by (rule ws_split [of s]) (auto simp: starts_conv)

subsection \<open>Strings\<close>

lemma scan_chars_sound:
  "scan_chars s = Inr (b, e, rest) \<Longrightarrow> str_body b \<and> s = b @ quote_ch # rest \<and> (e \<longleftrightarrow> backslash \<in> set b)"
proof (induction s arbitrary: b e rest rule: scan_chars.induct)
  case (2 c s)
  show ?case
  proof (cases "c = backslash")
    case True
    then obtain d s1 b1 e1 where s: "s = d # s1" "scan_chars s1 = Inr (b1, e1, rest)" "b = c # d # b1" "e"
      using 2(3) by (cases s) (auto split: sum.splits)
    from "2.IH"(1) [OF True s(1,2)] s True show ?thesis by (auto intro: str_escape)
  next
    case False
    show ?thesis
    proof (cases "c = quote_ch")
      case True
      then show ?thesis using 2(3) by (auto intro: str_end)
    next
      case q: False
      then obtain b1 where s: "scan_chars s = Inr (b1, e, rest)" "b = c # b1" "\<not> c < CHR 0x20"
        using 2(3) False by (auto split: sum.splits if_splits)
      from "2.IH"(2) [OF False q s(3,1)] s False q show ?thesis by (auto intro: str_char)
    qed
  qed
qed simp

lemma scan_chars_complete:
  "str_body b \<Longrightarrow> scan_chars (b @ quote_ch # rest) = Inr (b, backslash \<in> set b, rest)"
  by (induction rule: str_body.induct) simp_all

lemma scanString_iff:
  "scanString s = Inr (b, e, rest) \<longleftrightarrow>
    str_body b \<and> s = quote_ch # b @ quote_ch # rest \<and> (e \<longleftrightarrow> backslash \<in> set b)"
proof
  assume "scanString s = Inr (b, e, rest)"
  then obtain t where "s = quote_ch # t" "scan_chars t = Inr (b, e, rest)"
    by (auto simp: scanString_def starts_conv split: if_splits)
  then show "str_body b \<and> s = quote_ch # b @ quote_ch # rest \<and> (e \<longleftrightarrow> backslash \<in> set b)"
    using scan_chars_sound by blast
qed (auto simp: scanString_def scan_chars_complete)

subsection \<open>Numbers\<close>

definition number_ends :: "bytes \<Rightarrow> bool" where
  "number_ends s \<longleftrightarrow> s = [] \<or> \<not> (is_digit (hd s) \<or> hd s \<in> set ''.eE'')"

lemma digit_not [simp]: "\<not> is_digit CHR ''.''" "\<not> is_digit CHR ''e''" "\<not> is_digit CHR ''E''"
  "\<not> is_digit CHR ''+''" "\<not> is_digit CHR ''-''"
  by (simp_all add: is_digit_def less_eq_char_def)

lemma scan_digits_sound: "scan_digits s = Inr rest \<Longrightarrow> \<exists>d. s = d @ rest \<and> all_digits d"
  by (auto simp: scan_digits_def all_digits_def dest: set_takeWhileD split: if_splits
      intro!: exI [of _ "takeWhile is_digit s"])

lemma scan_digits_complete:
  "all_digits d \<Longrightarrow> rest = [] \<or> \<not> is_digit (hd rest) \<Longrightarrow> scan_digits (d @ rest) = Inr rest"
  by (cases rest; cases d) (auto simp: scan_digits_def all_digits_def dropWhile_append2 takeWhile_append2 dropWhile_eq_Nil_conv)

lemma scan_fraction_sound: "scan_fraction s = Inr rest \<Longrightarrow> \<exists>f. s = f @ rest \<and> fraction_text f"
  using scan_digits_sound [of "tl s" rest]
  by (fastforce simp: scan_fraction_def fraction_text_def starts_conv split: if_splits)

lemma scan_exponent_sound:
  assumes "scan_exponent s = Inr rest"
  shows "\<exists>x. s = x @ rest \<and> exponent_text x"
proof (cases "starts CHR ''e'' s \<or> starts CHR ''E'' s")
  case True
  then obtain c t where s: "s = c # t" "c \<in> {CHR ''e'', CHR ''E''}" by (auto simp: starts_conv)
  define sg where "sg = (if starts CHR ''+'' t \<or> starts CHR ''-'' t then [hd t] else [])"
  have sg: "sg \<in> {[], ''+'', ''-''}" "t = sg @ (if starts CHR ''+'' t \<or> starts CHR ''-'' t then tl t else t)"
    by (auto simp: sg_def starts_conv)
  have "scan_digits (if starts CHR ''+'' t \<or> starts CHR ''-'' t then tl t else t) = Inr rest"
    using assms True s by (simp add: scan_exponent_def Let_def)
  from scan_digits_sound [OF this] obtain d
    where d: "(if starts CHR ''+'' t \<or> starts CHR ''-'' t then tl t else t) = d @ rest" "all_digits d" by blast
  from sg(2) have "t = sg @ d @ rest" unfolding d(1) .
  then have "s = (c # sg @ d) @ rest" using s(1) by simp
  moreover have "exponent_text (c # sg @ d)" unfolding exponent_text_def using s(2) sg(1) d(2) by blast
  ultimately show ?thesis by blast
next
  case False
  then show ?thesis using assms by (auto simp: scan_exponent_def exponent_text_def)
qed

lemma scan_fraction_complete:
  assumes "fraction_text f" and "rest = [] \<or> \<not> (is_digit (hd rest) \<or> hd rest = CHR ''.'')"
  shows "scan_fraction (f @ rest) = Inr rest"
  using assms scan_digits_complete [of "tl f" rest]
  by (cases rest) (auto simp: fraction_text_def scan_fraction_def)

lemma scan_exponent_complete:
  assumes "exponent_text x" and "number_ends rest"
  shows "scan_exponent (x @ rest) = Inr rest"
proof (cases "x = []")
  case True
  then show ?thesis using assms(2) by (cases rest) (auto simp: scan_exponent_def number_ends_def)
next
  case False
  then obtain c sg d where x: "x = c # sg @ d" "c \<in> {CHR ''e'', CHR ''E''}" "sg \<in> {[], ''+'', ''-''}" "all_digits d"
    using assms(1) by (auto simp: exponent_text_def)
  then obtain d0 ds where d: "d = d0 # ds" "is_digit d0" by (cases d) (auto simp: all_digits_def)
  have "scan_digits (d @ rest) = Inr rest"
    using x(4) assms(2) by (intro scan_digits_complete) (auto simp: number_ends_def)
  moreover have "d0 \<noteq> CHR ''+''" "d0 \<noteq> CHR ''-''" using d(2) by auto
  ultimately show ?thesis using x(1-3) d(1) by (auto simp: scan_exponent_def Let_def)
qed

lemma exponent_head: "exponent_text x \<Longrightarrow> number_ends rest
    \<Longrightarrow> x @ rest = [] \<or> \<not> (is_digit (hd (x @ rest)) \<or> hd (x @ rest) = CHR ''.'')"
  by (cases x) (auto simp: exponent_text_def number_ends_def)

lemma fraction_head: "fraction_text f \<Longrightarrow> exponent_text x \<Longrightarrow> number_ends rest
    \<Longrightarrow> f @ x @ rest = [] \<or> \<not> is_digit (hd (f @ x @ rest))"
  using exponent_head [of x rest] by (cases f) (auto simp: fraction_text_def)

lemma scanNumber_sound: 
  assumes "scanNumber s = Inr rest"
  shows "\<exists>v. s = v @ rest \<and> number_text v"
proof -
  define sg where "sg = (if starts CHR ''-'' s then ''-'' else [])"
  have sg: "sg \<in> {[], ''-''}" "s = sg @ (if starts CHR ''-'' s then tl s else s)"
    by (auto simp: sg_def starts_conv)
  obtain s1 s2 where s: "scan_digits (if starts CHR ''-'' s then tl s else s) = Inr s1"
    "scan_fraction s1 = Inr s2" "scan_exponent s2 = Inr rest"
    using assms by (auto simp: scanNumber_def split: sum.splits)
  obtain d f x where "s = sg @ d @ s1" "all_digits d" "s1 = f @ s2" "fraction_text f" "s2 = x @ rest" "exponent_text x"
    using scan_digits_sound [OF s(1)] scan_fraction_sound [OF s(2)] scan_exponent_sound [OF s(3)] sg(2) by metis
  then have "s = (sg @ d @ f @ x) @ rest" "number_text (sg @ d @ f @ x)"
    using sg(1) by (auto simp: number_text_def)
  then show ?thesis by blast
qed

lemma scanNumber_complete:
  assumes "number_text v" and "number_ends rest"
  shows "scanNumber (v @ rest) = Inr rest"
proof -
  obtain sg d f x where v: "v = sg @ d @ f @ x" "sg \<in> {[], ''-''}" "all_digits d" "fraction_text f" "exponent_text x"
    using assms(1) by (auto simp: number_text_def)
  have d: "d \<noteq> []" "is_digit (hd d)" using v(3) by (auto simp: all_digits_def)
  then have "\<not> starts CHR ''-'' (d @ f @ x @ rest)" by (cases d) auto
  then have "(if starts CHR ''-'' (v @ rest) then tl (v @ rest) else v @ rest) = d @ f @ x @ rest"
    using v(1,2) by auto
  then show ?thesis
    using scan_digits_complete [OF v(3) fraction_head [OF v(4,5) assms(2)]]
      scan_fraction_complete [OF v(4) exponent_head [OF v(5) assms(2)]] scan_exponent_complete [OF v(5) assms(2)]
    by (simp only: scanNumber_def sum.case)
qed

lemma number_head: "number_text v \<Longrightarrow> \<exists>c t. v = c # t \<and> (c = CHR ''-'' \<or> is_digit c)"
  by (fastforce simp: number_text_def all_digits_def neq_Nil_conv)

subsection \<open>Values\<close>

lemma members_blank: "json_members n t \<Longrightarrow> blank w \<Longrightarrow> json_members n (w @ t)"
proof (induction rule: json_members.cases)
  case (last_member w1 w2 w3 w4 b n k v)
  then show ?case using json_value_json_members_json_elements.last_member [of "w @ w1" w2 w3 w4 b n k v] by simp
next
  case (more_members w1 w2 w3 w4 b n k v t)
  then show ?case using json_value_json_members_json_elements.more_members [of "w @ w1" w2 w3 w4 b n k v t] by simp
qed

lemma elements_blank: "json_elements n t \<Longrightarrow> blank w \<Longrightarrow> json_elements n (w @ t)"
proof (induction rule: json_elements.cases)
  case (last_element w1 w2 n k v)
  then show ?case using json_value_json_members_json_elements.last_element [of "w @ w1" w2 n k v] by simp
next
  case (more_elements w1 w2 n k v t)
  then show ?case using json_value_json_members_json_elements.more_elements [of "w @ w1" w2 n k v t] by simp
qed

lemma scanLiteral_sound: "scanLiteral w s = Inr rest \<Longrightarrow> s = w @ rest"
  by (metis Inl_Inr_False Inr_inject append_take_drop_id scanLiteral_def)

lemma scan_sound:
  shows "scanValue md1 d1 s1 = Inr (k, e, rest1)
      \<Longrightarrow> d1 \<le> md1 \<and> (\<exists>v. s1 = v @ rest1 \<and> json_value (md1 - d1) k v)"
    and "scanObject md2 d2 s2 = Inr rest2 \<Longrightarrow> d2 \<le> md2
      \<Longrightarrow> \<exists>t. s2 = t @ rest2 \<and> json_value (md2 - d2) CHR ''c'' (CHR ''{'' # t)"
    and "object_loop md3 d3 s3 = Inr rest3 \<Longrightarrow> \<exists>t. s3 = t @ rest3 \<and> json_members (md3 - d3) t"
    and "scanArray md4 d4 s4 = Inr rest4 \<Longrightarrow> d4 \<le> md4
      \<Longrightarrow> \<exists>t. s4 = t @ rest4 \<and> json_value (md4 - d4) CHR ''c'' (CHR ''['' # t)"
    and "array_loop md5 d5 s5 = Inr rest5 \<Longrightarrow> \<exists>t. s5 = t @ rest5 \<and> json_elements (md5 - d5) t"
proof (induction md1 d1 s1 and md2 d2 s2 and md3 d3 s3 and md4 d4 s4 and md5 d5 s5
    arbitrary: k e rest1 and rest2 and rest3 and rest4 and rest5
    rule: scanValue_scanObject_object_loop_scanArray_array_loop.induct)
  case (1 md d s)
  note r = 1(3)
  then have le: "\<not> md < d" by (auto simp: scanValue.simps [of md d s])
  then obtain ch t where s: "s = ch # t"
    using r [unfolded scanValue.simps [of md d s]] by (cases s) auto
  note eq = r [unfolded scanValue.simps [of md d s], unfolded s list.case if_not_P [OF le]]
  consider "ch = quote_ch" | "ch \<noteq> quote_ch" "ch = CHR ''{''" | "ch \<noteq> quote_ch" "ch \<noteq> CHR ''{''" "ch = CHR ''[''"
    | "ch \<noteq> quote_ch" "ch \<noteq> CHR ''{''" "ch \<noteq> CHR ''[''" by blast
  then show ?case
  proof cases
    case 1
    then obtain b where "scanString s = Inr (b, e, rest1)" "k = CHR ''s''"
      using eq by (auto simp: s split: sum.splits)
    then show ?thesis using le text_string by (fastforce simp: scanString_iff)
  next
    case 2
    then have "scanObject md d t = Inr rest1" "k = CHR ''c''" using eq by (auto simp: keep_kind_Inr)
    then show ?thesis using "1"(1) [OF le s 2] le 2 s by fastforce
  next
    case 3
    then have "scanArray md d t = Inr rest1" "k = CHR ''c''" using eq by (auto simp: keep_kind_Inr)
    then show ?thesis using "1"(2) [OF le s 3] le 3 s by fastforce
  next
    case 4
    then consider "scanLiteral ''true'' s = Inr rest1" "k = CHR ''b''" | "scanLiteral ''false'' s = Inr rest1" "k = CHR ''b''"
      | "scanLiteral ''null'' s = Inr rest1" "k = CHR ''z''" | "scanNumber s = Inr rest1" "k = CHR ''n''"
      using eq by (auto simp: keep_kind_Inr s split: if_splits)
    then have "\<exists>v. s = v @ rest1 \<and> json_value (md - d) k v"
    proof cases
      case 1
      then show ?thesis using scanLiteral_sound [OF 1(1)] text_true by blast
    next
      case 2
      then show ?thesis using scanLiteral_sound [OF 2(1)] text_false by blast
    next
      case 3
      then show ?thesis using scanLiteral_sound [OF 3(1)] text_null by blast
    next
      case 4
      then show ?thesis using scanNumber_sound [OF 4(1)] text_number by blast
    qed
    then show ?thesis using le by simp
  qed
next
  case (2 md d s)
  obtain w where w: "blank w" "s = w @ ws s" by (rule ws_split)
  show ?case
  proof (cases "starts CHR ''}'' (ws s)")
    case True
    then have "s = (w @ ''}'') @ rest2" using 2 w(2) by (auto simp: scanObject.simps Let_def starts_conv)
    then show ?thesis using text_no_members [OF w(1)] by blast
  next
    case False
    then have "object_loop md d (ws s) = Inr rest2" using 2 by (simp add: scanObject.simps [of md d s] Let_def)
    from "2.IH" [OF refl False this] obtain t where "ws s = t @ rest2" "json_members (md - d) t" by blast
    then have "s = (w @ t) @ rest2" "json_members (md - d) (w @ t)" using w members_blank by auto
    then show ?thesis using text_object by blast
  qed
next
  case (3 md d s)
  note r = 3(3)
  obtain b e s1 where s1: "scanString (ws s) = Inr (b, e, s1)" "starts CHR '':'' (ws s1)"
    using r by (auto simp: object_loop.simps [of md d s] split: sum.splits if_splits)
  obtain k e' s2 where s2: "scanValue md (d + 1) (ws (tl (ws s1))) = Inr (k, e', s2)"
    using r s1 by (auto simp: object_loop.simps [of md d s] split: sum.splits)
  have "d + 1 \<le> md" using "3.IH"(1) [OF s1(1) refl refl _ s2] s1(2) by blast
  then have n: "md - d = Suc (md - (d + 1))" by simp
  obtain v where v: "ws (tl (ws s1)) = v @ s2" "json_value (md - (d + 1)) k v"
    using "3.IH"(1) [OF s1(1) refl refl _ s2] s1(2) by blast
  obtain w1 w2 w3 where w: "blank w1" "s = w1 @ ws s" "blank w2" "s1 = w2 @ CHR '':'' # tl (ws s1)"
    "blank w3" "tl (ws s1) = w3 @ v @ s2"
    using ws_split [of s] ws_starts [OF s1(2)] ws_split [of "tl (ws s1)"] v(1) by metis
  have head: "s = w1 @ quote_ch # b @ quote_ch # w2 @ CHR '':'' # w3 @ v @ s2" and b: "str_body b"
    using w s1(1) [unfolded scanString_iff] by (metis append.assoc append_Cons)+
  show ?case
  proof (cases "starts CHR '','' (ws s2)")
    case True
    then have "object_loop md d (tl (ws s2)) = Inr rest3"
      using r s1 s2 by (simp add: object_loop.simps [of md d s])
    from "3.IH"(2) [OF s1(1) refl refl _ s2 refl refl True this] s1(2)
    obtain t where t: "tl (ws s2) = t @ rest3" "json_members (md - d) t" by blast
    obtain w4 where w4: "blank w4" "s2 = w4 @ CHR '','' # t @ rest3" using ws_starts [OF True] t(1) by auto
    have "json_members (md - d) (w1 @ quote_ch # b @ quote_ch # w2 @ CHR '':'' # w3 @ v @ w4 @ CHR '','' # t)"
      using more_members [OF w(1,3,5) w4(1) b v(2)] t(2) n by simp
    then show ?thesis using head w4(2) by (intro exI conjI) auto
  next
    case False
    then have "starts CHR ''}'' (ws s2)" "rest3 = tl (ws s2)"
      using r s1 s2 by (auto simp: object_loop.simps [of md d s] split: if_splits)
    then obtain w4 where w4: "blank w4" "s2 = w4 @ CHR ''}'' # rest3" using ws_starts by blast
    have "json_members (md - d) (w1 @ quote_ch # b @ quote_ch # w2 @ CHR '':'' # w3 @ v @ w4 @ ''}'')"
      using last_member [OF w(1,3,5) w4(1) b v(2)] n by simp
    then show ?thesis using head w4(2) by (intro exI conjI) auto
  qed
next
  case (4 md d s)
  obtain w where w: "blank w" "s = w @ ws s" by (rule ws_split)
  show ?case
  proof (cases "starts CHR '']'' (ws s)")
    case True
    then have "s = (w @ '']'') @ rest4" using 4 w(2) by (auto simp: scanArray.simps Let_def starts_conv)
    then show ?thesis using text_no_elements [OF w(1)] by blast
  next
    case False
    then have "array_loop md d (ws s) = Inr rest4" using 4 by (simp add: scanArray.simps [of md d s] Let_def)
    from "4.IH" [OF refl False this] obtain t where "ws s = t @ rest4" "json_elements (md - d) t" by blast
    then have "s = (w @ t) @ rest4" "json_elements (md - d) (w @ t)" using w elements_blank by auto
    then show ?thesis using text_array by blast
  qed
next
  case (5 md d s)
  note r = 5(3)
  obtain k e s1 where s1: "scanValue md (d + 1) (ws s) = Inr (k, e, s1)"
    using r by (auto simp: array_loop.simps [of md d s] split: sum.splits)
  obtain v where v: "d + 1 \<le> md" "ws s = v @ s1" "json_value (md - (d + 1)) k v" using "5.IH"(1) [OF s1] by blast
  then have n: "md - d = Suc (md - (d + 1))" by simp
  obtain w1 where w1: "blank w1" "s = w1 @ v @ s1" using ws_split [of s] v(2) by metis
  show ?case
  proof (cases "starts CHR '','' (ws s1)")
    case True
    then have "array_loop md d (tl (ws s1)) = Inr rest5" using r s1 by (simp add: array_loop.simps [of md d s])
    from "5.IH"(2) [OF s1 refl refl True this] obtain t where t: "tl (ws s1) = t @ rest5" "json_elements (md - d) t" by blast
    obtain w2 where w2: "blank w2" "s1 = w2 @ CHR '','' # t @ rest5" using ws_starts [OF True] t(1) by auto
    have "json_elements (md - d) (w1 @ v @ w2 @ CHR '','' # t)"
      using more_elements [OF w1(1) w2(1) v(3)] t(2) n by simp
    then show ?thesis using w1(2) w2(2) by (intro exI conjI) auto
  next
    case False
    then have "starts CHR '']'' (ws s1)" "rest5 = tl (ws s1)"
      using r s1 by (auto simp: array_loop.simps [of md d s] split: if_splits)
    then obtain w2 where w2: "blank w2" "s1 = w2 @ CHR '']'' # rest5" using ws_starts by blast
    have "json_elements (md - d) (w1 @ v @ w2 @ '']'')" using last_element [OF w1(1) w2(1) v(3)] n by simp
    then show ?thesis using w1(2) w2(2) by (intro exI conjI) auto
  qed
qed

lemma value_head: "json_value n k v \<Longrightarrow> \<exists>c t. v = c # t \<and> \<not> is_ws c"
proof (induction rule: json_value.cases)
  case (text_number s n)
  then obtain c t where "s = c # t" "c = CHR ''-'' \<or> is_digit c" using number_head by blast
  moreover from this(2) have "\<not> is_ws c" by (auto simp: is_ws_def is_digit_def less_eq_char_def)
  ultimately show ?case using text_number by blast
qed (auto simp: is_ws_def)

lemma ws_value: "json_value n k v \<Longrightarrow> ws (v @ s) = v @ s"
  using value_head [of n k v] by auto

lemma ends_after: "blank w \<Longrightarrow> c \<in> set '',}]'' \<Longrightarrow> number_ends (w @ c # s)"
proof (cases w)
  case (Cons x xs)
  moreover assume "blank w"
  ultimately have "is_ws x" by (simp add: blank_def)
  then show ?thesis using Cons by (auto simp: number_ends_def is_ws_def is_digit_def less_eq_char_def)
qed (auto simp: number_ends_def is_digit_def less_eq_char_def)

lemma members_head: "json_members n t \<Longrightarrow> \<not> starts CHR ''}'' (ws (t @ s))"
  by (induction rule: json_members.cases) auto

lemma value_not_bracket: "json_value n k v \<Longrightarrow> \<not> starts CHR '']'' (v @ s)"
proof (induction rule: json_value.cases)
  case (text_number s n)
  then show ?case using number_head [of s] by (auto simp: is_digit_def less_eq_char_def)
qed auto

lemma elements_head: "json_elements n t \<Longrightarrow> \<not> starts CHR '']'' (ws (t @ s))"
proof (induction rule: json_elements.cases)
  case (last_element w1 w2 n k v)
  then show ?case by (simp add: ws_value value_not_bracket)
next
  case (more_elements w1 w2 n k v t)
  then show ?case by (simp add: ws_value value_not_bracket)
qed

lemma object_loop_ws: "object_loop md d (ws s) = object_loop md d s"
  by (simp add: object_loop.simps [of md d "ws s"] object_loop.simps [of md d s])

lemma array_loop_ws: "array_loop md d (ws s) = array_loop md d s"
  by (simp add: array_loop.simps [of md d "ws s"] array_loop.simps [of md d s])

lemma ex_not [simp]: "Ex Not"
  by (rule exI [of _ False]) simp

text \<open>One round of each loop on a text of the grammar.\<close>

lemma object_loop_member:
  assumes "blank w1" and "blank w2" and "blank w3" and "str_body b" and "json_value n k v"
    and "scanValue md (d + 1) (v @ s) = Inr (k, e, s)"
  shows "object_loop md d (w1 @ quote_ch # b @ quote_ch # w2 @ CHR '':'' # w3 @ v @ s) =
    (if starts CHR '','' (ws s) then object_loop md d (tl (ws s))
     else if starts CHR ''}'' (ws s) then Inr (tl (ws s)) else Inl ErrMalformed)"
proof -
  have "scanString (quote_ch # b @ quote_ch # w2 @ CHR '':'' # w3 @ v @ s)
      = Inr (b, backslash \<in> set b, w2 @ CHR '':'' # w3 @ v @ s)"
    using assms(4) by (simp add: scanString_iff)
  then show ?thesis
    using assms by (simp add: object_loop.simps [of md d "w1 @ _"] ws_value)
qed

lemma array_loop_element:
  assumes "blank w1" and "json_value n k v" and "scanValue md (d + 1) (v @ s) = Inr (k, e, s)"
  shows "array_loop md d (w1 @ v @ s) =
    (if starts CHR '','' (ws s) then array_loop md d (tl (ws s))
     else if starts CHR '']'' (ws s) then Inr (tl (ws s)) else Inl ErrMalformed)"
  using assms by (simp add: array_loop.simps [of md d "w1 @ _"] ws_value)

lemma scan_complete:
  shows "json_value n1 k v \<Longrightarrow> d + n1 \<le> md \<Longrightarrow> k = CHR ''n'' \<longrightarrow> number_ends rest
      \<Longrightarrow> \<exists>e. scanValue md d (v @ rest) = Inr (k, e, rest)"
    and "json_members n2 t \<Longrightarrow> d + n2 \<le> md \<Longrightarrow> object_loop md d (t @ rest) = Inr rest"
    and "json_elements n3 u \<Longrightarrow> d + n3 \<le> md \<Longrightarrow> array_loop md d (u @ rest) = Inr rest"
proof (induction arbitrary: d rest and d rest and d rest
    rule: json_value_json_members_json_elements.inducts)
  case (text_string b n)
  then have "scanString (quote_ch # b @ quote_ch # rest) = Inr (b, backslash \<in> set b, rest)"
    by (simp add: scanString_iff)
  then show ?case using text_string by (simp add: scanValue.simps)
next
  case (text_number s n)
  obtain c t where c: "s = c # t" "c = CHR ''-'' \<or> is_digit c" using number_head [OF text_number(1)] by blast
  then have n: "c \<noteq> quote_ch" "c \<noteq> CHR ''{''" "c \<noteq> CHR ''[''" "c \<noteq> CHR ''t''" "c \<noteq> CHR ''f''" "c \<noteq> CHR ''n''"
    by (auto simp: is_digit_def less_eq_char_def)
  have "scanNumber (c # t @ rest) = Inr rest"
    using scanNumber_complete [OF text_number(1), of rest] text_number c(1) by simp
  then have "scanValue md d (s @ rest) = Inr (CHR ''n'', False, rest)"
    using text_number(2) c n by (simp add: scanValue.simps keep_kind_def)
  then show ?case by blast
next
  case (text_true n)
  then show ?case by (simp add: scanValue.simps scanLiteral_def keep_kind_def)
next
  case (text_false n)
  then show ?case by (simp add: scanValue.simps scanLiteral_def keep_kind_def)
next
  case (text_null n)
  then show ?case by (simp add: scanValue.simps scanLiteral_def keep_kind_def)
next
  case (text_no_members w n)
  then show ?case by (simp add: scanValue.simps scanObject.simps Let_def keep_kind_def)
next
  case (text_object n t)
  then show ?case
    by (simp add: scanValue.simps scanObject.simps Let_def keep_kind_def members_head object_loop_ws)
next
  case (text_no_elements w n)
  then show ?case by (simp add: scanValue.simps scanArray.simps Let_def keep_kind_def)
next
  case (text_array n t)
  then show ?case
    by (simp add: scanValue.simps scanArray.simps Let_def keep_kind_def elements_head array_loop_ws)
next
  case (last_member w1 w2 w3 w4 b n k v)
  obtain e where "scanValue md (d + 1) (v @ w4 @ CHR ''}'' # rest) = Inr (k, e, w4 @ CHR ''}'' # rest)"
    using last_member.IH [of "d + 1" "w4 @ CHR ''}'' # rest"] last_member.prems ends_after [OF last_member(4)] by auto
  from object_loop_member [OF last_member(1-3,5,6) this] show ?case using last_member(4) by simp
next
  case (more_members w1 w2 w3 w4 b n k v t)
  obtain e where "scanValue md (d + 1) (v @ w4 @ CHR '','' # t @ rest) = Inr (k, e, w4 @ CHR '','' # t @ rest)"
    using more_members.IH(1) [of "d + 1" "w4 @ CHR '','' # t @ rest"] more_members.prems ends_after [OF more_members(4)] by auto
  from object_loop_member [OF more_members(1-3,5,6) this] show ?case using more_members by simp
next
  case (last_element w1 w2 n k v)
  obtain e where "scanValue md (d + 1) (v @ w2 @ CHR '']'' # rest) = Inr (k, e, w2 @ CHR '']'' # rest)"
    using last_element.IH [of "d + 1" "w2 @ CHR '']'' # rest"] last_element.prems ends_after [OF last_element(2)] by auto
  from array_loop_element [OF last_element(1,3) this] show ?case using last_element(2) by simp
next
  case (more_elements w1 w2 n k v t)
  obtain e where "scanValue md (d + 1) (v @ w2 @ CHR '','' # t @ rest) = Inr (k, e, w2 @ CHR '','' # t @ rest)"
    using more_elements.IH(1) [of "d + 1" "w2 @ CHR '','' # t @ rest"] more_elements.prems ends_after [OF more_elements(2)] by auto
  from array_loop_element [OF more_elements(1,3) this] show ?case using more_elements by simp
qed

text \<open>C24: The scanner accepts a payload as one value of kind \<open>k\<close> exactly when the grammar derives it with
  containers nested at most \<open>maxDepth\<close> deep; it always returns, and it never recurses deeper than
  the bound. Like the code, the grammar allows leading zeros and any byte after a backslash.\<close>

theorem scanValue_exact:
  "(\<exists>e. scanValue maxDepth 0 s = Inr (k, e, [])) \<longleftrightarrow> json_value maxDepth k s"
  using scan_sound(1) [of maxDepth 0 s k _ "[]"] scan_complete(1) [of maxDepth k s 0 maxDepth "[]"]
  by (auto simp: number_ends_def)

end
