(* ===== verification/Codec.thy ===== *)
theory Codec
  imports Scan Projection
begin

text \<open>
  \<open>pkg/codec\<close>: the JSON codec (\<open>json.go\<close>), the template codec (\<open>template.go\<close>) and the operation names
  of \<open>pkg/event\<close>.

  What the Go library does with dates, durations, floats and the case of letters is the record
  \<open>golib\<close>, and a compiled regular expression the record \<open>regexp\<close>; integers, UTF-8 and the calendar are
  modelled. The interners of the JSON codec return the string they are given and only save an
  allocation; they are modelled on their own, and \<open>Decode\<close> does without them. So are the scratch
  buffers: they never outlive a call.
\<close>

section \<open>Library functions\<close>

text \<open>\<open>time.Parse\<close> with the RFC 3339 layout, \<open>time.ParseDuration\<close>, a duration of \<open>strconv.ParseFloat\<close>
  seconds, and \<open>unicode.ToLower\<close>; \<open>None\<close> is an error.\<close>

record golib =
  gl_timeParse :: "string \<Rightarrow> time option"
  gl_parseDuration :: "string \<Rightarrow> duration option"
  gl_floatSeconds :: "string \<Rightarrow> duration option"
  gl_toLower :: "nat \<Rightarrow> nat"

text \<open>\<open>strconv.ParseUint(s, 10, 64)\<close>.\<close>

definition ParseUint :: "string \<Rightarrow> u64 option" where
  "ParseUint s =
     (if s = [] then None
      else
        (case parse_digits 0 s of
           None \<Rightarrow> None
         | Some n \<Rightarrow> if n < 18446744073709551616 then Some (word_of_int n) else None))"

text \<open>The rune a string starts with and the bytes after it, as \<open>range\<close> reads a string: a byte that
  starts no valid encoding is the replacement rune.\<close>

definition runeError :: nat where
  "runeError = 65533"

definition cont :: "bytes \<Rightarrow> nat \<Rightarrow> nat \<Rightarrow> nat \<Rightarrow> bool" where
  "cont s i lo hi \<longleftrightarrow> i < length s \<and> lo \<le> of_char (s ! i) \<and> of_char (s ! i) \<le> hi"

definition next_rune :: "char \<Rightarrow> bytes \<Rightarrow> nat \<times> bytes" where
  "next_rune c s =
     (let b0 = (of_char c :: nat);
          b = (\<lambda>i. of_char (s ! i) mod 64 :: nat);
          lo = (if b0 = 224 then 160 else if b0 = 240 then 144 else 128);
          hi = (if b0 = 237 then 159 else if b0 = 244 then 143 else 191)
      in if b0 < 128 then (b0, s)
         else if 194 \<le> b0 \<and> b0 \<le> 223 \<and> cont s 0 128 191 then ((b0 mod 32) * 64 + b 0, drop 1 s)
         else if 224 \<le> b0 \<and> b0 \<le> 239 \<and> cont s 0 lo hi \<and> cont s 1 128 191 then
           ((b0 mod 16) * 4096 + b 0 * 64 + b 1, drop 2 s)
         else if 240 \<le> b0 \<and> b0 \<le> 244 \<and> cont s 0 lo hi \<and> cont s 1 128 191 \<and> cont s 2 128 191 then
           ((b0 mod 8) * 262144 + b 0 * 4096 + b 1 * 64 + b 2, drop 3 s)
         else (runeError, s))"

lemma next_rune_length: "length (snd (next_rune c s)) \<le> length s"
  by (simp add: next_rune_def Let_def)

function runes :: "bytes \<Rightarrow> nat list" where
  "runes [] = []"
| "runes (c # s) = fst (next_rune c s) # runes (snd (next_rune c s))"
  by pat_completeness auto
termination
  by (relation "measure length") (auto simp: next_rune_length le_imp_less_Suc)

text \<open>\<open>utf8.AppendRune\<close>: the encoding of a rune.\<close>

definition rune_bytes :: "nat \<Rightarrow> bytes" where
  "rune_bytes r =
     (let r = (if 55296 \<le> r \<and> r \<le> 57343 \<or> 1114111 < r then runeError else r)
      in if r < 128 then [char_of r]
         else if r < 2048 then [char_of (192 + r div 64), char_of (128 + r mod 64)]
         else if r < 65536 then
           [char_of (224 + r div 4096), char_of (128 + r div 64 mod 64), char_of (128 + r mod 64)]
         else
           [char_of (240 + r div 262144), char_of (128 + r div 4096 mod 64),
            char_of (128 + r div 64 mod 64), char_of (128 + r mod 64)])"

section \<open>Operation names\<close>

definition op_names :: "(Op \<times> string) list" where
  "op_names =
     [(OpSet, ''set''), (OpDelete, ''delete''), (OpAdd, ''add''), (OpRemove, ''remove''),
      (OpIncr, ''incr''), (OpSnapshotBegin, ''snapshot_begin''), (OpSnapshotEnd, ''snapshot_end''),
      (OpHeartbeat, ''heartbeat'')]"

text \<open>\<open>event.normalizeOpName\<close> works on runes and trims white space; the one of the codec works on bytes.\<close>

definition event_normalizeOpName :: "golib \<Rightarrow> string \<Rightarrow> string" where
  "event_normalizeOpName lib s =
     concat (map (rune_bytes \<circ> gl_toLower lib)
       (filter (\<lambda>r. r \<noteq> of_char CHR ''_'' \<and> r \<noteq> of_char CHR ''-'') (runes (trim_space s))))"

definition ParseOp :: "golib \<Rightarrow> string \<Rightarrow> Op option" where
  "ParseOp lib s =
     map_option fst
       (find (\<lambda>(op, name). event_normalizeOpName lib name = event_normalizeOpName lib s) op_names)"

definition lower_ascii :: "char \<Rightarrow> char" where
  "lower_ascii ch = (if CHR ''A'' \<le> ch \<and> ch \<le> CHR ''Z'' then char_of (of_char ch + 32 :: nat) else ch)"

definition normalizeOpName :: "bytes \<Rightarrow> string" where
  "normalizeOpName raw = map lower_ascii (filter (\<lambda>ch. ch \<noteq> CHR ''_'' \<and> ch \<noteq> CHR ''-'') raw)"

definition builtinOpNames :: "(string, Op) go_map" where
  "builtinOpNames = foldl (\<lambda>m (op, name). map_put (normalizeOpName name) op m) [] op_names"

section \<open>Configuration\<close>

datatype field =
    fieldPublisher | fieldEpoch | fieldSeq | fieldTimestamp | fieldOp | fieldKey | fieldMember
  | fieldValue | fieldTTL | fieldDelta

definition configKeys :: "(field \<times> string \<times> string) list" where
  "configKeys =
     [(fieldPublisher, ''publisherField'', ''publisher''), (fieldEpoch, ''epochField'', ''epoch''),
      (fieldSeq, ''seqField'', ''seq''), (fieldTimestamp, ''timestampField'', ''ts''),
      (fieldOp, ''opField'', ''op''), (fieldKey, ''keyField'', ''key''),
      (fieldMember, ''memberField'', ''member''), (fieldValue, ''valueField'', ''value''),
      (fieldTTL, ''ttlField'', ''ttl''), (fieldDelta, ''deltaField'', ''delta'')]"

record jsonCodec =
  jc_names :: "(string, field list) go_map"
  jc_opMap :: "(string, Op) go_map"
  jc_opNames :: "(string, Op) go_map"
  jc_maxPayloadBytes :: int
  jc_maxKeyBytes :: int
  jc_maxDepth :: int
  jc_retainRaw :: bool

type_synonym codec_cfg = "(string, string) go_map"

text \<open>A refused configuration is \<open>None\<close>.\<close>

definition codec_intConfig :: "codec_cfg \<Rightarrow> string \<Rightarrow> int \<Rightarrow> int option" where
  "codec_intConfig cfg key def =
     (case map_get cfg key of
        None \<Rightarrow> Some def
      | Some raw \<Rightarrow>
          (case ParseInt (trim_space raw) of
             None \<Rightarrow> None
           | Some n \<Rightarrow> if n \<le> 0 then None else Some n))"

definition codec_boolConfig :: "codec_cfg \<Rightarrow> string \<Rightarrow> bool option" where
  "codec_boolConfig cfg key =
     (case map_get cfg key of None \<Rightarrow> Some False | Some raw \<Rightarrow> ParseBool (trim_space raw))"

text \<open>\<open>strings.Cut\<close> at the first \<open>=\<close>.\<close>

definition cut_eq :: "string \<Rightarrow> (string \<times> string) option" where
  "cut_eq s =
     (if CHR ''='' \<in> set s
      then Some (takeWhile (\<lambda>c. c \<noteq> CHR ''='') s, tl (dropWhile (\<lambda>c. c \<noteq> CHR ''='') s))
      else None)"

fun op_pairs :: "golib \<Rightarrow> string list \<Rightarrow> (string, Op) go_map \<Rightarrow> (string, Op) go_map option" where
  "op_pairs lib [] m = Some m"
| "op_pairs lib (pair # pairs) m =
     (case cut_eq pair of
        None \<Rightarrow> None
      | Some (name, target) \<Rightarrow>
          let name = trim_space name; target = trim_space target
          in if name = [] \<or> target = [] then None
             else
               (case ParseOp lib target of
                  None \<Rightarrow> None
                | Some op \<Rightarrow> op_pairs lib pairs (map_put name op m)))"

definition parseOpMapping :: "golib \<Rightarrow> string \<Rightarrow> (string, Op) go_map option" where
  "parseOpMapping lib spec =
     (if trim_space spec = [] then Some [] else op_pairs lib (Split spec '','') [])"

fun field_names ::
  "codec_cfg \<Rightarrow> (field \<times> string \<times> string) list \<Rightarrow> (string, field list) go_map \<Rightarrow> (string, field list) go_map option"
where
  "field_names cfg [] names = Some names"
| "field_names cfg ((f, cfgKey, defaultName) # fs) names =
     (let name = (case map_get cfg cfgKey of None \<Rightarrow> defaultName | Some override \<Rightarrow> override)
      in if map_get cfg cfgKey = Some [] then None
         else
           field_names cfg fs
             (map_put name ((case map_get names name of None \<Rightarrow> [] | Some l \<Rightarrow> l) @ [f]) names))"

definition setting :: "codec_cfg \<Rightarrow> string \<Rightarrow> string" where
  "setting cfg key = (case map_get cfg key of None \<Rightarrow> [] | Some v \<Rightarrow> v)"

definition newJSON :: "golib \<Rightarrow> codec_cfg \<Rightarrow> jsonCodec option" where
  "newJSON lib cfg =
     (case field_names cfg configKeys [] of
        None \<Rightarrow> None
      | Some names \<Rightarrow>
          (case parseOpMapping lib (setting cfg ''opMapping'') of
             None \<Rightarrow> None
           | Some opMap \<Rightarrow>
               (case (codec_intConfig cfg ''maxPayloadBytes'' 1048576, codec_intConfig cfg ''maxKeyBytes'' 4096,
                      codec_intConfig cfg ''maxDepth'' 32, codec_boolConfig cfg ''retainRaw'') of
                  (Some payload, Some key, Some depth, Some raw) \<Rightarrow>
                    Some \<lparr>jc_names = names, jc_opMap = opMap, jc_opNames = builtinOpNames,
                          jc_maxPayloadBytes = payload, jc_maxKeyBytes = key, jc_maxDepth = depth,
                          jc_retainRaw = raw\<rparr>
                | _ \<Rightarrow> None)))"

section \<open>String escapes\<close>

definition hex_digit :: "char \<Rightarrow> nat option" where
  "hex_digit ch =
     (if CHR ''0'' \<le> ch \<and> ch \<le> CHR ''9'' then Some (of_char ch - 48)
      else if CHR ''a'' \<le> ch \<and> ch \<le> CHR ''f'' then Some (of_char ch - 97 + 10)
      else if CHR ''A'' \<le> ch \<and> ch \<le> CHR ''F'' then Some (of_char ch - 65 + 10)
      else None)"

fun hex_from :: "nat \<Rightarrow> bytes \<Rightarrow> CodecError + nat" where
  "hex_from v [] = Inr v"
| "hex_from v (ch # s) =
     (case hex_digit ch of None \<Rightarrow> Inl ErrMalformed | Some d \<Rightarrow> hex_from (v * 16 + d) s)"

definition hex4 :: "bytes \<Rightarrow> CodecError + nat" where
  "hex4 b = hex_from 0 b"

definition IsSurrogate :: "nat \<Rightarrow> bool" where
  "IsSurrogate r \<longleftrightarrow> 55296 \<le> r \<and> r < 57344"

definition utf16_DecodeRune :: "nat \<Rightarrow> nat \<Rightarrow> nat" where
  "utf16_DecodeRune r1 r2 =
     (if 55296 \<le> r1 \<and> r1 < 56320 \<and> 56320 \<le> r2 \<and> r2 < 57344
      then (r1 - 55296) * 1024 + (r2 - 56320) + 65536 else runeError)"

text \<open>The rune and the number of bytes consumed; \<open>src\<close> starts at the \<open>u\<close>.\<close>

definition decodeUnicodeEscape :: "bytes \<Rightarrow> CodecError + nat \<times> nat" where
  "decodeUnicodeEscape src =
     (if length src < 5 then Inl ErrMalformed
      else
        (case hex4 (take 4 (drop 1 src)) of
           Inl err \<Rightarrow> Inl err
         | Inr r \<Rightarrow>
             if IsSurrogate r then
               if 11 \<le> length src \<and> src ! 5 = backslash \<and> src ! 6 = CHR ''u'' then
                 (case hex4 (take 4 (drop 7 src)) of
                    Inl err \<Rightarrow> Inl err
                  | Inr second \<Rightarrow>
                      let combined = utf16_DecodeRune r second
                      in if combined \<noteq> runeError then Inr (combined, 11) else Inr (runeError, 5))
               else Inr (runeError, 5)
             else Inr (r, 5)))"

definition simple_escape :: "char \<Rightarrow> char option" where
  "simple_escape ch =
     (if ch = quote_ch \<or> ch = backslash \<or> ch = CHR ''/'' then Some ch
      else if ch = CHR ''b'' then Some CHR 0x08
      else if ch = CHR ''f'' then Some CHR 0x0C
      else if ch = CHR ''n'' then Some CHR 0x0A
      else if ch = CHR ''r'' then Some CHR 0x0D
      else if ch = CHR ''t'' then Some CHR 0x09
      else None)"

definition prepend :: "bytes \<Rightarrow> CodecError + bytes \<Rightarrow> CodecError + bytes" where
  "prepend b r = (case r of Inl err \<Rightarrow> Inl err | Inr t \<Rightarrow> Inr (b @ t))"

function unescape :: "bytes \<Rightarrow> CodecError + bytes" where
  "unescape [] = Inr []"
| "unescape (ch # s) =
     (if ch \<noteq> backslash then prepend [ch] (unescape s)
      else
        (case s of
           [] \<Rightarrow> Inl ErrMalformed
         | d # t \<Rightarrow>
             if d = CHR ''u'' then
               (case decodeUnicodeEscape s of
                  Inl err \<Rightarrow> Inl err
                | Inr (r, consumed) \<Rightarrow> prepend (rune_bytes r) (unescape (drop consumed s)))
             else
               (case simple_escape d of
                  None \<Rightarrow> Inl ErrMalformed
                | Some b \<Rightarrow> prepend [b] (unescape t))))"
  by pat_completeness auto
termination
  by (relation "measure length") auto

section \<open>The scan of an object\<close>

text \<open>The zero value of a capture has kind 0 and was not seen.\<close>

record capture =
  cp_raw :: bytes
  cp_kind :: char
  cp_escape :: bool
  cp_seen :: bool

type_synonym captures = "field \<Rightarrow> capture"

definition no_captures :: captures where
  "no_captures f = \<lparr>cp_raw = [], cp_kind = CHR 0x00, cp_escape = False, cp_seen = False\<rparr>"

definition field_lookup :: "jsonCodec \<Rightarrow> bytes \<Rightarrow> bool \<Rightarrow> field list" where
  "field_lookup c name escaped =
     (case (if escaped then unescape name else Inr name) of
        Inl err \<Rightarrow> []
      | Inr decoded \<Rightarrow> (case map_get (jc_names c) decoded of None \<Rightarrow> [] | Some fs \<Rightarrow> fs))"

definition capture_all :: "field list \<Rightarrow> capture \<Rightarrow> captures \<Rightarrow> captures" where
  "capture_all wanted cp caps = foldl (\<lambda>cs f. cs(f := cp)) caps wanted"

lemma scanValue_shorter: "scanValue md d s = Inr (k, e, rest) \<Longrightarrow> length rest < length s"
  using scan_sound(1) [of md d s k e rest] value_head by fastforce

function scan_fields :: "jsonCodec \<Rightarrow> bytes \<Rightarrow> captures \<Rightarrow> CodecError + captures" where
  "scan_fields c s caps =
     (case scanString (ws s) of
        Inl err \<Rightarrow> Inl err
      | Inr (name, escaped, s1) \<Rightarrow>
          if \<not> starts CHR '':'' (ws s1) then Inl ErrMalformed
          else
            let wanted = field_lookup c name escaped;
                start = ws (tl (ws s1))
            in (case scanValue (nat (jc_maxDepth c)) 0 start of
                  Inl err \<Rightarrow> Inl err
                | Inr (kind, esc, s2) \<Rightarrow>
                    let cp = \<lparr>cp_raw = take (length start - length s2) start, cp_kind = kind,
                              cp_escape = (kind = CHR ''s'' \<and> esc), cp_seen = True\<rparr>;
                        caps = capture_all wanted cp caps
                    in if ws s2 = [] then Inl ErrMalformed
                       else if starts CHR '','' (ws s2) then scan_fields c (tl (ws s2)) caps
                       else if starts CHR ''}'' (ws s2) then
                         (case eof (tl (ws s2)) of Some err \<Rightarrow> Inl err | None \<Rightarrow> Inr caps)
                       else Inl ErrMalformed))"
  by pat_completeness auto
termination
proof (relation "measure (\<lambda>(c, s, caps). length s)", goal_cases)
  case (2 c s caps x name y escaped s1 wanted start z kind v esc s2 cp caps')
  then have a: "length s1 < length (ws s)" "length s2 < length start"
    using scanString_shorter scanValue_shorter by blast+
  then show ?case
    using 2 length_ws [of s] length_ws [of s1] length_ws [of "tl (ws s1)"] length_tl_ws [of "CHR '':''" s1]
      length_tl_ws [of "CHR '',''" s2] by simp
qed simp

declare scan_fields.simps [simp del]

definition json_scan :: "jsonCodec \<Rightarrow> bytes \<Rightarrow> CodecError + captures" where
  "json_scan c b =
     (if \<not> starts CHR ''{'' (ws b) then Inl ErrMalformed
      else
        let s = ws (tl (ws b))
        in if starts CHR ''}'' s then
             (case eof (tl s) of Some err \<Rightarrow> Inl err | None \<Rightarrow> Inr no_captures)
           else scan_fields c s no_captures)"

section \<open>The conversion of a field\<close>

definition present :: "capture \<Rightarrow> bool" where
  "present cp \<longleftrightarrow> cp_seen cp \<and> cp_kind cp \<noteq> CHR ''z''"

definition unquoted :: "bytes \<Rightarrow> bytes" where
  "unquoted raw = butlast (tl raw)"

definition json_string :: "capture \<Rightarrow> CodecError + string" where
  "json_string cp =
     (if \<not> present cp then Inr []
      else if cp_kind cp \<noteq> CHR ''s'' then Inl ErrMalformed
      else if \<not> cp_escape cp then Inr (unquoted (cp_raw cp))
      else unescape (unquoted (cp_raw cp)))"

definition resolveOp :: "golib \<Rightarrow> jsonCodec \<Rightarrow> capture \<Rightarrow> CodecError + Op" where
  "resolveOp lib c cp =
     (if \<not> present cp then Inl CodecErrMissingField
      else if cp_kind cp \<noteq> CHR ''s'' then Inl ErrMalformed
      else if \<not> cp_escape cp then
        let body = unquoted (cp_raw cp)
        in (case map_get (jc_opMap c) body of
              Some op \<Rightarrow> Inr op
            | None \<Rightarrow>
                (case map_get (jc_opNames c) (normalizeOpName body) of
                   Some op \<Rightarrow> Inr op
                 | None \<Rightarrow> Inl CodecErrUnknownOp))
      else
        (case json_string cp of
           Inl err \<Rightarrow> Inl err
         | Inr name \<Rightarrow>
             (case map_get (jc_opMap c) name of
                Some op \<Rightarrow> Inr op
              | None \<Rightarrow>
                  (case ParseOp lib name of None \<Rightarrow> Inl CodecErrUnknownOp | Some op \<Rightarrow> Inr op))))"

definition boundedString :: "jsonCodec \<Rightarrow> capture \<Rightarrow> CodecError + string" where
  "boundedString c cp =
     (if present cp \<and> cp_kind cp = CHR ''s'' \<and> jc_maxKeyBytes c < int (length (cp_raw cp)) - 2
      then Inl ErrTooLarge
      else
        (case json_string cp of
           Inl err \<Rightarrow> Inl err
         | Inr s \<Rightarrow> if jc_maxKeyBytes c < int (length s) then Inl ErrTooLarge else Inr s))"

definition json_bytes :: "capture \<Rightarrow> CodecError + bytes option" where
  "json_bytes cp =
     (if \<not> present cp then Inr None
      else (case json_string cp of Inl err \<Rightarrow> Inl err | Inr s \<Rightarrow> Inr (Some s)))"

definition isFloatLiteral :: "bytes \<Rightarrow> bool" where
  "isFloatLiteral raw \<longleftrightarrow> (\<exists>ch \<in> set raw. ch \<in> set ''.eE'')"

text \<open>The digits of a captured integer: a number that is no float, or the body of a string.\<close>

definition integer_text :: "capture \<Rightarrow> CodecError + bytes" where
  "integer_text cp =
     (if cp_kind cp = CHR ''n'' then
        if isFloatLiteral (cp_raw cp) then Inl ErrMalformed else Inr (cp_raw cp)
      else if cp_kind cp = CHR ''s'' then Inr (unquoted (cp_raw cp))
      else Inl ErrMalformed)"

definition json_uint :: "capture \<Rightarrow> CodecError + u64" where
  "json_uint cp =
     (if \<not> present cp then Inr 0
      else
        (case integer_text cp of
           Inl err \<Rightarrow> Inl err
         | Inr raw \<Rightarrow> (case ParseUint raw of None \<Rightarrow> Inl ErrMalformed | Some n \<Rightarrow> Inr n)))"

definition json_int :: "capture \<Rightarrow> CodecError + i64" where
  "json_int cp =
     (if \<not> present cp then Inr 0
      else
        (case integer_text cp of
           Inl err \<Rightarrow> Inl err
         | Inr raw \<Rightarrow> (case ParseInt raw of None \<Rightarrow> Inl ErrMalformed | Some n \<Rightarrow> Inr (word_of_int n))))"

text \<open>\<open>time.Duration(seconds) * time.Second\<close> wraps.\<close>

definition seconds_duration :: "int \<Rightarrow> duration" where
  "seconds_duration n = wrap_i64 (n * 1000000000)"

definition json_ttl :: "golib \<Rightarrow> capture \<Rightarrow> CodecError + duration option" where
  "json_ttl lib cp =
     (if \<not> present cp then Inr None
      else if cp_kind cp = CHR ''n'' then
        if isFloatLiteral (cp_raw cp) then
          (case gl_floatSeconds lib (cp_raw cp) of None \<Rightarrow> Inl ErrMalformed | Some d \<Rightarrow> Inr (Some d))
        else
          (case ParseInt (cp_raw cp) of
             None \<Rightarrow> Inl ErrMalformed
           | Some n \<Rightarrow> Inr (Some (seconds_duration n)))
      else if cp_kind cp = CHR ''s'' then
        (case json_string cp of
           Inl err \<Rightarrow> Inl err
         | Inr s \<Rightarrow> (case gl_parseDuration lib s of None \<Rightarrow> Inl ErrMalformed | Some d \<Rightarrow> Inr (Some d)))
      else Inl ErrMalformed)"

section \<open>Timestamps\<close>

definition unix_epoch :: time where
  "unix_epoch = 62135596800 * 1000000000"

definition unixTimestamp :: "int \<Rightarrow> time" where
  "unixTimestamp n =
     (if n = 0 then 0
      else
        let magnitude = (if n < 0 then wrap_i64 (- n) else n)
        in if magnitude < 100000000000 then unix_epoch + n * 1000000000
           else if magnitude < 100000000000000 then unix_epoch + n * 1000000
           else unix_epoch + n)"

text \<open>The calendar of \<open>time.Date\<close>, which normalises months, days and times that are out of range, and
  of the accessors of \<open>time.Time\<close>. Day 0 is 1 January of the year 1.\<close>

definition leap :: "int \<Rightarrow> bool" where
  "leap y \<longleftrightarrow> y mod 4 = 0 \<and> (y mod 100 \<noteq> 0 \<or> y mod 400 = 0)"

definition month_days :: "int \<Rightarrow> int list" where
  "month_days y = [31, if leap y then 29 else 28, 31, 30, 31, 30, 31, 31, 30, 31, 30, 31]"

definition days_before_year :: "int \<Rightarrow> int" where
  "days_before_year y = 365 * (y - 1) + (y - 1) div 4 - (y - 1) div 100 + (y - 1) div 400"

definition time_Date :: "int \<Rightarrow> int \<Rightarrow> int \<Rightarrow> int \<Rightarrow> int \<Rightarrow> int \<Rightarrow> int \<Rightarrow> int \<Rightarrow> time" where
  "time_Date year month day hour minute sec nanos offset =
     (let y = year + (month - 1) div 12;
          m = (month - 1) mod 12;
          days = days_before_year y + sum_list (take (nat m) (month_days y)) + (day - 1)
      in (((days * 24 + hour) * 60 + minute) * 60 + sec - offset) * 1000000000 + nanos)"

fun month_of :: "int list \<Rightarrow> int \<Rightarrow> int \<Rightarrow> int \<times> int" where
  "month_of [] m d = (m, d + 1)"
| "month_of (l # ls) m d = (if d < l then (m, d + 1) else month_of ls (m + 1) (d - l))"

text \<open>Year, month, day, hour, minute and second of an instant in a zone.\<close>

definition civil :: "time \<Rightarrow> int \<Rightarrow> int \<times> int \<times> int \<times> int \<times> int \<times> int" where
  "civil t offset =
     (let s = t div 1000000000 + offset;
          days = s div 86400;
          r = s mod 86400;
          d400 = days mod 146097;
          c = min 3 (d400 div 36524);
          d100 = d400 - c * 36524;
          d4 = d100 mod 1461;
          a = min 3 (d4 div 365);
          year = 400 * (days div 146097) + 100 * c + 4 * (d100 div 1461) + a + 1;
          (month, day) = month_of (month_days year) 1 (d4 - a * 365)
      in (year, month, day, r div 3600, r div 60 mod 60, r mod 60))"

fun atoiN_from :: "int \<Rightarrow> bytes \<Rightarrow> int option" where
  "atoiN_from n [] = Some n"
| "atoiN_from n (ch # s) = (case digit_val ch of None \<Rightarrow> None | Some d \<Rightarrow> atoiN_from (n * 10 + d) s)"

definition atoiN :: "bytes \<Rightarrow> int option" where
  "atoiN b = atoiN_from 0 b"

definition slice :: "bytes \<Rightarrow> nat \<Rightarrow> nat \<Rightarrow> bytes" where
  "slice b i j = take (j - i) (drop i b)"

text \<open>The nanoseconds after the point: nine digits are read, more are skipped, fewer are padded.\<close>

definition fraction_nanos :: "bytes \<Rightarrow> int" where
  "fraction_nanos ds =
     (let kept = take 9 ds
      in (case atoiN kept of None \<Rightarrow> 0 | Some n \<Rightarrow> n * 10 ^ (9 - length kept)))"

definition zone_offset :: "bytes \<Rightarrow> int option" where
  "zone_offset z =
     (if z = ''Z'' then Some 0
      else if z \<noteq> [] \<and> hd z \<in> set ''+-'' \<and> length z = 6 \<and> z ! 3 = CHR '':'' then
        (case (atoiN (slice z 1 3), atoiN (slice z 4 6)) of
           (Some h, Some m) \<Rightarrow>
             let offset = h * 3600 + m * 60 in Some (if hd z = CHR ''-'' then - offset else offset)
         | _ \<Rightarrow> None)
      else None)"

definition parseRFC3339 :: "bytes \<Rightarrow> time option" where
  "parseRFC3339 b =
     (if length b < 20 \<or> b ! 4 \<noteq> CHR ''-'' \<or> b ! 7 \<noteq> CHR ''-'' \<or> b ! 10 \<noteq> CHR ''T''
         \<or> b ! 13 \<noteq> CHR '':'' \<or> b ! 16 \<noteq> CHR '':'' then None
      else
        (case (atoiN (slice b 0 4), atoiN (slice b 5 7), atoiN (slice b 8 10),
               atoiN (slice b 11 13), atoiN (slice b 14 16), atoiN (slice b 17 19)) of
           (Some year, Some month, Some day, Some hour, Some minute, Some sec) \<Rightarrow>
             let r = drop 19 b;
                 point = starts CHR ''.'' r;
                 digits = (if point then takeWhile is_digit (tl r) else []);
                 z = (if point then dropWhile is_digit (tl r) else r)
             in if point \<and> digits = [] then None
                else
                  (case zone_offset z of
                     None \<Rightarrow> None
                   | Some offset \<Rightarrow>
                       let t = time_Date year month day hour minute sec (fraction_nanos digits) offset
                       in if civil t offset \<noteq> (year, month, day, hour, minute, sec) then None
                          else Some t)
         | _ \<Rightarrow> None))"

definition timestamp :: "golib \<Rightarrow> capture \<Rightarrow> CodecError + time" where
  "timestamp lib cp =
     (if \<not> present cp then Inr 0
      else if cp_kind cp = CHR ''s'' then
        (case (if cp_escape cp then None else parseRFC3339 (unquoted (cp_raw cp))) of
           Some ts \<Rightarrow> Inr ts
         | None \<Rightarrow>
             (case json_string cp of
                Inl err \<Rightarrow> Inl err
              | Inr s \<Rightarrow>
                  if s = [] then Inr 0
                  else
                    (case gl_timeParse lib s of
                       Some ts \<Rightarrow> Inr ts
                     | None \<Rightarrow>
                         (case ParseInt s of None \<Rightarrow> Inl ErrMalformed | Some n \<Rightarrow> Inr (unixTimestamp n)))))
      else if cp_kind cp = CHR ''n'' then
        if isFloatLiteral (cp_raw cp) then Inl ErrMalformed
        else
          (case ParseInt (cp_raw cp) of None \<Rightarrow> Inl ErrMalformed | Some n \<Rightarrow> Inr (unixTimestamp n))
      else Inl ErrMalformed)"

section \<open>The JSON codec\<close>

definition zero_Event :: Event where
  "zero_Event =
     \<lparr>ev_publisher = [], ev_epoch = 0, ev_seq = 0, ev_publishedAt = 0, ev_observedAt = 0,
      ev_topic = [], ev_op = OpUnknown, ev_key = [], ev_member = [], ev_value = None, ev_delta = 0,
      ev_ttl = None, ev_raw = None\<rparr>"

text \<open>The interner: a bounded cache of strings.\<close>

record interner =
  in_m :: "(string, string) go_map"
  in_entries :: int

definition interner_store :: "string \<Rightarrow> interner \<Rightarrow> interner" where
  "interner_store s i =
     (if int (length (in_m i)) < in_entries i then i\<lparr>in_m := map_put s s (in_m i)\<rparr> else i)"

definition interner_get :: "string \<Rightarrow> interner \<Rightarrow> interner \<times> string" where
  "interner_get b i = (case map_get (in_m i) b of Some s \<Rightarrow> (i, s) | None \<Rightarrow> (interner_store b i, b))"

definition internedString :: "capture \<Rightarrow> CodecError + string" where
  "internedString cp =
     (if present cp \<and> cp_kind cp = CHR ''s'' \<and> \<not> cp_escape cp then Inr (unquoted (cp_raw cp))
      else json_string cp)"

definition json_assign :: "golib \<Rightarrow> jsonCodec \<Rightarrow> captures \<Rightarrow> Event \<Rightarrow> CodecError + Event" where
  "json_assign lib c caps dst =
     (case resolveOp lib c (caps fieldOp) of Inl err \<Rightarrow> Inl err | Inr op \<Rightarrow>
      (case internedString (caps fieldPublisher) of Inl err \<Rightarrow> Inl err | Inr publisher \<Rightarrow>
       (case json_uint (caps fieldEpoch) of Inl err \<Rightarrow> Inl err | Inr epoch \<Rightarrow>
        (case json_uint (caps fieldSeq) of Inl err \<Rightarrow> Inl err | Inr sq \<Rightarrow>
         (case timestamp lib (caps fieldTimestamp) of Inl err \<Rightarrow> Inl err | Inr published \<Rightarrow>
          (case boundedString c (caps fieldKey) of Inl err \<Rightarrow> Inl err | Inr key \<Rightarrow>
           (case boundedString c (caps fieldMember) of Inl err \<Rightarrow> Inl err | Inr member \<Rightarrow>
            (case json_bytes (caps fieldValue) of Inl err \<Rightarrow> Inl err | Inr val \<Rightarrow>
             (case json_int (caps fieldDelta) of Inl err \<Rightarrow> Inl err | Inr delta \<Rightarrow>
              (case json_ttl lib (caps fieldTTL) of Inl err \<Rightarrow> Inl err | Inr ttl \<Rightarrow>
                 Inr (dst\<lparr>ev_op := op, ev_publisher := publisher, ev_epoch := epoch, ev_seq := sq,
                          ev_publishedAt := published, ev_key := key, ev_member := member,
                          ev_value := val, ev_delta := delta, ev_ttl := ttl\<rparr>)))))))))))"

fun event_error :: "EventError \<Rightarrow> CodecError" where
  "event_error ErrUnknownOp = CodecErrUnknownOp"
| "event_error ErrMissingField = CodecErrMissingField"
| "event_error ErrUnexpectedField = CodecErrUnexpectedField"
| "event_error ErrInvalidField = CodecErrInvalidField"

definition json_Decode :: "golib \<Rightarrow> jsonCodec \<Rightarrow> bytes \<Rightarrow> string \<Rightarrow> Event \<Rightarrow> CodecError + Event" where
  "json_Decode lib c payload topic dst =
     (if jc_maxPayloadBytes c < int (length payload) then Inl ErrTooLarge
      else
        let dst = zero_Event\<lparr>ev_observedAt := ev_observedAt dst, ev_topic := topic\<rparr>
        in (case json_scan c payload of
              Inl err \<Rightarrow> Inl err
            | Inr caps \<Rightarrow>
                (case json_assign lib c caps dst of
                   Inl err \<Rightarrow> Inl err
                 | Inr dst \<Rightarrow>
                     let dst = (if jc_retainRaw c then dst\<lparr>ev_raw := Some payload\<rparr> else dst)
                     in (case Validate dst of None \<Rightarrow> Inr dst | Some err \<Rightarrow> Inl (event_error err)))))"

section \<open>The template codec\<close>

text \<open>A compiled expression: the names of its groups (the first is the whole match) and the bounds of
  each group in the leftmost match, \<open>None\<close> for a group that took no part.\<close>

record regexp =
  re_names :: "string list"
  re_match :: "bytes \<Rightarrow> (nat \<times> nat) option list option"

record templateCodec =
  tc_re :: regexp
  tc_groups :: "field option list"
  tc_opMap :: "(string, Op) go_map"
  tc_opNames :: "(string, Op) go_map"
  tc_maxPayloadBytes :: int
  tc_maxKeyBytes :: int
  tc_retainRaw :: bool

definition templateFieldNames :: "(string, field) go_map" where
  "templateFieldNames = map (\<lambda>(f, cfgKey, name). (name, f)) configKeys"

text \<open>\<open>None\<close> in the result list stands for \<open>numFields\<close>.\<close>

fun template_groups :: "nat \<Rightarrow> string list \<Rightarrow> field option list option" where
  "template_groups i [] = Some []"
| "template_groups i (name # names) =
     (case (if i = 0 \<or> name = [] then Some None else map_option Some (map_get templateFieldNames name)) of
        None \<Rightarrow> None
      | Some g \<Rightarrow> map_option (\<lambda>gs. g # gs) (template_groups (i + 1) names))"

definition newTemplate :: "golib \<Rightarrow> (string \<Rightarrow> regexp option) \<Rightarrow> codec_cfg \<Rightarrow> templateCodec option" where
  "newTemplate lib compile cfg =
     (let pattern = trim_space (setting cfg ''pattern'')
      in if pattern = [] then None
         else
           (case compile pattern of
              None \<Rightarrow> None
            | Some re \<Rightarrow>
                if re_match re [] \<noteq> None then None
                else
                  (case template_groups 0 (re_names re) of
                     None \<Rightarrow> None
                   | Some groups \<Rightarrow>
                       if Some fieldOp \<notin> set groups then None
                       else
                         (case (parseOpMapping lib (setting cfg ''opMapping''),
                                codec_intConfig cfg ''maxPayloadBytes'' 1048576,
                                codec_intConfig cfg ''maxKeyBytes'' 4096, codec_boolConfig cfg ''retainRaw'') of
                            (Some opMap, Some payload, Some key, Some raw) \<Rightarrow>
                              Some \<lparr>tc_re = re, tc_groups = groups, tc_opMap = opMap,
                                    tc_opNames = builtinOpNames, tc_maxPayloadBytes = payload,
                                    tc_maxKeyBytes = key, tc_retainRaw = raw\<rparr>
                          | _ \<Rightarrow> None))))"

definition trimTrailingNewline :: "bytes \<Rightarrow> bytes" where
  "trimTrailingNewline b =
     (if b = [] \<or> last b \<noteq> CHR 0x0A then b
      else
        let b = butlast b
        in if b \<noteq> [] \<and> last b = CHR 0x0D then butlast b else b)"

definition templateUint :: "string \<Rightarrow> CodecError + u64" where
  "templateUint raw =
     (let trimmed = trim_space raw
      in if trimmed = [] then Inr 0
         else (case ParseUint trimmed of None \<Rightarrow> Inl ErrMalformed | Some n \<Rightarrow> Inr n))"

definition templateTime :: "golib \<Rightarrow> string \<Rightarrow> CodecError + time" where
  "templateTime lib raw =
     (let trimmed = trim_space raw
      in if trimmed = [] then Inr 0
         else
           (case gl_timeParse lib trimmed of
              Some ts \<Rightarrow> Inr ts
            | None \<Rightarrow>
                (case ParseInt trimmed of None \<Rightarrow> Inl ErrMalformed | Some n \<Rightarrow> Inr (unixTimestamp n))))"

definition templateTTL :: "golib \<Rightarrow> string \<Rightarrow> CodecError + duration option" where
  "templateTTL lib raw =
     (let trimmed = trim_space raw
      in if trimmed = [] then Inr None
         else
           (case gl_parseDuration lib trimmed of
              Some d \<Rightarrow> Inr (Some d)
            | None \<Rightarrow>
                (case ParseInt trimmed of
                   None \<Rightarrow> Inl ErrMalformed
                 | Some n \<Rightarrow> Inr (Some (seconds_duration n)))))"

definition template_op :: "templateCodec \<Rightarrow> string \<Rightarrow> CodecError + Op" where
  "template_op c name =
     (case map_get (tc_opMap c) name of
        Some op \<Rightarrow> Inr op
      | None \<Rightarrow>
          (case map_get (tc_opNames c) (normalizeOpName name) of
             Some op \<Rightarrow> Inr op
           | None \<Rightarrow> Inl CodecErrUnknownOp))"

definition template_assign ::
  "golib \<Rightarrow> templateCodec \<Rightarrow> field \<Rightarrow> string \<Rightarrow> Event \<Rightarrow> CodecError + Event" where
  "template_assign lib c f raw dst =
     (case f of
        fieldPublisher \<Rightarrow> Inr (dst\<lparr>ev_publisher := raw\<rparr>)
      | fieldEpoch \<Rightarrow>
          (case templateUint raw of Inl err \<Rightarrow> Inl err | Inr n \<Rightarrow> Inr (dst\<lparr>ev_epoch := n\<rparr>))
      | fieldSeq \<Rightarrow>
          (case templateUint raw of Inl err \<Rightarrow> Inl err | Inr n \<Rightarrow> Inr (dst\<lparr>ev_seq := n\<rparr>))
      | fieldTimestamp \<Rightarrow>
          (case templateTime lib raw of Inl err \<Rightarrow> Inl err | Inr ts \<Rightarrow> Inr (dst\<lparr>ev_publishedAt := ts\<rparr>))
      | fieldOp \<Rightarrow>
          (case template_op c raw of Inl err \<Rightarrow> Inl err | Inr op \<Rightarrow> Inr (dst\<lparr>ev_op := op\<rparr>))
      | fieldKey \<Rightarrow> Inr (dst\<lparr>ev_key := raw\<rparr>)
      | fieldMember \<Rightarrow> Inr (dst\<lparr>ev_member := raw\<rparr>)
      | fieldValue \<Rightarrow> Inr (dst\<lparr>ev_value := Some raw\<rparr>)
      | fieldTTL \<Rightarrow>
          (case templateTTL lib raw of Inl err \<Rightarrow> Inl err | Inr ttl \<Rightarrow> Inr (dst\<lparr>ev_ttl := ttl\<rparr>))
      | fieldDelta \<Rightarrow>
          (case ParseInt (trim_space raw) of
             None \<Rightarrow> Inl ErrMalformed
           | Some n \<Rightarrow> Inr (dst\<lparr>ev_delta := word_of_int n\<rparr>)))"

fun template_fill ::
  "golib \<Rightarrow> templateCodec \<Rightarrow> bytes \<Rightarrow> (field option \<times> (nat \<times> nat) option) list \<Rightarrow> Event \<Rightarrow> CodecError + Event"
where
  "template_fill lib c payload [] dst = Inr dst"
| "template_fill lib c payload ((g, bounds) # gs) dst =
     (case (g, bounds) of
        (Some f, Some (i, j)) \<Rightarrow>
          (case template_assign lib c f (slice payload i j) dst of
             Inl err \<Rightarrow> Inl err
           | Inr dst \<Rightarrow> template_fill lib c payload gs dst)
      | _ \<Rightarrow> template_fill lib c payload gs dst)"

definition template_Decode ::
  "golib \<Rightarrow> templateCodec \<Rightarrow> bytes \<Rightarrow> string \<Rightarrow> Event \<Rightarrow> CodecError + Event" where
  "template_Decode lib c payload topic dst =
     (if payload = [] then Inl ErrMalformed
      else if tc_maxPayloadBytes c < int (length payload) then Inl ErrTooLarge
      else
        let payload = trimTrailingNewline payload
        in (case re_match (tc_re c) payload of
              None \<Rightarrow> Inl ErrMalformed
            | Some idx \<Rightarrow>
                (case template_fill lib c payload (tl (zip (tc_groups c) idx))
                    (zero_Event\<lparr>ev_observedAt := ev_observedAt dst, ev_topic := topic\<rparr>) of
                   Inl err \<Rightarrow> Inl err
                 | Inr dst \<Rightarrow>
                     if ev_op dst = OpUnknown then Inl CodecErrMissingField
                     else if tc_maxKeyBytes c < int (length (ev_key dst)) then Inl ErrTooLarge
                     else Inr (if tc_retainRaw c then dst\<lparr>ev_raw := Some payload\<rparr> else dst))))"

end
