(* ===== verification/Pipeline.thy ===== *)
theory Pipeline
  imports Reference Reorder Lag Codec
begin

text \<open>
  \<open>pkg/check/check.go\<close>: the check that wires the components together. This theory holds its state
  and the applier: a raw message is decoded, put in order, judged by the sequence tracker, folded
  through the projection and applied to the oracle; gaps, restarts and undecodable payloads widen
  suspicion, a completed snapshot clears it.

  The codec, the key hash, the glob matcher, the random draws, the clock and the source's
  connection state are fields of \<open>wiring\<close>; the last three are indexed by \<open>ck_ticks\<close>, which counts
  the accesses, so that two readings of the clock may differ. A counter is a \<open>u64\<close> and wraps.
  \<open>None\<close> is a panic of the tracker. Metrics and log lines are left out: nothing reads them back.
\<close>

section \<open>State\<close>

datatype Phase =
    PhasePending | PhaseBootstrapping | PhaseAwaitingSnapshot | PhaseWatching
  | PhaseDegraded | PhasePaused | PhaseFailed

datatype BootstrapMode = BootstrapAdopt | BootstrapWait | BootstrapStrict

record RawMessage =
  rm_topic :: string
  rm_payload :: bytes
  rm_observedAt :: time

record wiring =
  wr_hash :: "string \<Rightarrow> u64"
  wr_glob :: "string \<Rightarrow> string \<Rightarrow> bool option"
  wr_decode :: "bytes \<Rightarrow> string \<Rightarrow> Event \<Rightarrow> CodecError + Event"
  wr_proj :: Projection
  wr_clock :: "nat \<Rightarrow> time"
  wr_intn :: "nat \<Rightarrow> int \<Rightarrow> int"
  wr_connected :: "nat \<Rightarrow> bool"
  wr_maxPublishers :: int
  wr_maxTrackedKeys :: int
  wr_bootstrap :: BootstrapMode

record Check =
  ck_ticks :: nat
  ck_tracker :: Tracker
  ck_orc :: Oracle
  ck_reorder :: reorderBuffer
  ck_est :: Estimator
  ck_phase :: Phase
  ck_message :: string
  ck_lastReport :: "Report option"
  ck_lastSweep :: time
  ck_saturated :: bool
  ck_saturation :: string
  ck_sourceFailed :: bool
  ck_sourceFailure :: string
  ck_targetUnreachable :: bool
  ck_paused :: bool
  ck_awaitingSnapshot :: bool
  ck_snapshotsSeen :: u64
  ck_multiWriter :: bool
  ck_multiWriterKey :: "string option"
  ck_clockSkew :: "(string, duration) go_map"
  ck_eventsApplied :: u64
  ck_eventsDropped :: u64
  ck_bytesRead :: u64
  ck_gapSignals :: u64
  ck_decodeErrors :: u64
  ck_bootstrapped :: bool

text \<open>\<open>New\<close> and \<open>build\<close>: the reorder window is zero when the projection is commutative.\<close>

definition Check_New ::
  "wiring \<Rightarrow> TrackerConfig \<Rightarrow> OracleConfig \<Rightarrow> LagConfig \<Rightarrow> duration \<Rightarrow> bool \<Rightarrow> Check" where
  "Check_New wr tcfg ocfg lcfg reorderWindow paused =
     \<lparr>ck_ticks = 0, ck_tracker = Tracker_New tcfg, ck_orc = Oracle_New ocfg,
      ck_reorder = newReorderBuffer (if Commutative (wr_proj wr) then 0 else reorderWindow)
        defaultMaxHeldPerPublisher,
      ck_est = Estimator_New lcfg, ck_phase = PhasePending, ck_message = [], ck_lastReport = None,
      ck_lastSweep = 0, ck_saturated = False, ck_saturation = [], ck_sourceFailed = False,
      ck_sourceFailure = [], ck_targetUnreachable = False, ck_paused = paused,
      ck_awaitingSnapshot = False, ck_snapshotsSeen = 0, ck_multiWriter = False,
      ck_multiWriterKey = None, ck_clockSkew = [], ck_eventsApplied = 0, ck_eventsDropped = 0,
      ck_bytesRead = 0, ck_gapSignals = 0, ck_decodeErrors = 0, ck_bootstrapped = False\<rparr>"

definition clk_Now :: "wiring \<Rightarrow> Check \<Rightarrow> Check \<times> time" where
  "clk_Now wr c = (c\<lparr>ck_ticks := ck_ticks c + 1\<rparr>, wr_clock wr (ck_ticks c))"

section \<open>Phases\<close>

definition setPhase :: "Phase \<times> string \<Rightarrow> Check \<Rightarrow> Check" where
  "setPhase p c = c\<lparr>ck_phase := fst p, ck_message := snd p\<rparr>"

definition awaiting_message :: string where
  "awaiting_message = ''no key is asserted on until a publisher completes a snapshot cycle''"

definition steadyPhase :: "wiring \<Rightarrow> Check \<Rightarrow> Phase \<times> string" where
  "steadyPhase wr c =
     (if ck_paused c then (PhasePaused, ''policy.paused is set: ingesting, not sweeping'')
      else if ck_awaitingSnapshot c then (PhaseAwaitingSnapshot, awaiting_message)
      else if ck_sourceFailed c then (PhaseDegraded, ck_sourceFailure c)
      else if \<not> wr_connected wr (ck_ticks c) then
        (PhaseDegraded, ''the source is not currently subscribed; no events are arriving, so ''
           @ ''a clean sweep says nothing about the store'')
      else if \<not> ck_saturated c \<and> \<not> ck_sourceFailed c then (PhaseWatching, ''steady state'')
      else if ck_sourceFailed c then (PhaseDegraded, ck_sourceFailure c)
      else (PhaseDegraded, ck_saturation c))"

definition setSteady :: "wiring \<Rightarrow> Check \<Rightarrow> Check" where
  "setSteady wr c = setPhase (steadyPhase wr c) (c\<lparr>ck_ticks := ck_ticks c + 1\<rparr>)"

section \<open>Suspicion\<close>

text \<open>\<open>strings.ReplaceAll\<close> for a non-empty pattern.\<close>

function replace_all :: "string \<Rightarrow> string \<Rightarrow> string \<Rightarrow> string" where
  "replace_all old new [] = []"
| "replace_all old new (x # xs) =
     (if old \<noteq> [] \<and> take (length old) (x # xs) = old
      then new @ replace_all old new (drop (length old) (x # xs))
      else x # replace_all old new xs)"
  by pat_completeness auto
termination
proof (relation "measure (\<lambda>(old, new, s). length s)")
  fix old new x xs
  assume "old \<noteq> [] \<and> take (length old) (x # xs) = (old :: string)"
  then show "((old, new, drop (length old) (x # xs)), old, new, x # xs)
      \<in> measure (\<lambda>(old, new :: string, s :: string). length s)"
    by (cases old) auto
qed auto

definition suspectPattern :: "wiring \<Rightarrow> string \<Rightarrow> string" where
  "suspectPattern wr publisher =
     (let ownership = KeyOwnership (wr_proj wr)
      in if \<not> om_partitioned ownership \<or> om_keyPattern ownership = [] then []
         else replace_all ''{{.Publisher}}'' publisher (om_keyPattern ownership))"

definition check_drop :: "Check \<Rightarrow> Check" where
  "check_drop c = c\<lparr>ck_eventsDropped := ck_eventsDropped c + 1\<rparr>"

definition onProjectionError :: "Check \<Rightarrow> Check" where
  "onProjectionError c = c\<lparr>ck_eventsDropped := ck_eventsDropped c + 1\<rparr>"

definition onDecodeError :: "wiring \<Rightarrow> Check \<Rightarrow> Check" where
  "onDecodeError wr c =
     (let c = check_drop (c\<lparr>ck_decodeErrors := ck_decodeErrors c + 1\<rparr>)
      in c\<lparr>ck_orc := MarkSuspect (wr_glob wr) (ck_orc c) [], ck_gapSignals := ck_gapSignals c + 1\<rparr>)"

definition onGap :: "wiring \<Rightarrow> Event \<Rightarrow> Check \<Rightarrow> Check" where
  "onGap wr e c =
     c\<lparr>ck_gapSignals := ck_gapSignals c + 1,
       ck_orc := MarkSuspect (wr_glob wr) (ck_orc c) (suspectPattern wr (ev_publisher e))\<rparr>"

definition onRestart :: "wiring \<Rightarrow> Event \<Rightarrow> Check \<Rightarrow> Check" where
  "onRestart wr e c =
     c\<lparr>ck_gapSignals := ck_gapSignals c + 1,
       ck_orc := MarkSuspect (wr_glob wr) (ck_orc c) (suspectPattern wr (ev_publisher e))\<rparr>"

definition SignalGap :: "wiring \<Rightarrow> Check \<Rightarrow> Check" where
  "SignalGap wr c =
     c\<lparr>ck_gapSignals := ck_gapSignals c + 1, ck_orc := MarkSuspect (wr_glob wr) (ck_orc c) []\<rparr>"

definition onSnapshotOp :: "wiring \<Rightarrow> Event \<Rightarrow> Check \<Rightarrow> Check" where
  "onSnapshotOp wr e c =
     (if ev_op e = OpSnapshotEnd then
        let pattern = suspectPattern wr (ev_publisher e);
            c = c\<lparr>ck_tracker := ClearGaps (ck_tracker c) (ev_publisher e),
                  ck_orc := ClearSuspect (wr_glob wr) (ck_orc c) pattern,
                  ck_snapshotsSeen := ck_snapshotsSeen c + 1\<rparr>
        in if ck_awaitingSnapshot c then setSteady wr (c\<lparr>ck_awaitingSnapshot := False\<rparr>) else c
      else c)"

section \<open>The fold\<close>

definition recordSkew :: "wiring \<Rightarrow> Event \<Rightarrow> Check \<Rightarrow> Check" where
  "recordSkew wr e c =
     (if ev_publishedAt e = 0 \<or> ev_observedAt e = 0 then c
      else if map_get (ck_clockSkew c) (ev_publisher e) = None
              \<and> wr_maxPublishers wr \<le> int (length (ck_clockSkew c)) then c
      else c\<lparr>ck_clockSkew := map_put (ev_publisher e)
               (time_sub (ev_publishedAt e) (ev_observedAt e)) (ck_clockSkew c)\<rparr>)"

definition checkMultiWriter :: "wiring \<Rightarrow> string \<Rightarrow> Event \<Rightarrow> Check \<Rightarrow> Check" where
  "checkMultiWriter wr lastPublisher e c =
     (if lastPublisher = [] \<or> lastPublisher = ev_publisher e then c
      else if TargetShape (wr_proj wr) = ShapeSet \<or> Commutative (wr_proj wr) then c
      else if om_partitioned (KeyOwnership (wr_proj wr)) then c
      else c\<lparr>ck_multiWriterKey := Some (ev_key e), ck_multiWriter := True\<rparr>)"

text \<open>\<open>fold\<close> up to the moment it has decided the trust, and the rest of it: between the two the other
  goroutines of the check may run. A refused event is \<open>None\<close>.\<close>

definition fold_prepare :: "wiring \<Rightarrow> Event \<Rightarrow> Check \<Rightarrow> Check \<times> (Mutation \<times> TrustState) option" where
  "fold_prepare wr e c =
     (case TargetKey (wr_proj wr) e of
        Inl err \<Rightarrow> (onProjectionError c, None)
      | Inr key \<Rightarrow>
          let (c, now) = clk_Now wr c;
              prev = Oracle_Get (wr_hash wr) (ck_orc c) key now;
              prevValue = (case prev of None \<Rightarrow> zero_Value | Some ent \<Rightarrow> eo_value ent);
              prevPublisher = (case prev of None \<Rightarrow> [] | Some ent \<Rightarrow> eo_lastPublisher ent)
          in (case Projection_Apply (wr_proj wr) prevValue e of
                Inl err \<Rightarrow> (onProjectionError c, None)
              | Inr mutation \<Rightarrow>
                  let c = recordSkew wr e (checkMultiWriter wr prevPublisher e c);
                      trust = Tracker_Trust (ck_tracker c) (ev_publisher e);
                      trust = (if ck_awaitingSnapshot c then TrustSuspect else trust)
                  in (c, Some (mutation, trust))))"

definition fold_commit ::
  "wiring \<Rightarrow> Event \<Rightarrow> Verdict \<Rightarrow> Mutation \<Rightarrow> TrustState \<Rightarrow> Check \<Rightarrow> Check" where
  "fold_commit wr e verdict mutation trust c =
     (let (c, started) = clk_Now wr c;
          (c, applyNow) = clk_Now wr c;
          (orc, res) = Oracle_Apply (wr_hash wr) (ck_orc c) mutation e verdict trust applyNow;
          c = c\<lparr>ck_orc := orc\<rparr>
      in if ar_applied res then
           let (c, getNow) = clk_Now wr (c\<lparr>ck_eventsApplied := ck_eventsApplied c + 1\<rparr>);
               est = OfferKey (wr_intn wr (ck_ticks c)) (mu_key mutation) (ck_est c);
               est = lag_Observe (wr_hash wr) (ck_orc c) getNow (mu_key mutation) (ar_version res) started est
           in c\<lparr>ck_est := est\<rparr>
         else c)"

definition check_fold :: "wiring \<Rightarrow> Event \<Rightarrow> Verdict \<Rightarrow> Check \<Rightarrow> Check" where
  "check_fold wr e verdict c =
     (case fold_prepare wr e c of
        (c, None) \<Rightarrow> c
      | (c, Some (mutation, trust)) \<Rightarrow> fold_commit wr e verdict mutation trust c)"

section \<open>The applier\<close>

definition onVerdict :: "wiring \<Rightarrow> Event \<Rightarrow> Verdict \<Rightarrow> Check \<Rightarrow> Check" where
  "onVerdict wr e verdict c =
     (case verdict of AcceptWithGap \<Rightarrow> onGap wr e c | AcceptAfterRestart \<Rightarrow> onRestart wr e c | _ \<Rightarrow> c)"

definition applyOrdered :: "wiring \<Rightarrow> Event \<Rightarrow> Check \<Rightarrow> Check option" where
  "applyOrdered wr e c =
     (let (c, now) = clk_Now wr c
      in case Observe (ck_tracker c) e now of
           None \<Rightarrow> None
         | Some (tracker, verdict, gap) \<Rightarrow>
             let c = c\<lparr>ck_tracker := tracker\<rparr>
             in Some (if verdict = DropDuplicate \<or> verdict = DropStaleEpoch then check_drop c
                      else check_fold wr e verdict (onSnapshotOp wr e (onVerdict wr e verdict c))))"

fun applyAll :: "wiring \<Rightarrow> Event list \<Rightarrow> Check \<Rightarrow> Check option" where
  "applyAll wr [] c = Some c"
| "applyAll wr (e # es) c =
     (case applyOrdered wr e c of None \<Rightarrow> None | Some c \<Rightarrow> applyAll wr es c)"

definition applyMessage :: "wiring \<Rightarrow> RawMessage \<Rightarrow> Check \<Rightarrow> Check option" where
  "applyMessage wr msg c =
     (let c = c\<lparr>ck_bytesRead := ck_bytesRead c + of_nat (length (rm_payload msg))\<rparr>;
          (c, observed) = (if rm_observedAt msg = 0 then clk_Now wr c else (c, rm_observedAt msg))
      in case wr_decode wr (rm_payload msg) (rm_topic msg) (zero_Event\<lparr>ev_observedAt := observed\<rparr>) of
           Inl err \<Rightarrow> Some (onDecodeError wr c)
         | Inr e \<Rightarrow>
             if Validate e \<noteq> None then Some (check_drop c)
             else
               let (rb, released) = offer (ck_reorder c) e (ev_observedAt e)
               in applyAll wr released (c\<lparr>ck_reorder := rb\<rparr>))"

definition FlushReorder :: "wiring \<Rightarrow> Check \<Rightarrow> Check option" where
  "FlushReorder wr c =
     (let (c, now) = clk_Now wr c;
          (rb, released) = expire (ck_reorder c) now
      in applyAll wr released (c\<lparr>ck_reorder := rb\<rparr>))"

text \<open>A round of the estimator; \<open>OnWindowChange\<close> sets the oracle's window.\<close>

definition PollLag :: "wiring \<Rightarrow> poll_env \<Rightarrow> Check \<Rightarrow> Check" where
  "PollLag wr pe c =
     (let (c, now) = clk_Now wr c;
          (est, change) = lag_Tick pe now (ck_est c);
          c = c\<lparr>ck_est := est\<rparr>
      in case change of
           None \<Rightarrow> c
         | Some (old, nxt) \<Rightarrow> c\<lparr>ck_orc := SetSettlementWindow (ck_orc c) nxt\<rparr>)"

section \<open>Bootstrap\<close>

text \<open>One attempt of the adopt scan: the batches the iterator yields and whether it ends in an error,
  the answers of \<open>GetMany\<close>, and what happened while the loop waited to retry.\<close>

record attempt =
  at_batches :: "string list list"
  at_scanErr :: bool
  at_getMany :: "nat \<Rightarrow> string list \<Rightarrow> TargetErr + Value list"
  at_errText :: string
  at_done :: bool
  at_sleepErr :: bool

fun adopt_keys ::
  "int \<Rightarrow> int \<Rightarrow> (string \<times> Value) list \<Rightarrow> (string, Value) go_map \<Rightarrow> int \<Rightarrow> (string, Value) go_map \<times> int" where
  "adopt_keys maxKeys adopted [] batch skipped = (batch, skipped)"
| "adopt_keys maxKeys adopted ((key, v) # kvs) batch skipped =
     (if maxKeys \<le> adopted + int (length batch)
      then adopt_keys maxKeys adopted kvs batch (skipped + 1)
      else adopt_keys maxKeys adopted kvs (map_put key v batch) skipped)"

fun adopt_batches ::
  "wiring \<Rightarrow> attempt \<Rightarrow> time \<Rightarrow> nat \<Rightarrow> string list list \<Rightarrow> int \<Rightarrow> int \<Rightarrow> Check \<Rightarrow> Check \<times> int \<times> int \<times> bool" where
  "adopt_batches wr a now i [] adopted skipped c = (c, adopted, skipped, at_scanErr a)"
| "adopt_batches wr a now i (keys # rest) adopted skipped c =
     (case at_getMany a i keys of
        Inl err \<Rightarrow> (c, adopted, skipped, True)
      | Inr values \<Rightarrow>
          let (batch, skipped) = adopt_keys (wr_maxTrackedKeys wr) adopted (zip keys values) [] skipped;
              c = c\<lparr>ck_orc := AdoptSnapshot (wr_hash wr) (ck_orc c) batch now\<rparr>
          in adopt_batches wr a now (i + 1) rest (adopted + int (length batch)) skipped c)"

definition saturation_message :: "int \<Rightarrow> int \<Rightarrow> string" where
  "saturation_message adopted skipped =
     ''oracle saturated: adopted '' @ itoa_nat (nat adopted) @ '' keys, skipped ''
       @ itoa_nat (nat skipped)
       @ ''; findings cover only the keys driftwatch is tracking''"

text \<open>The second result tells whether the scan failed.\<close>

definition adoptScan :: "wiring \<Rightarrow> attempt \<Rightarrow> Check \<Rightarrow> Check \<times> bool" where
  "adoptScan wr a c =
     (let c = setPhase (PhaseBootstrapping, ''scanning the target keyspace'') c;
          (c, now) = clk_Now wr c;
          (c, adopted, skipped, failed) = adopt_batches wr a now 0 (at_batches a) 0 0 c
      in if failed then (c, True)
         else if 0 < skipped then
           let message = saturation_message adopted skipped
           in (setPhase (PhaseDegraded, message) (c\<lparr>ck_saturation := message, ck_saturated := True\<rparr>), False)
         else (c, False))"

text \<open>The retry loop over the attempts made so far: \<open>None\<close> while it is still retrying, \<open>Some ok\<close> when it
  returned.\<close>

fun bootstrapAdopt :: "wiring \<Rightarrow> attempt list \<Rightarrow> Check \<Rightarrow> Check \<times> bool option" where
  "bootstrapAdopt wr [] c = (c, None)"
| "bootstrapAdopt wr (a # as) c =
     (case adoptScan wr a c of
        (c, False) \<Rightarrow> (c, Some True)
      | (c, True) \<Rightarrow>
          if at_done a then (c, Some False)
          else
            let c = setPhase (PhaseBootstrapping, ''adopt scan failed: '' @ at_errText a) c
            in if at_sleepErr a then (c, Some False) else bootstrapAdopt wr as c)"

definition bootstrapStrict :: "wiring \<Rightarrow> Check \<Rightarrow> Check" where
  "bootstrapStrict wr c =
     (let c = c\<lparr>ck_awaitingSnapshot := True\<rparr>;
          c = c\<lparr>ck_orc := MarkSuspect (wr_glob wr) (ck_orc c) []\<rparr>
      in setPhase (PhaseAwaitingSnapshot, awaiting_message) c)"

definition bootstrap :: "wiring \<Rightarrow> attempt list \<Rightarrow> Check \<Rightarrow> Check \<times> bool option" where
  "bootstrap wr as c =
     (case wr_bootstrap wr of
        BootstrapAdopt \<Rightarrow>
          (case bootstrapAdopt wr as c of
             (c, None) \<Rightarrow> (c, None)
           | (c, Some ok) \<Rightarrow> (c\<lparr>ck_bootstrapped := True\<rparr>, Some ok))
      | BootstrapWait \<Rightarrow> (c\<lparr>ck_bootstrapped := True\<rparr>, Some True)
      | BootstrapStrict \<Rightarrow> ((bootstrapStrict wr c)\<lparr>ck_bootstrapped := True\<rparr>, Some True))"

text \<open>\<open>runSweeper\<close> up to the sweeper's own loop.\<close>

definition runSweeper :: "wiring \<Rightarrow> attempt list \<Rightarrow> Check \<Rightarrow> Check" where
  "runSweeper wr as c =
     (case bootstrap wr as c of
        (c, Some True) \<Rightarrow> setSteady wr c
      | (c, _) \<Rightarrow> c)"

section \<open>What the steps leave alone\<close>

text \<open>The bookkeeping fields that the applier's helpers never touch.\<close>

definition same_status :: "Check \<Rightarrow> Check \<Rightarrow> bool" where
  "same_status c c' \<longleftrightarrow> ck_phase c' = ck_phase c \<and> ck_awaitingSnapshot c' = ck_awaitingSnapshot c
     \<and> ck_paused c' = ck_paused c \<and> ck_sourceFailed c' = ck_sourceFailed c
     \<and> ck_saturated c' = ck_saturated c \<and> ck_reorder c' = ck_reorder c"

lemma same_status_refl [simp]: "same_status c c"
  by (simp add: same_status_def)

lemma same_status_trans: "same_status a b \<Longrightarrow> same_status b c \<Longrightarrow> same_status a c"
  by (simp add: same_status_def)

lemma clk_Now_status: "same_status c (fst (clk_Now wr c))"
  by (simp add: clk_Now_def same_status_def)

lemma onVerdict_status: "same_status c (onVerdict wr e v c)"
  by (simp add: onVerdict_def onGap_def onRestart_def same_status_def split: Verdict.split)

lemma recordSkew_status: "same_status c (recordSkew wr e c)"
  by (simp add: recordSkew_def same_status_def)

lemma checkMultiWriter_status: "same_status c (checkMultiWriter wr p e c)"
  by (simp add: checkMultiWriter_def same_status_def)

lemma skew_core:
  "ck_orc (recordSkew wr e c) = ck_orc c" "ck_tracker (recordSkew wr e c) = ck_tracker c"
  "ck_orc (checkMultiWriter wr p e c) = ck_orc c" "ck_tracker (checkMultiWriter wr p e c) = ck_tracker c"
  by (simp_all add: recordSkew_def checkMultiWriter_def)

text \<open>The fold decides on a mutation and a trust without touching the oracle or the tracker.\<close>

lemma fold_prepare_spec:
  assumes "fold_prepare wr e c = (c', out)"
  shows "same_status c c'" and "ck_orc c' = ck_orc c" and "ck_tracker c' = ck_tracker c"
    and "out = Some (m, trust) \<Longrightarrow> trust =
      (if ck_awaitingSnapshot c then TrustSuspect else Tracker_Trust (ck_tracker c) (ev_publisher e))"
  using assms
  by (auto simp: fold_prepare_def clk_Now_def Let_def onProjectionError_def same_status_def skew_core
      recordSkew_status [unfolded same_status_def] checkMultiWriter_status [unfolded same_status_def]
      split: sum.splits)

lemma fold_commit_spec:
  "same_status c (fold_commit wr e v m trust c)"
  "ck_tracker (fold_commit wr e v m trust c) = ck_tracker c"
  "\<exists>now. ck_orc (fold_commit wr e v m trust c) = fst (Oracle_Apply (wr_hash wr) (ck_orc c) m e v trust now)"
proof -
  have "ck_orc (fold_commit wr e v m trust c) =
      fst (Oracle_Apply (wr_hash wr) (ck_orc c) m e v trust (wr_clock wr (Suc (ck_ticks c))))"
    by (auto simp: fold_commit_def clk_Now_def Let_def split: prod.split)
  then show "\<exists>now. ck_orc (fold_commit wr e v m trust c) = fst (Oracle_Apply (wr_hash wr) (ck_orc c) m e v trust now)"
    by blast
qed (auto simp: fold_commit_def clk_Now_def Let_def same_status_def split: prod.split)

lemma check_fold_spec:
  shows "same_status c (check_fold wr e v c)" and "ck_tracker (check_fold wr e v c) = ck_tracker c"
    and "ck_orc (check_fold wr e v c) = ck_orc c
      \<or> (\<exists>m now. ck_orc (check_fold wr e v c) = fst (Oracle_Apply (wr_hash wr) (ck_orc c) m e v
            (if ck_awaitingSnapshot c then TrustSuspect else Tracker_Trust (ck_tracker c) (ev_publisher e)) now))"
proof -
  obtain c1 out where p: "fold_prepare wr e c = (c1, out)" by force
  note sp = fold_prepare_spec [OF p]
  have "same_status c (check_fold wr e v c) \<and> ck_tracker (check_fold wr e v c) = ck_tracker c
    \<and> (ck_orc (check_fold wr e v c) = ck_orc c
      \<or> (\<exists>m now. ck_orc (check_fold wr e v c) = fst (Oracle_Apply (wr_hash wr) (ck_orc c) m e v
            (if ck_awaitingSnapshot c then TrustSuspect else Tracker_Trust (ck_tracker c) (ev_publisher e)) now)))"
  proof (cases out)
    case None
    then show ?thesis using sp by (simp add: check_fold_def p)
  next
    case (Some mt)
    obtain m trust where mt: "mt = (m, trust)" by (cases mt)
    have eq: "check_fold wr e v c = fold_commit wr e v m trust c1" by (simp add: check_fold_def p Some mt)
    have "trust = (if ck_awaitingSnapshot c then TrustSuspect else Tracker_Trust (ck_tracker c) (ev_publisher e))"
      using sp(4) Some mt by simp
    then show ?thesis
      unfolding eq using fold_commit_spec [where wr = wr and e = e and v = v and m = m and trust = trust and c = c1] sp(1-3)
        same_status_trans [OF sp(1)] by metis
  qed
  then show "same_status c (check_fold wr e v c)" and "ck_tracker (check_fold wr e v c) = ck_tracker c"
    and "ck_orc (check_fold wr e v c) = ck_orc c
      \<or> (\<exists>m now. ck_orc (check_fold wr e v c) = fst (Oracle_Apply (wr_hash wr) (ck_orc c) m e v
            (if ck_awaitingSnapshot c then TrustSuspect else Tracker_Trust (ck_tracker c) (ev_publisher e)) now))"
    by auto
qed

text \<open>An event of the applier in parts: what the tracker says, what follows for the oracle.\<close>

lemma applyOrdered_cases:
  assumes "applyOrdered wr e c = Some c'"
  obtains t v gap now c1 where "Observe (ck_tracker c) e now = Some (t, v, gap)"
    "same_status c c1" "ck_tracker c1 = t" "ck_orc c1 = ck_orc c"
    "c' = (if v = DropDuplicate \<or> v = DropStaleEpoch then check_drop c1
           else check_fold wr e v (onSnapshotOp wr e (onVerdict wr e v c1)))"
proof -
  let ?now = "wr_clock wr (ck_ticks c)"
  obtain t v gap where o: "Observe (ck_tracker c) e ?now = Some (t, v, gap)"
    using assms by (auto simp: applyOrdered_def clk_Now_def Let_def split: option.splits)
  let ?c1 = "c\<lparr>ck_ticks := ck_ticks c + 1, ck_tracker := t\<rparr>"
  have "c' = (if v = DropDuplicate \<or> v = DropStaleEpoch then check_drop ?c1
           else check_fold wr e v (onSnapshotOp wr e (onVerdict wr e v ?c1)))"
    using assms o by (auto simp: applyOrdered_def clk_Now_def Let_def)
  then show ?thesis using that [OF o, of ?c1] by (simp add: same_status_def)
qed

lemma onSnapshotOp_status:
  "ck_reorder (onSnapshotOp wr e c) = ck_reorder c"
  "\<not> ck_awaitingSnapshot c \<Longrightarrow> same_status c (onSnapshotOp wr e c)"
  by (auto simp: onSnapshotOp_def setSteady_def setPhase_def Let_def same_status_def)

lemma applyOrdered_reorder: "applyOrdered wr e c = Some c' \<Longrightarrow> ck_reorder c' = ck_reorder c"
  using onVerdict_status check_fold_spec(1)
  by (elim applyOrdered_cases) (auto simp: same_status_def check_drop_def onSnapshotOp_status(1))

lemma applyOrdered_status:
  assumes "applyOrdered wr e c = Some c'" and "\<not> ck_awaitingSnapshot c"
  shows "same_status c c'"
  using assms(1)
proof (rule applyOrdered_cases)
  fix t v gap now c1
  assume s: "same_status c c1" and c': "c' = (if v = DropDuplicate \<or> v = DropStaleEpoch then check_drop c1
           else check_fold wr e v (onSnapshotOp wr e (onVerdict wr e v c1)))"
  have "same_status c (onVerdict wr e v c1)" using s onVerdict_status same_status_trans by blast
  moreover have "\<not> ck_awaitingSnapshot (onVerdict wr e v c1)"
    using calculation assms(2) by (simp add: same_status_def)
  ultimately have "same_status c (check_fold wr e v (onSnapshotOp wr e (onVerdict wr e v c1)))"
    using onSnapshotOp_status(2) check_fold_spec(1) same_status_trans by blast
  then show ?thesis using c' s by (auto simp: same_status_def check_drop_def)
qed

lemma applyAll_status:
  "applyAll wr es c = Some c' \<Longrightarrow> \<not> ck_awaitingSnapshot c \<Longrightarrow> same_status c c'"
proof (induction es arbitrary: c)
  case (Cons e es)
  then obtain c1 where c1: "applyOrdered wr e c = Some c1" "applyAll wr es c1 = Some c'"
    by (auto split: option.splits)
  have "same_status c c1" by (rule applyOrdered_status [OF c1(1) Cons.prems(2)])
  moreover from this have "same_status c1 c'"
    using Cons.IH [OF c1(2)] Cons.prems(2) by (simp add: same_status_def)
  ultimately show ?case by (rule same_status_trans)
qed simp

lemma applyAll_reorder: "applyAll wr es c = Some c' \<Longrightarrow> ck_reorder c' = ck_reorder c"
  by (induction es arbitrary: c) (auto split: option.splits dest: applyOrdered_reorder)

end
