(* ===== verification/Lifecycle.thy ===== *)
theory Lifecycle
  imports Pipeline Sweeper
begin

text \<open>
  The rest of \<open>pkg/check/check.go\<close>: how a sweep's outcome, a failed source and a pause move the
  phase, and the status snapshot. The phase is derived by \<open>steadyPhase\<close> and stored; the theorems
  say when the stored phase and what it stands for agree, and when they part.
\<close>

section \<open>Operations\<close>

text \<open>\<open>runSource\<close> after the transport's \<open>Run\<close> returned an error that is not a shutdown.\<close>

definition sourceStopped :: "string \<Rightarrow> Check \<Rightarrow> Check" where
  "sourceStopped errText c =
     (let message = ''source: '' @ errText
      in setPhase (PhaseDegraded, message)
           (c\<lparr>ck_sourceFailure := message, ck_sourceFailed := True\<rparr>))"

definition phaseIs :: "Phase \<Rightarrow> Check \<Rightarrow> bool" where
  "phaseIs p c \<longleftrightarrow> ck_phase c = p"

definition unreachable_message :: string where
  "unreachable_message = ''the target could not be reached; nothing was compared''"

definition onReport :: "wiring \<Rightarrow> Report option \<Rightarrow> SweepError option \<Rightarrow> Check \<Rightarrow> Check" where
  "onReport wr rep err c =
     (let c = (case rep of
                 Some r \<Rightarrow>
                   if err = None \<and> r_Pass r = PassOracleToTarget
                   then c\<lparr>ck_lastReport := Some r, ck_lastSweep := r_FinishedAt r\<rparr> else c
               | None \<Rightarrow> c);
          c = (if err = Some SwErrTargetUnavailable then c\<lparr>ck_targetUnreachable := True\<rparr>
               else
                 (case rep of
                    Some r \<Rightarrow>
                      if r_Pass r = PassOracleToTarget
                      then c\<lparr>ck_targetUnreachable := \<not> h_Reachable (r_TargetHealth r)\<rparr> else c
                  | None \<Rightarrow> c))
      in if err = Some SwErrTargetUnavailable then setPhase (PhaseDegraded, unreachable_message) c
         else if err \<noteq> None then c
         else if phaseIs PhaseDegraded c then setSteady wr c
         else c)"

definition SetPaused :: "wiring \<Rightarrow> bool \<Rightarrow> Check \<Rightarrow> Check" where
  "SetPaused wr paused c =
     (if ck_paused c = paused then c
      else
        let c = c\<lparr>ck_paused := paused\<rparr>
        in if phaseIs PhaseWatching c \<or> phaseIs PhasePaused c \<or> phaseIs PhaseDegraded c
           then setSteady wr c else c)"

text \<open>\<open>Run\<close>: its first and last assignments of the phase.\<close>

definition run_started :: "Check \<Rightarrow> Check" where
  "run_started c = setPhase (PhaseBootstrapping, ''starting'') c"

definition run_stopped :: "string option \<Rightarrow> Check \<Rightarrow> Check" where
  "run_stopped fatal c =
     (case fatal of
        Some err \<Rightarrow> setPhase (PhaseFailed, err) c
      | None \<Rightarrow> setPhase (PhasePending, ''stopped'') c)"

section \<open>Status\<close>

record PublisherStatus =
  pst_ID :: string
  pst_Epoch :: u64
  pst_HighWaterMark :: u64
  pst_MissingEvents :: u64
  pst_Restarts :: u64
  pst_LastSeen :: duration
  pst_ClockSkew :: duration

definition skewOf :: "Check \<Rightarrow> string \<Rightarrow> duration" where
  "skewOf c publisher = (case map_get (ck_clockSkew c) publisher of None \<Rightarrow> 0 | Some d \<Rightarrow> d)"

definition publisher_status :: "Check \<Rightarrow> time \<Rightarrow> PublisherState \<Rightarrow> PublisherStatus" where
  "publisher_status c now ps =
     \<lparr>pst_ID = ps_id ps, pst_Epoch = ps_epoch ps, pst_HighWaterMark = ps_hwm ps,
      pst_MissingEvents = GapSet_Count (ps_gaps ps), pst_Restarts = ps_restartCount ps,
      pst_LastSeen = time_sub now (ps_lastSeen ps), pst_ClockSkew = skewOf c (ps_id ps)\<rparr>"

record Status =
  st_Phase :: Phase
  st_Message :: string
  st_TrackedKeys :: int
  st_SettledKeys :: int
  st_InFlightKeys :: int
  st_SuspectKeys :: int
  st_AdoptedKeys :: int
  st_NeverSettled :: int
  st_OracleSaturated :: bool
  st_SnapshotsSeen :: u64
  st_AwaitingSnapshot :: bool
  st_ReorderHeld :: int
  st_MultiWriterUnsafe :: bool
  st_MultiWriterKey :: string
  st_OracleEvictions :: u64
  st_CoverageRatio :: rat
  st_DivergentKeys :: int
  st_SuspectDivergentKeys :: int
  st_DivergenceByCategory :: "(Category, int) go_map"
  st_DriftDuration :: duration
  st_EventsApplied :: u64
  st_EventsDropped :: u64
  st_BytesReceived :: u64
  st_GapSignals :: u64
  st_SettlementWindow :: duration
  st_ConvergenceP99 :: duration
  st_WindowIsAdaptive :: bool
  st_Publishers :: "PublisherStatus list"
  st_LastSweepTime :: time
  st_LastSweepDuration :: duration
  st_LastSweepKeysCompared :: int
  st_SweepsSkipped :: int
  st_TargetReachable :: bool
  st_TargetRole :: string
  st_TargetKeyspaceSize :: i64
  st_SourceConnected :: bool
  st_Bootstrapped :: bool

definition coverage :: "Report \<Rightarrow> int \<Rightarrow> rat" where
  "coverage rep n = (if n = 0 then 1 else of_int (r_KeysCompared rep) / of_int n)"

definition oldestEpisodeAge :: "(string, Episode) go_map \<Rightarrow> time \<Rightarrow> duration" where
  "oldestEpisodeAge episodes now =
     foldl (\<lambda>oldest ke. let age = time_sub now (ep_FirstSeenAt (snd ke))
                        in if oldest < age then age else oldest) 0 episodes"

text \<open>\<open>s\<close>, \<open>episodes\<close> and \<open>confirmed\<close> are the sweeper and what its \<open>Episodes\<close> and \<open>Confirmed\<close> returned.
  Durations stay exact; the code turns them into seconds. The transport's reconnect count and last
  error, which are copied from the source, are left out.\<close>

definition Check_Status ::
  "wiring \<Rightarrow> Sweeper \<Rightarrow> (string, Episode) go_map \<Rightarrow> (string, Finding) go_map \<Rightarrow> Check \<Rightarrow> Check \<times> Status" where
  "Check_Status wr s episodes confirmed c =
     (let (c, now) = clk_Now wr c;
          (orc, counts) = Oracle_Counts (ck_orc c) now;
          c = c\<lparr>ck_orc := orc\<rparr>;
          (c, ageNow) = clk_Now wr c;
          lagStats = Estimator_Stats (ck_est c);
          rep = ck_lastReport c
      in (c\<lparr>ck_ticks := ck_ticks c + 1\<rparr>,
          \<lparr>st_Phase = ck_phase c, st_Message = ck_message c, st_TrackedKeys = ct_total counts,
           st_SettledKeys = ct_settled counts, st_InFlightKeys = ct_inFlight counts,
           st_SuspectKeys = ct_suspect counts, st_AdoptedKeys = ct_adopted counts,
           st_NeverSettled = ct_neverSettled counts, st_OracleSaturated = ck_saturated c,
           st_SnapshotsSeen = ck_snapshotsSeen c, st_AwaitingSnapshot = ck_awaitingSnapshot c,
           st_ReorderHeld = heldCount (ck_reorder c), st_MultiWriterUnsafe = ck_multiWriter c,
           st_MultiWriterKey = (case ck_multiWriterKey c of None \<Rightarrow> [] | Some k \<Rightarrow> k),
           st_OracleEvictions = Oracle_Evictions (ck_orc c),
           st_CoverageRatio =
             (case rep of None \<Rightarrow> 0 | Some r \<Rightarrow> coverage r (ct_total counts)),
           st_DivergentKeys = int (length confirmed),
           st_SuspectDivergentKeys = (case rep of None \<Rightarrow> 0 | Some r \<Rightarrow> count_of (r_ByTrust r) TrustSuspect),
           st_DivergenceByCategory = foldl (\<lambda>m kf. count_inc (f_Category (snd kf)) m) [] confirmed,
           st_DriftDuration = oldestEpisodeAge episodes ageNow,
           st_EventsApplied = ck_eventsApplied c, st_EventsDropped = ck_eventsDropped c,
           st_BytesReceived = ck_bytesRead c, st_GapSignals = ck_gapSignals c,
           st_SettlementWindow = or_window (ck_orc c), st_ConvergenceP99 = ls_p99 lagStats,
           st_WindowIsAdaptive = ls_adaptive lagStats,
           st_Publishers = map (publisher_status c now) (Tracker_Publishers (ck_tracker c)),
           st_LastSweepTime = ck_lastSweep c,
           st_LastSweepDuration = (case rep of None \<Rightarrow> 0 | Some r \<Rightarrow> Report_Duration r),
           st_LastSweepKeysCompared = (case rep of None \<Rightarrow> 0 | Some r \<Rightarrow> r_KeysCompared r),
           st_SweepsSkipped = k_sweepsSkipped (sw_c s),
           st_TargetReachable =
             (if ck_targetUnreachable c then False
              else case rep of None \<Rightarrow> False | Some r \<Rightarrow> h_Reachable (r_TargetHealth r)),
           st_TargetRole = (case rep of None \<Rightarrow> [] | Some r \<Rightarrow> h_Role (r_TargetHealth r)),
           st_TargetKeyspaceSize = (case rep of None \<Rightarrow> 0 | Some r \<Rightarrow> h_KeyspaceSize (r_TargetHealth r)),
           st_SourceConnected = wr_connected wr (ck_ticks c),
           st_Bootstrapped = ck_bootstrapped c\<rparr>))"

section \<open>The phase\<close>

text \<open>The steady phase is Watching exactly when nothing is wrong with the check.\<close>

lemma steady_watching_iff:
  "fst (steadyPhase wr c) = PhaseWatching \<longleftrightarrow>
    \<not> ck_paused c \<and> \<not> ck_awaitingSnapshot c \<and> \<not> ck_sourceFailed c \<and> wr_connected wr (ck_ticks c)
    \<and> \<not> ck_saturated c"
  by (simp add: steadyPhase_def)

text \<open>A check that is watching keeps its phase and its state through everything but an unreachable
  target.\<close>

lemma applyMessage_phase:
  assumes "applyMessage wr m c = Some c'" and "\<not> ck_awaitingSnapshot c"
  shows "ck_phase c' = ck_phase c \<and> \<not> ck_awaitingSnapshot c'"
proof -
  have all: "ck_phase c2 = ck_phase c1 \<and> \<not> ck_awaitingSnapshot c2"
    if "applyAll wr es c1 = Some c2" "\<not> ck_awaitingSnapshot c1" for es c1 c2
    using applyAll_status [OF that] that(2) by (simp add: same_status_def)
  show ?thesis
    using assms all
    by (fastforce simp: applyMessage_def clk_Now_def Let_def onDecodeError_def check_drop_def
        split: if_splits sum.splits prod.splits)
qed

lemma FlushReorder_phase:
  assumes "FlushReorder wr c = Some c'" and "\<not> ck_awaitingSnapshot c"
  shows "ck_phase c' = ck_phase c \<and> \<not> ck_awaitingSnapshot c'"
  using assms applyAll_status
  by (fastforce simp: FlushReorder_def clk_Now_def Let_def same_status_def split: prod.splits)

lemma PollLag_phase:
  "ck_phase (PollLag wr pe c) = ck_phase c" "ck_awaitingSnapshot (PollLag wr pe c) = ck_awaitingSnapshot c"
  by (auto simp: PollLag_def clk_Now_def Let_def split: prod.split option.split)

lemma onReport_phase:
  assumes "ck_phase c = PhaseWatching" and "err \<noteq> Some SwErrTargetUnavailable"
  shows "ck_phase (onReport wr rep err c) = PhaseWatching"
    and "ck_awaitingSnapshot (onReport wr rep err c) = ck_awaitingSnapshot c"
  using assms by (auto simp: onReport_def Let_def phaseIs_def split: option.split)

text \<open>What a running check does after it started sweeping: messages, flushes, gap signals, rounds of
  the estimator, sweeps that reached the target.\<close>

inductive carries_on :: "wiring \<Rightarrow> Check \<Rightarrow> Check \<Rightarrow> bool" for wr :: wiring and c :: Check where
  begins: "carries_on wr c c"
| message: "carries_on wr c c1 \<Longrightarrow> applyMessage wr m c1 = Some c2 \<Longrightarrow> carries_on wr c c2"
| flush: "carries_on wr c c1 \<Longrightarrow> FlushReorder wr c1 = Some c2 \<Longrightarrow> carries_on wr c c2"
| gap: "carries_on wr c c1 \<Longrightarrow> carries_on wr c (SignalGap wr c1)"
| lag: "carries_on wr c c1 \<Longrightarrow> carries_on wr c (PollLag wr pe c1)"
| swept: "carries_on wr c c1 \<Longrightarrow> carries_on wr c (c1\<lparr>ck_orc := promoted (ck_orc c1) now\<rparr>)"
| report: "carries_on wr c c1 \<Longrightarrow> err \<noteq> Some SwErrTargetUnavailable
    \<Longrightarrow> carries_on wr c (onReport wr rep err c1)"

text \<open>The status never contradicts the last pass: after a pass that could not reach the store the
  check is Degraded and reports the target as unreachable, whatever an earlier report said; after a
  completed sweep the status shows what that sweep saw; and an extras scan that succeeded changes
  neither the report nor the reachability.\<close>

theorem status_follows_last_pass:
  defines "st wr s eps conf c \<equiv> snd (Check_Status wr s eps conf c)"
  shows "ck_phase (onReport wr rep (Some SwErrTargetUnavailable) c) = PhaseDegraded
      \<and> \<not> st_TargetReachable (st wr s eps conf (onReport wr rep (Some SwErrTargetUnavailable) c))
      \<and> ck_lastReport (onReport wr rep (Some SwErrTargetUnavailable) c) = ck_lastReport c"
    and "r_Pass r = PassOracleToTarget \<Longrightarrow>
      st_TargetReachable (st wr s eps conf (onReport wr (Some r) None c)) = h_Reachable (r_TargetHealth r)
      \<and> st_LastSweepKeysCompared (st wr s eps conf (onReport wr (Some r) None c)) = r_KeysCompared r
      \<and> st_LastSweepTime (st wr s eps conf (onReport wr (Some r) None c)) = r_FinishedAt r"
    and "r_Pass r = PassTargetToOracle \<Longrightarrow>
      ck_lastReport (onReport wr (Some r) None c) = ck_lastReport c
      \<and> st_TargetReachable (st wr s eps conf (onReport wr (Some r) None c)) = st_TargetReachable (st wr s eps conf c)"
proof -
  have reach: "st_TargetReachable (st wr s eps conf c) = (\<not> ck_targetUnreachable c
      \<and> (case ck_lastReport c of None \<Rightarrow> False | Some r \<Rightarrow> h_Reachable (r_TargetHealth r)))"
    "st_LastSweepKeysCompared (st wr s eps conf c) = (case ck_lastReport c of None \<Rightarrow> 0 | Some r \<Rightarrow> r_KeysCompared r)"
    "st_LastSweepTime (st wr s eps conf c) = ck_lastSweep c" for c
    by (auto simp: st_def Check_Status_def clk_Now_def Let_def split: prod.split option.split)
  have steady: "ck_lastReport (setSteady wr c) = ck_lastReport c" "ck_lastSweep (setSteady wr c) = ck_lastSweep c"
    "ck_targetUnreachable (setSteady wr c) = ck_targetUnreachable c" for c
    by (simp_all add: setSteady_def setPhase_def)
  show "ck_phase (onReport wr rep (Some SwErrTargetUnavailable) c) = PhaseDegraded
      \<and> \<not> st_TargetReachable (st wr s eps conf (onReport wr rep (Some SwErrTargetUnavailable) c))
      \<and> ck_lastReport (onReport wr rep (Some SwErrTargetUnavailable) c) = ck_lastReport c"
    unfolding reach by (auto simp: onReport_def setPhase_def Let_def split: option.split)
  show "r_Pass r = PassOracleToTarget \<Longrightarrow>
      st_TargetReachable (st wr s eps conf (onReport wr (Some r) None c)) = h_Reachable (r_TargetHealth r)
      \<and> st_LastSweepKeysCompared (st wr s eps conf (onReport wr (Some r) None c)) = r_KeysCompared r
      \<and> st_LastSweepTime (st wr s eps conf (onReport wr (Some r) None c)) = r_FinishedAt r"
    unfolding reach by (simp add: onReport_def Let_def steady)
  show "r_Pass r = PassTargetToOracle \<Longrightarrow>
      ck_lastReport (onReport wr (Some r) None c) = ck_lastReport c
      \<and> st_TargetReachable (st wr s eps conf (onReport wr (Some r) None c)) = st_TargetReachable (st wr s eps conf c)"
    unfolding reach by (simp add: onReport_def Let_def steady)
qed

text \<open>A check paused while it waits for a snapshot stops sweeping but keeps reporting
  AwaitingSnapshot, although \<open>steadyPhase\<close> ranks Paused above it.\<close>

theorem pause_while_awaiting:
  assumes "ck_phase c = PhaseAwaitingSnapshot" and "\<not> ck_paused c"
  shows "ck_paused (SetPaused wr True c) \<and> ck_phase (SetPaused wr True c) = PhaseAwaitingSnapshot
    \<and> fst (steadyPhase wr (SetPaused wr True c)) = PhasePaused"
  using assms by (simp add: SetPaused_def phaseIs_def steadyPhase_def Let_def)

end
