(* ===== verification/CheckSafety.thy ===== *)
theory CheckSafety
  imports Lifecycle
begin

text \<open>
  Invariants of the whole check. A run interleaves the applier, the flush ticker, the gap watcher,
  the estimator, the sweeper's passes over the oracle and the bootstrap, each operation at a time.
  What the run does to the tracker, the oracle and the snapshot wait is stated once, as the locale
  \<open>applier\<close>; its interpretations are the invariants: the components stay well formed and no
  message makes the applier panic, a check that waits for a snapshot asserts nothing, and a key
  whose last writer has an open gap is not asserted on.
\<close>

section \<open>Runs\<close>

text \<open>An event the codec can hand out. \<open>MaxUint64\<close> is left out as a sequence number: see
  \<open>Observe_top_wraps\<close>.\<close>

definition decoded :: "wiring \<Rightarrow> Event \<Rightarrow> bool" where
  "decoded wr e \<longleftrightarrow> Validate e = None \<and> ev_seq e \<noteq> - 1
     \<and> (\<exists>payload topic e0. wr_decode wr payload topic e0 = Inr e)"

definition codec_ok :: "wiring \<Rightarrow> bool" where
  "codec_ok wr \<longleftrightarrow> (\<forall>payload topic e0 e. wr_decode wr payload topic e0 = Inr e \<longrightarrow> ev_seq e \<noteq> - 1)"

text \<open>The generation counter has room for \<open>n\<close> more marks.\<close>

definition room :: "Oracle \<Rightarrow> nat \<Rightarrow> bool" where
  "room orc n \<longleftrightarrow> unat (or_suspectGen orc) + n < 2 ^ 64"

lemma room_mono: "room orc n \<Longrightarrow> m \<le> n \<Longrightarrow> room orc m"
  by (simp add: room_def)

lemma room_gen: "room orc (Suc n) \<Longrightarrow> or_suspectGen orc \<noteq> - 1"
  by (auto simp: room_def unsigned_minus_1_eq_mask mask_eq_exp_minus_1)

lemma room_mark: "room orc (Suc n) \<Longrightarrow> room (MarkSuspect glob orc p) n"
proof -
  assume r: "room orc (Suc n)"
  have "or_suspectGen (MarkSuspect glob orc p) = (if p = [] then or_suspectGen orc + 1 else or_suspectGen orc)"
    by (cases "p = []") (simp_all add: MarkSuspect_all_eq MarkSuspect_pattern_eq)
  moreover have "unat (or_suspectGen orc + 1) = Suc (unat (or_suspectGen orc))"
    using r by (simp add: unat_word_ariths room_def)
  ultimately show ?thesis using r by (auto simp: room_def)
qed

inductive check_run ::
  "wiring \<Rightarrow> TrackerConfig \<Rightarrow> OracleConfig \<Rightarrow> LagConfig \<Rightarrow> duration \<Rightarrow> Check \<Rightarrow> bool"
  for wr tcfg ocfg lcfg window where
  start: "oc_shards ocfg \<le> max_i64 \<Longrightarrow>
    check_run wr tcfg ocfg lcfg window (Check_New wr tcfg ocfg lcfg window paused)"
| message: "check_run wr tcfg ocfg lcfg window c
    \<Longrightarrow> room (ck_orc c) (length (held_events (ck_reorder c)) + 1)
    \<Longrightarrow> applyMessage wr m c = Some c' \<Longrightarrow> check_run wr tcfg ocfg lcfg window c'"
| flush: "check_run wr tcfg ocfg lcfg window c
    \<Longrightarrow> room (ck_orc c) (length (held_events (ck_reorder c)))
    \<Longrightarrow> FlushReorder wr c = Some c' \<Longrightarrow> check_run wr tcfg ocfg lcfg window c'"
| gap: "check_run wr tcfg ocfg lcfg window c \<Longrightarrow> room (ck_orc c) 1
    \<Longrightarrow> check_run wr tcfg ocfg lcfg window (SignalGap wr c)"
| lag: "check_run wr tcfg ocfg lcfg window c \<Longrightarrow> check_run wr tcfg ocfg lcfg window (PollLag wr pe c)"
| swept: "check_run wr tcfg ocfg lcfg window c
    \<Longrightarrow> check_run wr tcfg ocfg lcfg window (c\<lparr>ck_orc := promoted (ck_orc c) now\<rparr>)"
| booted: "check_run wr tcfg ocfg lcfg window c \<Longrightarrow> room (ck_orc c) 1
    \<Longrightarrow> check_run wr tcfg ocfg lcfg window (runSweeper wr ats c)"
| reported: "check_run wr tcfg ocfg lcfg window c
    \<Longrightarrow> check_run wr tcfg ocfg lcfg window (onReport wr rep err c)"
| paused: "check_run wr tcfg ocfg lcfg window c
    \<Longrightarrow> check_run wr tcfg ocfg lcfg window (SetPaused wr b c)"
| failed: "check_run wr tcfg ocfg lcfg window c
    \<Longrightarrow> check_run wr tcfg ocfg lcfg window (sourceStopped err c)"

section \<open>The interface of an invariant\<close>

text \<open>\<open>I\<close> relates the tracker, the oracle and whether a snapshot is awaited.\<close>

locale applier =
  fixes wr :: wiring and I :: "Tracker \<Rightarrow> Oracle \<Rightarrow> bool \<Rightarrow> bool"
  assumes sane: "I t orc w \<Longrightarrow> oracle_ok (wr_hash wr) orc \<and> (\<exists>L. tr_view t L)"
    and observed: "I t orc w \<Longrightarrow> decoded wr e \<Longrightarrow> Observe t e now = Some (t', v, gap)
      \<Longrightarrow> v \<noteq> AcceptWithGap \<Longrightarrow> I t' orc w"
    and gapped: "I t orc w \<Longrightarrow> decoded wr e \<Longrightarrow> Observe t e now = Some (t', AcceptWithGap, gap)
      \<Longrightarrow> room orc 1 \<Longrightarrow> I t' (MarkSuspect (wr_glob wr) orc (suspectPattern wr (ev_publisher e))) w"
    and marked: "I t orc w \<Longrightarrow> room orc 1 \<Longrightarrow> I t (MarkSuspect (wr_glob wr) orc p) w"
    and cleared: "I t orc w \<Longrightarrow> decoded wr e \<Longrightarrow> ev_op e = OpSnapshotEnd
      \<Longrightarrow> I (ClearGaps t (ev_publisher e))
            (ClearSuspect (wr_glob wr) orc (suspectPattern wr (ev_publisher e))) False"
    and applied: "I t orc w \<Longrightarrow> decoded wr e
      \<Longrightarrow> I t (fst (Oracle_Apply (wr_hash wr) orc m e v
            (if w then TrustSuspect else Tracker_Trust t (ev_publisher e)) now)) w"
    and adopted: "I t orc w \<Longrightarrow> I t (AdoptSnapshot (wr_hash wr) orc vs now) w"
    and strict: "I t orc w \<Longrightarrow> room orc 1 \<Longrightarrow> I t (MarkSuspect (wr_glob wr) orc []) True"
    and window: "I t orc w \<Longrightarrow> I t (SetSettlementWindow orc d) w"
    and promoted: "I t orc w \<Longrightarrow> I t (promoted orc now) w"

context applier
begin

definition holds :: "Check \<Rightarrow> bool" where
  "holds c \<longleftrightarrow> I (ck_tracker c) (ck_orc c) (ck_awaitingSnapshot c)"

lemma holds_frame:
  "holds c \<Longrightarrow> ck_tracker c' = ck_tracker c \<Longrightarrow> ck_orc c' = ck_orc c
    \<Longrightarrow> ck_awaitingSnapshot c' = ck_awaitingSnapshot c \<Longrightarrow> holds c'"
  by (simp add: holds_def)

lemma holds_fold: "holds c \<Longrightarrow> decoded wr e \<Longrightarrow> holds (check_fold wr e v c)"
proof -
  assume h: "holds c" "decoded wr e"
  note sp = check_fold_spec [where wr = wr and e = e and v = v and c = c]
  have "ck_awaitingSnapshot (check_fold wr e v c) = ck_awaitingSnapshot c"
    using sp(1) by (simp add: same_status_def)
  then show ?thesis
    using sp(2,3) h applied [of "ck_tracker c" "ck_orc c" "ck_awaitingSnapshot c" e]
    by (auto simp: holds_def)
qed

lemma fold_gen: "holds c \<Longrightarrow> or_suspectGen (ck_orc (check_fold wr e v c)) = or_suspectGen (ck_orc c)"
  using check_fold_spec(3) [where wr = wr and e = e and v = v and c = c] sane apply_entries(3)
  by (metis holds_def)

lemma holds_snapshot: "holds c \<Longrightarrow> decoded wr e \<Longrightarrow> holds (onSnapshotOp wr e c)"
  using cleared [of "ck_tracker c" "ck_orc c" "ck_awaitingSnapshot c" e]
  by (auto simp: onSnapshotOp_def holds_def setSteady_def setPhase_def Let_def)

lemma snapshot_gen: "or_suspectGen (ck_orc (onSnapshotOp wr e c)) = or_suspectGen (ck_orc c)"
  by (simp add: onSnapshotOp_def setSteady_def setPhase_def Let_def ClearSuspect_eq)

text \<open>The verdict of the tracker, with what the applier does about it.\<close>

lemma holds_verdict:
  assumes "holds c" and "decoded wr e" and "Observe (ck_tracker c) e now = Some (t, v, gap)"
    and "ck_tracker c1 = t" "ck_orc c1 = ck_orc c" "ck_awaitingSnapshot c1 = ck_awaitingSnapshot c"
    and "room (ck_orc c) (Suc n)"
  shows "holds (onVerdict wr e v c1) \<and> room (ck_orc (onVerdict wr e v c1)) n"
proof -
  have r: "room (ck_orc c) 1" "room (ck_orc c) n" using assms(7) by (auto intro: room_mono)
  note m = room_mark [OF assms(7), of "wr_glob wr" "suspectPattern wr (ev_publisher e)"]
  have o: "v \<noteq> AcceptWithGap \<Longrightarrow> I t (ck_orc c) (ck_awaitingSnapshot c)"
    using observed assms(1-3) by (simp add: holds_def)
  have g: "v = AcceptWithGap \<Longrightarrow> I t (MarkSuspect (wr_glob wr) (ck_orc c) (suspectPattern wr (ev_publisher e)))
      (ck_awaitingSnapshot c)"
    using gapped assms(1-3) r(1) by (simp add: holds_def)
  show ?thesis
    using o g m marked [OF o r(1)] r(2) assms(4-6)
    by (cases v) (simp_all add: onVerdict_def onGap_def onRestart_def holds_def)
qed

lemma holds_ordered:
  assumes h: "holds c" "decoded wr e" "room (ck_orc c) (Suc n)"
  shows "\<exists>c'. applyOrdered wr e c = Some c' \<and> holds c' \<and> room (ck_orc c') n"
proof -
  have view: "\<exists>L. tr_view (ck_tracker c) L" using h(1) sane by (auto simp: holds_def)
  have "ev_publisher e \<noteq> []" "ev_seq e \<noteq> - 1"
    using h(2) Validate_None_publisher by (auto simp: decoded_def)
  then have "\<exists>t v gap. Observe (ck_tracker c) e (wr_clock wr (ck_ticks c)) = Some (t, v, gap)"
    using view Observe_view by blast
  then obtain c' where c': "applyOrdered wr e c = Some c'"
    by (auto simp: applyOrdered_def clk_Now_def Let_def)
  from c' have "holds c' \<and> room (ck_orc c') n"
  proof (rule applyOrdered_cases)
    fix t v gap now c1
    assume o: "Observe (ck_tracker c) e now = Some (t, v, gap)" and s: "same_status c c1"
      and c1: "ck_tracker c1 = t" "ck_orc c1 = ck_orc c"
      and eq: "c' = (if v = DropDuplicate \<or> v = DropStaleEpoch then check_drop c1
           else check_fold wr e v (onSnapshotOp wr e (onVerdict wr e v c1)))"
    have aw: "ck_awaitingSnapshot c1 = ck_awaitingSnapshot c" using s by (simp add: same_status_def)
    note v = holds_verdict [OF h(1,2) o c1 aw h(3)]
    show ?thesis
    proof (cases "v = DropDuplicate \<or> v = DropStaleEpoch")
      case True
      then have "onVerdict wr e v c1 = c1" by (auto simp: onVerdict_def)
      then show ?thesis using v eq True holds_frame [of c1 "check_drop c1"] by (simp add: check_drop_def)
    next
      case False
      have hs: "holds (onSnapshotOp wr e (onVerdict wr e v c1))" using v h(2) by (simp add: holds_snapshot)
      then show ?thesis
        using eq False v holds_fold [OF hs h(2)] fold_gen [OF hs] snapshot_gen by (simp add: room_def)
    qed
  qed
  with c' show ?thesis by blast
qed

lemma holds_all:
  "holds c \<Longrightarrow> \<forall>e \<in> set es. decoded wr e \<Longrightarrow> room (ck_orc c) (length es)
    \<Longrightarrow> \<exists>c'. applyAll wr es c = Some c' \<and> holds c'"
proof (induction es arbitrary: c)
  case (Cons e es)
  from holds_ordered [of c e "length es"] Cons.prems obtain c1
    where c1: "applyOrdered wr e c = Some c1" "holds c1" "room (ck_orc c1) (length es)" by auto
  from Cons.IH [OF c1(2) _ c1(3)] Cons.prems(2) show ?case using c1(1) by auto
qed simp

end

section \<open>Whole operations\<close>

lemma offer_decoded:
  assumes "codec_ok wr" and "buffer_ok rb" and "\<forall>e \<in> set (held_events rb). decoded wr e" and "decoded wr e"
    and "offer rb e now = (rb', out)"
  shows "buffer_ok rb'" "\<forall>e \<in> set (held_events rb'). decoded wr e" "\<forall>e \<in> set out. decoded wr e"
    "length out \<le> length (held_events rb) + 1"
proof -
  note sp = offer_spec [OF assms(2,5)]
  then show "buffer_ok rb'" by blast
  have m: "mset out + mset (held_events rb') =
      mset (held_events rb) + (if rb_enabled rb \<and> repeats_held rb e then {#} else {#e#})" using sp by blast
  have "set out \<union> set (held_events rb') = set_mset (mset out + mset (held_events rb'))" by simp
  also have "\<dots> \<subseteq> insert e (set (held_events rb))" unfolding m by auto
  finally show "\<forall>e \<in> set (held_events rb'). decoded wr e" "\<forall>e \<in> set out. decoded wr e"
    using assms(3,4) by auto
  have "size (mset out + mset (held_events rb')) \<le> length (held_events rb) + 1" unfolding m by simp
  then show "length out \<le> length (held_events rb) + 1" by simp
qed

lemma expire_decoded:
  assumes "buffer_ok rb" and "\<forall>e \<in> set (held_events rb). decoded wr e" and "expire rb now = (rb', out)"
  shows "buffer_ok rb'" "\<forall>e \<in> set (held_events rb'). decoded wr e" "\<forall>e \<in> set out. decoded wr e"
    "length out \<le> length (held_events rb)"
proof -
  note sp = expire_spec [OF assms(1,3)]
  then show "buffer_ok rb'" by blast
  have m: "mset out + mset (held_events rb') = mset (held_events rb)" using sp by blast
  have "set out \<union> set (held_events rb') = set_mset (mset out + mset (held_events rb'))" by simp
  also have "\<dots> = set (held_events rb)" unfolding m by simp
  finally show "\<forall>e \<in> set (held_events rb'). decoded wr e" "\<forall>e \<in> set out. decoded wr e"
    using assms(2) by auto
  have "size (mset out + mset (held_events rb')) = length (held_events rb)" unfolding m by simp
  then show "length out \<le> length (held_events rb)" by simp
qed

text \<open>The buffer holds decoded events only.\<close>

definition buffered :: "wiring \<Rightarrow> Check \<Rightarrow> bool" where
  "buffered wr c \<longleftrightarrow> buffer_ok (ck_reorder c) \<and> (\<forall>e \<in> set (held_events (ck_reorder c)). decoded wr e)"

lemma buffered_frame: "buffered wr c \<Longrightarrow> ck_reorder c' = ck_reorder c \<Longrightarrow> buffered wr c'"
  by (simp add: buffered_def)

context applier
begin

lemma holds_message:
  assumes h: "holds c" "buffered wr c" "codec_ok wr" and r: "room (ck_orc c) (length (held_events (ck_reorder c)) + 1)"
  shows "\<exists>c'. applyMessage wr m c = Some c' \<and> holds c' \<and> buffered wr c'"
proof -
  let ?c0 = "c\<lparr>ck_bytesRead := ck_bytesRead c + of_nat (length (rm_payload m))\<rparr>"
  obtain c1 obs where c1: "(if rm_observedAt m = 0 then clk_Now wr ?c0 else (?c0, rm_observedAt m)) = (c1, obs)"
    by force
  have f: "ck_tracker c1 = ck_tracker c" "ck_orc c1 = ck_orc c" "ck_awaitingSnapshot c1 = ck_awaitingSnapshot c"
    "ck_reorder c1 = ck_reorder c"
    using c1 by (auto simp: clk_Now_def split: if_splits)
  have h1: "holds c1" "buffered wr c1" using holds_frame [OF h(1) f(1-3)] buffered_frame [OF h(2) f(4)] by auto
  have r1: "room (ck_orc c1) 1" using r f by (auto intro: room_mono)
  let ?d = "wr_decode wr (rm_payload m) (rm_topic m) (zero_Event\<lparr>ev_observedAt := obs\<rparr>)"
  have eq: "applyMessage wr m c = (case ?d of Inl err \<Rightarrow> Some (onDecodeError wr c1)
      | Inr e \<Rightarrow> if Validate e \<noteq> None then Some (check_drop c1)
          else let (rb, released) = offer (ck_reorder c1) e (ev_observedAt e)
               in applyAll wr released (c1\<lparr>ck_reorder := rb\<rparr>))"
    using c1 by (simp add: applyMessage_def Let_def)
  show ?thesis
  proof (cases ?d)
    case (Inl err)
    have "holds (onDecodeError wr c1)"
      using marked [OF h1(1) [unfolded holds_def] r1] by (simp add: onDecodeError_def check_drop_def holds_def Let_def)
    moreover have "buffered wr (onDecodeError wr c1)"
      using h1(2) by (simp add: onDecodeError_def check_drop_def buffered_def Let_def)
    ultimately show ?thesis using Inl eq by simp
  next
    case (Inr e)
    show ?thesis
    proof (cases "Validate e = None")
      case False
      then show ?thesis
        using Inr eq h1 holds_frame [of c1 "check_drop c1"] by (simp add: check_drop_def buffered_def)
    next
      case True
      have e: "decoded wr e" using True Inr h(3) by (auto simp: decoded_def codec_ok_def)
      obtain rb out where o: "offer (ck_reorder c1) e (ev_observedAt e) = (rb, out)" by force
      note b = h1(2) [unfolded buffered_def, THEN conjunct1] h1(2) [unfolded buffered_def, THEN conjunct2]
      note od = offer_decoded [OF h(3) b e o]
      let ?c2 = "c1\<lparr>ck_reorder := rb\<rparr>"
      have "holds ?c2" using holds_frame [OF h1(1), of ?c2] by simp
      moreover have "room (ck_orc ?c2) (length out)" using r f(2,4) od(4) by (auto intro: room_mono)
      ultimately obtain c' where c': "applyAll wr out ?c2 = Some c'" "holds c'"
        using holds_all od(3) by blast
      then have "buffered wr c'" using applyAll_reorder [OF c'(1)] od(1,2) by (simp add: buffered_def)
      then show ?thesis using True Inr eq o c' by simp
    qed
  qed
qed

lemma holds_flush:
  assumes h: "holds c" "buffered wr c" and r: "room (ck_orc c) (length (held_events (ck_reorder c)))"
  shows "\<exists>c'. FlushReorder wr c = Some c' \<and> holds c' \<and> buffered wr c'"
proof -
  obtain rb out where x: "expire (ck_reorder c) (wr_clock wr (ck_ticks c)) = (rb, out)" by force
  note b = h(2) [unfolded buffered_def, THEN conjunct1] h(2) [unfolded buffered_def, THEN conjunct2]
  note xd = expire_decoded [OF b x]
  let ?c1 = "c\<lparr>ck_ticks := Suc (ck_ticks c), ck_reorder := rb\<rparr>"
  have "holds ?c1" using holds_frame [OF h(1), of ?c1] by simp
  moreover have "room (ck_orc ?c1) (length out)" using r xd(4) by (auto intro: room_mono)
  ultimately obtain c' where c': "applyAll wr out ?c1 = Some c'" "holds c'" using holds_all xd(3) by blast
  then have "buffered wr c'" using applyAll_reorder [OF c'(1)] xd(1,2) by (simp add: buffered_def)
  then show ?thesis using c' x by (simp add: FlushReorder_def clk_Now_def Let_def)
qed

lemma holds_batches:
  "holds c \<Longrightarrow> adopt_batches wr a now i bs adopted skipped c = (c', n, k, failed)
    \<Longrightarrow> holds c' \<and> ck_reorder c' = ck_reorder c"
proof (induction bs arbitrary: c i adopted skipped)
  case (Cons keys bs)
  show ?case
  proof (cases "at_getMany a i keys")
    case (Inl err)
    then show ?thesis using Cons.prems by simp
  next
    case (Inr vals)
    obtain batch sk where b: "adopt_keys (wr_maxTrackedKeys wr) adopted (zip keys vals) [] skipped = (batch, sk)"
      by force
    let ?c1 = "c\<lparr>ck_orc := AdoptSnapshot (wr_hash wr) (ck_orc c) batch now\<rparr>"
    have "holds ?c1" using adopted [OF Cons.prems(1) [unfolded holds_def]] by (simp add: holds_def)
    from Cons.IH [OF this] Cons.prems(2) Inr b show ?thesis by fastforce
  qed
qed auto

lemma holds_scan: "holds c \<Longrightarrow> adoptScan wr a c = (c', failed) \<Longrightarrow> holds c' \<and> ck_reorder c' = ck_reorder c"
proof -
  assume h: "holds c" and s: "adoptScan wr a c = (c', failed)"
  let ?c1 = "fst (clk_Now wr (setPhase (PhaseBootstrapping, ''scanning the target keyspace'') c))"
  have h1: "holds ?c1" "ck_reorder ?c1 = ck_reorder c"
    using holds_frame [OF h, of ?c1] by (simp_all add: clk_Now_def setPhase_def)
  obtain c2 n k f where b: "adopt_batches wr a (wr_clock wr (ck_ticks c)) 0 (at_batches a) 0 0 ?c1 = (c2, n, k, f)"
    by (metis prod_cases4)
  from holds_batches [OF h1(1) b] h1(2) s b show ?thesis
    by (auto simp: adoptScan_def clk_Now_def Let_def setPhase_def holds_def split: if_splits)
qed

lemma holds_adopt: "holds c \<Longrightarrow> holds (fst (bootstrapAdopt wr ats c)) \<and> ck_reorder (fst (bootstrapAdopt wr ats c)) = ck_reorder c"
proof (induction ats arbitrary: c)
  case (Cons a ats)
  obtain c1 failed where s: "adoptScan wr a c = (c1, failed)" by force
  note h1 = holds_scan [OF Cons.prems s]
  let ?c2 = "setPhase (PhaseBootstrapping, ''adopt scan failed: '' @ at_errText a) c1"
  have "holds ?c2" "ck_reorder ?c2 = ck_reorder c" using h1 holds_frame [of c1 ?c2] by (simp_all add: setPhase_def)
  with Cons.IH [of ?c2] h1 show ?case by (cases failed) (auto simp: s Let_def)
qed simp

lemma holds_boot:
  assumes "holds c" and "room (ck_orc c) 1"
  shows "holds (runSweeper wr ats c) \<and> ck_reorder (runSweeper wr ats c) = ck_reorder c"
proof -
  have "holds (fst (bootstrap wr ats c)) \<and> ck_reorder (fst (bootstrap wr ats c)) = ck_reorder c"
    using holds_adopt [OF assms(1), of ats] strict [OF assms(1) [unfolded holds_def] assms(2)] assms(1)
    by (auto simp: bootstrap_def bootstrapStrict_def setPhase_def holds_def Let_def
        split: BootstrapMode.split prod.split option.split)
  then show ?thesis
    by (auto simp: runSweeper_def setSteady_def setPhase_def holds_def split: prod.split option.split bool.split)
qed

lemma holds_lag: "holds c \<Longrightarrow> holds (PollLag wr pe c) \<and> ck_reorder (PollLag wr pe c) = ck_reorder c"
  using window [of "ck_tracker c" "ck_orc c" "ck_awaitingSnapshot c"]
  by (auto simp: PollLag_def clk_Now_def holds_def Let_def split: prod.split option.split)

lemma holds_report:
  "holds c \<Longrightarrow> holds (onReport wr rep err c) \<and> ck_reorder (onReport wr rep err c) = ck_reorder c"
  "holds c \<Longrightarrow> holds (SetPaused wr b c) \<and> ck_reorder (SetPaused wr b c) = ck_reorder c"
  "holds c \<Longrightarrow> holds (sourceStopped msg c) \<and> ck_reorder (sourceStopped msg c) = ck_reorder c"
  by (auto simp: onReport_def SetPaused_def sourceStopped_def setSteady_def setPhase_def holds_def Let_def
      split: option.split)

lemma run_holds:
  assumes "check_run wr tcfg ocfg lcfg w c" and "codec_ok wr"
    and start: "\<And>orc t. t = Tracker_New tcfg \<Longrightarrow> orc = Oracle_New ocfg \<Longrightarrow> oc_shards ocfg \<le> max_i64 \<Longrightarrow> I t orc False"
  shows "holds c \<and> buffered wr c"
  using assms(1)
proof (induction rule: check_run.induct)
  case (start paused)
  have "held_events (newReorderBuffer x n) = []" for x n by (simp add: held_events_def newReorderBuffer_def)
  with start assms(3) show ?case by (simp add: Check_New_def holds_def buffered_def)
next
  case (message c m c')
  then show ?case using holds_message [of c m] assms(2) by auto
next
  case (flush c c')
  then show ?case using holds_flush [of c] by auto
next
  case (gap c)
  then show ?case using marked [of "ck_tracker c" "ck_orc c"] by (auto simp: SignalGap_def holds_def buffered_def)
next
  case (lag c pe)
  then show ?case using holds_lag [of c pe] buffered_frame by blast
next
  case (swept c now)
  then show ?case using promoted [of "ck_tracker c" "ck_orc c"] by (auto simp: holds_def buffered_def)
next
  case (booted c ats)
  then show ?case using holds_boot [of c ats] buffered_frame by blast
next
  case (reported c rep err)
  then show ?case using holds_report(1) [of c rep err] buffered_frame by blast
next
  case (paused c b)
  then show ?case using holds_report(2) [of c b] buffered_frame by blast
next
  case (failed c err)
  then show ?case using holds_report(3) [of c err] buffered_frame by blast
qed

end

section \<open>Well-formed components\<close>

lemma SetSettlementWindow_ok:
  assumes "oracle_ok hash orc"
  shows "oracle_ok hash (SetSettlementWindow orc d)"
    and "lookup hash (SetSettlementWindow orc d) k = lookup hash orc k"
    and "or_suspectFloor (SetSettlementWindow orc d) = or_suspectFloor orc"
    and "or_suspectGen (SetSettlementWindow orc d) = or_suspectGen orc"
  using assms
  by (auto simp: SetSettlementWindow_def Let_def oracle_ok_def cfg_ok_def lookup_def shardFor_def shardIdx_def)

lemma promoted_gens:
  "or_suspectFloor (promoted orc now) = or_suspectFloor orc" "or_suspectGen (promoted orc now) = or_suspectGen orc"
  by (simp_all add: promoted_def)

lemma ClearGaps_view:
  assumes "tr_view t L"
  shows "\<exists>L'. tr_view (ClearGaps t p) L'"
proof (cases "map_get (tr_pubs t) p")
  case None
  then show ?thesis using assms by (auto simp: ClearGaps_def)
next
  case (Some st)
  note st = tr_viewD [OF assms Some]
  have eq: "ClearGaps t p = t\<lparr>tr_pubs := map_put p (st\<lparr>ps_gaps := GapSet_Clear (ps_gaps st)\<rparr>) (tr_pubs t)\<rparr>"
    using Some by (simp add: ClearGaps_def)
  have "tr_view (ClearGaps t p) (L(p := (fst (L p), {fst (L p)..ps_hwm st})))"
    unfolding eq by (rule tr_view_put [OF assms ps_view_clear]) (use st in simp_all)
  then show ?thesis by blast
qed

abbreviation parts_ok :: "wiring \<Rightarrow> Tracker \<Rightarrow> Oracle \<Rightarrow> bool" where
  "parts_ok wr t orc \<equiv> oracle_ok (wr_hash wr) orc \<and> (\<exists>L. tr_view t L)"

lemma observe_parts:
  "tr_view t L \<Longrightarrow> decoded wr e \<Longrightarrow> Observe t e now = Some (t', v, gap) \<Longrightarrow> \<exists>L'. tr_view t' L'"
  using Observe_viewD(2) [of t L e now t' v gap] by (auto simp: decoded_def)

interpretation parts: applier wr "\<lambda>t orc w. parts_ok wr t orc" for wr
proof
  fix t orc w e now t' v gap p m d vs
  assume i: "parts_ok wr t orc"
  show "parts_ok wr t orc" by (rule i)
  show "parts_ok wr t' orc" if "decoded wr e" "Observe t e now = Some (t', v, gap)" "v \<noteq> AcceptWithGap"
    using i observe_parts that by blast
  show "parts_ok wr t' (MarkSuspect (wr_glob wr) orc (suspectPattern wr (ev_publisher e)))"
    if "decoded wr e" "Observe t e now = Some (t', AcceptWithGap, gap)" "room orc 1"
    using i observe_parts that MarkSuspect_ok room_gen [of orc 0] by (metis One_nat_def)
  show "parts_ok wr t (MarkSuspect (wr_glob wr) orc p)" if "room orc 1"
    using i that MarkSuspect_ok room_gen [of orc 0] by simp
  show "parts_ok wr (ClearGaps t (ev_publisher e))
      (ClearSuspect (wr_glob wr) orc (suspectPattern wr (ev_publisher e)))"
    using i ClearGaps_view ClearSuspect_ok by blast
  show "parts_ok wr t (fst (Oracle_Apply (wr_hash wr) orc m e v
      (if w then TrustSuspect else Tracker_Trust t (ev_publisher e)) now))"
    using i apply_entries(1) by blast
  show "parts_ok wr t (AdoptSnapshot (wr_hash wr) orc vs now)" using i AdoptSnapshot_ok by blast
  show "parts_ok wr t (MarkSuspect (wr_glob wr) orc [])" if "room orc 1"
    using i that MarkSuspect_ok room_gen [of orc 0] by simp
  show "parts_ok wr t (SetSettlementWindow orc d)" using i SetSettlementWindow_ok(1) by blast
  show "parts_ok wr t (promoted orc now)" using i promoted_ok(1) by blast
qed

lemma start_parts: "oc_shards ocfg \<le> max_i64 \<Longrightarrow> parts_ok wr (Tracker_New tcfg) (Oracle_New ocfg)"
  using Oracle_New_ok(1) by (auto simp: tr_view_def Tracker_New_def)

section \<open>A check that waits for a snapshot asserts nothing\<close>

abbreviation silent :: "wiring \<Rightarrow> Oracle \<Rightarrow> bool" where
  "silent wr orc \<equiv> \<forall>k. trust_of (wr_hash wr) orc k \<noteq> Some TrustComplete"

lemma mark_all_silent:
  "oracle_ok (wr_hash wr) orc \<Longrightarrow> room orc 1 \<Longrightarrow> silent wr (MarkSuspect glob orc [])"
  using mark_trust(1) [of "wr_hash wr" orc glob "[]"] room_gen [of orc 0] by auto

lemma mark_silent:
  "oracle_ok (wr_hash wr) orc \<Longrightarrow> room orc 1 \<Longrightarrow> silent wr orc \<Longrightarrow> silent wr (MarkSuspect glob orc p)"
  using mark_trust(1) [of "wr_hash wr" orc glob p] room_gen [of orc 0] by auto

lemma trust_Complete_iff:
  "trust_of hash orc k = Some TrustComplete \<longleftrightarrow>
    (\<exists>ent. lookup hash orc k = Some ent \<and> en_trust ent = TrustComplete \<and> or_suspectFloor orc \<le> en_gen ent)"
  by (auto simp: trust_of_def effectiveTrust_def not_less split: if_splits)

lemma apply_silent:
  assumes "oracle_ok (wr_hash wr) orc" and "silent wr orc"
  shows "silent wr (fst (Oracle_Apply (wr_hash wr) orc m e v TrustSuspect now))"
proof (intro allI notI)
  fix k
  let ?orc' = "fst (Oracle_Apply (wr_hash wr) orc m e v TrustSuspect now)"
  note ae = apply_entries [OF assms(1), where m = m and e = e and verdict = v and trust = TrustSuspect and clock = now]
  assume "trust_of (wr_hash wr) ?orc' k = Some TrustComplete"
  then obtain ent where ent: "lookup (wr_hash wr) ?orc' k = Some ent" "en_trust ent = TrustComplete"
    "or_suspectFloor orc \<le> en_gen ent" using ae(2) by (auto simp: trust_Complete_iff)
  from ae(4) [OF ent(1)] ent(2) have "lookup (wr_hash wr) orc k = Some ent" by simp
  with ent(2,3) have "trust_of (wr_hash wr) orc k = Some TrustComplete" by (auto simp: trust_Complete_iff)
  with assms(2) show False by blast
qed

lemma adopt_silent:
  assumes "oracle_ok (wr_hash wr) orc" and "silent wr orc"
  shows "silent wr (AdoptSnapshot (wr_hash wr) orc vs now)"
  using assms adopt_trust(1,2) [OF assms(1)] by (fastforce simp: trust_Complete_iff)

interpretation waiting: applier wr "\<lambda>t orc w. parts_ok wr t orc \<and> (w \<longrightarrow> silent wr orc)" for wr
proof
  fix t orc w e now t' v gap p m d vs
  assume i: "parts_ok wr t orc \<and> (w \<longrightarrow> silent wr orc)"
  then have ok: "oracle_ok (wr_hash wr) orc" and pi: "parts_ok wr t orc" by auto
  show "parts_ok wr t orc" by (rule pi)
  show "parts_ok wr t' orc \<and> (w \<longrightarrow> silent wr orc)"
    if "decoded wr e" "Observe t e now = Some (t', v, gap)" "v \<noteq> AcceptWithGap"
    using i parts.observed [OF pi that] by blast
  show "parts_ok wr t' (MarkSuspect (wr_glob wr) orc (suspectPattern wr (ev_publisher e)))
      \<and> (w \<longrightarrow> silent wr (MarkSuspect (wr_glob wr) orc (suspectPattern wr (ev_publisher e))))"
    if "decoded wr e" "Observe t e now = Some (t', AcceptWithGap, gap)" "room orc 1"
    using i parts.gapped [OF pi that] mark_silent [OF ok that(3)] by blast
  show "parts_ok wr t (MarkSuspect (wr_glob wr) orc p) \<and> (w \<longrightarrow> silent wr (MarkSuspect (wr_glob wr) orc p))"
    if "room orc 1"
    using i parts.marked [OF pi that] mark_silent [OF ok that] by blast
  show "parts_ok wr (ClearGaps t (ev_publisher e))
      (ClearSuspect (wr_glob wr) orc (suspectPattern wr (ev_publisher e))) \<and> (False \<longrightarrow> silent wr
      (ClearSuspect (wr_glob wr) orc (suspectPattern wr (ev_publisher e))))"
    if "decoded wr e" "ev_op e = OpSnapshotEnd"
    using parts.cleared [OF pi that] by blast
  show "parts_ok wr t (fst (Oracle_Apply (wr_hash wr) orc m e v
      (if w then TrustSuspect else Tracker_Trust t (ev_publisher e)) now))
      \<and> (w \<longrightarrow> silent wr (fst (Oracle_Apply (wr_hash wr) orc m e v
      (if w then TrustSuspect else Tracker_Trust t (ev_publisher e)) now)))"
    if "decoded wr e"
    using i pi apply_entries(1) [OF ok] apply_silent [OF ok] by (cases w) auto
  show "parts_ok wr t (AdoptSnapshot (wr_hash wr) orc vs now) \<and> (w \<longrightarrow> silent wr (AdoptSnapshot (wr_hash wr) orc vs now))"
    using i parts.adopted [OF pi] adopt_silent [OF ok] by blast
  show "parts_ok wr t (MarkSuspect (wr_glob wr) orc []) \<and> (True \<longrightarrow> silent wr (MarkSuspect (wr_glob wr) orc []))"
    if "room orc 1"
    using parts.strict [OF pi that] mark_all_silent [OF ok that] by blast
  show "parts_ok wr t (SetSettlementWindow orc d) \<and> (w \<longrightarrow> silent wr (SetSettlementWindow orc d))"
    using i parts.window [OF pi] SetSettlementWindow_ok [OF ok] by (simp add: trust_of_def)
  show "parts_ok wr t (promoted orc now) \<and> (w \<longrightarrow> silent wr (promoted orc now))"
    using i parts.promoted [OF pi] promoted_ok(2) [OF ok] by (simp add: trust_of_def promoted_gens)
qed

section \<open>An open gap silences the keys its publisher wrote last\<close>

lemma Trust_Complete_iff:
  "Tracker_Trust t p = TrustComplete \<longleftrightarrow>
    (\<forall>st. map_get (tr_pubs t) p = Some st \<longrightarrow> GapSet_Count (ps_gaps st) = 0 \<and> \<not> gs_truncated (ps_gaps st))"
  by (auto simp: Tracker_Trust_def word_neq_0_conv [symmetric] split: option.split)

lemma gaps_clear [simp]:
  "GapSet_Count (GapSet_Clear g) = 0" "\<not> gs_truncated (GapSet_Clear g)"
  "GapSet_Count (NewGapSet n) = 0" "\<not> gs_truncated (NewGapSet n)"
  by (simp_all add: GapSet_Count_def GapSet_Clear_def NewGapSet_def Let_def)

lemma evict_pubs: "map_get (tr_pubs (evictOldestLocked t)) p = Some st \<Longrightarrow> map_get (tr_pubs t) p = Some st"
  by (auto simp: evictOldestLocked_def Let_def split: if_splits)

text \<open>Only a gap makes a publisher untrusted, and no publisher appears but the event's.\<close>

lemma Observe_known_trust:
  assumes "ps_view st l" and "Observe_known cfg st e now = Some (st', v, gap)" and "v \<noteq> AcceptWithGap"
    and "GapSet_Count (ps_gaps st) = 0 \<and> \<not> gs_truncated (ps_gaps st)"
  shows "GapSet_Count (ps_gaps st') = 0 \<and> \<not> gs_truncated (ps_gaps st')"
proof -
  have "\<not> GapSet_Contains (ps_gaps st) (ev_seq e)"
    using assms(1,4) Count_ps_view [OF assms(1)] gapset.contains_law by (auto simp: ps_view_def)
  then show ?thesis
    using assms(2-4) by (auto simp: Observe_known_def Let_def split: if_splits option.splits)
qed

lemma Observe_trust:
  assumes view: "tr_view t L" and o: "Observe t e now = Some (t', v, gap)" and v: "v \<noteq> AcceptWithGap"
    and q: "Tracker_Trust t q = TrustComplete"
  shows "Tracker_Trust t' q = TrustComplete"
proof (cases "map_get (tr_pubs t) (ev_publisher e)")
  case None
  then have "t' = admitLocked t e now" using o by (simp add: Observe_def)
  then show ?thesis using q by (auto simp: Trust_Complete_iff admitLocked_def Let_def dest!: evict_pubs)
next
  case (Some st)
  then obtain st' where k: "Observe_known (tr_cfg t) st e now = Some (st', v, gap)"
    "t' = t\<lparr>tr_pubs := map_put (ev_publisher e) st' (tr_pubs t)\<rparr>"
    using o by (auto simp: Observe_def split: option.splits)
  have "ps_view st (L (ev_publisher e))" using tr_viewD [OF view Some] by blast
  from Observe_known_trust [OF this k(1) v] q Some show ?thesis by (auto simp: Trust_Complete_iff k(2))
qed

lemma Observe_publishers:
  assumes "Observe t e now = Some (t', v, gap)" and "map_get (tr_pubs t') p = Some st'"
  shows "p = ev_publisher e \<or> map_get (tr_pubs t) p \<noteq> None"
  using assms
  by (auto simp: Observe_def admitLocked_def Let_def split: option.splits if_splits dest!: evict_pubs)

lemma ClearGaps_publishers: "map_get (tr_pubs (ClearGaps t q)) p \<noteq> None \<Longrightarrow> map_get (tr_pubs t) p \<noteq> None"
  by (auto simp: ClearGaps_def split: option.splits if_splits)

lemma ClearGaps_trust: "Tracker_Trust (ClearGaps t p) p = TrustComplete"
  by (auto simp: Trust_Complete_iff ClearGaps_def split: option.split)

text \<open>Suspicion covers every key, and a snapshot speaks for everyone who is heard.\<close>

definition speaks :: "wiring \<Rightarrow> string \<Rightarrow> bool" where
  "speaks wr p \<longleftrightarrow> (\<exists>e. decoded wr e \<and> ev_publisher e = p)"

definition sound_scope :: "wiring \<Rightarrow> bool" where
  "sound_scope wr \<longleftrightarrow> (\<forall>p. suspectPattern wr p = [])
     \<and> (\<forall>e e'. decoded wr e \<longrightarrow> ev_op e = OpSnapshotEnd \<longrightarrow> decoded wr e' \<longrightarrow> ev_publisher e' = ev_publisher e)"

definition vouched :: "wiring \<Rightarrow> Tracker \<Rightarrow> Oracle \<Rightarrow> bool" where
  "vouched wr t orc \<longleftrightarrow>
     (\<forall>p. map_get (tr_pubs t) p \<noteq> None \<longrightarrow> speaks wr p)
     \<and> (\<forall>k ent. lookup (wr_hash wr) orc k = Some ent \<longrightarrow> trust_of (wr_hash wr) orc k = Some TrustComplete
          \<longrightarrow> Tracker_Trust t (en_lastPublisher ent) = TrustComplete)"

lemma vouched_silent:
  "silent wr orc \<Longrightarrow> \<forall>p. map_get (tr_pubs t) p \<noteq> None \<longrightarrow> speaks wr p \<Longrightarrow> vouched wr t orc"
  by (auto simp: vouched_def)

lemma vouched_kept:
  assumes "vouched wr t orc"
    and "\<And>k ent. lookup (wr_hash wr) orc' k = Some ent \<Longrightarrow> trust_of (wr_hash wr) orc' k = Some TrustComplete
      \<Longrightarrow> lookup (wr_hash wr) orc k = Some ent \<and> trust_of (wr_hash wr) orc k = Some TrustComplete
        \<or> Tracker_Trust t (en_lastPublisher ent) = TrustComplete"
  shows "vouched wr t orc'"
  using assms unfolding vouched_def by metis

lemma speaks_observed:
  assumes "vouched wr t orc" and "decoded wr e" and "Observe t e now = Some (t', v, gap)"
  shows "\<forall>p. map_get (tr_pubs t') p \<noteq> None \<longrightarrow> speaks wr p"
  using assms Observe_publishers [OF assms(3)] unfolding vouched_def speaks_def by blast

lemma vouched_mark:
  assumes "oracle_ok (wr_hash wr) orc" and "room orc 1" and "vouched wr t orc"
  shows "vouched wr t (MarkSuspect glob orc p)"
proof (cases "p = []")
  case True
  then show ?thesis using mark_all_silent [OF assms(1,2)] assms(3) vouched_silent by (auto simp: vouched_def)
next
  case False
  have "en_lastPublisher (suspect_entry glob p k ent) = en_lastPublisher ent" for k ent
    by (simp add: suspect_entry_def)
  moreover have "trust_of (wr_hash wr) (MarkSuspect glob orc p) k = Some TrustComplete
      \<Longrightarrow> trust_of (wr_hash wr) orc k = Some TrustComplete" for k
    using mark_trust(1) [OF assms(1) room_gen [of orc 0], of glob p k] assms(2)
    by (cases "trust_of (wr_hash wr) orc k") (auto split: if_splits)
  ultimately show ?thesis
    using assms(3) False unfolding vouched_def lookup_mark [OF assms(1)] by fastforce
qed

lemma vouched_clear:
  assumes ok: "oracle_ok (wr_hash wr) orc" and sc: "sound_scope wr" and v: "vouched wr t orc"
    and e: "decoded wr e" "ev_op e = OpSnapshotEnd"
  shows "vouched wr (ClearGaps t (ev_publisher e)) (ClearSuspect glob orc p)"
proof -
  have "Tracker_Trust (ClearGaps t (ev_publisher e)) q = TrustComplete" for q
  proof (cases "map_get (tr_pubs (ClearGaps t (ev_publisher e))) q")
    case None
    then show ?thesis by (simp add: Trust_Complete_iff)
  next
    case (Some st)
    then have "map_get (tr_pubs t) q \<noteq> None" using ClearGaps_publishers [of t "ev_publisher e" q] by simp
    then have "speaks wr q" using v by (simp add: vouched_def)
    then obtain e' where "decoded wr e'" "ev_publisher e' = q" unfolding speaks_def by blast
    then have "q = ev_publisher e" using sc e unfolding sound_scope_def by blast
    then show ?thesis by (simp add: ClearGaps_trust)
  qed
  moreover have "\<forall>q. map_get (tr_pubs (ClearGaps t (ev_publisher e))) q \<noteq> None \<longrightarrow> speaks wr q"
    using v ClearGaps_publishers [of t "ev_publisher e"] by (simp add: vouched_def)
  ultimately show ?thesis by (simp add: vouched_def)
qed

lemma vouched_apply:
  assumes ok: "oracle_ok (wr_hash wr) orc" and v: "vouched wr t orc"
    and tr: "trust = TrustComplete \<longrightarrow> Tracker_Trust t (ev_publisher e) = TrustComplete"
  shows "vouched wr t (fst (Oracle_Apply (wr_hash wr) orc m e vd trust now))"
proof (rule vouched_kept [OF v])
  fix k ent
  let ?orc' = "fst (Oracle_Apply (wr_hash wr) orc m e vd trust now)"
  note ae = apply_entries [OF ok, where m = m and e = e and verdict = vd and trust = trust and clock = now]
  assume l: "lookup (wr_hash wr) ?orc' k = Some ent" and t: "trust_of (wr_hash wr) ?orc' k = Some TrustComplete"
  have ent: "en_trust ent = TrustComplete" "or_suspectFloor orc \<le> en_gen ent"
    using t l ae(2) by (auto simp: trust_Complete_iff)
  from ae(4) [OF l] ent tr
  show "lookup (wr_hash wr) orc k = Some ent \<and> trust_of (wr_hash wr) orc k = Some TrustComplete
      \<or> Tracker_Trust t (en_lastPublisher ent) = TrustComplete"
    by (auto simp: trust_Complete_iff)
qed

lemma vouched_adopt:
  assumes ok: "oracle_ok (wr_hash wr) orc" and v: "vouched wr t orc"
  shows "vouched wr t (AdoptSnapshot (wr_hash wr) orc vs now)"
  using adopt_trust(1,2) [OF ok] by (intro vouched_kept [OF v]) (auto simp: trust_Complete_iff)

interpretation vouching: applier wr "\<lambda>t orc w. parts_ok wr t orc \<and> (sound_scope wr \<longrightarrow> vouched wr t orc)" for wr
proof
  fix t orc w e now t' v gap p m d vs
  assume i: "parts_ok wr t orc \<and> (sound_scope wr \<longrightarrow> vouched wr t orc)"
  then have ok: "oracle_ok (wr_hash wr) orc" and pi: "parts_ok wr t orc" by auto
  then obtain L where view: "tr_view t L" by blast
  show "parts_ok wr t orc" by (rule pi)
  show "parts_ok wr t' orc \<and> (sound_scope wr \<longrightarrow> vouched wr t' orc)"
    if o: "decoded wr e" "Observe t e now = Some (t', v, gap)" "v \<noteq> AcceptWithGap"
  proof -
    have "vouched wr t' orc" if "vouched wr t orc"
      using that speaks_observed [OF that o(1,2)] Observe_trust [OF view o(2,3)] by (simp add: vouched_def)
    then show ?thesis using i parts.observed [OF pi o] by blast
  qed
  show "parts_ok wr t' (MarkSuspect (wr_glob wr) orc (suspectPattern wr (ev_publisher e)))
      \<and> (sound_scope wr \<longrightarrow> vouched wr t' (MarkSuspect (wr_glob wr) orc (suspectPattern wr (ev_publisher e))))"
    if o: "decoded wr e" "Observe t e now = Some (t', AcceptWithGap, gap)" "room orc 1"
  proof -
    have "vouched wr t' (MarkSuspect (wr_glob wr) orc [])" if "vouched wr t orc"
      using mark_all_silent [OF ok o(3)] speaks_observed [OF that o(1,2)] by (rule vouched_silent)
    moreover have "suspectPattern wr (ev_publisher e) = []" if "sound_scope wr"
      using that unfolding sound_scope_def by blast
    ultimately show ?thesis using i parts.gapped [OF pi o] by (cases "sound_scope wr") simp_all
  qed
  show "parts_ok wr t (MarkSuspect (wr_glob wr) orc p) \<and> (sound_scope wr \<longrightarrow> vouched wr t (MarkSuspect (wr_glob wr) orc p))"
    if "room orc 1" for p
    using i parts.marked [OF pi that] vouched_mark [OF ok that] by blast
  then show "parts_ok wr t (MarkSuspect (wr_glob wr) orc []) \<and> (sound_scope wr \<longrightarrow> vouched wr t (MarkSuspect (wr_glob wr) orc []))"
    if "room orc 1" using that by blast
  show "parts_ok wr (ClearGaps t (ev_publisher e))
      (ClearSuspect (wr_glob wr) orc (suspectPattern wr (ev_publisher e))) \<and> (sound_scope wr \<longrightarrow>
      vouched wr (ClearGaps t (ev_publisher e)) (ClearSuspect (wr_glob wr) orc (suspectPattern wr (ev_publisher e))))"
    if "decoded wr e" "ev_op e = OpSnapshotEnd"
    using i parts.cleared [OF pi that] vouched_clear [OF ok _ _ that] by blast
  show "parts_ok wr t (fst (Oracle_Apply (wr_hash wr) orc m e v
      (if w then TrustSuspect else Tracker_Trust t (ev_publisher e)) now))
      \<and> (sound_scope wr \<longrightarrow> vouched wr t (fst (Oracle_Apply (wr_hash wr) orc m e v
      (if w then TrustSuspect else Tracker_Trust t (ev_publisher e)) now)))"
    if "decoded wr e"
    using i parts.applied [OF pi that] vouched_apply [OF ok] by auto
  show "parts_ok wr t (AdoptSnapshot (wr_hash wr) orc vs now)
      \<and> (sound_scope wr \<longrightarrow> vouched wr t (AdoptSnapshot (wr_hash wr) orc vs now))"
    using i parts.adopted [OF pi] vouched_adopt [OF ok] by blast
  show "parts_ok wr t (SetSettlementWindow orc d) \<and> (sound_scope wr \<longrightarrow> vouched wr t (SetSettlementWindow orc d))"
    using i parts.window [OF pi] SetSettlementWindow_ok [OF ok] by (simp add: trust_of_def vouched_def)
  show "parts_ok wr t (promoted orc now) \<and> (sound_scope wr \<longrightarrow> vouched wr t (promoted orc now))"
    using i parts.promoted [OF pi] promoted_ok(2) [OF ok] by (simp add: trust_of_def vouched_def promoted_gens)
qed

section \<open>Properties\<close>

lemma run_parts:
  assumes "check_run wr tcfg ocfg lcfg w c" and "codec_ok wr"
  shows "parts.holds wr c" and "buffered wr c"
  using parts.run_holds [OF assms] start_parts by blast+



text \<open>C32: While a publisher has an open gap, no key it wrote last is trusted: what it says about the key may
  build on an event that was lost. This needs suspicion to cover every key (no partitioned
  ownership) and no publisher's snapshot to speak for another one.\<close>

theorem gap_silences_publisher:
  assumes "check_run wr tcfg ocfg lcfg w c" and "codec_ok wr" and "sound_scope wr"
    and "lookup (wr_hash wr) (ck_orc c) k = Some ent"
    and "Tracker_Trust (ck_tracker c) (en_lastPublisher ent) \<noteq> TrustComplete"
  shows "trust_of (wr_hash wr) (ck_orc c) k \<noteq> Some TrustComplete"
proof -
  have "vouched wr (Tracker_New tcfg) orc" if "orc = Oracle_New ocfg" "oc_shards ocfg \<le> max_i64" for orc
    by (simp add: that vouched_def Tracker_New_def Trust_Complete_iff)
  then have "vouching.holds wr c" using vouching.run_holds [OF assms(1,2)] start_parts by blast
  with assms(3) have "vouched wr (ck_tracker c) (ck_orc c)" unfolding vouching.holds_def by blast
  with assms(4,5) show ?thesis by (auto simp: vouched_def)
qed

section \<open>Sample runs\<close>

text \<open>A codec for the witnesses: publisher, sequence number, operation, value, one character each.\<close>

definition sample_decode :: "bytes \<Rightarrow> string \<Rightarrow> Event \<Rightarrow> CodecError + Event" where
  "sample_decode payload topic e0 =
     (case payload of
        [p, s, o', v] \<Rightarrow>
          Inr (e0\<lparr>ev_publisher := [p], ev_epoch := 1, ev_seq := (if s = CHR ''1'' then 1 else if s = CHR ''2'' then 2 else 3),
                ev_op := (if o' = CHR ''s'' then OpSet else if o' = CHR ''i'' then OpIncr else OpSnapshotEnd),
                ev_key := (if o' = CHR ''E'' then [] else ''k''), ev_member := [], ev_value := Some [v],
                ev_delta := 1, ev_ttl := None\<rparr>)
      | _ \<Rightarrow> Inl ErrMalformed)"

definition sample_scalar :: Projection where
  "sample_scalar = PScalar \<lparr>sc_keyTmpl = \<lparr>ex_tmpl = (\<lambda>d. None), ex_ref = fieldRefKey\<rparr>, sc_ownership = ownershipFrom []\<rparr>"

definition sample_wr :: wiring where
  "sample_wr =
     \<lparr>wr_hash = sample_hash, wr_glob = sample_glob, wr_decode = sample_decode, wr_proj = sample_scalar,
      wr_clock = (\<lambda>n. t0 + int n), wr_intn = (\<lambda>_ _. 0), wr_connected = (\<lambda>_. False),
      wr_maxPublishers = 10, wr_maxTrackedKeys = 10, wr_bootstrap = BootstrapStrict\<rparr>"

definition sample_msg :: "bytes \<Rightarrow> RawMessage" where
  "sample_msg b = \<lparr>rm_topic = [], rm_payload = b, rm_observedAt = t0\<rparr>"

definition sample_start :: Check where
  "sample_start = Check_New sample_wr sample_config sample_ocfg sample_lag 0 False"

text \<open>Whether nothing is held and few marks were made, in a form that evaluates.\<close>

definition quiet :: "Check \<Rightarrow> bool" where
  "quiet c \<longleftrightarrow> held_events (ck_reorder c) = [] \<and> or_suspectGen (ck_orc c) < 10"

lemma quiet_room: "quiet c \<Longrightarrow> room (ck_orc c) (length (held_events (ck_reorder c)) + 1)" "quiet c \<Longrightarrow> room (ck_orc c) 1"
  by (auto simp: quiet_def room_def word_less_nat_alt)

text \<open>Feed messages to a check, then ask something of the result; one evaluation does it all.\<close>

fun fed :: "wiring \<Rightarrow> bytes list \<Rightarrow> (Check \<Rightarrow> bool) \<Rightarrow> Check \<Rightarrow> bool" where
  "fed wr [] P c = P c"
| "fed wr (b # bs) P c =
     (quiet c \<and> (case applyMessage wr (sample_msg b) c of None \<Rightarrow> False | Some c \<Rightarrow> fed wr bs P c))"

lemma fed_run:
  "check_run wr tcfg ocfg lcfg w c \<Longrightarrow> fed wr bs P c \<Longrightarrow> \<exists>c'. check_run wr tcfg ocfg lcfg w c' \<and> P c'"
proof (induction bs arbitrary: c)
  case (Cons b bs)
  then obtain c1 where "quiet c" "applyMessage wr (sample_msg b) c = Some c1" "fed wr bs P c1"
    by (auto split: option.splits)
  with Cons.IH [of c1] check_run.message [OF Cons.prems(1) quiet_room(1)] show ?case by blast
qed auto

lemma sample_codec: "codec_ok sample_wr"
  by (auto simp: codec_ok_def sample_wr_def sample_decode_def split: list.splits)

lemma sample_start_run: "check_run wr sample_config sample_ocfg sample_lag 0
    (Check_New wr sample_config sample_ocfg sample_lag 0 False)"
  by (rule check_run.start) (simp add: sample_ocfg_def max_i64_def)

lemma sample_start_quiet: "quiet (Check_New wr sample_config sample_ocfg sample_lag 0 False)"
  by (simp add: quiet_def Check_New_def held_events_def newReorderBuffer_def Oracle_New_def Let_def)



text \<open>One publisher, whose second event is lost.\<close>

definition sole_wr :: wiring where
  "sole_wr = sample_wr\<lparr>wr_decode := (\<lambda>b topic e0. if take 1 b = ''p'' then sample_decode b topic e0 else Inl ErrMalformed)\<rparr>"

lemma sole_codec: "codec_ok sole_wr"
  by (auto simp: codec_ok_def sole_wr_def sample_decode_def split: list.splits if_splits)

lemma sole_scope: "sound_scope sole_wr"
proof -
  have "suspectPattern sole_wr p = []" for p
    by (simp add: suspectPattern_def sole_wr_def sample_wr_def sample_scalar_def ownershipFrom_def Let_def
        stringConfig_def map_get_def)
  moreover have "ev_publisher e = ''p''" if "decoded sole_wr e" for e
    using that by (auto simp: decoded_def sole_wr_def sample_decode_def split: list.splits if_splits)
  ultimately show ?thesis by (simp add: sound_scope_def)
qed

theorem gap_silences_publisher_witness:
  "\<exists>c :: Check. Tracker_Trust (ck_tracker c) ''p'' = TrustSuspect \<and> lookup (wr_hash sole_wr) (ck_orc c) ''k'' \<noteq> None
    \<and> trust_of (wr_hash sole_wr) (ck_orc c) ''k'' \<noteq> Some TrustComplete"
proof -
  have "fed sole_wr [''p1sx'', ''p3sy''] (\<lambda>c. Tracker_Trust (ck_tracker c) ''p'' = TrustSuspect
      \<and> map_option en_lastPublisher (lookup (wr_hash sole_wr) (ck_orc c) ''k'') = Some ''p'')
      (Check_New sole_wr sample_config sample_ocfg sample_lag 0 False)" by code_simp
  from fed_run [OF sample_start_run this] obtain c
    where c: "check_run sole_wr sample_config sample_ocfg sample_lag 0 c"
      "Tracker_Trust (ck_tracker c) ''p'' = TrustSuspect"
      "map_option en_lastPublisher (lookup (wr_hash sole_wr) (ck_orc c) ''k'') = Some ''p''" by blast
  from c(3) obtain ent where ent: "lookup (wr_hash sole_wr) (ck_orc c) ''k'' = Some ent" "en_lastPublisher ent = ''p''"
    by auto
  have "trust_of (wr_hash sole_wr) (ck_orc c) ''k'' \<noteq> Some TrustComplete"
    by (rule gap_silences_publisher [OF c(1) sole_codec sole_scope ent(1)]) (simp add: ent(2) c(2))
  with c(2) ent(1) show ?thesis by blast
qed


section \<open>A lost source\<close>

text \<open>Once a check is Watching, nothing it does notices that the source lost its subscription: the
  phase stays Watching through every message, flush, gap signal, estimator round and sweep, although
  \<open>steadyPhase\<close> would call a disconnected check Degraded. \<open>steadyPhase\<close> is consulted again only after
  the target was unreachable, a pause or the end of a snapshot wait.\<close>

theorem watching_ignores_disconnect:
  assumes "carries_on wr c c'" and "ck_phase c = PhaseWatching" and "\<not> ck_awaitingSnapshot c"
  shows "ck_phase c' = PhaseWatching
    \<and> (\<not> wr_connected wr (ck_ticks c') \<longrightarrow> fst (steadyPhase wr c') \<noteq> PhaseWatching)"
proof -
  from assms(1) have "ck_phase c' = PhaseWatching \<and> \<not> ck_awaitingSnapshot c'"
  proof induction
    case begins
    then show ?case using assms by simp
  next
    case (message c1 m c2)
    then show ?case using applyMessage_phase by metis
  next
    case (flush c1 c2)
    then show ?case using FlushReorder_phase by metis
  next
    case (gap c1)
    then show ?case by (simp add: SignalGap_def)
  next
    case (lag c1 pe)
    then show ?case by (simp add: PollLag_phase)
  next
    case (swept c1 now)
    then show ?case by simp
  next
    case (report c1 err rep)
    then show ?case by (simp add: onReport_phase)
  qed
  then show ?thesis by (simp add: steady_watching_iff)
qed

definition flaky_wr :: wiring where
  "flaky_wr = sample_wr\<lparr>wr_connected := (\<lambda>n. n < 1), wr_bootstrap := BootstrapWait\<rparr>"

text \<open>A check whose source goes away after the check started to watch.\<close>

theorem watching_ignores_disconnect_witness:
  "\<exists>c'. applyMessage flaky_wr (sample_msg ''p1sx'')
        (runSweeper flaky_wr [] (Check_New flaky_wr sample_config sample_ocfg sample_lag 0 False)) = Some c'
    \<and> \<not> wr_connected flaky_wr (ck_ticks c') \<and> ck_phase c' = PhaseWatching
    \<and> fst (steadyPhase flaky_wr c') \<noteq> PhaseWatching"
proof -
  let ?c = "runSweeper flaky_wr [] (Check_New flaky_wr sample_config sample_ocfg sample_lag 0 False)"
  have c: "ck_phase ?c = PhaseWatching" "\<not> ck_awaitingSnapshot ?c" by code_simp+
  have "case applyMessage flaky_wr (sample_msg ''p1sx'') ?c of
      None \<Rightarrow> False | Some c' \<Rightarrow> \<not> wr_connected flaky_wr (ck_ticks c')" by code_simp
  then obtain c' where c': "applyMessage flaky_wr (sample_msg ''p1sx'') ?c = Some c'"
    "\<not> wr_connected flaky_wr (ck_ticks c')"
    by (auto split: option.splits)
  from watching_ignores_disconnect [OF carries_on.message [OF carries_on.begins c'(1)] c] c'
  show ?thesis by blast
qed

end
