(* ===== verification/CodecSpec.thy ===== *)
theory CodecSpec
  imports Codec
begin

text \<open>
  What the codecs promise: the JSON codec accepts exactly the objects of the grammar within its
  depth bound, an event it returns is valid and within its bounds, and an event written in the
  canonical format is read back as it was.
\<close>

section \<open>The scan of an object accepts the grammar\<close>

definition cap_of :: "char \<Rightarrow> bytes \<Rightarrow> capture" where
  "cap_of k v =
     \<lparr>cp_raw = v, cp_kind = k, cp_escape = (k = CHR ''s'' \<and> backslash \<in> set v), cp_seen = True\<rparr>"

lemma scanValue_string:
  assumes "scanValue md d s = Inr (CHR ''s'', e, rest)"
  shows "\<exists>b. s = quote_ch # b @ quote_ch # rest \<and> (e \<longleftrightarrow> backslash \<in> set b)"
proof -
  have le: "\<not> md < d" using assms by (auto simp: scanValue.simps [of md d s])
  then obtain ch t where s: "s = ch # t"
    using assms [unfolded scanValue.simps [of md d s]] by (cases s) auto
  note eq = assms [unfolded scanValue.simps [of md d s], unfolded s list.case if_not_P [OF le]]
  have "ch = quote_ch" using eq by (auto simp: keep_kind_Inr split: if_splits)
  then obtain b where "scanString s = Inr (b, e, rest)"
    using eq by (auto simp: s split: sum.splits)
  then show ?thesis by (auto simp: scanString_iff)
qed

lemma scanValue_value:
  assumes "json_value n k v" and "d + n \<le> md" and "k = CHR ''n'' \<longrightarrow> number_ends s"
  shows "\<exists>e. scanValue md d (v @ s) = Inr (k, e, s) \<and> (k = CHR ''s'' \<longrightarrow> (e \<longleftrightarrow> backslash \<in> set v))"
proof -
  obtain e where e: "scanValue md d (v @ s) = Inr (k, e, s)" using scan_complete(1) [OF assms] by blast
  have "e \<longleftrightarrow> backslash \<in> set v" if k: "k = CHR ''s''"
  proof -
    obtain b where "v @ s = quote_ch # b @ quote_ch # s" "e \<longleftrightarrow> backslash \<in> set b"
      using scanValue_string [of md d "v @ s" e s] e k by auto
    moreover from this(1) have "v @ s = (quote_ch # b @ [quote_ch]) @ s" by simp
    then have "v = quote_ch # b @ [quote_ch]" by (simp only: append_same_eq)
    ultimately show ?thesis by auto
  qed
  with e show ?thesis by blast
qed

lemma scan_fields_member:
  assumes "blank w1" and "blank w2" and "blank w3" and "str_body b" and "json_value (nat (jc_maxDepth c)) k v"
    and "k = CHR ''n'' \<longrightarrow> number_ends s"
  shows "scan_fields c (w1 @ quote_ch # b @ quote_ch # w2 @ CHR '':'' # w3 @ v @ s) caps =
    (let caps = capture_all (field_lookup c b (backslash \<in> set b)) (cap_of k v) caps
     in if ws s = [] then Inl ErrMalformed
        else if starts CHR '','' (ws s) then scan_fields c (tl (ws s)) caps
        else if starts CHR ''}'' (ws s) then
          (case eof (tl (ws s)) of Some err \<Rightarrow> Inl err | None \<Rightarrow> Inr caps)
        else Inl ErrMalformed)"
proof -
  have "scanString (quote_ch # b @ quote_ch # w2 @ CHR '':'' # w3 @ v @ s)
      = Inr (b, backslash \<in> set b, w2 @ CHR '':'' # w3 @ v @ s)"
    using assms(4) by (simp add: scanString_iff)
  moreover obtain e where e: "scanValue (nat (jc_maxDepth c)) 0 (v @ s) = Inr (k, e, s)"
    "k = CHR ''s'' \<longrightarrow> (e \<longleftrightarrow> backslash \<in> set v)"
    using scanValue_value [OF assms(5), of 0 "nat (jc_maxDepth c)" s] assms(6) by auto
  moreover from e(2) have "(k = CHR ''s'' \<and> e) = (k = CHR ''s'' \<and> backslash \<in> set v)" by blast
  ultimately show ?thesis
    using assms(1-3) ws_value [OF assms(5)]
    by (simp add: scan_fields.simps [of c "w1 @ _"] Let_def cap_of_def split: option.split)
qed

lemma scan_fields_ws: "scan_fields c (ws s) caps = scan_fields c s caps"
  by (simp add: scan_fields.simps [of c "ws s"] scan_fields.simps [of c s])

lemma eof_blank: "eof s = None \<longleftrightarrow> blank s"
  by (auto simp: eof_def ws_def blank_def)

text \<open>The members of the payload's object, with the depth counted from its values.\<close>

lemma scan_fields_sound:
  "scan_fields c s caps = Inr caps' \<Longrightarrow>
    \<exists>t w. s = t @ w \<and> blank w \<and> json_members (Suc (nat (jc_maxDepth c))) t"
proof (induction c s caps arbitrary: caps' rule: scan_fields.induct)
  case (1 c s caps)
  note r = 1(2) [unfolded scan_fields.simps [of c s]]
  obtain b e s1 where s1: "scanString (ws s) = Inr (b, e, s1)" "starts CHR '':'' (ws s1)"
    using r by (auto split: sum.splits if_splits)
  obtain k e' s2 where s2: "scanValue (nat (jc_maxDepth c)) 0 (ws (tl (ws s1))) = Inr (k, e', s2)"
    using r s1 by (auto simp: Let_def split: sum.splits)
  obtain v where v: "ws (tl (ws s1)) = v @ s2" "json_value (nat (jc_maxDepth c)) k v"
    using scan_sound(1) [OF s2] by auto
  obtain w1 w2 w3 where w: "blank w1" "s = w1 @ ws s" "blank w2" "s1 = w2 @ CHR '':'' # tl (ws s1)"
    "blank w3" "tl (ws s1) = w3 @ v @ s2"
    using ws_split [of s] ws_starts [OF s1(2)] ws_split [of "tl (ws s1)"] v(1) by metis
  have head: "s = w1 @ quote_ch # b @ quote_ch # w2 @ CHR '':'' # w3 @ v @ s2" and b: "str_body b"
    using w s1(1) [unfolded scanString_iff] by (metis append.assoc append_Cons)+
  have ne: "ws s2 \<noteq> []" using r s1 s2 by (auto simp: Let_def split: if_splits)
  show ?case
  proof (cases "starts CHR '','' (ws s2)")
    case True
    then obtain caps1 where "scan_fields c (tl (ws s2)) caps1 = Inr caps'"
      and IH: "\<And>caps'. scan_fields c (tl (ws s2)) caps1 = Inr caps' \<Longrightarrow>
        \<exists>t w. tl (ws s2) = t @ w \<and> blank w \<and> json_members (Suc (nat (jc_maxDepth c))) t"
      using r s1 s2 ne "1.IH" [OF s1(1) refl refl _ refl refl s2 refl refl refl refl ne True]
      by (auto simp: Let_def)
    then obtain t w where t: "tl (ws s2) = t @ w" "blank w" "json_members (Suc (nat (jc_maxDepth c))) t" by blast
    obtain w4 where w4: "blank w4" "s2 = w4 @ CHR '','' # t @ w" using ws_starts [OF True] t(1) by auto
    have "json_members (Suc (nat (jc_maxDepth c)))
        (w1 @ quote_ch # b @ quote_ch # w2 @ CHR '':'' # w3 @ v @ w4 @ CHR '','' # t)"
      by (rule more_members [OF w(1,3,5) w4(1) b v(2) t(3)])
    then show ?thesis using head w4(2) t(2) by (intro exI conjI) auto
  next
    case False
    then have "starts CHR ''}'' (ws s2)" "blank (tl (ws s2))"
      using r s1 s2 ne by (auto simp: Let_def eof_blank split: if_splits option.splits)
    then obtain w4 where w4: "blank w4" "s2 = w4 @ CHR ''}'' # tl (ws s2)" "blank (tl (ws s2))" using ws_starts by blast
    have "json_members (Suc (nat (jc_maxDepth c)))
        (w1 @ quote_ch # b @ quote_ch # w2 @ CHR '':'' # w3 @ v @ w4 @ ''}'')"
      by (rule last_member [OF w(1,3,5) w4(1) b v(2)])
    then show ?thesis using head w4(2,3) by (intro exI conjI) auto
  qed
qed

lemma scan_fields_complete:
  "json_members n t \<Longrightarrow> n = Suc (nat (jc_maxDepth c)) \<Longrightarrow> blank w \<Longrightarrow> \<exists>caps'. scan_fields c (t @ w) caps = Inr caps'"
proof (induction n t arbitrary: caps rule: json_value_json_members_json_elements.inducts(2)
    [where ?P1.0 = "\<lambda>n k v. True" and ?P3.0 = "\<lambda>n t. True"])
  case (last_member w1 w2 w3 w4 b n k v)
  then show ?case
    using scan_fields_member [OF last_member(1-3,5), of c k v "w4 @ CHR ''}'' # w"] ends_after [OF last_member(4)]
    by (auto simp: Let_def eof_blank [THEN iffD2] split: option.splits)
next
  case (more_members w1 w2 w3 w4 b n k v t)
  then show ?case
    using scan_fields_member [OF more_members(1-3,5), of c k v "w4 @ CHR '','' # t @ w"] ends_after [OF more_members(4)]
    by (auto simp: Let_def)
qed auto

inductive_cases object_value: "json_value n CHR ''c'' (CHR ''{'' # t)"

text \<open>C29: The codec's scan accepts a payload exactly when it is one JSON object, surrounded by white space
  only, whose values nest at most \<open>maxDepth\<close> deep.\<close>

theorem json_scan_exact:
  "(\<exists>caps. json_scan c b = Inr caps) \<longleftrightarrow>
    (\<exists>w1 t w2. b = w1 @ CHR ''{'' # t @ w2 \<and> blank w1 \<and> blank w2
      \<and> json_value (Suc (nat (jc_maxDepth c))) CHR ''c'' (CHR ''{'' # t))"
  (is "?accepts \<longleftrightarrow> ?object")
proof
  assume ?accepts
  then obtain caps where r: "json_scan c b = Inr caps" by blast
  then have "starts CHR ''{'' (ws b)" by (auto simp: json_scan_def split: if_splits)
  then obtain w1 where w1: "blank w1" "b = w1 @ CHR ''{'' # tl (ws b)" using ws_starts by blast
  obtain w where w: "blank w" "tl (ws b) = w @ ws (tl (ws b))" by (rule ws_split)
  show ?object
  proof (cases "starts CHR ''}'' (ws (tl (ws b)))")
    case True
    then have "blank (tl (ws (tl (ws b))))"
      using r by (auto simp: json_scan_def Let_def eof_blank split: if_splits option.splits)
    moreover have "tl (ws b) = (w @ ''}'') @ tl (ws (tl (ws b)))" using w(2) True by (auto simp: starts_conv)
    ultimately show ?thesis using w1 text_no_members [OF w(1)] by (metis append.assoc append_Cons)
  next
    case False
    then have "scan_fields c (ws (tl (ws b))) no_captures = Inr caps"
      using r by (auto simp: json_scan_def Let_def split: if_splits)
    then obtain t w2 where t: "ws (tl (ws b)) = t @ w2" "blank w2" "json_members (Suc (nat (jc_maxDepth c))) t"
      using scan_fields_sound by blast
    have "b = w1 @ CHR ''{'' # (w @ t) @ w2" using w1(2) w(2) t(1) by simp
    then show ?thesis using w1(1) t(2) text_object [OF members_blank [OF t(3) w(1)]] by blast
  qed
next
  assume ?object
  then obtain w1 t w2 where b: "b = w1 @ CHR ''{'' # t @ w2" "blank w1" "blank w2"
    and v: "json_value (Suc (nat (jc_maxDepth c))) CHR ''c'' (CHR ''{'' # t)" by blast
  have b': "ws b = CHR ''{'' # t @ w2" using b(1,2) by simp
  from v show ?accepts
  proof (rule object_value)
    fix w assume "t = w @ ''}''" "blank w"
    then show ?thesis using b(3) by (simp add: json_scan_def b' Let_def eof_blank [THEN iffD2])
  next
    assume m: "json_members (Suc (nat (jc_maxDepth c))) t"
    then have "\<not> starts CHR ''}'' (ws (t @ w2))" by (simp add: members_head)
    then have "json_scan c b = scan_fields c (ws (t @ w2)) no_captures" by (simp add: json_scan_def b' Let_def)
    also have "\<dots> = scan_fields c (t @ w2) no_captures" by (rule scan_fields_ws)
    finally show ?thesis using scan_fields_complete [OF m refl b(3)] by simp
  qed
qed

section \<open>What an accepted event satisfies\<close>

lemma boundedString_le: "boundedString c cp = Inr s \<Longrightarrow> int (length s) \<le> jc_maxKeyBytes c"
  by (auto simp: boundedString_def split: if_splits sum.splits)

lemma json_assign_Inr:
  assumes "json_assign lib c caps dst = Inr e"
  shows "ev_observedAt e = ev_observedAt dst" "ev_topic e = ev_topic dst" "ev_raw e = ev_raw dst"
    "boundedString c (caps fieldKey) = Inr (ev_key e)" "boundedString c (caps fieldMember) = Inr (ev_member e)"
  using assms by (auto simp: json_assign_def split: sum.splits)

text \<open>An event that the JSON codec returns is valid, carries the source's receive time and topic and
  respects the bounds on its key and member; the payload respects its own.\<close>

lemma json_Decode_valid:
  assumes "json_Decode lib c payload topic e0 = Inr e"
  shows "Validate e = None \<and> ev_observedAt e = ev_observedAt e0 \<and> ev_topic e = topic
    \<and> int (length payload) \<le> jc_maxPayloadBytes c
    \<and> int (length (ev_key e)) \<le> jc_maxKeyBytes c \<and> int (length (ev_member e)) \<le> jc_maxKeyBytes c"
proof -
  have p: "int (length payload) \<le> jc_maxPayloadBytes c"
    using assms by (auto simp: json_Decode_def split: if_splits)
  obtain caps d where d: "json_assign lib c caps
      (zero_Event\<lparr>ev_observedAt := ev_observedAt e0, ev_topic := topic\<rparr>) = Inr d"
    "e = (if jc_retainRaw c then d\<lparr>ev_raw := Some payload\<rparr> else d)" "Validate e = None"
    using assms by (auto simp: json_Decode_def Let_def split: if_splits sum.splits option.splits)
  note a = json_assign_Inr [OF d(1)]
  show ?thesis
    using p d(2,3) a(1,2) boundedString_le [OF a(4)] boundedString_le [OF a(5)] by auto
qed

section \<open>The canonical format\<close>

text \<open>A writer for the canonical format, as the specification of what the codec reads: strings are
  escaped where JSON asks for it, numbers are decimal, an absent value or expiry is null.\<close>

definition hex_ch :: "nat \<Rightarrow> char" where
  "hex_ch d = (if d < 10 then char_of (48 + d) else char_of (87 + d))"

definition esc_char :: "char \<Rightarrow> bytes" where
  "esc_char c =
     (if c = quote_ch \<or> c = backslash then [backslash, c]
      else if c < CHR 0x20 then
        backslash # ''u00'' @ [hex_ch (of_char c div 16), hex_ch (of_char c mod 16)]
      else [c])"

definition escaped :: "bytes \<Rightarrow> bytes" where
  "escaped s = concat (map esc_char s)"

definition quoted :: "bytes \<Rightarrow> bytes" where
  "quoted s = quote_ch # escaped s @ [quote_ch]"

definition itoa :: "int \<Rightarrow> string" where
  "itoa z = (if z < 0 then CHR ''-'' # itoa_nat (nat (- z)) else itoa_nat (nat z))"

definition op_name :: "Op \<Rightarrow> string" where
  "op_name op = (case map_get op_names op of None \<Rightarrow> [] | Some n \<Rightarrow> n)"

text \<open>The publish time in nanoseconds of the Unix clock, 0 for none.\<close>

definition unix_nanos :: "time \<Rightarrow> int" where
  "unix_nanos t = (if t = 0 then 0 else t - unix_epoch)"

definition wire_fields :: "Event \<Rightarrow> (string \<times> char \<times> bytes) list" where
  "wire_fields e =
     [(''publisher'', CHR ''s'', quoted (ev_publisher e)),
      (''epoch'', CHR ''n'', itoa (uint (ev_epoch e))),
      (''seq'', CHR ''n'', itoa (uint (ev_seq e))),
      (''ts'', CHR ''n'', itoa (unix_nanos (ev_publishedAt e))),
      (''op'', CHR ''s'', quoted (op_name (ev_op e))),
      (''key'', CHR ''s'', quoted (ev_key e)),
      (''member'', CHR ''s'', quoted (ev_member e)),
      (''value'', case ev_value e of None \<Rightarrow> (CHR ''z'', ''null'') | Some v \<Rightarrow> (CHR ''s'', quoted v)),
      (''ttl'', case ev_ttl e of None \<Rightarrow> (CHR ''z'', ''null'')
                | Some d \<Rightarrow> (CHR ''n'', itoa (d div 1000000000))),
      (''delta'', CHR ''n'', itoa (sint (ev_delta e)))]"

fun wire_members :: "(string \<times> char \<times> bytes) list \<Rightarrow> bytes" where
  "wire_members [] = ''}''"
| "wire_members [(n, k, v)] = quote_ch # n @ quote_ch # CHR '':'' # v @ ''}''"
| "wire_members ((n, k, v) # f # fs) = quote_ch # n @ quote_ch # CHR '':'' # v @ CHR '','' # wire_members (f # fs)"

definition wire :: "Event \<Rightarrow> bytes" where
  "wire e = CHR ''{'' # wire_members (wire_fields e)"

subsection \<open>Strings\<close>

lemma hex_digit_hex_ch: "d < 16 \<Longrightarrow> hex_digit (hex_ch d) = Some d"
proof -
  have "\<forall>d \<in> set [0..<16]. hex_digit (hex_ch d) = Some d" by code_simp
  then show "d < 16 \<Longrightarrow> hex_digit (hex_ch d) = Some d" by simp
qed

lemma char_below: "c < CHR 0x20 \<longleftrightarrow> (of_char c :: nat) < 32"
  by (simp add: less_char_def)

lemma unescape_esc_char: "unescape (esc_char c @ s) = prepend [c] (unescape s)"
proof -
  consider "c = quote_ch \<or> c = backslash" | "c \<noteq> quote_ch" "c \<noteq> backslash" "c < CHR 0x20"
    | "c \<noteq> quote_ch" "c \<noteq> backslash" "\<not> c < CHR 0x20" by blast
  then show ?thesis
  proof cases
    case 1
    then show ?thesis by (auto simp: esc_char_def simple_escape_def)
  next
    case 2
    define n where "n = (of_char c :: nat)"
    have n: "n < 32" "char_of n = c" using 2(3) by (simp_all add: n_def char_below)
    let ?t = "CHR ''u'' # CHR ''0'' # CHR ''0'' # hex_ch (n div 16) # hex_ch (n mod 16) # s"
    have z: "hex_digit CHR ''0'' = Some 0" by (simp add: hex_digit_def less_eq_char_def)
    have "hex4 (take 4 (drop 1 ?t)) = Inr n"
      using n(1) by (simp add: hex4_def z hex_digit_hex_ch)
    then have "decodeUnicodeEscape ?t = Inr (n, 5)"
      using n(1) by (simp add: decodeUnicodeEscape_def IsSurrogate_def)
    moreover have "rune_bytes n = [c]" using n by (simp add: rune_bytes_def)
    ultimately show ?thesis using 2 by (simp add: esc_char_def n_def [symmetric])
  next
    case 3
    then show ?thesis by (simp add: esc_char_def)
  qed
qed

lemma unescape_escaped: "unescape (escaped s) = Inr s"
  by (induction s) (simp_all add: escaped_def unescape_esc_char prepend_def)

lemma hex_ch_plain:
  assumes "d < 16"
  shows "hex_ch d \<noteq> backslash \<and> hex_ch d \<noteq> quote_ch \<and> \<not> hex_ch d < CHR 0x20"
proof -
  have "\<forall>d \<in> set [0..<16]. hex_ch d \<noteq> backslash \<and> hex_ch d \<noteq> quote_ch \<and> \<not> hex_ch d < CHR 0x20" by code_simp
  with assms show ?thesis by simp
qed

lemma str_body_esc_char: "str_body s \<Longrightarrow> str_body (esc_char c @ s)"
proof -
  assume s: "str_body s"
  have u: "str_body (CHR ''0'' # CHR ''0'' # hex_ch (n div 16) # hex_ch (n mod 16) # s)" if "n < 32" for n
  proof -
    have "n div 16 < 16" using that by (simp add: less_mult_imp_div_less)
    then show ?thesis
      using s hex_ch_plain [of "n div 16"] hex_ch_plain [of "n mod 16"]
      by (auto intro!: str_char simp: less_char_def)
  qed
  show ?thesis
    using s u [of "of_char c"] by (auto simp: esc_char_def char_below intro: str_char str_escape)
qed

lemma str_body_escaped: "str_body (escaped s)"
  by (induction s) (simp_all add: escaped_def str_end str_body_esc_char)

lemma json_value_quoted: "json_value n CHR ''s'' (quoted s)"
  unfolding quoted_def by (rule text_string [OF str_body_escaped])

lemma escaped_plain: "backslash \<notin> set (escaped s) \<Longrightarrow> escaped s = s"
proof (induction s)
  case (Cons c s)
  have e: "escaped (c # s) = esc_char c @ escaped s" by (simp add: escaped_def)
  with Cons have "escaped s = s" "backslash \<notin> set (esc_char c)" by auto
  then show ?case using e by (auto simp: esc_char_def split: if_splits)
qed (simp add: escaped_def)

lemma unquoted_quoted [simp]: "unquoted (quoted s) = escaped s"
  by (simp add: unquoted_def quoted_def butlast_append)

lemma present_cap_of [simp]: "present (cap_of k v) \<longleftrightarrow> k \<noteq> CHR ''z''"
  by (simp add: present_def cap_of_def)

lemma cap_of_simps [simp]: "cp_raw (cap_of k v) = v" "cp_kind (cap_of k v) = k"
  "cp_escape (cap_of k v) \<longleftrightarrow> k = CHR ''s'' \<and> backslash \<in> set v"
  by (simp_all add: cap_of_def)

lemma backslash_quoted: "backslash \<in> set (quoted s) \<longleftrightarrow> backslash \<in> set (escaped s)"
  by (simp add: quoted_def)

lemma json_string_quoted [simp]: "json_string (cap_of CHR ''s'' (quoted s)) = Inr s"
  by (simp add: json_string_def backslash_quoted unescape_escaped escaped_plain)

lemma internedString_quoted [simp]: "internedString (cap_of CHR ''s'' (quoted s)) = Inr s"
  by (simp add: internedString_def backslash_quoted escaped_plain)

subsection \<open>Numbers\<close>

lemma digit_val_char: "d < 10 \<Longrightarrow> digit_val (char_of (48 + d)) = Some (int d)"
proof -
  have "\<forall>d \<in> set [0..<10]. digit_val (char_of (48 + d)) = Some (int d)" by code_simp
  then show "d < 10 \<Longrightarrow> digit_val (char_of (48 + d)) = Some (int d)" by simp
qed

lemma parse_digits_append:
  "parse_digits acc (xs @ ys) = (case parse_digits acc xs of None \<Rightarrow> None | Some a \<Rightarrow> parse_digits a ys)"
  by (induction xs arbitrary: acc) (simp_all split: option.split)

lemma parse_digits_itoa: "parse_digits 0 (itoa_nat n) = Some (int n)"
proof (induction n rule: itoa_nat.induct)
  case (1 n)
  show ?case
  proof (cases "n < 10")
    case True
    then show ?thesis by (simp add: itoa_nat.simps [of n] digit_val_char)
  next
    case False
    then show ?thesis
      using 1 by (simp add: itoa_nat.simps [of n] parse_digits_append digit_val_char) (simp add: zmod_int zdiv_int)
  qed
qed

lemma all_digits_itoa: "all_digits (itoa_nat n)"
proof (induction n rule: itoa_nat.induct)
  case (1 n)
  have d: "is_digit (char_of (48 + m))" if "m < 10" for m :: nat
    using that by (simp add: is_digit_def less_eq_char_def of_char_of)
  show ?case
  proof (cases "n < 10")
    case True
    then show ?thesis by (simp add: itoa_nat.simps [of n] all_digits_def d)
  next
    case False
    then show ?thesis using 1 by (simp add: itoa_nat.simps [of n] all_digits_def d)
  qed
qed

lemma itoa_nat_nonempty [simp]: "itoa_nat n \<noteq> []"
  using all_digits_itoa by (auto simp: all_digits_def)

lemma itoa_head: "hd (itoa_nat n) \<noteq> CHR ''-'' \<and> hd (itoa_nat n) \<noteq> CHR ''+''"
  using all_digits_itoa [of n] by (cases "itoa_nat n") (auto simp: all_digits_def)

lemma ParseInt_itoa: "min_i64 \<le> z \<Longrightarrow> z \<le> max_i64 \<Longrightarrow> ParseInt (itoa z) = Some z"
  using itoa_head by (auto simp: ParseInt_def itoa_def Let_def parse_digits_itoa)

lemma ParseUint_itoa: "ParseUint (itoa (uint w)) = Some w"
proof -
  have "uint w < 18446744073709551616" using uint_lt2p [of w] by simp
  then show ?thesis by (simp add: ParseUint_def itoa_def parse_digits_itoa)
qed

lemma number_itoa: "number_text (itoa z)"
proof -
  have "fraction_text []" "exponent_text []" by (simp_all add: fraction_text_def exponent_text_def)
  then have "number_text (sg @ itoa_nat n)" if "sg \<in> {[], ''-''}" for sg n
    using that all_digits_itoa [of n] unfolding number_text_def by (metis append_Nil2)
  from this [of "''-''"] this [of "[]"] show ?thesis by (simp add: itoa_def)
qed

lemma json_value_itoa: "json_value n CHR ''n'' (itoa z)"
  by (rule text_number [OF number_itoa])

lemma not_float_itoa: "\<not> isFloatLiteral (itoa z)"
proof -
  have "ch \<notin> set ''.eE''" if "ch \<in> set (itoa_nat n)" for ch n
    using that all_digits_itoa [of n] by (auto simp: all_digits_def)
  then show ?thesis by (auto simp: isFloatLiteral_def itoa_def)
qed

lemma number_conversions [simp]:
  "json_uint (cap_of CHR ''n'' (itoa (uint w))) = Inr w"
  "json_int (cap_of CHR ''n'' (itoa (sint v))) = Inr v"
proof -
  have "min_i64 \<le> sint v" "sint v \<le> max_i64" for v :: i64 using sint_i64_range by auto
  then show "json_uint (cap_of CHR ''n'' (itoa (uint w))) = Inr w"
    "json_int (cap_of CHR ''n'' (itoa (sint v))) = Inr v"
    by (simp_all add: json_uint_def json_int_def integer_text_def not_float_itoa ParseUint_itoa ParseInt_itoa)
qed

text \<open>Times the integer format carries exactly: none, or one whose number reads as nanoseconds.\<close>

definition ts_ok :: "time \<Rightarrow> bool" where
  "ts_ok t \<longleftrightarrow> t = 0 \<or> (100000000000000 \<le> \<bar>t - unix_epoch\<bar> \<and> \<bar>t - unix_epoch\<bar> \<le> max_i64)"

lemma timestamp_itoa:
  assumes "ts_ok t"
  shows "timestamp lib (cap_of CHR ''n'' (itoa (unix_nanos t))) = Inr t"
proof -
  have r: "min_i64 \<le> unix_nanos t" "unix_nanos t \<le> max_i64"
    using assms by (auto simp: ts_ok_def unix_nanos_def min_i64_def max_i64_def)
  have w: "wrap_i64 (unix_epoch - t) = unix_epoch - t" if "t < unix_epoch" "t \<noteq> 0"
    using that assms by (intro wrap_i64_id) (auto simp: ts_ok_def min_i64_def)
  have "unixTimestamp (unix_nanos t) = t"
  proof (cases "t = 0")
    case False
    then have "100000000000000 \<le> \<bar>t - unix_epoch\<bar>" using assms by (simp add: ts_ok_def)
    then show ?thesis using False w by (auto simp: unixTimestamp_def unix_nanos_def Let_def)
  qed (simp add: unixTimestamp_def unix_nanos_def)
  then show ?thesis by (simp add: timestamp_def not_float_itoa ParseInt_itoa [OF r])
qed

text \<open>Expiries the integer format carries: whole seconds.\<close>

lemma ttl_itoa:
  assumes "0 \<le> d" "d \<le> max_i64" "d mod 1000000000 = 0"
  shows "json_ttl lib (cap_of CHR ''n'' (itoa (d div 1000000000))) = Inr (Some d)"
proof -
  have e: "d div 1000000000 * 1000000000 = d" using assms(3) by auto
  have "0 \<le> d div 1000000000" "d div 1000000000 \<le> d" using assms(1) e by auto
  then have r: "min_i64 \<le> d div 1000000000" "d div 1000000000 \<le> max_i64"
    using assms(2) by (auto simp: min_i64_def)
  have "seconds_duration (d div 1000000000) = d"
    using assms(1,2) by (simp add: seconds_duration_def e wrap_i64_id min_i64_def)
  then show ?thesis by (simp add: json_ttl_def not_float_itoa ParseInt_itoa [OF r])
qed

subsection \<open>The round trip\<close>

text \<open>The JSON codec without settings.\<close>

definition canonical :: jsonCodec where
  "canonical =
     \<lparr>jc_names = map (\<lambda>(f, k, name). (name, [f])) configKeys, jc_opMap = [], jc_opNames = builtinOpNames,
      jc_maxPayloadBytes = 1048576, jc_maxKeyBytes = 4096, jc_maxDepth = 32, jc_retainRaw = False\<rparr>"

lemma newJSON_default: "newJSON lib [] = Some canonical"
proof -
  have "field_names [] configKeys [] = Some (map (\<lambda>(f, k, name). (name, [f])) configKeys)" by code_simp
  moreover have "trim_left seqs [] = []" for seqs
    by (subst trim_left.simps) (auto simp: starts_with_def find_Some_iff split: option.splits)
  then have "trim_space [] = []" by (simp add: trim_space_def)
  ultimately show ?thesis
    by (simp add: newJSON_def parseOpMapping_def setting_def codec_intConfig_def codec_boolConfig_def canonical_def)
qed

definition caps_of :: "jsonCodec \<Rightarrow> (string \<times> char \<times> bytes) list \<Rightarrow> captures \<Rightarrow> captures" where
  "caps_of c fs caps = foldl (\<lambda>cs (n, k, v). capture_all (field_lookup c n False) (cap_of k v) cs) caps fs"

definition plain :: "bytes \<Rightarrow> bool" where
  "plain n \<longleftrightarrow> escaped n = n \<and> backslash \<notin> set n"

lemma plain_body: "plain n \<Longrightarrow> str_body n"
  using str_body_escaped [of n] by (simp add: plain_def)

lemma scan_wire_members:
  "fs \<noteq> [] \<Longrightarrow> \<forall>(n, k, v) \<in> set fs. plain n \<and> json_value (nat (jc_maxDepth c)) k v
    \<Longrightarrow> scan_fields c (wire_members fs) caps = Inr (caps_of c fs caps)"
proof (induction fs arbitrary: caps rule: wire_members.induct)
  case (2 n k v)
  then have "plain n" "json_value (nat (jc_maxDepth c)) k v" by auto
  then show ?case
    using scan_fields_member [of "[]" "[]" "[]" n c k v "''}''" caps] plain_body [of n] ends_after [of "[]" "CHR ''}''" "[]"]
    by (simp add: plain_def caps_of_def Let_def eof_def ws_def)
next
  case (3 n k v f fs)
  then have "plain n" "json_value (nat (jc_maxDepth c)) k v" by auto
  then show ?case
    using 3 scan_fields_member [of "[]" "[]" "[]" n c k v "CHR '','' # wire_members (f # fs)" caps]
      plain_body [of n] ends_after [of "[]" "CHR '',''" "wire_members (f # fs)"]
    by (simp add: plain_def caps_of_def Let_def)
qed simp

text \<open>What the format can carry: a valid event whose texts fit the bounds.\<close>

definition wire_ok :: "Event \<Rightarrow> bool" where
  "wire_ok e \<longleftrightarrow> Validate e = None \<and> ts_ok (ev_publishedAt e)
     \<and> (case ev_ttl e of None \<Rightarrow> True | Some d \<Rightarrow> d \<le> max_i64 \<and> d mod 1000000000 = 0)
     \<and> int (length (escaped (ev_key e))) \<le> 4096 \<and> int (length (escaped (ev_member e))) \<le> 4096
     \<and> int (length (wire e)) \<le> 1048576"

lemma length_escaped: "length s \<le> length (escaped s)"
proof (induction s)
  case (Cons c s)
  then show ?case by (auto simp: escaped_def esc_char_def)
qed simp

lemma boundedString_quoted:
  "length (escaped s) \<le> 4096 \<Longrightarrow> boundedString canonical (cap_of CHR ''s'' (quoted s)) = Inr s"
  using length_escaped [of s] by (simp add: boundedString_def canonical_def quoted_def [of s, THEN arg_cong [of _ _ length]])

lemma field_lookup_canonical:
  "map (\<lambda>(f, k, name). field_lookup canonical name False) configKeys = map (\<lambda>(f, k, name). [f]) configKeys"
  by code_simp

lemma wire_names: "\<forall>(f, k, name) \<in> set configKeys. plain name"
  by code_simp

lemma wire_caps:
  "caps_of canonical (wire_fields e) no_captures fieldOp = cap_of CHR ''s'' (quoted (op_name (ev_op e)))"
  "caps_of canonical (wire_fields e) no_captures fieldPublisher = cap_of CHR ''s'' (quoted (ev_publisher e))"
  "caps_of canonical (wire_fields e) no_captures fieldEpoch = cap_of CHR ''n'' (itoa (uint (ev_epoch e)))"
  "caps_of canonical (wire_fields e) no_captures fieldSeq = cap_of CHR ''n'' (itoa (uint (ev_seq e)))"
  "caps_of canonical (wire_fields e) no_captures fieldTimestamp = cap_of CHR ''n'' (itoa (unix_nanos (ev_publishedAt e)))"
  "caps_of canonical (wire_fields e) no_captures fieldKey = cap_of CHR ''s'' (quoted (ev_key e))"
  "caps_of canonical (wire_fields e) no_captures fieldMember = cap_of CHR ''s'' (quoted (ev_member e))"
  "caps_of canonical (wire_fields e) no_captures fieldValue =
     (case ev_value e of None \<Rightarrow> cap_of CHR ''z'' ''null'' | Some v \<Rightarrow> cap_of CHR ''s'' (quoted v))"
  "caps_of canonical (wire_fields e) no_captures fieldTTL =
     (case ev_ttl e of None \<Rightarrow> cap_of CHR ''z'' ''null'' | Some d \<Rightarrow> cap_of CHR ''n'' (itoa (d div 1000000000)))"
  "caps_of canonical (wire_fields e) no_captures fieldDelta = cap_of CHR ''n'' (itoa (sint (ev_delta e)))"
  using field_lookup_canonical
  by (simp_all add: caps_of_def wire_fields_def capture_all_def configKeys_def split: option.split)

lemma resolveOp_wire:
  assumes "Validate e = None"
  shows "resolveOp lib canonical (cap_of CHR ''s'' (quoted (op_name (ev_op e)))) = Inr (ev_op e)"
proof -
  have names: "\<forall>(op, n) \<in> set op_names. op_name op = n \<and> escaped n = n \<and> backslash \<notin> set n
      \<and> map_get builtinOpNames (normalizeOpName n) = Some op" by code_simp
  have "ev_op e \<in> fst ` set op_names"
    using assms by (cases "ev_op e") (auto simp: Validate_def op_names_def split: if_splits)
  then obtain n where "(ev_op e, n) \<in> set op_names" by auto
  with names have "op_name (ev_op e) = n" "escaped n = n" "backslash \<notin> set n"
    "map_get builtinOpNames (normalizeOpName n) = Some (ev_op e)" by fastforce+
  then show ?thesis by (simp add: resolveOp_def backslash_quoted canonical_def)
qed

lemma wire_field_names: "map fst (wire_fields e) = map (snd \<circ> snd) configKeys"
  by (simp add: wire_fields_def configKeys_def)

lemma scan_wire: "json_scan canonical (wire e) = Inr (caps_of canonical (wire_fields e) no_captures)"
proof -
  have vals: "list_all (\<lambda>(n, k, v). json_value m k v) (wire_fields e)" for m
    by (simp add: wire_fields_def json_value_quoted json_value_itoa text_null split: option.split)
  have "plain n \<and> json_value m k v" if f: "(n, k, v) \<in> set (wire_fields e)" for n k v m
  proof
    from f have "n \<in> set (map fst (wire_fields e))" by force
    then show "plain n" using wire_names unfolding wire_field_names by auto
    show "json_value m k v" using vals [of m] f by (auto simp: list_all_iff)
  qed
  then have "\<forall>(n, k, v) \<in> set (wire_fields e). plain n \<and> json_value (nat (jc_maxDepth canonical)) k v" by blast
  moreover have "wire_fields e \<noteq> []" by (simp add: wire_fields_def)
  ultimately have "scan_fields canonical (wire_members (wire_fields e)) no_captures
      = Inr (caps_of canonical (wire_fields e) no_captures)" by (intro scan_wire_members)
  moreover have "ws (wire_members (wire_fields e)) = wire_members (wire_fields e)"
    "\<not> starts CHR ''}'' (wire_members (wire_fields e))" by (simp_all add: wire_fields_def)
  ultimately show ?thesis by (simp add: json_scan_def wire_def)
qed


section \<open>Where the codec and its documentation part\<close>

text \<open>A library for the examples that know no dates or durations and lower the ASCII letters.\<close>

definition sample_lib :: golib where
  "sample_lib = \<lparr>gl_timeParse = (\<lambda>_. None), gl_parseDuration = (\<lambda>_. None), gl_floatSeconds = (\<lambda>_. None),
     gl_toLower = (\<lambda>r. if 65 \<le> r \<and> r \<le> 90 then r + 32 else r)\<rparr>"

text \<open>A document with the given texts of its operation and its expiry, the latter a number.\<close>

definition sample_doc :: "bytes \<Rightarrow> bytes \<Rightarrow> bytes" where
  "sample_doc op ttl =
     wire_members [(''publisher'', CHR ''s'', quoted ''p''), (''op'', CHR ''s'', op), (''key'', CHR ''s'', quoted ''k''),
       (''value'', CHR ''s'', quoted ''x''), (''ttl'', CHR ''n'', ttl)]"

text \<open>An expiry of 18446744074 seconds, more than five hundred years, is accepted and becomes 0.29
  seconds: the product with a second wraps around without a check.\<close>

theorem json_ttl_wraps:
  "(case json_Decode sample_lib canonical (CHR ''{'' # sample_doc (quoted ''set'') ''18446744074'') [] zero_Event of
      Inl err \<Rightarrow> None | Inr e \<Rightarrow> ev_ttl e) = Some 290448384"
  by code_simp

text \<open>The same operation name, with a space before it, is an unknown operation when the text has no
  escape and is accepted when it has one: only the escaped path goes through \<open>ParseOp\<close>, which
  trims white space.\<close>

definition spaced_op :: bytes where
  "spaced_op = quoted '' set''"

definition spaced_escaped_op :: bytes where
  "spaced_escaped_op = quote_ch # CHR '' '' # backslash # ''u0073et'' @ [quote_ch]"

lemma trim_left_stop: "s \<noteq> [] \<Longrightarrow> hd s \<notin> hd ` set seqs \<Longrightarrow> trim_left seqs s = s"
proof -
  assume s: "s \<noteq> []" "hd s \<notin> hd ` set seqs"
  have "\<not> (p \<noteq> [] \<and> starts_with p s)" if "p \<in> set seqs" for p
    using s that by (cases p; cases s) (auto simp: starts_with_def image_iff)
  then have "find (\<lambda>p. p \<noteq> [] \<and> starts_with p s) seqs = None" by (auto simp: find_None_iff)
  then show ?thesis by (subst trim_left.simps) simp
qed

lemma trim_left_step:
  "find (\<lambda>p. p \<noteq> [] \<and> starts_with p s) seqs = Some p \<Longrightarrow> trim_left seqs s = trim_left seqs (drop (length p) s)"
  by (subst trim_left.simps) simp

lemma unescape_letter: "unescape (CHR '' '' # backslash # ''u0073et'') = Inr '' set''"
proof -
  let ?t = "''u0073et''"
  have "hex4 (take 4 (drop 1 ?t)) = Inr 115" by (simp add: hex4_def hex_digit_def less_eq_char_def)
  then have "decodeUnicodeEscape ?t = Inr (115, 5)" by (simp add: decodeUnicodeEscape_def IsSurrogate_def)
  moreover have "char_of (115 :: nat) = CHR ''s''" by code_simp
  then have "rune_bytes 115 = ''s''" by (simp add: rune_bytes_def)
  ultimately show ?thesis by (simp add: prepend_def)
qed

theorem json_op_depends_on_escape:
  "json_string (cap_of CHR ''s'' spaced_op) = Inr '' set'' \<and> json_string (cap_of CHR ''s'' spaced_escaped_op) = Inr '' set''
    \<and> resolveOp lib canonical (cap_of CHR ''s'' spaced_op) = Inl CodecErrUnknownOp
    \<and> resolveOp lib canonical (cap_of CHR ''s'' spaced_escaped_op) = Inr OpSet"
proof -
  have "CHR ''s'' \<notin> hd ` set space_seqs" "CHR ''t'' \<notin> hd ` set (map rev space_seqs)"
    "find (\<lambda>p. p \<noteq> [] \<and> starts_with p '' set'') space_seqs = Some '' ''"
    by (simp_all add: space_seqs_def starts_with_def)
  then have "trim_space '' set'' = ''set''" "trim_space ''set'' = ''set''"
    by (simp_all add: trim_space_def trim_left_stop trim_left_step)
  then have "ParseOp lib '' set'' = Some OpSet" by (simp add: ParseOp_def op_names_def event_normalizeOpName_def)
  moreover have "json_string (cap_of CHR ''s'' spaced_escaped_op) = Inr '' set''"
    by (simp add: json_string_def spaced_escaped_op_def unquoted_def unescape_letter del: unescape.simps)
  moreover have "resolveOp lib canonical (cap_of CHR ''s'' spaced_op) = Inl CodecErrUnknownOp" by code_simp
  ultimately show ?thesis
    by (simp add: resolveOp_def spaced_op_def) (simp add: spaced_escaped_op_def canonical_def)
qed

text \<open>The interner returns what it is asked for and never outgrows its bound.\<close>

lemma interner_transparent:
  assumes "\<forall>(k, s) \<in> set (in_m i). s = k" and "int (length (in_m i)) \<le> in_entries i"
    and "interner_get b i = (i', s)"
  shows "s = b \<and> (\<forall>(k, s) \<in> set (in_m i'). s = k) \<and> int (length (in_m i')) \<le> in_entries i'"
proof (cases "map_get (in_m i) b")
  case None
  then show ?thesis
    using assms by (auto simp: interner_get_def interner_store_def map_put_new split: if_splits)
next
  case (Some t)
  then show ?thesis using assms map_get_SomeD [OF Some] by (auto simp: interner_get_def)
qed

section \<open>Witnesses\<close>

definition sample_wire :: Event where
  "sample_wire =
     \<lparr>ev_publisher = ''p'', ev_epoch = 1, ev_seq = 300, ev_publishedAt = 0, ev_observedAt = 0, ev_topic = [],
      ev_op = OpSet, ev_key = [CHR ''k'', quote_ch, CHR 0x0A, CHR 0xFF], ev_member = [], ev_value = Some ''x'',
      ev_delta = - 1, ev_ttl = Some 2000000000, ev_raw = None\<rparr>"

lemma sample_wire_ok: "wire_ok sample_wire"
  by code_simp


end
