(* ===== verification/Msgpack.thy ===== *)
theory Msgpack
  imports CodecSpec "HOL-Library.Multiset"
begin

text \<open>
  \<open>pkg/codec/msgpack.go\<close> and the registry of \<open>pkg/codec/codec.go\<close>.

  The third-party decoder is a parameter: the document it makes of a payload, a map from names to
  values of Go's dynamic types. A map is iterated in an order the language leaves open; here the
  order is that of the list, and the first result is that no order changes what is decoded.
\<close>

section \<open>Dynamic values\<close>

text \<open>What an \<open>any\<close> holds after decoding. A float is its bit pattern; a slice, a map or any other
  type is \<open>AOther\<close>.\<close>

datatype any =
    AString string | ABytes bytes | ANil | ABool bool
  | AUint64 u64 | AUint u64 | AUint32 "32 word" | AUint16 "16 word" | AUint8 "8 word"
  | AInt64 i64 | AInt i64 | AInt32 "32 word" | AInt16 "16 word" | AInt8 "8 word"
  | AFloat64 u64 | AFloat32 "32 word" | ATime time | AOther

text \<open>\<open>msgpack.Unmarshal\<close> into a map (\<open>None\<close> is an error or a panic, which \<open>Decode\<close> recovers from;
  \<open>Some None\<close> a nil map) and the shortest rendering of a float.\<close>

record msgpack_lib =
  ml_Unmarshal :: "bytes \<Rightarrow> (string \<times> any) list option option"
  ml_FormatFloat64 :: "u64 \<Rightarrow> string"
  ml_FormatFloat32 :: "32 word \<Rightarrow> string"

section \<open>Conversions\<close>

definition msgpackString :: "any \<Rightarrow> CodecError + string" where
  "msgpackString raw =
     (case raw of AString v \<Rightarrow> Inr v | ABytes v \<Rightarrow> Inr v | ANil \<Rightarrow> Inr [] | _ \<Rightarrow> Inl ErrMalformed)"

definition uint_of_signed :: "int \<Rightarrow> CodecError + u64" where
  "uint_of_signed v = (if v < 0 then Inl ErrMalformed else Inr (word_of_int v))"

definition msgpackUint :: "any \<Rightarrow> CodecError + u64" where
  "msgpackUint raw =
     (case raw of
        AUint64 v \<Rightarrow> Inr v
      | AUint v \<Rightarrow> Inr v
      | AUint32 v \<Rightarrow> Inr (ucast v)
      | AUint16 v \<Rightarrow> Inr (ucast v)
      | AUint8 v \<Rightarrow> Inr (ucast v)
      | AInt64 v \<Rightarrow> uint_of_signed (sint v)
      | AInt v \<Rightarrow> uint_of_signed (sint v)
      | AInt32 v \<Rightarrow> uint_of_signed (sint v)
      | AInt16 v \<Rightarrow> uint_of_signed (sint v)
      | AInt8 v \<Rightarrow> uint_of_signed (sint v)
      | AString v \<Rightarrow>
          (case ParseUint (trim_space v) of None \<Rightarrow> Inl ErrMalformed | Some n \<Rightarrow> Inr n)
      | ANil \<Rightarrow> Inr 0
      | _ \<Rightarrow> Inl ErrMalformed)"

definition int_of_unsigned :: "u64 \<Rightarrow> CodecError + i64" where
  "int_of_unsigned v = (if max_i64 < uint v then Inl ErrMalformed else Inr v)"

definition msgpackInt :: "any \<Rightarrow> CodecError + i64" where
  "msgpackInt raw =
     (case raw of
        AInt64 v \<Rightarrow> Inr v
      | AInt v \<Rightarrow> Inr v
      | AInt32 v \<Rightarrow> Inr (scast v)
      | AInt16 v \<Rightarrow> Inr (scast v)
      | AInt8 v \<Rightarrow> Inr (scast v)
      | AUint64 v \<Rightarrow> int_of_unsigned v
      | AUint v \<Rightarrow> int_of_unsigned v
      | AUint32 v \<Rightarrow> Inr (ucast v)
      | AUint16 v \<Rightarrow> Inr (ucast v)
      | AUint8 v \<Rightarrow> Inr (ucast v)
      | AString v \<Rightarrow>
          (case ParseInt (trim_space v) of None \<Rightarrow> Inl ErrMalformed | Some n \<Rightarrow> Inr (word_of_int n))
      | ANil \<Rightarrow> Inr 0
      | _ \<Rightarrow> Inl ErrMalformed)"

definition msgpackValue :: "msgpack_lib \<Rightarrow> any \<Rightarrow> CodecError + bytes option" where
  "msgpackValue ml raw =
     (case raw of
        ANil \<Rightarrow> Inr None
      | AString v \<Rightarrow> Inr (Some v)
      | ABytes v \<Rightarrow> Inr (Some v)
      | ABool v \<Rightarrow> Inr (Some (if v then ''true'' else ''false''))
      | AInt64 v \<Rightarrow> Inr (Some (itoa (sint v)))
      | AUint64 v \<Rightarrow> Inr (Some (itoa (uint v)))
      | AInt v \<Rightarrow> Inr (Some (itoa (sint v)))
      | AFloat64 v \<Rightarrow> Inr (Some (ml_FormatFloat64 ml v))
      | AFloat32 v \<Rightarrow> Inr (Some (ml_FormatFloat32 ml v))
      | _ \<Rightarrow> Inl ErrMalformed)"

definition msgpackTime :: "golib \<Rightarrow> any \<Rightarrow> CodecError + time" where
  "msgpackTime lib raw =
     (case raw of
        ATime v \<Rightarrow> Inr v
      | ANil \<Rightarrow> Inr 0
      | AString v \<Rightarrow>
          if trim_space v = [] then Inr 0
          else
            (case gl_timeParse lib v of
               Some ts \<Rightarrow> Inr ts
             | None \<Rightarrow>
                 (case ParseInt (trim_space v) of
                    None \<Rightarrow> Inl ErrMalformed
                  | Some n \<Rightarrow> Inr (unixTimestamp n)))
      | AFloat32 v \<Rightarrow> Inl ErrMalformed
      | AFloat64 v \<Rightarrow> Inl ErrMalformed
      | _ \<Rightarrow>
          (case msgpackInt raw of Inl err \<Rightarrow> Inl err | Inr n \<Rightarrow> Inr (unixTimestamp (sint n))))"

definition msgpackTTL :: "golib \<Rightarrow> any \<Rightarrow> CodecError + duration option" where
  "msgpackTTL lib raw =
     (case raw of
        ANil \<Rightarrow> Inr None
      | AString s \<Rightarrow>
          let trimmed = trim_space s
          in if trimmed = [] then Inr None
             else
               (case gl_parseDuration lib trimmed of
                  None \<Rightarrow> Inl ErrMalformed
                | Some d \<Rightarrow> Inr (Some d))
      | _ \<Rightarrow>
          (case msgpackInt raw of
             Inl err \<Rightarrow> Inl err
           | Inr secs \<Rightarrow> Inr (Some (seconds_duration (sint secs)))))"

section \<open>The codec\<close>

record msgpackCodec =
  mc_names :: "(string, field list) go_map"
  mc_opMap :: "(string, Op) go_map"
  mc_opNames :: "(string, Op) go_map"
  mc_maxPayloadBytes :: int
  mc_maxKeyBytes :: int
  mc_retainRaw :: bool

definition newMsgpack :: "golib \<Rightarrow> codec_cfg \<Rightarrow> msgpackCodec option" where
  "newMsgpack lib cfg =
     (case field_names cfg configKeys [] of
        None \<Rightarrow> None
      | Some names \<Rightarrow>
          (case (parseOpMapping lib (setting cfg ''opMapping''),
                 codec_intConfig cfg ''maxPayloadBytes'' 1048576, codec_intConfig cfg ''maxKeyBytes'' 4096,
                 codec_boolConfig cfg ''retainRaw'', codec_intConfig cfg ''maxDepth'' 32) of
             (Some opMap, Some payload, Some key, Some raw, Some depth) \<Rightarrow>
               Some \<lparr>mc_names = names, mc_opMap = opMap, mc_opNames = builtinOpNames,
                     mc_maxPayloadBytes = payload, mc_maxKeyBytes = key, mc_retainRaw = raw\<rparr>
           | _ \<Rightarrow> None))"

definition msgpack_op :: "msgpackCodec \<Rightarrow> string \<Rightarrow> CodecError + Op" where
  "msgpack_op c name =
     (case map_get (mc_opMap c) name of
        Some op \<Rightarrow> Inr op
      | None \<Rightarrow>
          (case map_get (mc_opNames c) (normalizeOpName name) of
             Some op \<Rightarrow> Inr op
           | None \<Rightarrow> Inl CodecErrUnknownOp))"

definition msgpack_assign ::
  "golib \<Rightarrow> msgpack_lib \<Rightarrow> msgpackCodec \<Rightarrow> field \<Rightarrow> any \<Rightarrow> Event \<Rightarrow> CodecError + Event" where
  "msgpack_assign lib ml c f raw dst =
     (case f of
        fieldPublisher \<Rightarrow>
          (case msgpackString raw of Inl err \<Rightarrow> Inl err | Inr s \<Rightarrow> Inr (dst\<lparr>ev_publisher := s\<rparr>))
      | fieldEpoch \<Rightarrow>
          (case msgpackUint raw of Inl err \<Rightarrow> Inl err | Inr n \<Rightarrow> Inr (dst\<lparr>ev_epoch := n\<rparr>))
      | fieldSeq \<Rightarrow>
          (case msgpackUint raw of Inl err \<Rightarrow> Inl err | Inr n \<Rightarrow> Inr (dst\<lparr>ev_seq := n\<rparr>))
      | fieldTimestamp \<Rightarrow>
          (case msgpackTime lib raw of Inl err \<Rightarrow> Inl err | Inr ts \<Rightarrow> Inr (dst\<lparr>ev_publishedAt := ts\<rparr>))
      | fieldOp \<Rightarrow>
          (case msgpackString raw of
             Inl err \<Rightarrow> Inl err
           | Inr s \<Rightarrow>
               (case msgpack_op c s of Inl err \<Rightarrow> Inl err | Inr op \<Rightarrow> Inr (dst\<lparr>ev_op := op\<rparr>)))
      | fieldKey \<Rightarrow>
          (case msgpackString raw of Inl err \<Rightarrow> Inl err | Inr s \<Rightarrow> Inr (dst\<lparr>ev_key := s\<rparr>))
      | fieldMember \<Rightarrow>
          (case msgpackString raw of Inl err \<Rightarrow> Inl err | Inr s \<Rightarrow> Inr (dst\<lparr>ev_member := s\<rparr>))
      | fieldValue \<Rightarrow>
          (case msgpackValue ml raw of Inl err \<Rightarrow> Inl err | Inr v \<Rightarrow> Inr (dst\<lparr>ev_value := v\<rparr>))
      | fieldTTL \<Rightarrow>
          (case msgpackTTL lib raw of Inl err \<Rightarrow> Inl err | Inr ttl \<Rightarrow> Inr (dst\<lparr>ev_ttl := ttl\<rparr>))
      | fieldDelta \<Rightarrow>
          (case msgpackInt raw of Inl err \<Rightarrow> Inl err | Inr n \<Rightarrow> Inr (dst\<lparr>ev_delta := n\<rparr>)))"

text \<open>The event fields one name of the document fills, and the names of the document.\<close>

fun assign_fields ::
  "golib \<Rightarrow> msgpack_lib \<Rightarrow> msgpackCodec \<Rightarrow> field list \<Rightarrow> any \<Rightarrow> Event \<times> bool \<Rightarrow> CodecError + (Event \<times> bool)"
where
  "assign_fields lib ml c [] raw (dst, sawOp) = Inr (dst, sawOp)"
| "assign_fields lib ml c (f # fs) raw (dst, sawOp) =
     (case msgpack_assign lib ml c f raw dst of
        Inl err \<Rightarrow> Inl err
      | Inr dst \<Rightarrow> assign_fields lib ml c fs raw (dst, sawOp \<or> f = fieldOp))"

fun assign_document ::
  "golib \<Rightarrow> msgpack_lib \<Rightarrow> msgpackCodec \<Rightarrow> (string \<times> any) list \<Rightarrow> Event \<times> bool \<Rightarrow> CodecError + (Event \<times> bool)"
where
  "assign_document lib ml c [] st = Inr st"
| "assign_document lib ml c ((name, raw) # doc) st =
     (case map_get (mc_names c) name of
        None \<Rightarrow> assign_document lib ml c doc st
      | Some targets \<Rightarrow>
          (case assign_fields lib ml c targets raw st of
             Inl err \<Rightarrow> Inl err
           | Inr st \<Rightarrow> assign_document lib ml c doc st))"

definition msgpack_Decode ::
  "golib \<Rightarrow> msgpack_lib \<Rightarrow> msgpackCodec \<Rightarrow> bytes \<Rightarrow> string \<Rightarrow> Event \<Rightarrow> CodecError + Event" where
  "msgpack_Decode lib ml c payload topic dst =
     (if payload = [] then Inl ErrMalformed
      else if mc_maxPayloadBytes c < int (length payload) then Inl ErrTooLarge
      else
        (case ml_Unmarshal ml payload of
           None \<Rightarrow> Inl ErrMalformed
         | Some None \<Rightarrow> Inl ErrMalformed
         | Some (Some doc) \<Rightarrow>
             (case assign_document lib ml c doc
                     (zero_Event\<lparr>ev_observedAt := ev_observedAt dst, ev_topic := topic\<rparr>, False) of
                Inl err \<Rightarrow> Inl err
              | Inr (dst, sawOp) \<Rightarrow>
                  if \<not> sawOp then Inl CodecErrMissingField
                  else if mc_maxKeyBytes c < int (length (ev_key dst)) then Inl ErrTooLarge
                  else Inr (if mc_retainRaw c then dst\<lparr>ev_raw := Some payload\<rparr> else dst))))"

section \<open>The order of the document does not matter\<close>

definition targets :: "msgpackCodec \<Rightarrow> string \<Rightarrow> field list" where
  "targets c name = (case map_get (mc_names c) name of None \<Rightarrow> [] | Some fs \<Rightarrow> fs)"

definition assignments :: "msgpackCodec \<Rightarrow> (string \<times> any) list \<Rightarrow> (field \<times> any) list" where
  "assignments c doc = concat (map (\<lambda>(name, raw). map (\<lambda>f. (f, raw)) (targets c name)) doc)"

definition assign_step ::
  "golib \<Rightarrow> msgpack_lib \<Rightarrow> msgpackCodec \<Rightarrow> field \<times> any \<Rightarrow> (Event \<times> bool) option \<Rightarrow> (Event \<times> bool) option" where
  "assign_step lib ml c p st =
     (case st of
        None \<Rightarrow> None
      | Some (dst, sawOp) \<Rightarrow>
          (case msgpack_assign lib ml c (fst p) (snd p) dst of
             Inl err \<Rightarrow> None
           | Inr dst \<Rightarrow> Some (dst, sawOp \<or> fst p = fieldOp)))"

definition ok_of :: "'e + 'a \<Rightarrow> 'a option" where
  "ok_of r = (case r of Inl err \<Rightarrow> None | Inr a \<Rightarrow> Some a)"

lemma ok_of_iff: "ok_of r = Some a \<longleftrightarrow> r = Inr a"
  by (cases r) (simp_all add: ok_of_def)

lemma ok_of_simps [simp]: "ok_of (Inl e) = None" "ok_of (Inr a) = Some a"
  by (simp_all add: ok_of_def)

lemma assign_step_simps [simp]:
  "assign_step lib ml c p None = None"
  "assign_step lib ml c (f, raw) (Some (dst, sawOp)) =
     (case msgpack_assign lib ml c f raw dst of Inl err \<Rightarrow> None | Inr dst \<Rightarrow> Some (dst, sawOp \<or> f = fieldOp))"
  by (simp_all add: assign_step_def split: sum.split)

lemma fold_step_None [simp]: "fold (assign_step lib ml c) ps None = None"
  by (induction ps) simp_all

lemma assign_fields_fold:
  "ok_of (assign_fields lib ml c fs raw st) = fold (assign_step lib ml c) (map (\<lambda>f. (f, raw)) fs) (Some st)"
  by (induction lib ml c fs raw st rule: assign_fields.induct)
    (simp_all split: sum.split)

lemma assign_document_fold:
  "ok_of (assign_document lib ml c doc st) = fold (assign_step lib ml c) (assignments c doc) (Some st)"
proof (induction lib ml c doc st rule: assign_document.induct)
  case (2 lib ml c name raw doc st)
  then show ?case
    using assign_fields_fold [of lib ml c "targets c name" raw st]
    by (cases "assign_fields lib ml c (targets c name) raw st")
      (auto simp: assignments_def targets_def split: option.splits)
qed (simp add: assignments_def)

lemma assign_commute:
  "f \<noteq> g \<Longrightarrow>
    assign_step lib ml c (f, a) (assign_step lib ml c (g, b) st) = assign_step lib ml c (g, b) (assign_step lib ml c (f, a) st)"
  by (cases f; cases g; simp add: assign_step_def msgpack_assign_def split: option.split sum.split)

definition name_targets :: "(string, field list) go_map \<Rightarrow> string \<Rightarrow> field list" where
  "name_targets names n = (case map_get names n of None \<Rightarrow> [] | Some fs \<Rightarrow> fs)"

lemma name_targets_put: "name_targets (map_put k v m) n = (if n = k then v else name_targets m n)"
  by (simp add: name_targets_def)

text \<open>Every event field is read from one name: no two names share a field, and the fields still to be
  named are not among them.\<close>

definition separate :: "(string, field list) go_map \<Rightarrow> field set \<Rightarrow> bool" where
  "separate names fs \<longleftrightarrow>
     (\<forall>n. distinct (name_targets names n)) \<and>
     (\<forall>n n' f. f \<in> set (name_targets names n) \<longrightarrow> f \<in> set (name_targets names n') \<longrightarrow> n = n') \<and>
     (\<forall>n. set (name_targets names n) \<inter> fs = {})"

lemma separate_put:
  assumes "separate names (insert f fs)" and "f \<notin> fs"
  shows "separate (map_put k (name_targets names k @ [f]) names) fs"
  using assms unfolding separate_def name_targets_put by (auto split: if_splits)

lemma field_names_separate:
  "field_names cfg fs names = Some names' \<Longrightarrow> distinct (map fst fs) \<Longrightarrow> separate names (fst ` set fs) \<Longrightarrow>
    separate names' {}"
proof (induction cfg fs names arbitrary: names' rule: field_names.induct)
  case (2 cfg f cfgKey defaultName fs names)
  then show ?case
    by (auto simp: Let_def separate_put simp flip: name_targets_def split: if_splits)
qed simp

lemma newMsgpack_names:
  "newMsgpack lib cfg = Some c \<Longrightarrow> field_names cfg configKeys [] = Some (mc_names c)"
  by (auto simp: newMsgpack_def split: option.splits)

lemma newMsgpack_separate: "newMsgpack lib cfg = Some c \<Longrightarrow> separate (mc_names c) {}"
proof (erule newMsgpack_names [THEN field_names_separate])
  show "distinct (map fst configKeys)" by (simp add: configKeys_def)
  show "separate [] (fst ` set configKeys)" by (simp add: separate_def name_targets_def)
qed

lemma assignments_distinct:
  "separate (mc_names c) {} \<Longrightarrow> distinct (map fst doc) \<Longrightarrow> distinct (map fst (assignments c doc))"
proof (induction doc)
  case (Cons p doc)
  have "map fst (assignments c (p # doc)) = name_targets (mc_names c) (fst p) @ map fst (assignments c doc)"
    by (simp add: assignments_def targets_def name_targets_def case_prod_beta comp_def)
  moreover have "fst ` set (assignments c doc) = (\<Union>n \<in> fst ` set doc. set (name_targets (mc_names c) n))"
    by (force simp: assignments_def targets_def name_targets_def)
  moreover have "set (name_targets (mc_names c) (fst p)) \<inter> set (name_targets (mc_names c) n) = {}"
    if "n \<in> fst ` set doc" for n
    using Cons.prems that unfolding separate_def by (metis disjoint_iff distinct.simps(2) list.set_map list.simps(9))
  ultimately show ?case using Cons by (auto simp: separate_def disjoint_iff)
qed (simp add: assignments_def)

lemma assignments_mset: "mset doc = mset doc' \<Longrightarrow> mset (assignments c doc) = mset (assignments c doc')"
  by (simp add: assignments_def mset_concat sum_mset_sum_list [symmetric])

lemma assign_document_permuted:
  assumes "separate (mc_names c) {}" and "distinct (map fst doc)" and "mset doc' = mset doc"
  shows "ok_of (assign_document lib ml c doc' st) = ok_of (assign_document lib ml c doc st)"
  unfolding assign_document_fold
proof (rule fold_multiset_equiv [THEN fun_cong])
  show "mset (assignments c doc') = mset (assignments c doc)" using assignments_mset assms(3) .
  fix p q assume "p \<in> set (assignments c doc')" "q \<in> set (assignments c doc')"
  then have "p \<in> set (assignments c doc)" "q \<in> set (assignments c doc)"
    using assignments_mset [OF assms(3), of c] by (metis set_mset_mset)+
  then have "p = q \<or> fst p \<noteq> fst q"
    using assignments_distinct [OF assms(1,2)] by (metis distinct_map inj_on_eq_iff)
  then show "assign_step lib ml c p \<circ> assign_step lib ml c q = assign_step lib ml c q \<circ> assign_step lib ml c p"
    using assign_commute [of "fst p" "fst q" lib ml c "snd p" "snd q"] by (auto simp: fun_eq_iff)
qed

text \<open>Whatever order the map of a document is iterated in, the msgpack codec decodes the same event, or
  refuses the document in every order.\<close>

theorem msgpack_order_irrelevant:
  assumes "newMsgpack lib cfg = Some c" and "ml_Unmarshal ml payload = Some (Some doc)"
    and "distinct (map fst doc)" and "mset doc' = mset doc"
  shows "msgpack_Decode lib (ml\<lparr>ml_Unmarshal := \<lambda>p. Some (Some doc')\<rparr>) c payload topic dst = Inr e
    \<longleftrightarrow> msgpack_Decode lib ml c payload topic dst = Inr e"
proof -
  let ?ml = "ml\<lparr>ml_Unmarshal := \<lambda>p. Some (Some doc')\<rparr>"
  have "msgpackValue ?ml = msgpackValue ml" by (intro ext) (simp add: msgpackValue_def split: any.split)
  then have "msgpack_assign lib ?ml = msgpack_assign lib ml" by (intro ext) (simp add: msgpack_assign_def split: field.split)
  then have "assign_step lib ?ml = assign_step lib ml" by (intro ext) (simp add: assign_step_def split: option.split)
  then have same: "ok_of (assign_document lib ?ml c doc' st) = ok_of (assign_document lib ml c doc st)" for st
    using assign_document_permuted [OF newMsgpack_separate [OF assms(1)] assms(3,4)]
    by (simp add: assign_document_fold)
  let ?st = "(zero_Event\<lparr>ev_observedAt := ev_observedAt dst, ev_topic := topic\<rparr>, False)"
  show ?thesis
    using same [of ?st] assms(2)
    by (cases "assign_document lib ?ml c doc' ?st"; cases "assign_document lib ml c doc ?st")
      (simp_all add: msgpack_Decode_def)
qed

section \<open>Integers are exact\<close>

text \<open>The integer an integer type holds.\<close>

definition any_int :: "any \<Rightarrow> int option" where
  "any_int raw =
     (case raw of
        AUint64 v \<Rightarrow> Some (uint v) | AUint v \<Rightarrow> Some (uint v) | AUint32 v \<Rightarrow> Some (uint v)
      | AUint16 v \<Rightarrow> Some (uint v) | AUint8 v \<Rightarrow> Some (uint v)
      | AInt64 v \<Rightarrow> Some (sint v) | AInt v \<Rightarrow> Some (sint v) | AInt32 v \<Rightarrow> Some (sint v)
      | AInt16 v \<Rightarrow> Some (sint v) | AInt8 v \<Rightarrow> Some (sint v)
      | _ \<Rightarrow> None)"

lemma uint_u64_bounds: "0 \<le> uint (v :: u64) \<and> uint v < 18446744073709551616"
  using uint_range_size [of v] by (simp add: word_size)

lemma uint_widen [simp]:
  "uint (ucast (v :: 32 word) :: u64) = uint v" "uint (ucast (v' :: 16 word) :: u64) = uint v'"
  "uint (ucast (v'' :: 8 word) :: u64) = uint v''"
  by (transfer; simp)+

lemma sint_widen [simp]:
  "sint (scast (v :: 32 word) :: i64) = sint v" "sint (scast (v' :: 16 word) :: i64) = sint v'"
  "sint (scast (v'' :: 8 word) :: i64) = sint v''"
  by (transfer; simp)+

lemma sint_small: "uint (v :: i64) \<le> max_i64 \<Longrightarrow> sint v = uint v"
  using uint_u64_bounds [of v]
  by (simp add: sint_uint max_i64_def signed_take_bit_int_eq_self_iff order_trans [of _ 0])

lemma uint_narrow: "uint (v :: 32 word) \<le> max_i64" "uint (v' :: 16 word) \<le> max_i64" "uint (v'' :: 8 word) \<le> max_i64"
  using uint_range_size [of v] uint_range_size [of v'] uint_range_size [of v'']
  by (simp_all add: word_size max_i64_def)

lemma sint_narrow: "sint (v :: i64) \<le> max_i64" "sint (w :: 32 word) \<le> max_i64" "sint (v' :: 16 word) \<le> max_i64"
    "sint (v'' :: 8 word) \<le> max_i64"
  using sint_range_size [of v] sint_range_size [of w] sint_range_size [of v'] sint_range_size [of v'']
  by (simp_all add: word_size max_i64_def)

lemma uint_of_signed_exact:
  "z \<le> max_i64 \<Longrightarrow> if z < 0 then uint_of_signed z = Inl ErrMalformed else \<exists>n. uint_of_signed z = Inr n \<and> uint n = z"
  by (simp add: uint_of_signed_def max_i64_def uint_word_of_int)

lemma int_of_unsigned_exact:
  "if max_i64 < uint v then int_of_unsigned v = Inl ErrMalformed else \<exists>n. int_of_unsigned v = Inr n \<and> sint n = uint v"
  by (simp add: int_of_unsigned_def sint_small)

text \<open>An integer of any width is read exactly or refused: a sequence number is refused only when it is
  negative, a delta only when it exceeds an \<open>int64\<close>.\<close>

theorem msgpack_integers_exact:
  assumes "any_int raw = Some z"
  shows "(if z < 0 then msgpackUint raw = Inl ErrMalformed
          else \<exists>n. msgpackUint raw = Inr n \<and> uint n = z) \<and>
         (if max_i64 < z then msgpackInt raw = Inl ErrMalformed
          else \<exists>n. msgpackInt raw = Inr n \<and> sint n = z)"
  using assms uint_of_signed_exact [of z]
  by (cases raw)
    (auto simp: any_int_def msgpackUint_def msgpackInt_def int_of_unsigned_exact sint_small
       uint_narrow [THEN leD] sint_narrow [THEN leD])

section \<open>Where the codecs differ\<close>

text \<open>A value encoded in a narrow integer type, which is how a compact encoder writes a small number, is
  refused, although the same number as an \<open>int64\<close> is rendered in decimal and every narrow type is
  accepted as a sequence number.\<close>

theorem msgpackValue_refuses_narrow:
  "msgpackValue ml (AInt8 42) = Inl ErrMalformed \<and> msgpackValue ml (AUint8 42) = Inl ErrMalformed \<and>
   msgpackValue ml (AInt32 i) = Inl ErrMalformed \<and> msgpackValue ml (AUint32 u) = Inl ErrMalformed \<and>
   msgpackUint (AInt8 42) = Inr 42 \<and> msgpackValue ml (AInt64 42) = Inr (Some ''42'')"
proof -
  have "itoa 42 = ''42''" by code_simp
  then show ?thesis by (simp add: msgpackValue_def msgpackUint_def uint_of_signed_def)
qed

text \<open>An expiry of a whole number of seconds is the same in both codecs; one written as a float is a
  duration to the JSON codec and an error to the msgpack codec, and a blank string an error to the
  JSON codec and no expiry to the msgpack codec.\<close>

theorem ttl_conversions_differ:
  assumes "gl_floatSeconds lib ''1.5'' = Some 1500000000" and "gl_parseDuration lib [] = None"
  shows "json_ttl lib (cap_of CHR ''n'' ''1.5'') = Inr (Some 1500000000) \<and>
    msgpackTTL lib (AFloat64 v) = Inl ErrMalformed \<and>
    json_ttl lib (cap_of CHR ''s'' (quoted [])) = Inl ErrMalformed \<and>
    msgpackTTL lib (AString []) = Inr None"
proof -
  have "trim_left seqs [] = []" for seqs
    by (subst trim_left.simps) (auto simp: starts_with_def find_Some_iff split: option.splits)
  then have "trim_space [] = []" by (simp add: trim_space_def)
  moreover have "json_ttl lib (cap_of CHR ''n'' ''1.5'') = Inr (Some 1500000000)"
    using assms(1) by (simp add: json_ttl_def isFloatLiteral_def)
  moreover have "json_ttl lib (cap_of CHR ''s'' (quoted [])) = Inl ErrMalformed"
    using assms(2) by (simp add: json_ttl_def)
  ultimately show ?thesis by (simp add: msgpackTTL_def msgpackInt_def)
qed

section \<open>The registry\<close>

datatype Codec = CJson jsonCodec | CMsgpack msgpackCodec | CTemplate templateCodec

type_synonym codec_ctor = "codec_cfg \<Rightarrow> Codec option"
type_synonym codec_registry = "(string, codec_ctor) go_map"

text \<open>\<open>None\<close> is a panic of \<open>Register\<close>.\<close>

definition codec_Register :: "string \<Rightarrow> codec_ctor \<Rightarrow> codec_registry \<Rightarrow> codec_registry option" where
  "codec_Register name ctor reg =
     (if name = [] then None
      else if map_get reg name \<noteq> None then None
      else Some (map_put name ctor reg))"

definition codec_New :: "codec_registry \<Rightarrow> string \<Rightarrow> codec_ctor" where
  "codec_New reg name cfg = (case map_get reg name of None \<Rightarrow> None | Some ctor \<Rightarrow> ctor cfg)"

definition codec_Names :: "codec_registry \<Rightarrow> string list" where
  "codec_Names reg = sort (map fst reg)"

text \<open>The registry after the \<open>init\<close> functions of the package, in the order of its files.\<close>

definition codec_registry_init :: "golib \<Rightarrow> (string \<Rightarrow> regexp option) \<Rightarrow> codec_registry option" where
  "codec_registry_init lib compile =
     Option.bind (codec_Register ''json'' (map_option CJson \<circ> newJSON lib) [])
       (\<lambda>r1. Option.bind (codec_Register ''msgpack'' (map_option CMsgpack \<circ> newMsgpack lib) r1)
          (codec_Register ''template'' (map_option CTemplate \<circ> newTemplate lib compile)))"

definition codec_Decode ::
  "golib \<Rightarrow> msgpack_lib \<Rightarrow> Codec \<Rightarrow> bytes \<Rightarrow> string \<Rightarrow> Event \<Rightarrow> CodecError + Event" where
  "codec_Decode lib ml c =
     (case c of CJson j \<Rightarrow> json_Decode lib j | CMsgpack m \<Rightarrow> msgpack_Decode lib ml m
      | CTemplate t \<Rightarrow> template_Decode lib t)"

section \<open>The contract of the interface\<close>

text \<open>What every codec promises: the payload and the key are within the bounds, the receive time is
  the source's and the topic the frame's, nothing else of the event decoded into survives.\<close>

locale codec_contract =
  fixes decode :: "bytes \<Rightarrow> string \<Rightarrow> Event \<Rightarrow> CodecError + Event"
    and maxPayload :: int and maxKey :: int
  assumes frame: "decode p t d = Inr e \<Longrightarrow> ev_observedAt e = ev_observedAt d \<and> ev_topic e = t"
    and overwrites: "ev_observedAt d = ev_observedAt d' \<Longrightarrow> decode p t d = decode p t d'"
    and payload_bound: "decode p t d = Inr e \<Longrightarrow> int (length p) \<le> maxPayload"
    and key_bound: "decode p t d = Inr e \<Longrightarrow> int (length (ev_key e)) \<le> maxKey"
begin

lemma reuse: "decode p t d = Inr e \<Longrightarrow> decode q t' e = decode q t' d"
  by (rule overwrites) (use frame in blast)

lemma idempotent: "decode p t d = Inr e \<Longrightarrow> decode p t e = Inr e"
  using reuse [of p t d e p t] by simp

end

interpretation json: codec_contract "json_Decode lib c" "jc_maxPayloadBytes c" "jc_maxKeyBytes c" for lib c
proof
  fix p t d d' e
  show "ev_observedAt d = ev_observedAt d' \<Longrightarrow> json_Decode lib c p t d = json_Decode lib c p t d'"
    by (simp add: json_Decode_def)
qed (use json_Decode_valid in blast)+

lemma template_assign_frame:
  "template_assign lib c f raw dst = Inr e \<Longrightarrow> ev_observedAt e = ev_observedAt dst \<and> ev_topic e = ev_topic dst"
  by (auto simp: template_assign_def split: field.splits sum.splits option.splits)

lemma template_fill_frame:
  "template_fill lib c p gs dst = Inr e \<Longrightarrow> ev_observedAt e = ev_observedAt dst \<and> ev_topic e = ev_topic dst"
  by (induction lib c p gs dst rule: template_fill.induct)
    (auto split: option.splits sum.splits dest: template_assign_frame)

lemma trimTrailingNewline_length: "length (trimTrailingNewline p) \<le> length p"
  by (simp add: trimTrailingNewline_def Let_def)

interpretation template: codec_contract "template_Decode lib c" "tc_maxPayloadBytes c" "tc_maxKeyBytes c" for lib c
proof
  fix p t d d' e
  show "ev_observedAt d = ev_observedAt d' \<Longrightarrow> template_Decode lib c p t d = template_Decode lib c p t d'"
    by (simp add: template_Decode_def Let_def split: option.split)
  assume e: "template_Decode lib c p t d = Inr e"
  then show "int (length p) \<le> tc_maxPayloadBytes c" "int (length (ev_key e)) \<le> tc_maxKeyBytes c"
    by (auto simp: template_Decode_def Let_def split: if_splits option.splits sum.splits)
  obtain gs d1 where "template_fill lib c (trimTrailingNewline p) gs
      (zero_Event\<lparr>ev_observedAt := ev_observedAt d, ev_topic := t\<rparr>) = Inr d1"
    and "e = (if tc_retainRaw c then d1\<lparr>ev_raw := Some (trimTrailingNewline p)\<rparr> else d1)"
    using e by (auto simp: template_Decode_def Let_def split: if_splits option.splits sum.splits)
  then show "ev_observedAt e = ev_observedAt d \<and> ev_topic e = t" using template_fill_frame by fastforce
qed

lemma msgpack_assign_frame:
  "msgpack_assign lib ml c f raw dst = Inr e \<Longrightarrow> ev_observedAt e = ev_observedAt dst \<and> ev_topic e = ev_topic dst"
  by (auto simp: msgpack_assign_def split: field.splits sum.splits)

lemma assign_fields_frame:
  "assign_fields lib ml c fs raw st = Inr st' \<Longrightarrow>
    ev_observedAt (fst st') = ev_observedAt (fst st) \<and> ev_topic (fst st') = ev_topic (fst st)"
  by (induction lib ml c fs raw st rule: assign_fields.induct)
    (auto split: sum.splits dest: msgpack_assign_frame)

lemma assign_document_frame:
  "assign_document lib ml c doc st = Inr st' \<Longrightarrow>
    ev_observedAt (fst st') = ev_observedAt (fst st) \<and> ev_topic (fst st') = ev_topic (fst st)"
  by (induction lib ml c doc st rule: assign_document.induct)
    (auto split: sum.splits option.splits dest: assign_fields_frame)

interpretation msgpack: codec_contract "msgpack_Decode lib ml c" "mc_maxPayloadBytes c" "mc_maxKeyBytes c" for lib ml c
proof
  fix p t d d' e
  show "ev_observedAt d = ev_observedAt d' \<Longrightarrow> msgpack_Decode lib ml c p t d = msgpack_Decode lib ml c p t d'"
    by (simp add: msgpack_Decode_def split: option.split)
  assume e: "msgpack_Decode lib ml c p t d = Inr e"
  then show "int (length p) \<le> mc_maxPayloadBytes c" "int (length (ev_key e)) \<le> mc_maxKeyBytes c"
    by (auto simp: msgpack_Decode_def split: if_splits option.splits sum.splits)
  obtain doc d1 b where "assign_document lib ml c doc
      (zero_Event\<lparr>ev_observedAt := ev_observedAt d, ev_topic := t\<rparr>, False) = Inr (d1, b)"
    and "e = (if mc_retainRaw c then d1\<lparr>ev_raw := Some p\<rparr> else d1)"
    using e by (auto simp: msgpack_Decode_def split: if_splits option.splits sum.splits)
  then show "ev_observedAt e = ev_observedAt d \<and> ev_topic e = t" using assign_document_frame by fastforce
qed

subsection \<open>The operation is known\<close>

lemma find_in_set: "find P xs = Some x \<Longrightarrow> x \<in> set xs"
  by (auto simp: find_Some_iff)

lemma ParseOp_known: "ParseOp lib s = Some op \<Longrightarrow> op \<noteq> OpUnknown"
  using find_in_set [of _ op_names] by (fastforce simp: ParseOp_def op_names_def simp del: find.simps)

lemma put_known: "OpUnknown \<notin> snd ` set m \<Longrightarrow> op \<noteq> OpUnknown \<Longrightarrow> OpUnknown \<notin> snd ` set (map_put k op m)"
  by (induction m) (auto simp: map_put_def)

lemma op_pairs_known:
  "op_pairs lib ps m = Some m' \<Longrightarrow> OpUnknown \<notin> snd ` set m \<Longrightarrow> OpUnknown \<notin> snd ` set m'"
proof (induction lib ps m arbitrary: m' rule: op_pairs.induct)
  case (2 lib pair pairs m)
  obtain name target op where p: "cut_eq pair = Some (name, target)" "\<not> (trim_space name = [] \<or> trim_space target = [])"
    "ParseOp lib (trim_space target) = Some op" "op_pairs lib pairs (map_put (trim_space name) op m) = Some m'"
    using 2(2) by (auto simp: Let_def split: option.splits if_splits)
  show ?case by (rule 2(1) [OF p(1) refl refl refl p(2,3,4) put_known [OF 2(3) ParseOp_known [OF p(3)]]])
qed simp

lemma parseOpMapping_known: "parseOpMapping lib spec = Some m \<Longrightarrow> OpUnknown \<notin> snd ` set m"
  using op_pairs_known [of lib _ "[]"] by (auto simp: parseOpMapping_def split: if_splits)

lemma builtin_known: "OpUnknown \<notin> snd ` set builtinOpNames"
  by code_simp

lemma map_get_known: "OpUnknown \<notin> snd ` set m \<Longrightarrow> map_get m k \<noteq> Some OpUnknown"
  using map_get_SomeD [of m k OpUnknown] by force

lemma msgpack_op_known:
  assumes "newMsgpack lib cfg = Some c" and "msgpack_op c name = Inr op"
  shows "op \<noteq> OpUnknown"
proof -
  have "parseOpMapping lib (setting cfg ''opMapping'') = Some (mc_opMap c)" "mc_opNames c = builtinOpNames"
    using assms(1) by (auto simp: newMsgpack_def split: option.splits)
  then show ?thesis
    using assms(2) map_get_known [OF parseOpMapping_known] map_get_known [OF builtin_known]
    by (fastforce simp: msgpack_op_def split: option.splits)
qed

lemma assign_fields_known:
  assumes "newMsgpack lib cfg = Some c"
  shows "assign_fields lib' ml c fs raw st = Inr st' \<Longrightarrow> snd st \<longrightarrow> ev_op (fst st) \<noteq> OpUnknown \<Longrightarrow>
    snd st' \<longrightarrow> ev_op (fst st') \<noteq> OpUnknown"
  using assms
proof (induction lib' ml c fs raw st rule: assign_fields.induct)
  case (2 lib' ml c f fs raw dst sawOp)
  obtain d where d: "msgpack_assign lib' ml c f raw dst = Inr d"
    and r: "assign_fields lib' ml c fs raw (d, sawOp \<or> f = fieldOp) = Inr st'"
    using 2(2) by (auto split: sum.splits)
  have "ev_op d \<noteq> OpUnknown" if "f = fieldOp"
    using d that msgpack_op_known [OF 2(4)] by (auto simp: msgpack_assign_def split: sum.splits)
  moreover have "ev_op d = ev_op dst" if "f \<noteq> fieldOp"
    using d that by (cases f) (auto simp: msgpack_assign_def split: sum.splits)
  ultimately have "snd (d, sawOp \<or> f = fieldOp) \<longrightarrow> ev_op (fst (d, sawOp \<or> f = fieldOp)) \<noteq> OpUnknown"
    using 2(3) by (cases "f = fieldOp") auto
  then show ?case using 2(1) [OF d r _ 2(4)] by simp
qed simp

lemma assign_document_known:
  assumes "newMsgpack lib cfg = Some c"
  shows "assign_document lib' ml c doc st = Inr st' \<Longrightarrow> snd st \<longrightarrow> ev_op (fst st) \<noteq> OpUnknown \<Longrightarrow>
    snd st' \<longrightarrow> ev_op (fst st') \<noteq> OpUnknown"
  using assms
  by (induction lib' ml c doc st rule: assign_document.induct)
    (auto split: option.splits sum.splits dest: assign_fields_known)

lemma msgpack_known:
  assumes "newMsgpack lib cfg = Some c" and "msgpack_Decode lib' ml c p t d = Inr e"
  shows "ev_op e \<noteq> OpUnknown"
  using assms(2) assign_document_known [OF assms(1), of lib' ml _ "(_, False)"]
  by (fastforce simp: msgpack_Decode_def split: if_splits option.splits sum.splits)

lemma template_known: "template_Decode lib c p t d = Inr e \<Longrightarrow> ev_op e \<noteq> OpUnknown"
  by (auto simp: template_Decode_def Let_def split: if_splits option.splits sum.splits)

lemma json_known: "json_Decode lib c p t d = Inr e \<Longrightarrow> ev_op e \<noteq> OpUnknown"
  using json_Decode_valid [of lib c p t d e] by (auto simp: Validate_def split: if_splits)

fun codec_maxPayload :: "Codec \<Rightarrow> int" where
  "codec_maxPayload (CJson c) = jc_maxPayloadBytes c"
| "codec_maxPayload (CMsgpack c) = mc_maxPayloadBytes c"
| "codec_maxPayload (CTemplate c) = tc_maxPayloadBytes c"

fun codec_maxKey :: "Codec \<Rightarrow> int" where
  "codec_maxKey (CJson c) = jc_maxKeyBytes c"
| "codec_maxKey (CMsgpack c) = mc_maxKeyBytes c"
| "codec_maxKey (CTemplate c) = tc_maxKeyBytes c"

lemma codec_New_cases:
  assumes "codec_registry_init lib compile = Some reg" and "codec_New reg name cfg = Some c"
  obtains j where "c = CJson j" "newJSON lib cfg = Some j"
    | m where "c = CMsgpack m" "newMsgpack lib cfg = Some m"
    | t where "c = CTemplate t" "newTemplate lib compile cfg = Some t"
  using assms
  by (auto simp: codec_registry_init_def codec_Register_def codec_New_def split: option.splits if_splits)

text \<open>A codec of the registry that accepts a payload returns a known operation, the receive time of the
  event it decodes into and the topic of the frame, respects its bounds on the payload and the key,
  and leaves nothing of an earlier event behind: decoding into a used event is decoding into a fresh
  one.\<close>

theorem codec_Decode_contract:
  assumes "codec_registry_init lib compile = Some reg" and "codec_New reg name cfg = Some c"
    and "codec_Decode lib ml c p t d = Inr e"
  shows "ev_op e \<noteq> OpUnknown \<and> ev_observedAt e = ev_observedAt d \<and> ev_topic e = t
    \<and> int (length p) \<le> codec_maxPayload c \<and> int (length (ev_key e)) \<le> codec_maxKey c
    \<and> codec_Decode lib ml c q t' e = codec_Decode lib ml c q t' d"
  using assms(1,2)
proof (cases rule: codec_New_cases)
  case (1 j)
  then have "json_Decode lib j p t d = Inr e" using assms(3) by (simp add: codec_Decode_def)
  from json_known [OF this] json.frame [OF this] json.payload_bound [OF this] json.key_bound [OF this]
    json.reuse [OF this] show ?thesis by (simp add: 1 codec_Decode_def)
next
  case (2 m)
  then have "msgpack_Decode lib ml m p t d = Inr e" using assms(3) by (simp add: codec_Decode_def)
  from msgpack_known [OF 2(2) this] msgpack.frame [OF this] msgpack.payload_bound [OF this]
    msgpack.key_bound [OF this] msgpack.reuse [OF this] show ?thesis by (simp add: 2 codec_Decode_def)
next
  case (3 k)
  then have "template_Decode lib k p t d = Inr e" using assms(3) by (simp add: codec_Decode_def)
  from template_known [OF this] template.frame [OF this] template.payload_bound [OF this]
    template.key_bound [OF this] template.reuse [OF this] show ?thesis by (simp add: 3 codec_Decode_def)
qed

section \<open>Witnesses\<close>

definition msgpack_default :: msgpackCodec where
  "msgpack_default =
     \<lparr>mc_names = map (\<lambda>(f, k, name). (name, [f])) configKeys, mc_opMap = [], mc_opNames = builtinOpNames,
      mc_maxPayloadBytes = 1048576, mc_maxKeyBytes = 4096, mc_retainRaw = False\<rparr>"

lemma newMsgpack_default: "newMsgpack lib [] = Some msgpack_default"
proof -
  have "field_names [] configKeys [] = Some (map (\<lambda>(f, k, name). (name, [f])) configKeys)" by code_simp
  then show ?thesis
    using newJSON_default [of lib]
    by (auto simp: newMsgpack_def newJSON_def codec_intConfig_def codec_boolConfig_def msgpack_default_def
        canonical_def split: option.splits)
qed

definition sample_document :: "(string \<times> any) list" where
  "sample_document =
     [(''op'', AString ''set''), (''seq'', AInt8 5), (''key'', ABytes ''k''), (''value'', AInt64 7)]"

definition sample_unmarshal :: msgpack_lib where
  "sample_unmarshal =
     \<lparr>ml_Unmarshal = \<lambda>p. Some (Some sample_document), ml_FormatFloat64 = \<lambda>v. [], ml_FormatFloat32 = \<lambda>v. []\<rparr>"

definition sample_unpacked :: Event where
  "sample_unpacked = zero_Event\<lparr>ev_op := OpSet, ev_seq := 5, ev_key := ''k'', ev_value := Some ''7''\<rparr>"

theorem msgpack_order_irrelevant_witness:
  "msgpack_Decode sample_lib (sample_unmarshal\<lparr>ml_Unmarshal := \<lambda>p. Some (Some (rev sample_document))\<rparr>)
     msgpack_default ''x'' [] zero_Event = Inr sample_unpacked"
proof -
  have "msgpack_Decode sample_lib sample_unmarshal msgpack_default ''x'' [] zero_Event = Inr sample_unpacked"
    by code_simp
  moreover have "distinct (map fst sample_document)" by (simp add: sample_document_def)
  ultimately show ?thesis
    using msgpack_order_irrelevant [OF newMsgpack_default, of sample_unmarshal "''x''" sample_document
        "rev sample_document"] by (simp add: sample_unmarshal_def)
qed

theorem msgpack_integers_exact_witness:
  "msgpackUint (AInt16 (- 5)) = Inl ErrMalformed \<and> (\<exists>n. msgpackInt (AInt16 (- 5)) = Inr n \<and> sint n = - 5)"
  using msgpack_integers_exact [of "AInt16 (- 5)" "- 5"] by (simp add: any_int_def max_i64_def)

theorem ttl_conversions_differ_witness:
  "msgpackTTL (sample_lib\<lparr>gl_floatSeconds := \<lambda>s. Some 1500000000, gl_parseDuration := \<lambda>s. None\<rparr>) (AFloat64 0)
     = Inl ErrMalformed"
  using ttl_conversions_differ [of "sample_lib\<lparr>gl_floatSeconds := \<lambda>s. Some 1500000000, gl_parseDuration := \<lambda>s. None\<rparr>" 0]
  by simp

theorem codec_Decode_contract_witness:
  "\<exists>reg c e. codec_registry_init sample_lib (\<lambda>s. None) = Some reg \<and> codec_New reg ''msgpack'' [] = Some c
    \<and> codec_Decode sample_lib sample_unmarshal c ''x'' ''topic'' zero_Event = Inr e
    \<and> ev_op e \<noteq> OpUnknown \<and> ev_topic e = ''topic''"
proof -
  obtain reg where reg: "codec_registry_init sample_lib (\<lambda>s. None) = Some reg"
    "codec_New reg ''msgpack'' [] = Some (CMsgpack msgpack_default)"
    by (simp add: codec_registry_init_def codec_Register_def codec_New_def newMsgpack_default)
  moreover have d: "codec_Decode sample_lib sample_unmarshal (CMsgpack msgpack_default) ''x'' ''topic'' zero_Event
      = Inr (sample_unpacked\<lparr>ev_topic := ''topic''\<rparr>)" by code_simp
  ultimately show ?thesis using codec_Decode_contract [OF reg d] by blast
qed

end
