(* ===== verification/Store.thy ===== *)
theory Store
  imports Target CodecSpec Complex_Main
begin

text \<open>
  \<open>pkg/target\<close>: the command allowlist of \<open>target.go\<close>, the in-process store of \<open>memory.go\<close> and the
  command recorder of \<open>recording.go\<close>.

  A context that is cancelled, a sleep that is cut short, the clock and \<open>path.Match\<close> are the fields of
  \<open>mem_env\<close>. The observers of a store are modelled by the list of commands it emitted.
\<close>

section \<open>The allowlist\<close>

definition readOnlyCommands :: "string list" where
  "readOnlyCommands =
     [''GET'', ''SMEMBERS'', ''SCAN'', ''TYPE'', ''TTL'', ''PTTL'', ''EXISTS'', ''HGETALL'', ''INFO'', ''STRLEN'',
      ''SCARD'', ''MEMORY'', ''DBSIZE'']"

definition connectionCommands :: "string list" where
  "connectionCommands =
     [''HELLO'', ''AUTH'', ''SELECT'', ''PING'', ''ECHO'', ''CLIENT SETINFO'', ''CLIENT SETNAME'', ''CLIENT GETNAME'',
      ''CLIENT ID'', ''CLIENT INFO'', ''CLIENT MAINT_NOTIFICATIONS'', ''CLUSTER SLOTS'', ''CLUSTER SHARDS'',
      ''CLUSTER NODES'', ''CLUSTER INFO'', ''CLUSTER MYID'']"

text \<open>\<open>strings.ToUpper\<close>; \<open>up\<close> is \<open>unicode.ToUpper\<close>, which only a name outside ASCII reaches.\<close>

definition upper_ascii :: "char \<Rightarrow> char" where
  "upper_ascii ch = (if CHR ''a'' \<le> ch \<and> ch \<le> CHR ''z'' then char_of (of_char ch - 32 :: nat) else ch)"

definition ToUpper :: "(nat \<Rightarrow> nat) \<Rightarrow> string \<Rightarrow> string" where
  "ToUpper up s =
     (if list_all (\<lambda>c. of_char c < (128 :: nat)) s then map upper_ascii s
      else concat (map (rune_bytes \<circ> up) (runes s)))"

definition IsReadOnlyCommand :: "(nat \<Rightarrow> nat) \<Rightarrow> string \<Rightarrow> bool" where
  "IsReadOnlyCommand up name =
     (let upper = ToUpper up (trim_space name)
      in if upper = [] then False
         else if upper \<in> set connectionCommands then True
         else takeWhile (\<lambda>c. c \<noteq> CHR '' '') upper \<in> set readOnlyCommands)"

definition ReadOnlyCommands :: "string list" where
  "ReadOnlyCommands = sort readOnlyCommands"

definition ConnectionCommands :: "string list" where
  "ConnectionCommands = sort connectionCommands"

section \<open>The in-process store\<close>

datatype MemErr = MemClosed | MemContext | MemInjected | MemNotFound

record mem_env =
  me_now :: "time option"
  me_sleepErr :: "duration \<Rightarrow> bool"
  me_ctxErr :: bool
  me_match :: "string \<Rightarrow> string \<Rightarrow> bool option"

record MemoryTarget =
  mt_scalars :: "(string, bytes) go_map"
  mt_sets :: "(string, string go_set) go_map"
  mt_expiries :: "(string, time) go_map"
  mt_health :: Health
  mt_latency :: duration
  mt_failEvery :: int
  mt_opCount :: int
  mt_closed :: bool
  mt_log :: "string list"

text \<open>The number of operations per failure for a finite rate.\<close>

definition WithFailureRate :: "rat \<Rightarrow> MemoryTarget \<Rightarrow> MemoryTarget" where
  "WithFailureRate rate m =
     m\<lparr>mt_failEvery := (if rate \<le> 0 then 0 else if 1 \<le> rate then 1 else \<lfloor>1 / rate + 1 / 2\<rfloor>)\<rparr>"

definition NewMemory :: MemoryTarget where
  "NewMemory =
     \<lparr>mt_scalars = [], mt_sets = [], mt_expiries = [],
      mt_health =
        \<lparr>h_Reachable = True, h_EvictedKeys = 0, h_ExpiredKeys = 0, h_UsedMemoryBytes = 0,
         h_MaxMemoryBytes = 0, h_KeyspaceSize = 0, h_Role = ''master'', h_ReplicationLagMs = 0,
         h_Version = ''memory''\<rparr>,
      mt_latency = 0, mt_failEvery = 0, mt_opCount = 0, mt_closed = False, mt_log = []\<rparr>"

definition newMemory ::
  "golib \<Rightarrow> (string \<Rightarrow> rat option) \<Rightarrow> (string, string) go_map \<Rightarrow> MemoryTarget option" where
  "newMemory lib parseFloat cfg =
     (case (if setting cfg ''failureRate'' = [] then Some NewMemory
            else
              (case parseFloat (setting cfg ''failureRate'') of
                 None \<Rightarrow> None
               | Some rate \<Rightarrow>
                   if rate < 0 \<or> 1 < rate then None else Some (WithFailureRate rate NewMemory))) of
        None \<Rightarrow> None
      | Some m \<Rightarrow>
          if setting cfg ''latency'' = [] then Some m
          else
            (case gl_parseDuration lib (setting cfg ''latency'') of
               None \<Rightarrow> None
             | Some d \<Rightarrow> if d < 0 then None else Some (m\<lparr>mt_latency := d\<rparr>)))"

definition mem_emit :: "string \<Rightarrow> MemoryTarget \<Rightarrow> MemoryTarget" where
  "mem_emit name m = m\<lparr>mt_log := mt_log m @ [name]\<rparr>"

definition mem_begin :: "mem_env \<Rightarrow> string \<Rightarrow> MemoryTarget \<Rightarrow> MemoryTarget \<times> MemErr option" where
  "mem_begin env command m =
     (let m = mem_emit command m
      in if mt_closed m then (m, Some MemClosed)
         else
           let m = m\<lparr>mt_opCount := mt_opCount m + 1\<rparr>;
               shouldFail = (0 < mt_failEvery m \<and> mt_opCount m mod mt_failEvery m = 0)
           in if 0 < mt_latency m \<and> me_now env \<noteq> None \<and> me_sleepErr env (mt_latency m) then (m, Some MemContext)
              else if me_ctxErr env then (m, Some MemContext)
              else if shouldFail then (m, Some MemInjected)
              else (m, None))"

definition put_all :: "('k \<times> 'v) list \<Rightarrow> ('k, 'v) go_map \<Rightarrow> ('k, 'v) go_map" where
  "put_all kvs m = foldl (\<lambda>m (k, v). map_put k v m) m kvs"

definition Seed :: "(string, bytes) go_map \<Rightarrow> MemoryTarget \<Rightarrow> MemoryTarget" where
  "Seed vals m =
     (let m = mem_emit ''SET'' m in m\<lparr>mt_scalars := put_all vals (mt_scalars m)\<rparr>)"

definition seed_set :: "(string, string go_set) go_map \<Rightarrow> string \<times> string list \<Rightarrow> (string, string go_set) go_map" where
  "seed_set sets kv =
     (let s = remdups (snd kv) in if s = [] then map_del (fst kv) sets else map_put (fst kv) s sets)"

definition SeedSets :: "(string \<times> string list) list \<Rightarrow> MemoryTarget \<Rightarrow> MemoryTarget" where
  "SeedSets vals m =
     (let m = mem_emit ''SADD'' m in m\<lparr>mt_sets := foldl seed_set (mt_sets m) vals\<rparr>)"

definition remove_key :: "MemoryTarget \<Rightarrow> string \<Rightarrow> MemoryTarget" where
  "remove_key m key =
     m\<lparr>mt_scalars := map_del key (mt_scalars m), mt_sets := map_del key (mt_sets m),
       mt_expiries := map_del key (mt_expiries m)\<rparr>"

definition mem_Remove :: "string list \<Rightarrow> MemoryTarget \<Rightarrow> MemoryTarget" where
  "mem_Remove keys m = foldl remove_key (mem_emit ''DEL'' m) keys"

definition SetExpiry :: "string \<Rightarrow> time \<Rightarrow> MemoryTarget \<Rightarrow> MemoryTarget" where
  "SetExpiry key deadline m =
     (let m = mem_emit ''EXPIREAT'' m in m\<lparr>mt_expiries := map_put key deadline (mt_expiries m)\<rparr>)"

definition SetHealth :: "Health \<Rightarrow> MemoryTarget \<Rightarrow> MemoryTarget" where
  "SetHealth h m = m\<lparr>mt_health := h\<rparr>"

definition allKeysLocked :: "MemoryTarget \<Rightarrow> string list" where
  "allKeysLocked m =
     sort (map fst (mt_scalars m) @ filter (\<lambda>k. map_get (mt_scalars m) k = None) (map fst (mt_sets m)))"

definition SimulateEvict :: "int \<Rightarrow> MemoryTarget \<Rightarrow> MemoryTarget \<times> string list" where
  "SimulateEvict n m =
     (let m = mem_emit ''DEBUG EVICT'' m;
          victims = take (nat n) (allKeysLocked m);
          m = foldl remove_key m victims
      in (m\<lparr>mt_health := (mt_health m)\<lparr>h_EvictedKeys :=
             h_EvictedKeys (mt_health m) + of_nat (length victims)\<rparr>\<rparr>, victims))"

definition SimulateFlush :: "MemoryTarget \<Rightarrow> MemoryTarget" where
  "SimulateFlush m = (mem_emit ''FLUSHDB'' m)\<lparr>mt_scalars := [], mt_sets := [], mt_expiries := []\<rparr>"

definition mem_Len :: "MemoryTarget \<Rightarrow> int" where
  "mem_Len m = int (length (allKeysLocked m))"

definition expiredLocked :: "mem_env \<Rightarrow> MemoryTarget \<Rightarrow> string \<Rightarrow> bool" where
  "expiredLocked env m key =
     (case map_get (mt_expiries m) key of
        None \<Rightarrow> False
      | Some deadline \<Rightarrow> (case me_now env of None \<Rightarrow> False | Some now \<Rightarrow> deadline \<le> now))"

definition mem_commandFor :: "Shape \<Rightarrow> string" where
  "mem_commandFor shape = (if shape = ShapeSet then ''SMEMBERS'' else ''GET'')"

definition readLocked :: "mem_env \<Rightarrow> MemoryTarget \<Rightarrow> string \<Rightarrow> Shape \<Rightarrow> TargetErr + Value" where
  "readLocked env m key shape =
     (if expiredLocked env m key then Inr zero_Value
      else
        (case shape of
           ShapeSet \<Rightarrow>
             if map_get (mt_scalars m) key \<noteq> None then Inl (WrongTypeError ''string'')
             else
               (case map_get (mt_sets m) key of
                  None \<Rightarrow> Inr zero_Value
                | Some s \<Rightarrow>
                    if s = [] then Inr zero_Value
                    else Inr (zero_Value\<lparr>v_kind := ValueSet, v_members := s\<rparr>))
         | ShapeScalar \<Rightarrow>
             if map_get (mt_sets m) key \<noteq> None then Inl (WrongTypeError ''set'')
             else
               (case map_get (mt_scalars m) key of
                  None \<Rightarrow> Inr zero_Value
                | Some scal \<Rightarrow> Inr (zero_Value\<lparr>v_kind := ValueScalar, v_scalar := scal\<rparr>))
         | ShapeCounter \<Rightarrow>
             if map_get (mt_sets m) key \<noteq> None then Inl (WrongTypeError ''set'')
             else
               (case map_get (mt_scalars m) key of
                  None \<Rightarrow> Inr zero_Value
                | Some scal \<Rightarrow>
                    (case ParseInt scal of
                       None \<Rightarrow> Inl (WrongTypeError ''non-integer string'')
                     | Some n \<Rightarrow> Inr (zero_Value\<lparr>v_kind := ValueCounter, v_counter := word_of_int n\<rparr>)))))"

text \<open>An operation of the interface returns the store with its log and counter moved on; \<open>Inl\<close> is an
  error of the whole call.\<close>

definition read_outcome :: "TargetErr + Value \<Rightarrow> Read" where
  "read_outcome r =
     (case r of Inl err \<Rightarrow> \<lparr>rd_Value = zero_Value, rd_Err = Some err\<rparr> | Inr v \<Rightarrow> \<lparr>rd_Value = v, rd_Err = None\<rparr>)"

definition mem_Get :: "mem_env \<Rightarrow> string \<Rightarrow> Shape \<Rightarrow> MemoryTarget \<Rightarrow> MemoryTarget \<times> (MemErr + Read)" where
  "mem_Get env key shape m =
     (case mem_begin env (mem_commandFor shape) m of
        (m, Some err) \<Rightarrow> (m, Inl err)
      | (m, None) \<Rightarrow> (m, Inr (read_outcome (readLocked env m key shape))))"

definition mem_ReadMany :: "mem_env \<Rightarrow> string list \<Rightarrow> Shape \<Rightarrow> MemoryTarget \<Rightarrow> MemoryTarget \<times> (MemErr + Read list)" where
  "mem_ReadMany env keys shape m =
     (case mem_begin env (mem_commandFor shape) m of
        (m, Some err) \<Rightarrow> (m, Inl err)
      | (m, None) \<Rightarrow> (m, Inr (map (\<lambda>key. read_outcome (readLocked env m key shape)) keys)))"

definition valuesFromReads :: "Read list \<Rightarrow> Value list" where
  "valuesFromReads reads = map (\<lambda>r. if rd_Err r = None then rd_Value r else zero_Value) reads"

definition mem_GetMany :: "mem_env \<Rightarrow> string list \<Rightarrow> Shape \<Rightarrow> MemoryTarget \<Rightarrow> MemoryTarget \<times> (MemErr + Value list)" where
  "mem_GetMany env keys shape m =
     (case mem_ReadMany env keys shape m of
        (m, Inl err) \<Rightarrow> (m, Inl err)
      | (m, Inr reads) \<Rightarrow> (m, Inr (valuesFromReads reads)))"

definition mem_TTL :: "mem_env \<Rightarrow> string \<Rightarrow> MemoryTarget \<Rightarrow> MemoryTarget \<times> (MemErr + duration option)" where
  "mem_TTL env key m =
     (case mem_begin env ''TTL'' m of
        (m, Some err) \<Rightarrow> (m, Inl err)
      | (m, None) \<Rightarrow>
          if map_get (mt_scalars m) key = None \<and> map_get (mt_sets m) key = None \<or> expiredLocked env m key then
            (m, Inl MemNotFound)
          else
            (case (map_get (mt_expiries m) key, me_now env) of
               (Some deadline, Some now) \<Rightarrow> (m, Inr (Some (deadline - now)))
             | _ \<Rightarrow> (m, Inr None)))"

definition mem_Health :: "mem_env \<Rightarrow> MemoryTarget \<Rightarrow> MemoryTarget \<times> (MemErr + Health)" where
  "mem_Health env m =
     (case mem_begin env ''INFO'' m of
        (m, Some err) \<Rightarrow> (m, Inl err)
      | (m, None) \<Rightarrow> (m, Inr ((mt_health m)\<lparr>h_KeyspaceSize := word_of_int (int (length (allKeysLocked m)))\<rparr>)))"

record sliceIterator =
  si_keys :: "string list"
  si_batch :: int
  si_current :: "string list"
  si_err :: "MemErr option"

definition mem_Scan :: "mem_env \<Rightarrow> string \<Rightarrow> int \<Rightarrow> MemoryTarget \<Rightarrow> MemoryTarget \<times> sliceIterator" where
  "mem_Scan env pattern batch m =
     (let batch = (if batch \<le> 0 then 500 else batch)
      in (case mem_begin env ''SCAN'' m of
            (m, Some err) \<Rightarrow> (m, \<lparr>si_keys = [], si_batch = 0, si_current = [], si_err = Some err\<rparr>)
          | (m, None) \<Rightarrow>
              let matched =
                    filter (\<lambda>key. \<not> expiredLocked env m key
                      \<and> (pattern = [] \<or> pattern = ''*'' \<or> me_match env pattern key = Some True)) (allKeysLocked m)
              in (m, \<lparr>si_keys = matched, si_batch = batch, si_current = [], si_err = None\<rparr>)))"

definition slice_Next :: "bool \<Rightarrow> sliceIterator \<Rightarrow> sliceIterator \<times> bool" where
  "slice_Next ctxErr it =
     (if si_err it \<noteq> None then (it, False)
      else if ctxErr then (it\<lparr>si_err := Some MemContext\<rparr>, False)
      else if si_keys it = [] then (it\<lparr>si_current := []\<rparr>, False)
      else
        let n = nat (min (si_batch it) (int (length (si_keys it))))
        in (it\<lparr>si_current := take n (si_keys it), si_keys := drop n (si_keys it)\<rparr>, True))"

definition mem_Close :: "MemoryTarget \<Rightarrow> MemoryTarget" where
  "mem_Close m = m\<lparr>mt_closed := True\<rparr>"

section \<open>The recorder\<close>

record RecordingTarget =
  rt_commands :: "string list"
  rt_violations :: "string list"
  rt_allowViolations :: bool
  rt_fixture :: int
  rt_fixtures :: "string list"

definition Recording :: RecordingTarget where
  "Recording = \<lparr>rt_commands = [], rt_violations = [], rt_allowViolations = False, rt_fixture = 0, rt_fixtures = []\<rparr>"

definition AllowViolations :: "RecordingTarget \<Rightarrow> RecordingTarget" where
  "AllowViolations r = r\<lparr>rt_allowViolations := True\<rparr>"

text \<open>A function run with the check suspended.\<close>

definition Fixture :: "(RecordingTarget \<Rightarrow> RecordingTarget) \<Rightarrow> RecordingTarget \<Rightarrow> RecordingTarget" where
  "Fixture fn r =
     (let r = fn (r\<lparr>rt_fixture := rt_fixture r + 1\<rparr>) in r\<lparr>rt_fixture := rt_fixture r - 1\<rparr>)"

text \<open>The recorder and whether the command may be sent; a refusal stops the goroutine that sends it.\<close>

definition rec_observe :: "(nat \<Rightarrow> nat) \<Rightarrow> string \<Rightarrow> RecordingTarget \<Rightarrow> RecordingTarget \<times> bool" where
  "rec_observe up name r =
     (let allowed = IsReadOnlyCommand up name;
          inFixture = (0 < rt_fixture r);
          r = r\<lparr>rt_commands := rt_commands r @ [name]\<rparr>;
          r = (if allowed then r
               else if inFixture then r\<lparr>rt_fixtures := rt_fixtures r @ [name]\<rparr>
               else r\<lparr>rt_violations := rt_violations r @ [name]\<rparr>)
      in (r, allowed \<or> inFixture \<or> rt_allowViolations r))"

section \<open>Reads never write\<close>

text \<open>The operations a target offers, each with the environment of its call.\<close>

datatype read_op =
    OpGet string Shape | OpReadMany "string list" Shape | OpGetMany "string list" Shape
  | OpTTL string | OpHealth | OpScan string int

definition read_step :: "mem_env \<times> read_op \<Rightarrow> MemoryTarget \<Rightarrow> MemoryTarget" where
  "read_step eo m =
     (case eo of (env, opn) \<Rightarrow>
        (case opn of
           OpGet key shape \<Rightarrow> fst (mem_Get env key shape m)
         | OpReadMany keys shape \<Rightarrow> fst (mem_ReadMany env keys shape m)
         | OpGetMany keys shape \<Rightarrow> fst (mem_GetMany env keys shape m)
         | OpTTL key \<Rightarrow> fst (mem_TTL env key m)
         | OpHealth \<Rightarrow> fst (mem_Health env m)
         | OpScan pattern batch \<Rightarrow> fst (mem_Scan env pattern batch m)))"

definition read_commands :: "string list" where
  "read_commands = [''GET'', ''SMEMBERS'', ''TTL'', ''INFO'', ''SCAN'']"

lemma mem_begin_keeps:
  "mem_begin env cmd m = (m', err) \<Longrightarrow>
    mt_scalars m' = mt_scalars m \<and> mt_sets m' = mt_sets m \<and> mt_expiries m' = mt_expiries m
      \<and> mt_health m' = mt_health m \<and> mt_log m' = mt_log m @ [cmd]"
  by (auto simp: mem_begin_def mem_emit_def Let_def split: if_splits)

lemma read_step_begin: "\<exists>env cmd. cmd \<in> set read_commands \<and> read_step eo m = fst (mem_begin env cmd m)"
proof -
  obtain env opn where eo: "eo = (env, opn)" by (cases eo)
  have "\<exists>cmd \<in> set read_commands. read_step eo m = fst (mem_begin env cmd m)"
    by (cases opn)
      (auto simp: eo read_step_def mem_Get_def mem_ReadMany_def mem_GetMany_def mem_TTL_def mem_Health_def mem_Scan_def
        mem_commandFor_def read_commands_def Let_def split: prod.splits option.splits)
  then show ?thesis by blast
qed

lemma trim_space_plain:
  assumes "s \<noteq> []" and "hd s \<notin> hd ` set space_seqs" and "last s \<notin> hd ` set (map rev space_seqs)"
  shows "trim_space s = s"
proof -
  have "trim_left (map rev space_seqs) (rev s) = rev s"
    using assms by (intro trim_left_stop) (auto simp: hd_rev)
  then show ?thesis using trim_left_stop [OF assms(1,2)] by (simp add: trim_space_def)
qed

lemma read_commands_allowed: "cmd \<in> set read_commands \<Longrightarrow> IsReadOnlyCommand up cmd"
proof -
  assume c: "cmd \<in> set read_commands"
  have "list_all (\<lambda>s. s \<noteq> [] \<and> hd s \<notin> hd ` set space_seqs \<and> last s \<notin> hd ` set (map rev space_seqs)
      \<and> list_all (\<lambda>c. of_char c < (128 :: nat)) s \<and> map upper_ascii s = s
      \<and> takeWhile (\<lambda>c. c \<noteq> CHR '' '') s \<in> set readOnlyCommands) read_commands" by code_simp
  with c have "cmd \<noteq> []" "trim_space cmd = cmd" "ToUpper up cmd = cmd"
    "takeWhile (\<lambda>c. c \<noteq> CHR '' '') cmd \<in> set readOnlyCommands"
    by (auto simp: list_all_iff ToUpper_def intro!: trim_space_plain)
  then show ?thesis by (simp add: IsReadOnlyCommand_def)
qed

lemma read_step_keeps:
  "mt_scalars (read_step eo m) = mt_scalars m \<and> mt_sets (read_step eo m) = mt_sets m
    \<and> mt_expiries (read_step eo m) = mt_expiries m"
  using read_step_begin [of eo m] mem_begin_keeps by (metis prod.collapse)

text \<open>Whatever sequence of operations a client performs on the in-process store, in whatever environment,
  the keys, their values and their deadlines stay as they are, and every command the store reports is on
  the read-only allowlist, so a recorder finds no violation.\<close>

theorem reads_never_write:
  "let m' = fold read_step ops m
   in mt_scalars m' = mt_scalars m \<and> mt_sets m' = mt_sets m \<and> mt_expiries m' = mt_expiries m
     \<and> mt_health m' = mt_health m
     \<and> (\<exists>cmds. mt_log m' = mt_log m @ cmds \<and> length cmds = length ops \<and> list_all (IsReadOnlyCommand up) cmds)"
proof (induction ops arbitrary: m)
  case (Cons eo ops)
  obtain env cmd where c: "cmd \<in> set read_commands" "read_step eo m = fst (mem_begin env cmd m)"
    using read_step_begin by blast
  obtain m1 err where m1: "mem_begin env cmd m = (m1, err)" by (cases "mem_begin env cmd m")
  obtain cmds where cmds: "mt_log (fold read_step ops m1) = mt_log m1 @ cmds" "length cmds = length ops"
    "list_all (IsReadOnlyCommand up) cmds"
    using Cons.IH [of m1] by (auto simp: Let_def)
  have "mt_log (fold read_step (eo # ops) m) = mt_log m @ (cmd # cmds)" "length (cmd # cmds) = length (eo # ops)"
    "list_all (IsReadOnlyCommand up) (cmd # cmds)"
    using cmds mem_begin_keeps [OF m1] read_commands_allowed c(1) by (simp_all add: c(2) m1)
  then show ?case
    using Cons.IH [of m1] mem_begin_keeps [OF m1] by (auto simp: c(2) m1 Let_def)
qed (simp add: Let_def)

section \<open>Iterators\<close>

text \<open>The state of an iterator after \<open>n\<close> calls of \<open>Next\<close>, the \<open>i\<close>-th in the environment \<open>env i\<close>, and the
  keys those calls yielded.\<close>

primrec iterate :: "('e \<Rightarrow> 'it \<Rightarrow> 'it \<times> bool) \<Rightarrow> (nat \<Rightarrow> 'e) \<Rightarrow> nat \<Rightarrow> 'it \<Rightarrow> 'it" where
  "iterate adv env 0 it = it"
| "iterate adv env (Suc n) it = fst (adv (env n) (iterate adv env n it))"

primrec yielded :: "('e \<Rightarrow> 'it \<Rightarrow> 'it \<times> bool) \<Rightarrow> ('it \<Rightarrow> 'k list) \<Rightarrow> (nat \<Rightarrow> 'e) \<Rightarrow> nat \<Rightarrow> 'it \<Rightarrow> 'k list" where
  "yielded adv keys env 0 it = []"
| "yielded adv keys env (Suc n) it =
     yielded adv keys env n it @
       (if snd (adv (env n) (iterate adv env n it)) then keys (iterate adv env (Suc n) it) else [])"

lemma iterate_shift: "iterate adv env (Suc n) it = iterate adv (\<lambda>i. env (Suc i)) n (fst (adv (env 0) it))"
  by (induction n) simp_all

lemma yielded_shift:
  "yielded adv keys env (Suc n) it =
     (if snd (adv (env 0) it) then keys (fst (adv (env 0) it)) else [])
       @ yielded adv keys (\<lambda>i. env (Suc i)) n (fst (adv (env 0) it))"
proof (induction n)
  case (Suc n)
  then show ?case by (simp add: iterate_shift [symmetric] del: iterate.simps(2))
qed simp

text \<open>What an iterator owes its caller: a call that yields a batch uses up some of a budget, so that the
  caller's loop ends.\<close>

locale batch_iterator =
  fixes adv :: "'e \<Rightarrow> 'it \<Rightarrow> 'it \<times> bool"
    and ok :: "'it \<Rightarrow> bool"
    and budget :: "'it \<Rightarrow> nat"
  assumes keeps: "ok it \<Longrightarrow> ok (fst (adv e it))"
    and spends: "ok it \<Longrightarrow> snd (adv e it) \<Longrightarrow> budget (fst (adv e it)) < budget it"
begin

lemma iterate_ok: "ok it \<Longrightarrow> ok (iterate adv env n it)"
  by (induction n) (simp_all add: keeps)

lemma iterate_budget:
  "ok it \<Longrightarrow> \<forall>i < n. snd (adv (env i) (iterate adv env i it)) \<Longrightarrow> budget (iterate adv env n it) + n \<le> budget it"
proof (induction n)
  case (Suc n)
  from Suc.prems have "budget (fst (adv (env n) (iterate adv env n it))) < budget (iterate adv env n it)"
    by (intro spends iterate_ok) auto
  with Suc show ?case by (simp add: less_Suc_eq)
qed simp

lemma ends: "ok it \<Longrightarrow> \<exists>n \<le> budget it. \<not> snd (adv (env n) (iterate adv env n it))"
proof (rule ccontr)
  assume it: "ok it" and "\<not> (\<exists>n \<le> budget it. \<not> snd (adv (env n) (iterate adv env n it)))"
  then have "budget (iterate adv env (Suc (budget it)) it) + Suc (budget it) \<le> budget it"
    by (intro iterate_budget) (auto simp: less_Suc_eq_le)
  then show False by simp
qed

end

interpretation slice: batch_iterator slice_Next "\<lambda>it. si_err it \<noteq> None \<or> 0 < si_batch it" "\<lambda>it. length (si_keys it)"
  by unfold_locales (auto simp: slice_Next_def Let_def split: if_splits)

section \<open>A scan returns the live keys\<close>

text \<open>The runs of an in-process store, under the operations of its clients and of the test fixtures.\<close>

inductive mem_run :: "MemoryTarget \<Rightarrow> bool" where
  fresh: "mem_run (WithFailureRate rate NewMemory\<lparr>mt_latency := d\<rparr>)"
| seeded: "mem_run m \<Longrightarrow> mem_run (Seed vals m)"
| seeded_sets: "mem_run m \<Longrightarrow> mem_run (SeedSets svals m)"
| removed: "mem_run m \<Longrightarrow> mem_run (mem_Remove keys m)"
| expires: "mem_run m \<Longrightarrow> mem_run (SetExpiry key deadline m)"
| health: "mem_run m \<Longrightarrow> mem_run (SetHealth h m)"
| evicted: "mem_run m \<Longrightarrow> mem_run (fst (SimulateEvict n m))"
| flushed: "mem_run m \<Longrightarrow> mem_run (SimulateFlush m)"
| reads: "mem_run m \<Longrightarrow> mem_run (read_step eo m)"
| closed: "mem_run m \<Longrightarrow> mem_run (mem_Close m)"

definition mem_ok :: "MemoryTarget \<Rightarrow> bool" where
  "mem_ok m \<longleftrightarrow> wf_map (mt_scalars m) \<and> wf_map (mt_sets m) \<and> wf_map (mt_expiries m)
     \<and> (\<forall>(k, s) \<in> set (mt_sets m). s \<noteq> [] \<and> distinct s)"

lemma wf_put_all: "wf_map m \<Longrightarrow> wf_map (put_all kvs m)"
  unfolding put_all_def by (induction kvs arbitrary: m) (auto intro: wf_map_put)

definition sets_ok :: "(string, string go_set) go_map \<Rightarrow> bool" where
  "sets_ok sets \<longleftrightarrow> wf_map sets \<and> (\<forall>(k, s) \<in> set sets. s \<noteq> [] \<and> distinct s)"

lemma set_map_del_subset: "set (map_del k m) \<subseteq> set m"
  by (auto simp: map_del_def AList.delete_eq)

lemma seed_set_ok: "sets_ok sets \<Longrightarrow> sets_ok (seed_set sets kv)"
  using set_map_del_subset [of "fst kv" sets]
  by (auto simp: sets_ok_def seed_set_def Let_def set_map_put intro: wf_map_put wf_map_del)

lemma foldl_seed_ok: "sets_ok sets \<Longrightarrow> sets_ok (foldl seed_set sets kvs)"
  by (induction kvs arbitrary: sets) (simp_all add: seed_set_ok)

lemma remove_key_ok: "mem_ok m \<Longrightarrow> mem_ok (remove_key m k)"
  using set_map_del_subset [of k "mt_sets m"] by (auto simp: mem_ok_def remove_key_def intro: wf_map_del)

lemma foldl_remove_ok: "mem_ok m \<Longrightarrow> mem_ok (foldl remove_key m ks)"
  by (induction ks arbitrary: m) (simp_all add: remove_key_ok)

lemma mem_ok_cong:
  "mt_scalars m = mt_scalars m' \<Longrightarrow> mt_sets m = mt_sets m' \<Longrightarrow> mt_expiries m = mt_expiries m' \<Longrightarrow> mem_ok m = mem_ok m'"
  by (simp add: mem_ok_def)

lemma mem_run_ok: "mem_run m \<Longrightarrow> mem_ok m"
proof (induction rule: mem_run.induct)
  case (fresh rate d)
  then show ?case by (simp add: mem_ok_def WithFailureRate_def NewMemory_def)
next
  case (seeded m vals)
  then show ?case by (simp add: mem_ok_def Seed_def mem_emit_def Let_def wf_put_all)
next
  case (seeded_sets m svals)
  then show ?case
    using foldl_seed_ok [of "mt_sets m" svals] by (simp add: mem_ok_def sets_ok_def SeedSets_def mem_emit_def Let_def)
next
  case (removed m keys)
  then show ?case
    unfolding mem_Remove_def by (intro foldl_remove_ok) (simp add: mem_ok_def mem_emit_def)
next
  case (expires m key deadline)
  then show ?case by (simp add: mem_ok_def SetExpiry_def mem_emit_def Let_def wf_map_put)
next
  case (health m h)
  then show ?case by (simp add: mem_ok_def SetHealth_def)
next
  case (evicted m n)
  have "mem_ok (foldl remove_key (mem_emit ''DEBUG EVICT'' m) ks)" for ks
    using evicted by (intro foldl_remove_ok) (simp add: mem_ok_def mem_emit_def)
  then show ?case by (simp add: SimulateEvict_def Let_def mem_ok_def)
next
  case (flushed m)
  then show ?case by (simp add: mem_ok_def SimulateFlush_def)
next
  case (reads m eo)
  then show ?case
    using read_step_keeps [of eo m] by (simp add: mem_ok_def)
next
  case (closed m)
  then show ?case by (simp add: mem_ok_def mem_Close_def)
qed

lemma allKeys_set: "set (allKeysLocked m) = fst ` set (mt_scalars m) \<union> fst ` set (mt_sets m)"
  by (auto simp: allKeysLocked_def map_get_None_iff)

lemma allKeys_distinct: "mem_ok m \<Longrightarrow> distinct (allKeysLocked m) \<and> sorted (allKeysLocked m)"
  by (auto simp: allKeysLocked_def mem_ok_def map_get_None_iff)

lemma slice_yields:
  assumes "si_err it = None" and "0 < si_batch it"
  shows "\<exists>n. \<not> snd (slice_Next False (iterate slice_Next (\<lambda>_. False) n it))
    \<and> si_err (iterate slice_Next (\<lambda>_. False) n it) = None
    \<and> yielded slice_Next si_current (\<lambda>_. False) n it = si_keys it"
  using assms
proof (induction "length (si_keys it)" arbitrary: it rule: less_induct)
  case less
  show ?case
  proof (cases "si_keys it = []")
    case True
    then show ?thesis using less.prems by (intro exI [of _ 0]) (simp add: slice_Next_def)
  next
    case False
    let ?it = "fst (slice_Next False it)"
    have it: "snd (slice_Next False it)" "si_err ?it = None" "0 < si_batch ?it" "length (si_keys ?it) < length (si_keys it)"
      "si_current ?it @ si_keys ?it = si_keys it"
      using False less.prems by (auto simp: slice_Next_def Let_def)
    from less.hyps [OF it(4,2,3)] obtain n where n: "\<not> snd (slice_Next False (iterate slice_Next (\<lambda>_. False) n ?it))"
      "si_err (iterate slice_Next (\<lambda>_. False) n ?it) = None" "yielded slice_Next si_current (\<lambda>_. False) n ?it = si_keys ?it"
      by blast
    have s: "iterate slice_Next (\<lambda>_. False) (Suc n) it = iterate slice_Next (\<lambda>_. False) n ?it"
      using iterate_shift [of slice_Next "\<lambda>_. False" n it] by simp
    have "yielded slice_Next si_current (\<lambda>_. False) (Suc n) it = si_keys it"
      using yielded_shift [of slice_Next si_current "\<lambda>_. False" n it] it(1,5) n(3) by simp
    then show ?thesis using n(1,2) s by metis
  qed
qed

text \<open>A scan of the in-process store yields, in batches that end, exactly the keys that are stored, not
  expired and matched by the pattern, each once and in order.\<close>

theorem mem_scan_exact:
  assumes "mem_run m" and "mem_Scan env pattern batch m = (m', it)" and "si_err it = None"
  shows "\<exists>n. \<not> snd (slice_Next False (iterate slice_Next (\<lambda>_. False) n it))
    \<and> (let keys = yielded slice_Next si_current (\<lambda>_. False) n it
       in sorted keys \<and> distinct keys
         \<and> set keys = {k. (k \<in> fst ` set (mt_scalars m) \<or> k \<in> fst ` set (mt_sets m)) \<and> \<not> expiredLocked env m k
             \<and> (pattern = [] \<or> pattern = ''*'' \<or> me_match env pattern k = Some True)})"
proof -
  obtain m1 err where m1: "mem_begin env ''SCAN'' m = (m1, err)" by (cases "mem_begin env ''SCAN'' m")
  note keeps = mem_begin_keeps [OF m1]
  have "err = None" using assms(2,3) m1 by (auto simp: mem_Scan_def Let_def split: option.splits)
  then have it: "0 < si_batch it" "si_keys it = filter (\<lambda>key. \<not> expiredLocked env m key
      \<and> (pattern = [] \<or> pattern = ''*'' \<or> me_match env pattern key = Some True)) (allKeysLocked m)"
    using assms(2) m1 keeps by (auto simp: mem_Scan_def Let_def expiredLocked_def allKeysLocked_def)
  obtain n where n: "\<not> snd (slice_Next False (iterate slice_Next (\<lambda>_. False) n it))"
    "yielded slice_Next si_current (\<lambda>_. False) n it = si_keys it"
    using slice_yields [OF assms(3) it(1)] by blast
  have "sorted (si_keys it) \<and> distinct (si_keys it)"
    using allKeys_distinct [OF mem_run_ok [OF assms(1)]] it(2) by (simp add: sorted_filter [of id, simplified])
  then show ?thesis using n it(2) by (intro exI [of _ n]) (auto simp: Let_def allKeys_set)
qed

text \<open>An expired key is gone for every reader, yet it is still counted: the size of the store and the
  keyspace size of its diagnostics include it.\<close>

definition expired_store :: MemoryTarget where
  "expired_store = SetExpiry ''k'' 5 (Seed [(''k'', ''v'')] NewMemory)"

definition later_env :: mem_env where
  "later_env = \<lparr>me_now = Some 9, me_sleepErr = \<lambda>d. False, me_ctxErr = False, me_match = \<lambda>p k. Some True\<rparr>"

theorem expired_keys_counted:
  "readLocked later_env expired_store ''k'' ShapeScalar = Inr zero_Value
    \<and> si_keys (snd (mem_Scan later_env ''*'' 0 expired_store)) = []
    \<and> mem_Len expired_store = 1
    \<and> map_sum id h_KeyspaceSize (snd (mem_Health later_env expired_store)) = Inr 1"
  by code_simp

theorem mem_scan_exact_witness:
  "\<exists>n. \<not> snd (slice_Next False (iterate slice_Next (\<lambda>_. False) n
          (snd (mem_Scan later_env ''*'' 0 (Seed [(''b'', []), (''a'', [])] NewMemory)))))
    \<and> set (yielded slice_Next si_current (\<lambda>_. False) n
          (snd (mem_Scan later_env ''*'' 0 (Seed [(''b'', []), (''a'', [])] NewMemory)))) = {''a'', ''b''}"
proof -
  let ?m = "Seed [(''b'', []), (''a'', [])] (WithFailureRate 0 NewMemory\<lparr>mt_latency := 0\<rparr>)"
  have m: "?m = Seed [(''b'', []), (''a'', [])] NewMemory" by (simp add: WithFailureRate_def NewMemory_def)
  have "si_err (snd (mem_Scan later_env ''*'' 0 ?m)) = None" unfolding m by code_simp
  moreover have "mt_scalars ?m = [(''b'', []), (''a'', [])]" "mt_sets ?m = []" "mt_expiries ?m = []"
    unfolding m by code_simp+
  ultimately show ?thesis
    using mem_scan_exact [OF mem_run.seeded [OF mem_run.fresh [of 0 0]], of later_env "''*''" 0
        "[(''b'', []), (''a'', [])]" _ "snd (mem_Scan later_env ''*'' 0 ?m)", OF prod.collapse [symmetric]]
    unfolding m by (auto simp: Let_def expiredLocked_def)
qed

end
