(* ===== verification/RedisTarget.thy ===== *)
theory RedisTarget
  imports Store
begin

text \<open>
  \<open>pkg/target/redis.go\<close>: the client of the audited Redis, down to the commands it sends.

  The server is a parameter: the replies to a pipeline, one per command and in their order, and the
  reply to each \<open>SCAN\<close> call. A reply is a value or an error: the nil reply, a \<open>WRONGTYPE\<close> reply, or any
  other failure.
\<close>

section \<open>Replies\<close>

datatype RedisErr = RedisNil | RedisWrongType | RedisFailure

datatype RedisTErr =
    RedisClosed | RedisTransport | RedisContext | RedisScanRestarted | RedisNotFound | RedisReadOnly

definition wrapRedisErr :: "RedisErr \<Rightarrow> TargetErr" where
  "wrapRedisErr err = (if err = RedisWrongType then WrongTypeError ''a different type'' else TransportError)"

definition setValue :: "string list \<Rightarrow> Value" where
  "setValue members =
     (if members = [] then zero_Value else zero_Value\<lparr>v_kind := ValueSet, v_members := remdups members\<rparr>)"

section \<open>Construction and the command hook\<close>

record RedisOptions =
  ro_Addrs :: "string list"
  ro_MasterName :: string
  ro_DB :: int
  ro_Username :: string
  ro_Password :: string
  ro_BatchSize :: int
  ro_ScanCount :: int
  ro_DialTimeout :: duration
  ro_ReadTimeout :: duration

definition intSetting :: "(string, string) go_map \<Rightarrow> string \<Rightarrow> int \<Rightarrow> int option" where
  "intSetting cfg key def =
     (let raw = setting cfg key
      in if raw = [] then Some def
         else (case ParseInt raw of None \<Rightarrow> None | Some n \<Rightarrow> if n < 0 then None else Some n))"

text \<open>The options a client is opened with; \<open>None\<close> is a refused configuration.\<close>

definition NewRedis :: "RedisOptions \<Rightarrow> RedisOptions option" where
  "NewRedis opts =
     (if ro_Addrs opts = [] then None
      else
        Some (opts\<lparr>ro_BatchSize := (if ro_BatchSize opts \<le> 0 then 500 else ro_BatchSize opts),
                   ro_ScanCount := (if ro_ScanCount opts \<le> 0 then 1000 else ro_ScanCount opts)\<rparr>))"

definition newRedis :: "(string, string) go_map \<Rightarrow> RedisOptions option" where
  "newRedis cfg =
     (let addrs =
            (if setting cfg ''addrs'' = [] then []
             else filter (\<lambda>a. a \<noteq> []) (map trim_space (Split (setting cfg ''addrs'') '','')))
      in (case (intSetting cfg ''db'' 0, intSetting cfg ''batchSize'' 500, intSetting cfg ''scanCount'' 1000) of
            (Some db, Some batch, Some count) \<Rightarrow>
              NewRedis \<lparr>ro_Addrs = addrs, ro_MasterName = setting cfg ''masterName'', ro_DB = db,
                        ro_Username = setting cfg ''username'', ro_Password = setting cfg ''password'',
                        ro_BatchSize = batch, ro_ScanCount = count, ro_DialTimeout = 0, ro_ReadTimeout = 0\<rparr>
          | _ \<Rightarrow> None))"

text \<open>A command is its arguments; the name that the allowlist is asked about.\<close>

definition commandName :: "(nat \<Rightarrow> nat) \<Rightarrow> string list \<Rightarrow> string" where
  "commandName up args =
     (case args of
        [] \<Rightarrow> []
      | a # rest \<Rightarrow>
          let name = ToUpper up a
          in if name \<in> {''MEMORY'', ''CLUSTER'', ''OBJECT'', ''CLIENT'', ''CONFIG'', ''ACL''} \<and> rest \<noteq> []
             then name @ '' '' @ ToUpper up (hd rest) else name)"

text \<open>The commands the hook lets through to the server: none of a pipeline with a refused command.\<close>

definition hook_check :: "(nat \<Rightarrow> nat) \<Rightarrow> string list \<Rightarrow> RedisTErr option" where
  "hook_check up cmd = (if IsReadOnlyCommand up (commandName up cmd) then None else Some RedisReadOnly)"

fun ProcessPipelineHook :: "(nat \<Rightarrow> nat) \<Rightarrow> string list list \<Rightarrow> string list list \<Rightarrow> RedisTErr + string list list" where
  "ProcessPipelineHook up cmds [] = Inr cmds"
| "ProcessPipelineHook up cmds (c # cs) =
     (case hook_check up c of Some err \<Rightarrow> Inl err | None \<Rightarrow> ProcessPipelineHook up cmds cs)"

section \<open>Reading keys\<close>

record redis_server =
  sv_smembers :: "nat \<Rightarrow> string list \<Rightarrow> (RedisErr + string list) list"
  sv_get :: "nat \<Rightarrow> string list \<Rightarrow> (RedisErr + string) list"

definition redis_reply :: "Shape \<Rightarrow> RedisErr + string list \<Rightarrow> RedisErr + string \<Rightarrow> TargetErr + Value" where
  \<comment> \<open>the replies to \<open>SMEMBERS\<close> and \<open>GET\<close>, of which one is asked for\<close>
  "redis_reply shape smembers get =
     (case shape of
        ShapeSet \<Rightarrow> (case smembers of Inl err \<Rightarrow> Inl (wrapRedisErr err) | Inr members \<Rightarrow> Inr (setValue members))
      | ShapeScalar \<Rightarrow>
          (case get of
             Inl err \<Rightarrow> if err = RedisNil then Inr zero_Value else Inl (wrapRedisErr err)
           | Inr s \<Rightarrow> Inr (zero_Value\<lparr>v_kind := ValueScalar, v_scalar := s\<rparr>))
      | ShapeCounter \<Rightarrow>
          (case get of
             Inl err \<Rightarrow> if err = RedisNil then Inr zero_Value else Inl (wrapRedisErr err)
           | Inr s \<Rightarrow>
               (case ParseInt s of
                  None \<Rightarrow> Inl (WrongTypeError ''non-integer string'')
                | Some n \<Rightarrow> Inr (zero_Value\<lparr>v_kind := ValueCounter, v_counter := word_of_int n\<rparr>))))"

definition redis_Get ::
  "bool \<Rightarrow> Shape \<Rightarrow> RedisErr + string list \<Rightarrow> RedisErr + string \<Rightarrow> RedisTErr + (TargetErr + Value)" where
  "redis_Get isClosed shape smembers get =
     (if isClosed then Inl RedisClosed else Inr (redis_reply shape smembers get))"

text \<open>\<open>Exec\<close> reports the error of the first command that failed.\<close>

fun exec_error :: "(RedisErr + 'a) list \<Rightarrow> RedisErr option" where
  "exec_error [] = None"
| "exec_error (Inl err # rs) = Some err"
| "exec_error (Inr v # rs) = exec_error rs"

definition exec_fails :: "(RedisErr + 'a) list \<Rightarrow> bool" where
  "exec_fails replies \<longleftrightarrow> exec_error replies = Some RedisFailure"

definition set_read :: "RedisErr + string list \<Rightarrow> Read" where
  "set_read reply =
     (case reply of
        Inl err \<Rightarrow>
          if err = RedisNil then \<lparr>rd_Value = setValue [], rd_Err = None\<rparr>
          else \<lparr>rd_Value = zero_Value, rd_Err = Some (wrapRedisErr err)\<rparr>
      | Inr members \<Rightarrow> \<lparr>rd_Value = setValue members, rd_Err = None\<rparr>)"

definition string_read :: "Shape \<Rightarrow> RedisErr + string \<Rightarrow> Read" where
  "string_read shape reply =
     (case reply of
        Inl err \<Rightarrow>
          if err = RedisNil then \<lparr>rd_Value = zero_Value, rd_Err = None\<rparr>
          else \<lparr>rd_Value = zero_Value, rd_Err = Some (wrapRedisErr err)\<rparr>
      | Inr s \<Rightarrow>
          if shape = ShapeCounter then
            (case ParseInt s of
               None \<Rightarrow> \<lparr>rd_Value = zero_Value, rd_Err = Some (WrongTypeError ''non-integer string'')\<rparr>
             | Some n \<Rightarrow>
                 \<lparr>rd_Value = zero_Value\<lparr>v_kind := ValueCounter, v_counter := word_of_int n\<rparr>, rd_Err = None\<rparr>)
          else \<lparr>rd_Value = zero_Value\<lparr>v_kind := ValueScalar, v_scalar := s\<rparr>, rd_Err = None\<rparr>)"

text \<open>The \<open>i\<close>-th chunk.\<close>

definition readChunk :: "redis_server \<Rightarrow> nat \<Rightarrow> Shape \<Rightarrow> string list \<Rightarrow> RedisTErr + Read list" where
  "readChunk sv i shape keys =
     (if shape = ShapeSet then
        if exec_fails (sv_smembers sv i keys) then Inl RedisTransport
        else Inr (map set_read (sv_smembers sv i keys))
      else if exec_fails (sv_get sv i keys) then Inl RedisTransport
      else Inr (map (string_read shape) (sv_get sv i keys)))"

text \<open>\<open>NewRedis\<close> makes the batch size positive.\<close>

function read_chunks :: "redis_server \<Rightarrow> nat \<Rightarrow> nat \<Rightarrow> Shape \<Rightarrow> string list \<Rightarrow> RedisTErr + Read list" where
  "read_chunks sv batch i shape keys =
     (if keys = [] \<or> batch = 0 then Inr []
      else
        (case readChunk sv i shape (take batch keys) of
           Inl err \<Rightarrow> Inl err
         | Inr reads \<Rightarrow>
             (case read_chunks sv batch (i + 1) shape (drop batch keys) of
                Inl err \<Rightarrow> Inl err
              | Inr rest \<Rightarrow> Inr (reads @ rest))))"
  by pat_completeness auto
termination
  by (relation "measure (\<lambda>(sv, batch, i, shape, keys). length keys)") auto

declare read_chunks.simps [simp del]

definition redis_ReadMany ::
  "redis_server \<Rightarrow> bool \<Rightarrow> RedisOptions \<Rightarrow> string list \<Rightarrow> Shape \<Rightarrow> RedisTErr + Read list" where
  "redis_ReadMany sv isClosed opts keys shape =
     (if isClosed then Inl RedisClosed
      else if keys = [] then Inr []
      else read_chunks sv (nat (ro_BatchSize opts)) 0 shape keys)"

definition redis_GetMany ::
  "redis_server \<Rightarrow> bool \<Rightarrow> RedisOptions \<Rightarrow> string list \<Rightarrow> Shape \<Rightarrow> RedisTErr + Value list" where
  "redis_GetMany sv isClosed opts keys shape =
     (case redis_ReadMany sv isClosed opts keys shape of
        Inl err \<Rightarrow> Inl err
      | Inr reads \<Rightarrow> Inr (valuesFromReads reads))"

text \<open>\<open>PTTL\<close> answers -2 for a key that does not exist and -1 for one that does not expire.\<close>

definition redis_TTL :: "bool \<Rightarrow> duration option \<Rightarrow> RedisTErr + duration option" where
  "redis_TTL isClosed pttl =
     (if isClosed then Inl RedisClosed
      else
        (case pttl of
           None \<Rightarrow> Inl RedisTransport
         | Some d \<Rightarrow>
             if d = - 2000000 \<or> d = - 2 then Inl RedisNotFound
             else if d < 0 then Inr None
             else Inr (Some d)))"

section \<open>Scanning\<close>

definition maxScanCalls :: int where
  "maxScanCalls = 1000000"

definition maxDedupKeys :: int where
  "maxDedupKeys = 100000"

definition maxCursorRepeats :: int where
  "maxCursorRepeats = 3"

text \<open>The reply to a \<open>SCAN\<close> call, by the number of the call and its cursor, and whether the context has
  ended before it.\<close>

record scan_env =
  se_ctxErr :: "int \<Rightarrow> bool"
  se_scan :: "int \<Rightarrow> u64 \<Rightarrow> (string list \<times> u64) option"

record redisIterator =
  ri_cursor :: u64
  ri_started :: bool
  ri_current :: "string list"
  ri_err :: "RedisTErr option"
  ri_seen :: "string go_set"
  ri_dedupWindows :: int
  ri_cursors :: "(u64, int) go_map"
  ri_calls :: int

definition newRedisIterator :: redisIterator where
  "newRedisIterator =
     \<lparr>ri_cursor = 0, ri_started = False, ri_current = [], ri_err = None, ri_seen = [], ri_dedupWindows = 0,
      ri_cursors = [], ri_calls = 0\<rparr>"

definition absorb :: "redisIterator \<Rightarrow> string \<Rightarrow> redisIterator" where
  "absorb it key =
     (if key \<in> set (ri_seen it) then it
      else
        let it = (if maxDedupKeys \<le> int (length (ri_seen it))
                  then it\<lparr>ri_seen := [], ri_dedupWindows := ri_dedupWindows it + 1\<rparr> else it)
        in it\<lparr>ri_seen := set_add key (ri_seen it), ri_current := ri_current it @ [key]\<rparr>)"

text \<open>One turn of the loop: the iterator, and \<open>Some\<close> result when the loop ends.\<close>

definition scan_call :: "scan_env \<Rightarrow> redisIterator \<Rightarrow> redisIterator \<times> bool option" where
  "scan_call env it =
     (if ri_err it \<noteq> None then (it, Some False)
      else if se_ctxErr env (ri_calls it) then (it\<lparr>ri_err := Some RedisContext\<rparr>, Some False)
      else if ri_started it \<and> ri_cursor it = 0 then (it, Some False)
      else
        let it = it\<lparr>ri_calls := ri_calls it + 1\<rparr>
        in if maxScanCalls < ri_calls it then (it\<lparr>ri_err := Some RedisScanRestarted\<rparr>, Some False)
           else
             (case se_scan env (ri_calls it) (ri_cursor it) of
                None \<Rightarrow> (it\<lparr>ri_err := Some RedisTransport\<rparr>, Some False)
              | Some (keys, nxt) \<Rightarrow>
                  let n = (case map_get (ri_cursors it) nxt of None \<Rightarrow> 0 | Some k \<Rightarrow> k) + 1;
                      it = (if nxt \<noteq> 0 then it\<lparr>ri_cursors := map_put nxt n (ri_cursors it)\<rparr> else it)
                  in if nxt \<noteq> 0 \<and> maxCursorRepeats < n then (it\<lparr>ri_err := Some RedisScanRestarted\<rparr>, Some False)
                     else
                       let it = foldl absorb (it\<lparr>ri_cursor := nxt, ri_started := True\<rparr>) keys
                       in if ri_current it \<noteq> [] then (it, Some True)
                          else if ri_cursor it = 0 then (it, Some False)
                          else (it, None)))"

lemma absorb_calls [simp]: "ri_calls (absorb it k) = ri_calls it" "ri_cursor (absorb it k) = ri_cursor it"
  "ri_started (absorb it k) = ri_started it" "ri_err (absorb it k) = ri_err it" "ri_cursors (absorb it k) = ri_cursors it"
  by (simp_all add: absorb_def Let_def)

lemma foldl_absorb_calls [simp]:
  "ri_calls (foldl absorb it ks) = ri_calls it" "ri_cursor (foldl absorb it ks) = ri_cursor it"
  "ri_started (foldl absorb it ks) = ri_started it" "ri_err (foldl absorb it ks) = ri_err it"
  "ri_cursors (foldl absorb it ks) = ri_cursors it"
  by (induction ks arbitrary: it) simp_all

lemma scan_call_calls:
  "snd (scan_call env it) \<noteq> Some False \<Longrightarrow>
    ri_calls (fst (scan_call env it)) = ri_calls it + 1 \<and> ri_calls it < maxScanCalls"
  by (auto simp: scan_call_def Let_def split: if_splits option.splits prod.splits)

definition calls_left :: "scan_env \<times> redisIterator \<Rightarrow> nat" where
  "calls_left p = nat (maxScanCalls - ri_calls (snd p))"

lemma scan_call_measure:
  "(it', y) = scan_call env it \<Longrightarrow> y = None \<Longrightarrow> ((env, it'), (env, it)) \<in> measure calls_left"
  using scan_call_calls [of env it] by (cases "scan_call env it") (auto simp: calls_left_def)

function next_loop :: "scan_env \<Rightarrow> redisIterator \<Rightarrow> redisIterator \<times> bool" where
  "next_loop env it =
     (case scan_call env it of (it, r) \<Rightarrow> if r = None then next_loop env it else (it, r = Some True))"
  by pat_completeness auto
termination
  by (relation "measure calls_left") (auto intro: scan_call_measure simp del: in_measure)

declare next_loop.simps [simp del]

definition redis_Next :: "scan_env \<Rightarrow> redisIterator \<Rightarrow> redisIterator \<times> bool" where
  "redis_Next env it = next_loop env (it\<lparr>ri_current := []\<rparr>)"

definition redis_iter_Close :: "redisIterator \<Rightarrow> redisIterator" where
  "redis_iter_Close it = it\<lparr>ri_seen := [], ri_cursors := []\<rparr>"

text \<open>The scan of a cluster: one node after the other; \<open>node i\<close> is the environment of the \<open>i\<close>-th.\<close>

record clusterIterator =
  ci_iters :: "redisIterator list"
  ci_idx :: nat
  ci_err :: "RedisTErr option"

definition newClusterIterator :: "nat \<Rightarrow> RedisTErr option \<Rightarrow> clusterIterator" where
  "newClusterIterator masters err = \<lparr>ci_iters = replicate masters newRedisIterator, ci_idx = 0, ci_err = err\<rparr>"

function cluster_Next :: "(nat \<Rightarrow> scan_env) \<Rightarrow> clusterIterator \<Rightarrow> clusterIterator \<times> bool" where
  "cluster_Next node it =
     (if ci_err it \<noteq> None \<or> length (ci_iters it) \<le> ci_idx it then (it, False)
      else
        (case redis_Next (node (ci_idx it)) (ci_iters it ! ci_idx it) of
           (inner, got) \<Rightarrow>
             let it = it\<lparr>ci_iters := (ci_iters it)[ci_idx it := inner]\<rparr>
             in if got then (it, True)
                else if ri_err inner \<noteq> None then (it\<lparr>ci_err := ri_err inner\<rparr>, False)
                else cluster_Next node (it\<lparr>ci_idx := ci_idx it + 1\<rparr>)))"
  by pat_completeness auto
termination
  by (relation "measure (\<lambda>(node, it). length (ci_iters it) - ci_idx it)") auto

declare cluster_Next.simps [simp del]

definition cluster_Keys :: "clusterIterator \<Rightarrow> string list" where
  "cluster_Keys it = (if ci_idx it < length (ci_iters it) then ri_current (ci_iters it ! ci_idx it) else [])"

section \<open>Diagnostics\<close>

definition parseUint0 :: "string \<Rightarrow> u64" where
  "parseUint0 s = (case ParseUint s of None \<Rightarrow> 0 | Some n \<Rightarrow> n)"

definition info_field :: "string \<Rightarrow> string \<Rightarrow> Health \<Rightarrow> Health" where
  "info_field field val h =
     (if field = ''evicted_keys'' then h\<lparr>h_EvictedKeys := parseUint0 val\<rparr>
      else if field = ''expired_keys'' then h\<lparr>h_ExpiredKeys := parseUint0 val\<rparr>
      else if field = ''used_memory'' then h\<lparr>h_UsedMemoryBytes := parseUint0 val\<rparr>
      else if field = ''maxmemory'' then h\<lparr>h_MaxMemoryBytes := parseUint0 val\<rparr>
      else if field = ''role'' then h\<lparr>h_Role := val\<rparr>
      else if field = ''redis_version'' then h\<lparr>h_Version := val\<rparr>
      else if field = ''master_last_io_seconds_ago'' then
        (case ParseInt val of
           None \<Rightarrow> h
         | Some n \<Rightarrow> if 0 \<le> n then h\<lparr>h_ReplicationLagMs := word_of_int n * 1000\<rparr> else h)
      else h)"

definition info_line :: "Health \<Rightarrow> string \<Rightarrow> Health" where
  "info_line h line =
     (let line = trim_space line
      in if line = [] \<or> hd line = CHR ''#'' then h
         else if CHR '':'' \<notin> set line then h
         else
           info_field (trim_space (takeWhile (\<lambda>c. c \<noteq> CHR '':'') line))
             (trim_space (tl (dropWhile (\<lambda>c. c \<noteq> CHR '':'') line))) h)"

definition parseInfo :: "string \<Rightarrow> Health \<Rightarrow> Health" where
  "parseInfo raw h = foldl info_line h (Split raw [CHR 0x0A])"

text \<open>The replies to \<open>INFO\<close> and \<open>DBSIZE\<close>; \<open>None\<close> is an error.\<close>

definition redis_Health :: "bool \<Rightarrow> string option \<Rightarrow> i64 option \<Rightarrow> RedisTErr + Health" where
  "redis_Health isClosed info dbsize =
     (if isClosed then Inl RedisClosed
      else
        (case info of
           None \<Rightarrow> Inl RedisTransport
         | Some raw \<Rightarrow>
             let h = parseInfo raw (zero_Health\<lparr>h_Reachable := True\<rparr>)
             in Inr (case dbsize of None \<Rightarrow> h | Some n \<Rightarrow> h\<lparr>h_KeyspaceSize := n\<rparr>)))"

section \<open>A scan ends\<close>

lemma next_loop_calls:
  "next_loop env it = (it', b) \<Longrightarrow> ri_calls it \<le> ri_calls it' \<and> (b \<longrightarrow> ri_calls it < ri_calls it' \<and> ri_calls it' \<le> maxScanCalls)"
proof (induction env it rule: next_loop.induct)
  case (1 env it)
  obtain it1 r where c: "scan_call env it = (it1, r)" by (cases "scan_call env it")
  have mono: "ri_calls it \<le> ri_calls it1"
    using c by (auto simp: scan_call_def Let_def split: if_splits option.splits prod.splits)
  show ?case
  proof (cases r)
    case None
    then have "next_loop env it1 = (it', b)" using 1(2) c by (simp add: next_loop.simps [of env it])
    then show ?thesis using 1(1) [OF c [symmetric] None] mono by auto
  next
    case (Some b')
    then have "it' = it1" "b = b'" using 1(2) c by (auto simp: next_loop.simps [of env it])
    then show ?thesis using mono scan_call_calls [of env it] c Some by (cases b') auto
  qed
qed

interpretation redis: batch_iterator redis_Next "\<lambda>it. True" "\<lambda>it. nat (maxScanCalls - ri_calls it)"
proof
  fix it e
  show True ..
  assume "snd (redis_Next e it)"
  then obtain it' where "next_loop e (it\<lparr>ri_current := []\<rparr>) = (it', True)"
    by (cases "redis_Next e it") (simp add: redis_Next_def)
  from next_loop_calls [OF this] this
  show "nat (maxScanCalls - ri_calls (fst (redis_Next e it))) < nat (maxScanCalls - ri_calls it)"
    by (simp add: redis_Next_def)
qed

text \<open>Whatever the server answers, a scan ends within a million calls of \<open>Next\<close>.\<close>

theorem redis_scan_ends:
  "\<exists>n \<le> 1000000. \<not> snd (redis_Next (env n) (iterate redis_Next env n newRedisIterator))"
  using redis.ends [of newRedisIterator env] by (simp add: newRedisIterator_def maxScanCalls_def)

section \<open>A scan yields what the server sent\<close>

text \<open>The keys of the reply that one turn of the loop receives, of those that one \<open>Next\<close> receives, and of
  those that the first \<open>n\<close> receive.\<close>

definition reply_keys :: "scan_env \<Rightarrow> redisIterator \<Rightarrow> string list" where
  "reply_keys env it =
     (if ri_err it \<noteq> None \<or> se_ctxErr env (ri_calls it) \<or> ri_started it \<and> ri_cursor it = 0
        \<or> maxScanCalls < ri_calls it + 1 then []
      else (case se_scan env (ri_calls it + 1) (ri_cursor it) of None \<Rightarrow> [] | Some (keys, nxt) \<Rightarrow> keys))"

function served :: "scan_env \<Rightarrow> redisIterator \<Rightarrow> string list" where
  "served env it =
     reply_keys env it @ (case scan_call env it of (it, r) \<Rightarrow> if r = None then served env it else [])"
  by pat_completeness auto
termination
  by (relation "measure calls_left") (auto intro: scan_call_measure simp del: in_measure)

declare served.simps [simp del]

primrec served_in :: "scan_env \<Rightarrow> nat \<Rightarrow> redisIterator \<Rightarrow> string list" where
  "served_in env 0 it = []"
| "served_in env (Suc n) it =
     served_in env n it @ served env ((iterate redis_Next (\<lambda>_. env) n it)\<lparr>ri_current := []\<rparr>)"

text \<open>What absorbing keys adds to the batch, given the keys \<open>Y\<close> that were yielded before: all of them that
  were not yielded yet, and nothing twice as long as the filter was not reset.\<close>

definition batch_ok :: "string set \<Rightarrow> redisIterator \<Rightarrow> redisIterator \<Rightarrow> string set \<Rightarrow> bool" where
  "batch_ok Y it it' K \<longleftrightarrow>
     set (ri_current it') \<union> Y = set (ri_current it) \<union> Y \<union> K
     \<and> set (ri_seen it') \<subseteq> Y \<union> set (ri_current it')
     \<and> ri_dedupWindows it \<le> ri_dedupWindows it'
     \<and> (ri_dedupWindows it' = ri_dedupWindows it \<longrightarrow>
          (\<exists>new. ri_current it' = ri_current it @ new \<and> distinct new \<and> set new \<inter> set (ri_seen it) = {}
            \<and> set (ri_seen it') = set (ri_seen it) \<union> set new))"

lemma absorb_batch: "set (ri_seen it) \<subseteq> Y \<union> set (ri_current it) \<Longrightarrow> batch_ok Y it (absorb it k) {k}"
  by (auto simp: batch_ok_def absorb_def Let_def)

lemma batch_trans:
  assumes ab: "batch_ok Y a b K" and bc: "batch_ok Y b c L"
  shows "batch_ok Y a c (K \<union> L)"
proof -
  have "\<exists>new. ri_current c = ri_current a @ new \<and> distinct new \<and> set new \<inter> set (ri_seen a) = {}
      \<and> set (ri_seen c) = set (ri_seen a) \<union> set new" if same: "ri_dedupWindows c = ri_dedupWindows a"
  proof -
    have w: "ri_dedupWindows b = ri_dedupWindows a" "ri_dedupWindows c = ri_dedupWindows b"
      using ab bc same unfolding batch_ok_def by linarith+
    obtain n1 where n1: "ri_current b = ri_current a @ n1" "distinct n1" "set n1 \<inter> set (ri_seen a) = {}"
      "set (ri_seen b) = set (ri_seen a) \<union> set n1" using ab w(1) unfolding batch_ok_def by blast
    obtain n2 where n2: "ri_current c = ri_current b @ n2" "distinct n2" "set n2 \<inter> set (ri_seen b) = {}"
      "set (ri_seen c) = set (ri_seen b) \<union> set n2" using bc w(2) unfolding batch_ok_def by blast
    show ?thesis using n1 n2 by (intro exI [of _ "n1 @ n2"]) auto
  qed
  moreover have "ri_dedupWindows a \<le> ri_dedupWindows c" using ab bc unfolding batch_ok_def by linarith
  moreover have "set (ri_current c) \<union> Y = set (ri_current a) \<union> Y \<union> (K \<union> L)"
    "set (ri_seen c) \<subseteq> Y \<union> set (ri_current c)" using ab bc unfolding batch_ok_def by blast+
  ultimately show ?thesis by (simp add: batch_ok_def)
qed

lemma absorb_all_batch:
  "set (ri_seen it) \<subseteq> Y \<union> set (ri_current it) \<Longrightarrow> batch_ok Y it (foldl absorb it ks) (set ks)"
proof (induction ks arbitrary: it)
  case (Cons k ks)
  have k: "batch_ok Y it (absorb it k) {k}" by (rule absorb_batch [OF Cons.prems])
  then have "batch_ok Y (absorb it k) (foldl absorb (absorb it k) ks) (set ks)"
    by (intro Cons.IH) (simp add: batch_ok_def)
  from batch_trans [OF k this] show ?case by simp
qed (simp add: batch_ok_def)

lemma batch_refl: "set (ri_seen it) \<subseteq> Y \<union> set (ri_current it) \<Longrightarrow> batch_ok Y it it {}"
  by (simp add: batch_ok_def)

lemma scan_call_batch:
  assumes "scan_call env it = (it', r)" and "ri_err it' = None" and "ri_current it = []" and "set (ri_seen it) \<subseteq> Y"
  shows "batch_ok Y it it' (set (reply_keys env it)) \<and> (r \<noteq> Some True \<longrightarrow> ri_current it' = [])"
proof (cases "ri_started it \<and> ri_cursor it = 0")
  case True
  then have "it' = it" using assms(1,2) by (auto simp: scan_call_def split: if_splits)
  then show ?thesis using True assms(3,4) batch_refl [of it Y] by (auto simp: reply_keys_def)
next
  case False
  have e: "ri_err it = None" "\<not> se_ctxErr env (ri_calls it)" "\<not> maxScanCalls < ri_calls it + 1"
    using assms(1,2) False by (auto simp: scan_call_def Let_def split: if_splits)
  then obtain keys nxt where keys: "se_scan env (ri_calls it + 1) (ri_cursor it) = Some (keys, nxt)"
    using assms(1,2) False by (auto simp: scan_call_def Let_def split: option.splits)
  obtain it1 where it1: "it' = foldl absorb it1 keys" "ri_current it1 = ri_current it" "ri_seen it1 = ri_seen it"
    "ri_dedupWindows it1 = ri_dedupWindows it" "r \<noteq> Some True \<longrightarrow> ri_current it' = []"
    using assms(1,2) False e keys by (auto simp: scan_call_def Let_def split: if_splits)
  have "batch_ok Y it1 it' (set keys)" unfolding it1(1) using assms(3,4) it1(2,3) by (intro absorb_all_batch) simp
  moreover have "reply_keys env it = keys" using False e keys by (auto simp: reply_keys_def)
  ultimately show ?thesis using it1(2-5) by (simp add: batch_ok_def)
qed

lemma next_loop_batch:
  "next_loop env it = (it', b) \<Longrightarrow> ri_err it' = None \<Longrightarrow> ri_current it = [] \<Longrightarrow> set (ri_seen it) \<subseteq> Y \<Longrightarrow>
    batch_ok Y it it' (set (served env it)) \<and> (\<not> b \<longrightarrow> ri_current it' = [])"
proof (induction env it rule: next_loop.induct)
  case (1 env it)
  obtain it1 r where c: "scan_call env it = (it1, r)" by (cases "scan_call env it")
  show ?case
  proof (cases r)
    case None
    then have r: "next_loop env it1 = (it', b)" using 1(2) c by (simp add: next_loop.simps [of env it])
    have "ri_err it1 = None" using c None by (auto simp: scan_call_def Let_def split: if_splits option.splits prod.splits)
    from scan_call_batch [OF c this 1(4,5)] None
    have b1: "batch_ok Y it it1 (set (reply_keys env it))" and cur: "ri_current it1 = []" by auto
    then have "set (ri_seen it1) \<subseteq> Y" by (simp add: batch_ok_def)
    from 1(1) [OF c [symmetric] None r 1(3) cur this] batch_trans [OF b1]
    show ?thesis using c None by (auto simp: served.simps [of env it])
  next
    case (Some b')
    then have "it' = it1" "b = b'" using 1(2) c by (auto simp: next_loop.simps [of env it])
    then show ?thesis
      using scan_call_batch [OF c _ 1(4,5)] 1(3) c Some by (simp add: served.simps [of env it])
  qed
qed

lemma next_loop_err: "ri_err it \<noteq> None \<Longrightarrow> next_loop env it = (it, False)"
  by (subst next_loop.simps) (simp only: scan_call_def not_False_eq_True if_True prod.case, simp)

definition scanned_ok :: "scan_env \<Rightarrow> nat \<Rightarrow> redisIterator \<Rightarrow> bool" where
  "scanned_ok env n it0 \<longleftrightarrow>
     (let it = iterate redis_Next (\<lambda>_. env) n it0; ys = yielded redis_Next ri_current (\<lambda>_. env) n it0
      in set ys = set (served_in env n it0) \<and> set (ri_seen it) \<subseteq> set ys \<and> 0 \<le> ri_dedupWindows it
        \<and> (ri_dedupWindows it = 0 \<longrightarrow> distinct ys \<and> set (ri_seen it) = set ys))"

lemma scanned_ok_step:
  assumes IH: "ri_err (iterate redis_Next (\<lambda>_. env) n it0) = None \<Longrightarrow> scanned_ok env n it0"
    and err: "ri_err (iterate redis_Next (\<lambda>_. env) (Suc n) it0) = None"
  shows "scanned_ok env (Suc n) it0"
proof -
  define it where "it = iterate redis_Next (\<lambda>_. env) n it0"
  define ys where "ys = yielded redis_Next ri_current (\<lambda>_. env) n it0"
  obtain it' b where nx: "next_loop env (it\<lparr>ri_current := []\<rparr>) = (it', b)" by fastforce
  have it': "iterate redis_Next (\<lambda>_. env) (Suc n) it0 = it'" and b: "snd (redis_Next env it) = b"
    using nx by (simp_all add: it_def redis_Next_def)
  have e': "ri_err it' = None" using err it' by simp
  have "ri_err it = None"
    using next_loop_err [of "it\<lparr>ri_current := []\<rparr>" env] nx e' by (metis redisIterator.simps(4) redisIterator.select_convs(4) redisIterator.surjective redisIterator.update_convs(3) fst_conv)
  then have ih: "set ys = set (served_in env n it0)" "set (ri_seen it) \<subseteq> set ys" "0 \<le> ri_dedupWindows it"
    "ri_dedupWindows it = 0 \<longrightarrow> distinct ys \<and> set (ri_seen it) = set ys"
    using IH by (auto simp: scanned_ok_def it_def ys_def Let_def)
  have bt: "batch_ok (set ys) (it\<lparr>ri_current := []\<rparr>) it' (set (served env (it\<lparr>ri_current := []\<rparr>)))"
    and nb: "\<not> b \<longrightarrow> ri_current it' = []"
    using next_loop_batch [OF nx e', of "set ys"] ih(2) by auto
  have ys': "yielded redis_Next ri_current (\<lambda>_. env) (Suc n) it0 = ys @ ri_current it'"
    using nb b it' by (auto simp: ys_def it_def)
  show ?thesis
    using bt ih unfolding scanned_ok_def it' ys' Let_def
    by (auto simp: batch_ok_def it_def [symmetric])
qed

text \<open>C25: When a scan has ended without an error, the keys it yielded are exactly those that the server sent,
  and no key was yielded twice unless the duplicate filter was reset.\<close>

theorem redis_scan_exact:
  assumes "ri_err (iterate redis_Next (\<lambda>_. env) n newRedisIterator) = None"
  shows "set (yielded redis_Next ri_current (\<lambda>_. env) n newRedisIterator) = set (served_in env n newRedisIterator)
    \<and> (ri_dedupWindows (iterate redis_Next (\<lambda>_. env) n newRedisIterator) = 0 \<longrightarrow>
         distinct (yielded redis_Next ri_current (\<lambda>_. env) n newRedisIterator))"
proof -
  have "scanned_ok env n newRedisIterator" using assms
  proof (induction n)
    case 0
    then show ?case by (simp add: scanned_ok_def newRedisIterator_def)
  next
    case (Suc n)
    show ?case by (rule scanned_ok_step [OF Suc.IH Suc.prems])
  qed
  then show ?thesis by (auto simp: scanned_ok_def Let_def)
qed

text \<open>The scan of a cluster ends as well.\<close>

definition calls_of :: "redisIterator \<Rightarrow> nat" where
  "calls_of it = nat (maxScanCalls - ri_calls it)"

lemma redis_Next_calls: "redis_Next env it = (it', b) \<Longrightarrow> calls_of it' \<le> calls_of it \<and> (b \<longrightarrow> calls_of it' < calls_of it)"
  using next_loop_calls [of env "it\<lparr>ri_current := []\<rparr>" it' b] by (auto simp: redis_Next_def calls_of_def)

definition cluster_budget :: "clusterIterator \<Rightarrow> nat" where
  "cluster_budget it = sum_list (map calls_of (drop (ci_idx it) (ci_iters it)))"

lemma cluster_Next_budget:
  "cluster_Next node it = (it', True) \<Longrightarrow> cluster_budget it' < cluster_budget it"
proof (induction node it rule: cluster_Next.induct)
  case (1 node it)
  let ?i = "ci_idx it" and ?its = "ci_iters it"
  have i: "\<not> (ci_err it \<noteq> None \<or> length ?its \<le> ?i)"
    using 1(2) by (subst (asm) cluster_Next.simps) (auto split: if_splits)
  obtain inner got where nx: "redis_Next (node ?i) (?its ! ?i) = (inner, got)" by fastforce
  define it1 where "it1 = it\<lparr>ci_iters := ?its[?i := inner]\<rparr>"
  have split: "drop ?i ?its = ?its ! ?i # drop (Suc ?i) ?its" "drop ?i (?its[?i := inner]) = inner # drop (Suc ?i) ?its"
    using i by (auto simp: Cons_nth_drop_Suc [symmetric] drop_update_swap)
  show ?case
  proof (cases got)
    case True
    then have "it' = it1" using 1(2) i nx by (simp add: cluster_Next.simps [of node it] it1_def)
    then show ?thesis using redis_Next_calls [OF nx] True by (simp add: cluster_budget_def split it1_def)
  next
    case False
    have e: "ri_err inner = None" using 1(2) i nx False by (auto simp: cluster_Next.simps [of node it] Let_def split: if_splits)
    then have "cluster_Next node (it1\<lparr>ci_idx := ci_idx it1 + 1\<rparr>) = (it', True)"
      using 1(2) i nx False by (simp add: cluster_Next.simps [of node it] it1_def)
    from 1(1) [OF i nx [symmetric] it1_def False _ this] e
    have "cluster_budget it' < cluster_budget (it1\<lparr>ci_idx := ci_idx it1 + 1\<rparr>)" by simp
    then show ?thesis by (simp add: cluster_budget_def split it1_def)
  qed
qed

interpretation cluster: batch_iterator cluster_Next "\<lambda>it. True" cluster_budget
  using cluster_Next_budget by unfold_locales (metis prod.collapse)+

lemma cluster_scan_ends:
  "\<exists>n \<le> masters * 1000000. \<not> snd (cluster_Next (node n) (iterate cluster_Next node n (newClusterIterator masters err)))"
  using cluster.ends [of "newClusterIterator masters err" node]
  by (simp add: newClusterIterator_def cluster_budget_def calls_of_def newRedisIterator_def maxScanCalls_def sum_list_replicate)

section \<open>A batch is read like its keys\<close>

lemma exec_error_in: "exec_error rs = Some err \<Longrightarrow> Inl err \<in> set rs"
  by (induction rs rule: exec_error.induct) auto

lemma set_read_Get: "reply \<noteq> Inl RedisNil \<Longrightarrow> set_read reply = read_outcome (redis_reply ShapeSet reply g)"
  by (auto simp: set_read_def redis_reply_def read_outcome_def split: sum.split)

lemma string_read_Get:
  "shape \<noteq> ShapeSet \<Longrightarrow> string_read shape reply = read_outcome (redis_reply shape sm reply)"
  by (cases shape) (auto simp: string_read_def redis_reply_def read_outcome_def split: sum.split option.split)

text \<open>C26: As long as no command fails, a batch read of any size and in any split into pipelines returns, in the
  order of the keys, what a single read of each key returns: a missing key is absent and a key of the
  wrong type is marked, and neither disturbs the others.\<close>

theorem redis_ReadMany_pointwise:
  assumes "0 < ro_BatchSize opts"
    and "\<And>i ks. sv_smembers sv i ks = map sm ks" and "\<And>i ks. sv_get sv i ks = map g ks"
    and "\<And>k. sm k \<noteq> Inl RedisFailure" and "\<And>k. sm k \<noteq> Inl RedisNil" and "\<And>k. g k \<noteq> Inl RedisFailure"
  shows "redis_ReadMany sv False opts keys shape = Inr (map (\<lambda>k. read_outcome (redis_reply shape (sm k) (g k))) keys)"
proof -
  have chunk: "readChunk sv i shape ks = Inr (map (\<lambda>k. read_outcome (redis_reply shape (sm k) (g k))) ks)" for i ks
  proof (cases "shape = ShapeSet")
    case True
    have "\<not> exec_fails (map sm ks)" using exec_error_in [of "map sm ks" RedisFailure] assms(4) by (force simp: exec_fails_def)
    then show ?thesis using True assms(5) by (simp add: readChunk_def assms(2) set_read_Get)
  next
    case False
    have "\<not> exec_fails (map g ks)" using exec_error_in [of "map g ks" RedisFailure] assms(6) by (force simp: exec_fails_def)
    then show ?thesis using False by (simp add: readChunk_def assms(3) string_read_Get)
  qed
  have "read_chunks sv (nat (ro_BatchSize opts)) i shape keys
      = Inr (map (\<lambda>k. read_outcome (redis_reply shape (sm k) (g k))) keys)" for i
  proof (induction "length keys" arbitrary: keys i rule: less_induct)
    case less
    show ?case
    proof (cases "keys = []")
      case False
      then have "length (drop (nat (ro_BatchSize opts)) keys) < length keys" using assms(1) by simp
      from less [OF this, of "i + 1"] show ?thesis
        using False assms(1) by (subst read_chunks.simps) (simp add: chunk flip: map_append)
    qed (simp add: read_chunks.simps)
  qed
  then show ?thesis by (simp add: redis_ReadMany_def)
qed

definition partial_server :: redis_server where
  "partial_server =
     \<lparr>sv_smembers = \<lambda>i ks. map (\<lambda>k. Inl RedisFailure) ks,
      sv_get = \<lambda>i ks. map (\<lambda>k. if k = ''a'' then Inl RedisNil else Inl RedisFailure) ks\<rparr>"

text \<open>A batch whose first unanswered key is merely missing hides a later failure: it is returned, with the
  failure as the outcome of its key, and the variant that drops outcomes reports the key as absent. In
  the other order the same replies discard the batch.\<close>

theorem redis_partial_batch:
  "redis_ReadMany partial_server False (opts\<lparr>ro_BatchSize := 500\<rparr>) [''a'', ''b''] ShapeScalar
     = Inr [\<lparr>rd_Value = zero_Value, rd_Err = None\<rparr>, \<lparr>rd_Value = zero_Value, rd_Err = Some TransportError\<rparr>]
   \<and> redis_GetMany partial_server False (opts\<lparr>ro_BatchSize := 500\<rparr>) [''a'', ''b''] ShapeScalar = Inr [zero_Value, zero_Value]
   \<and> redis_ReadMany partial_server False (opts\<lparr>ro_BatchSize := 500\<rparr>) [''b'', ''a''] ShapeScalar = Inl RedisTransport"
  by (simp add: redis_GetMany_def redis_ReadMany_def read_chunks.simps readChunk_def partial_server_def exec_fails_def
      string_read_def wrapRedisErr_def valuesFromReads_def)

section \<open>Only reads are sent\<close>

lemma hook_pipeline:
  "ProcessPipelineHook up all cmds =
     (if list_all (\<lambda>c. IsReadOnlyCommand up (commandName up c)) cmds then Inr all else Inl RedisReadOnly)"
  by (induction cmds) (simp_all add: hook_check_def)

definition write_commands :: "string list" where
  "write_commands =
     [''SET'', ''DEL'', ''UNLINK'', ''EXPIRE'', ''PEXPIREAT'', ''PERSIST'', ''SADD'', ''SREM'', ''SPOP'', ''INCR'', ''INCRBY'',
      ''DECR'', ''APPEND'', ''GETSET'', ''GETDEL'', ''GETEX'', ''HSET'', ''LPUSH'', ''RENAME'', ''COPY'', ''RESTORE'', ''MIGRATE'',
      ''FLUSHDB'', ''FLUSHALL'', ''SWAPDB'', ''EVAL'', ''EVALSHA'', ''SCRIPT'', ''DEBUG'', ''SHUTDOWN'', ''KEYS'']"

text \<open>A name as the client spells it: no space, no lower case, nothing outside ASCII.\<close>

definition plain_name :: "string \<Rightarrow> bool" where
  "plain_name w \<longleftrightarrow> w \<noteq> [] \<and> hd w \<notin> hd ` set space_seqs \<and> last w \<notin> hd ` set (map rev space_seqs)
     \<and> list_all (\<lambda>c. of_char c < (128 :: nat)) w \<and> map upper_ascii w = w"

lemma plain_name_allowed:
  "plain_name w \<Longrightarrow> IsReadOnlyCommand up w \<longleftrightarrow>
     w \<in> set connectionCommands \<or> takeWhile (\<lambda>c. c \<noteq> CHR '' '') w \<in> set readOnlyCommands"
  by (simp add: IsReadOnlyCommand_def plain_name_def trim_space_plain ToUpper_def)


section \<open>Witnesses\<close>

text \<open>A server that answers the first call with a key and a cursor, and the second with the same key, another
  one and the end.\<close>

definition sample_scan :: scan_env where
  "sample_scan =
     \<lparr>se_ctxErr = \<lambda>n. False,
      se_scan = \<lambda>n c. if c = 0 then Some ([''a''], 7) else Some ([''a'', ''b''], 0)\<rparr>"

theorem redis_scan_exact_witness:
  "set (yielded redis_Next ri_current (\<lambda>_. sample_scan) 3 newRedisIterator) = {''a'', ''b''}
    \<and> distinct (yielded redis_Next ri_current (\<lambda>_. sample_scan) 3 newRedisIterator)"
proof -
  have "ri_err (iterate redis_Next (\<lambda>_. sample_scan) 3 newRedisIterator) = None"
    "ri_dedupWindows (iterate redis_Next (\<lambda>_. sample_scan) 3 newRedisIterator) = 0"
    "set (served_in sample_scan 3 newRedisIterator) = {''a'', ''b''}" by code_simp+
  then show ?thesis using redis_scan_exact [of sample_scan 3] by simp
qed

definition sample_options :: RedisOptions where
  "sample_options =
     \<lparr>ro_Addrs = [''h:1''], ro_MasterName = [], ro_DB = 0, ro_Username = [], ro_Password = [], ro_BatchSize = 2,
      ro_ScanCount = 10, ro_DialTimeout = 0, ro_ReadTimeout = 0\<rparr>"

definition sample_redis :: redis_server where
  "sample_redis =
     \<lparr>sv_smembers = \<lambda>i ks. map (\<lambda>k. Inl RedisWrongType) ks,
      sv_get = \<lambda>i ks. map (\<lambda>k. if k = ''x'' then Inl RedisNil else Inr k) ks\<rparr>"

theorem redis_ReadMany_pointwise_witness:
  "redis_ReadMany sample_redis False sample_options [''1'', ''x'', ''y''] ShapeCounter =
     Inr [\<lparr>rd_Value = zero_Value\<lparr>v_kind := ValueCounter, v_counter := 1\<rparr>, rd_Err = None\<rparr>,
          \<lparr>rd_Value = zero_Value, rd_Err = None\<rparr>,
          \<lparr>rd_Value = zero_Value, rd_Err = Some (WrongTypeError ''non-integer string'')\<rparr>]"
proof -
  have p: "ParseInt ''1'' = Some 1" "ParseInt ''y'' = None" by code_simp+
  show ?thesis
    using redis_ReadMany_pointwise [of sample_options sample_redis "\<lambda>k. Inl RedisWrongType"
        "\<lambda>k. if k = ''x'' then Inl RedisNil else Inr k" "[''1'', ''x'', ''y'']" ShapeCounter]
    by (simp add: sample_options_def sample_redis_def redis_reply_def read_outcome_def p)
qed

end
