(* ===== verification/Config.thy ===== *)
theory Config
  imports Pipeline Msgpack Sweeper RedisTarget
begin

text \<open>
  \<open>pkg/check/config.go\<close>: the specification of a check, its defaults, its validation, and its
  translation into the configuration of the components, together with the construction of a check
  in \<open>pkg/check/check.go\<close>.

  The YAML decoder, float parsing and the renderings of durations and quoted strings are parameters.
  A field error is the path of the field and a warning the condition it reports; the prose of both is
  left out. A pointer of the specification is an option.
\<close>

section \<open>Decimals\<close>

text \<open>A \<open>float64\<close> of the specification: a finite value is exact here, and the two special values that
  \<open>strconv.ParseFloat\<close> also accepts are kept apart, since comparisons with them decide what passes.\<close>

datatype Decimal = Dec rat | DecNaN | DecInf | DecNegInf

fun dec_less :: "Decimal \<Rightarrow> rat \<Rightarrow> bool" where
  "dec_less (Dec q) r = (q < r)"
| "dec_less DecNaN r = False"
| "dec_less DecInf r = False"
| "dec_less DecNegInf r = True"

fun dec_le :: "Decimal \<Rightarrow> rat \<Rightarrow> bool" where
  "dec_le (Dec q) r = (q \<le> r)"
| "dec_le DecNaN r = False"
| "dec_le DecInf r = False"
| "dec_le DecNegInf r = True"

section \<open>The specification\<close>

record SecretRef =
  sr_Name :: string
  sr_Key :: string

record ZMQSpec =
  zs_Endpoints :: "string list"
  zs_Topics :: "string list"
  zs_RecvHWM :: int
  zs_ConnectTimeout :: duration
  zs_ReconnectIntervalMax :: duration
  zs_IdleTimeout :: duration
  zs_Multipart :: string

record NATSSpec =
  ns_URL :: string
  ns_Subjects :: "string list"
  ns_QueueGroup :: string
  ns_CredentialsSecretRef :: "SecretRef option"

record FileSpec =
  fs_Path :: string
  fs_Speed :: string
  fs_Loop :: bool

record SourceSpec =
  so_Type :: string
  so_ZMQ :: "ZMQSpec option"
  so_NATS :: "NATSSpec option"
  so_File :: "FileSpec option"
  so_IngestBufferSize :: int

record CodecSpec =
  co_Type :: string
  co_MaxPayloadBytes :: int
  co_RetainRaw :: bool
  co_FieldMapping :: "(string, string) go_map"
  co_OpMapping :: "(string, string) go_map"

record OwnershipSpec =
  ow_Partitioned :: bool
  ow_KeyPattern :: string

record ProjectionSpec =
  pr_Type :: string
  pr_KeyTemplate :: string
  pr_MemberTemplate :: string
  pr_MaxMembersPerKey :: int
  pr_IncrOnly :: bool
  pr_Ownership :: "OwnershipSpec option"
  pr_Extra :: "(string, string) go_map"

record TLSSpec =
  tl_Enabled :: bool
  tl_InsecureSkipVerify :: bool
  tl_CASecretRef :: "SecretRef option"

record RedisSpec =
  rs_Mode :: string
  rs_Addr :: string
  rs_Addrs :: "string list"
  rs_MasterName :: string
  rs_DB :: int
  rs_Username :: string
  rs_Password :: string
  rs_PasswordSecretRef :: "SecretRef option"
  rs_TLS :: "TLSSpec option"
  rs_KeyPattern :: string
  rs_ReadBatchSize :: int
  rs_ScanCount :: int
  rs_DialTimeout :: duration
  rs_ReadTimeout :: duration
  rs_PoolSize :: int

record TargetSpec =
  ta_Type :: string
  ta_Redis :: "RedisSpec option"
  ta_Settings :: "(string, string) go_map"

record SettlementWindowSpec =
  sw_Mode :: string
  sw_Static :: duration
  sw_Min :: duration
  sw_Max :: duration
  sw_SafetyFactor :: Decimal

record PolicySpec =
  pl_SettlementWindow :: SettlementWindowSpec
  pl_SweepInterval :: duration
  pl_ExtraScanInterval :: duration
  pl_Bootstrap :: string
  pl_ExpiryPolicy :: string
  pl_AssumedTTL :: duration
  pl_TTLTolerance :: duration
  pl_RequirePrimary :: bool
  pl_ReorderWindow :: duration
  pl_MaxTrackedKeys :: int
  pl_RingSize :: int
  pl_MaxConfirmQueue :: int
  pl_MaxFindings :: int
  pl_MaxExtrasTracked :: int
  pl_MaxPublishers :: int
  pl_OracleShards :: int
  pl_NeverSettledThreshold :: int
  pl_Paused :: bool

record AlertSpec =
  al_DivergentKeysThreshold :: int
  al_DivergentRatioThreshold :: Decimal
  al_ForDuration :: duration
  al_IncludeSuspect :: bool

record Spec =
  sp_Name :: string
  sp_Namespace :: string
  sp_Source :: SourceSpec
  sp_Codec :: CodecSpec
  sp_Projection :: ProjectionSpec
  sp_Target :: TargetSpec
  sp_Policy :: PolicySpec
  sp_Alert :: AlertSpec

section \<open>Reading\<close>

text \<open>What the specification takes from libraries, the registries of the codecs and projections, and
  whether a source accepts its settings.\<close>

record conf_env =
  ce_lib :: golib
  ce_parseFloat :: "string \<Rightarrow> Decimal option"
  ce_durString :: "duration \<Rightarrow> string"
  ce_quote :: "string \<Rightarrow> string"
  ce_codecs :: codec_registry
  ce_projections :: proj_registry
  ce_msgpack :: msgpack_lib
  ce_sourceNew :: "string \<Rightarrow> (string, string) go_map \<Rightarrow> bool"

text \<open>The text of a scalar node; \<open>None\<close> is a node that is no scalar.\<close>

definition Duration_UnmarshalYAML :: "conf_env \<Rightarrow> string option \<Rightarrow> duration option" where
  "Duration_UnmarshalYAML env node =
     (case node of
        None \<Rightarrow> None
      | Some raw \<Rightarrow>
          let raw = trim_space raw
          in if raw = [] then Some 0
             else
               (case gl_parseDuration (ce_lib env) raw of
                  Some d \<Rightarrow> Some d
                | None \<Rightarrow> gl_floatSeconds (ce_lib env) raw))"

definition ParseDecimal :: "conf_env \<Rightarrow> string \<Rightarrow> Decimal option" where
  "ParseDecimal env raw =
     (let trimmed = trim_space raw
      in if trimmed = [] then Some (Dec 0) else ce_parseFloat env trimmed)"

definition Decimal_UnmarshalYAML :: "conf_env \<Rightarrow> string option \<Rightarrow> Decimal option" where
  "Decimal_UnmarshalYAML env node =
     (case node of
        None \<Rightarrow> None
      | Some raw \<Rightarrow> if trim_space raw = [] then Some (Dec 0) else ce_parseFloat env (trim_space raw))"

definition Spec_ID :: "Spec \<Rightarrow> string" where
  "Spec_ID s =
     (if sp_Name s = [] then ''default''
      else if sp_Namespace s = [] then sp_Name s
      else sp_Namespace s @ ''/'' @ sp_Name s)"

definition Redacted :: string where
  "Redacted = ''[REDACTED]''"

definition Redact :: "Spec \<Rightarrow> Spec" where
  "Redact s =
     s\<lparr>sp_Target := (sp_Target s)\<lparr>ta_Redis :=
         map_option (\<lambda>redis. if rs_Password redis \<noteq> [] then redis\<lparr>rs_Password := Redacted\<rparr> else redis)
           (ta_Redis (sp_Target s))\<rparr>\<rparr>"

section \<open>Defaults\<close>

definition positive_or :: "int \<Rightarrow> int \<Rightarrow> int" where
  "positive_or def n = (if n \<le> 0 then def else n)"

definition nonempty_or :: "string \<Rightarrow> string \<Rightarrow> string" where
  "nonempty_or def s = (if s = [] then def else s)"

definition positive_decimal_or :: "rat \<Rightarrow> Decimal \<Rightarrow> Decimal" where
  "positive_decimal_or def d = (if dec_le d 0 then Dec def else d)"

abbreviation seconds :: "int \<Rightarrow> duration" where
  "seconds n \<equiv> n * 1000000000"

definition default_zmq :: "ZMQSpec \<Rightarrow> ZMQSpec" where
  "default_zmq z =
     z\<lparr>zs_RecvHWM := positive_or 100000 (zs_RecvHWM z),
       zs_ConnectTimeout := positive_or (seconds 5) (zs_ConnectTimeout z),
       zs_ReconnectIntervalMax := positive_or (seconds 30) (zs_ReconnectIntervalMax z),
       zs_IdleTimeout := positive_or (seconds 60) (zs_IdleTimeout z),
       zs_Multipart := nonempty_or ''auto'' (zs_Multipart z)\<rparr>"

definition defaultSource :: "SourceSpec \<Rightarrow> SourceSpec" where
  "defaultSource s =
     s\<lparr>so_Type := nonempty_or ''memory'' (so_Type s),
       so_IngestBufferSize := positive_or 200000 (so_IngestBufferSize s),
       so_ZMQ := map_option default_zmq (so_ZMQ s),
       so_File := map_option (\<lambda>f. f\<lparr>fs_Speed := nonempty_or ''fast'' (fs_Speed f)\<rparr>) (so_File s)\<rparr>"

definition defaultCodec :: "CodecSpec \<Rightarrow> CodecSpec" where
  "defaultCodec c =
     c\<lparr>co_Type := nonempty_or ''json'' (co_Type c),
       co_MaxPayloadBytes := positive_or 1048576 (co_MaxPayloadBytes c)\<rparr>"

definition defaultProjection :: "ProjectionSpec \<Rightarrow> ProjectionSpec" where
  "defaultProjection p =
     p\<lparr>pr_Type := nonempty_or ''scalar'' (pr_Type p),
       pr_KeyTemplate := nonempty_or ''{{.Key}}'' (pr_KeyTemplate p),
       pr_MemberTemplate := nonempty_or ''{{.Member}}'' (pr_MemberTemplate p),
       pr_MaxMembersPerKey := positive_or 100000 (pr_MaxMembersPerKey p)\<rparr>"

definition empty_redis :: RedisSpec where
  "empty_redis =
     \<lparr>rs_Mode = [], rs_Addr = [], rs_Addrs = [], rs_MasterName = [], rs_DB = 0, rs_Username = [],
      rs_Password = [], rs_PasswordSecretRef = None, rs_TLS = None, rs_KeyPattern = [],
      rs_ReadBatchSize = 0, rs_ScanCount = 0, rs_DialTimeout = 0, rs_ReadTimeout = 0, rs_PoolSize = 0\<rparr>"

definition default_redis :: "RedisSpec \<Rightarrow> RedisSpec" where
  "default_redis r =
     r\<lparr>rs_Mode := nonempty_or ''standalone'' (rs_Mode r),
       rs_KeyPattern := nonempty_or ''*'' (rs_KeyPattern r),
       rs_ReadBatchSize := positive_or 500 (rs_ReadBatchSize r),
       rs_ScanCount := positive_or 1000 (rs_ScanCount r),
       rs_DialTimeout := positive_or (seconds 5) (rs_DialTimeout r),
       rs_ReadTimeout := positive_or (seconds 3) (rs_ReadTimeout r),
       rs_PoolSize := positive_or 10 (rs_PoolSize r)\<rparr>"

definition defaultTarget :: "TargetSpec \<Rightarrow> TargetSpec" where
  "defaultTarget t =
     (let t = t\<lparr>ta_Type := nonempty_or ''memory'' (ta_Type t)\<rparr>
      in if ta_Type t \<noteq> ''redis'' then t
         else
           t\<lparr>ta_Redis :=
               Some (default_redis (case ta_Redis t of None \<Rightarrow> empty_redis | Some r \<Rightarrow> r))\<rparr>)"

definition default_window :: "SettlementWindowSpec \<Rightarrow> SettlementWindowSpec" where
  "default_window w =
     w\<lparr>sw_Mode := nonempty_or ''static'' (sw_Mode w),
       sw_Static := positive_or (seconds 5) (sw_Static w),
       sw_Min := positive_or (seconds 1) (sw_Min w),
       sw_Max := positive_or (seconds 120) (sw_Max w),
       sw_SafetyFactor := positive_decimal_or 3 (sw_SafetyFactor w)\<rparr>"

definition defaultPolicy :: "PolicySpec \<Rightarrow> PolicySpec" where
  "defaultPolicy p =
     p\<lparr>pl_SettlementWindow := default_window (pl_SettlementWindow p),
       pl_SweepInterval := positive_or (seconds 30) (pl_SweepInterval p),
       pl_ExtraScanInterval := positive_or (seconds 300) (pl_ExtraScanInterval p),
       pl_Bootstrap := nonempty_or ''Adopt'' (pl_Bootstrap p),
       pl_ExpiryPolicy := nonempty_or ''Strict'' (pl_ExpiryPolicy p),
       pl_TTLTolerance := positive_or (seconds 5) (pl_TTLTolerance p),
       pl_ReorderWindow := (if pl_ReorderWindow p = 0 then seconds 2 else pl_ReorderWindow p),
       pl_MaxTrackedKeys := positive_or 1000000 (pl_MaxTrackedKeys p),
       pl_RingSize := positive_or 16 (pl_RingSize p),
       pl_MaxConfirmQueue := positive_or 10000 (pl_MaxConfirmQueue p),
       pl_MaxFindings := positive_or 10000 (pl_MaxFindings p),
       pl_MaxExtrasTracked := positive_or 100000 (pl_MaxExtrasTracked p),
       pl_MaxPublishers := positive_or 1024 (pl_MaxPublishers p),
       pl_OracleShards := positive_or 64 (pl_OracleShards p),
       pl_NeverSettledThreshold := positive_or 10 (pl_NeverSettledThreshold p)\<rparr>"

definition defaultAlert :: "AlertSpec \<Rightarrow> AlertSpec" where
  "defaultAlert a =
     a\<lparr>al_DivergentKeysThreshold := positive_or 10 (al_DivergentKeysThreshold a),
       al_DivergentRatioThreshold := positive_decimal_or (1 / 1000) (al_DivergentRatioThreshold a),
       al_ForDuration := positive_or (seconds 60) (al_ForDuration a)\<rparr>"

definition ApplyDefaults :: "Spec \<Rightarrow> Spec" where
  "ApplyDefaults s =
     s\<lparr>sp_Name := nonempty_or ''default'' (sp_Name s),
       sp_Source := defaultSource (sp_Source s),
       sp_Codec := defaultCodec (sp_Codec s),
       sp_Projection := defaultProjection (sp_Projection s),
       sp_Target := defaultTarget (sp_Target s),
       sp_Policy := defaultPolicy (sp_Policy s),
       sp_Alert := defaultAlert (sp_Alert s)\<rparr>"

text \<open>\<open>Load\<close>: the YAML decoder makes a specification of the text or refuses it.\<close>

definition Load :: "(bytes \<Rightarrow> Spec option) \<Rightarrow> bytes \<Rightarrow> Spec option" where
  "Load yaml r = map_option ApplyDefaults (yaml r)"

section \<open>Translation\<close>

text \<open>\<open>strings.Join\<close> and \<open>strconv.FormatBool\<close>.\<close>

fun Join :: "string \<Rightarrow> string list \<Rightarrow> string" where
  "Join sep [] = []"
| "Join sep [x] = x"
| "Join sep (x # y # zs) = x @ sep @ Join sep (y # zs)"

definition FormatBool :: "bool \<Rightarrow> string" where
  "FormatBool b = (if b then ''true'' else ''false'')"

definition fileSpeed :: "string \<Rightarrow> string" where
  "fileSpeed speed = (if speed = ''fast'' \<or> speed = [] then ''asFastAsPossible'' else speed)"

definition SourceSettings :: "conf_env \<Rightarrow> Spec \<Rightarrow> (string, string) go_map" where
  "SourceSettings env s =
     (let src = sp_Source s
      in if so_Type src = ''zmq'' then
           (case so_ZMQ src of
              None \<Rightarrow> []
            | Some z \<Rightarrow>
                put_all
                  [(''endpoints'', Join '','' (zs_Endpoints z)), (''topics'', Join '','' (zs_Topics z)),
                   (''recvHWM'', itoa (zs_RecvHWM z)), (''connectTimeout'', ce_durString env (zs_ConnectTimeout z)),
                   (''reconnectIntervalMax'', ce_durString env (zs_ReconnectIntervalMax z)),
                   (''idleTimeout'', ce_durString env (zs_IdleTimeout z))] [])
         else if so_Type src = ''nats'' then
           (case so_NATS src of
              None \<Rightarrow> []
            | Some n \<Rightarrow>
                put_all
                  [(''url'', ns_URL n), (''subjects'', Join '','' (ns_Subjects n)),
                   (''queueGroup'', ns_QueueGroup n)] [])
         else if so_Type src = ''file'' then
           (case so_File src of
              None \<Rightarrow> []
            | Some f \<Rightarrow>
                put_all
                  [(''path'', fs_Path f), (''speed'', fileSpeed (fs_Speed f)), (''loop'', FormatBool (fs_Loop f))] [])
         else if so_Type src = ''memory'' then put_all [(''buffer'', itoa (so_IngestBufferSize src))] []
         else [])"

definition codecFieldKeys :: "(string, string) go_map" where
  "codecFieldKeys =
     [(''publisher'', ''publisherField''), (''epoch'', ''epochField''), (''seq'', ''seqField''),
      (''timestamp'', ''timestampField''), (''op'', ''opField''), (''key'', ''keyField''),
      (''member'', ''memberField''), (''value'', ''valueField''), (''ttl'', ''ttlField''),
      (''delta'', ''deltaField'')]"

definition CodecFields :: "string list" where
  "CodecFields = sort (map fst codecFieldKeys)"

text \<open>The settings of the renamed fields, in the iteration order of the mapping.\<close>

fun put_fields :: "(string, string) go_map \<Rightarrow> codec_cfg \<Rightarrow> codec_cfg" where
  "put_fields [] out = out"
| "put_fields ((f, name) # fs) out =
     put_fields fs (case map_get codecFieldKeys f of None \<Rightarrow> out | Some key \<Rightarrow> map_put key name out)"

definition op_mapping_setting :: "(string, string) go_map \<Rightarrow> string" where
  "op_mapping_setting m = Join '','' (sort (map (\<lambda>(name, to). name @ ''='' @ to) m))"

definition CodecConfig :: "Spec \<Rightarrow> codec_cfg" where
  "CodecConfig s =
     (let c = sp_Codec s;
          out = put_fields (co_FieldMapping c)
            [(''maxPayloadBytes'', itoa (co_MaxPayloadBytes c)), (''retainRaw'', FormatBool (co_RetainRaw c))]
      in if co_OpMapping c \<noteq> [] then map_put ''opMapping'' (op_mapping_setting (co_OpMapping c)) out
         else out)"

definition ProjectionConfig :: "Spec \<Rightarrow> proj_cfg" where
  "ProjectionConfig s =
     (let p = sp_Projection s;
          out =
            [(''keyTemplate'', pr_KeyTemplate p), (''memberTemplate'', pr_MemberTemplate p),
             (''maxMembersPerKey'', itoa (pr_MaxMembersPerKey p)), (''incrOnly'', FormatBool (pr_IncrOnly p))];
          out =
            (case pr_Ownership p of
               None \<Rightarrow> out
             | Some ow \<Rightarrow> if ow_Partitioned ow then map_put ''keyPattern'' (ow_KeyPattern ow) out else out)
      in put_all (pr_Extra p) out)"

definition TargetSettings :: "Spec \<Rightarrow> (string, string) go_map" where
  "TargetSettings s =
     (let out = put_all (ta_Settings (sp_Target s)) []
      in if ta_Type (sp_Target s) \<noteq> ''redis'' then out
         else
           (case ta_Redis (sp_Target s) of
              None \<Rightarrow> out
            | Some r \<Rightarrow>
                let addrs = (if rs_Addr r \<noteq> [] then rs_Addr r # rs_Addrs r else rs_Addrs r)
                in put_all
                     [(''addrs'', Join '','' addrs), (''masterName'', rs_MasterName r),
                      (''username'', rs_Username r), (''password'', rs_Password r), (''db'', itoa (rs_DB r)),
                      (''batchSize'', itoa (rs_ReadBatchSize r)), (''scanCount'', itoa (rs_ScanCount r))] out))"

definition ExtraScanPattern :: "Spec \<Rightarrow> string" where
  "ExtraScanPattern s =
     (case ta_Redis (sp_Target s) of
        None \<Rightarrow> ''*''
      | Some r \<Rightarrow> if rs_KeyPattern r \<noteq> [] then rs_KeyPattern r else ''*'')"

definition expiryPolicy :: "Spec \<Rightarrow> ExpiryPolicy" where
  "expiryPolicy s =
     (if pl_ExpiryPolicy (sp_Policy s) = ''Ignore'' then ExpiryIgnore
      else if pl_ExpiryPolicy (sp_Policy s) = ''Model'' then ExpiryModel
      else ExpiryStrict)"

definition DifferOptions :: "Spec \<Rightarrow> Options" where
  "DifferOptions s =
     \<lparr>op_TTLTolerance = pl_TTLTolerance (sp_Policy s), op_ExpiryPolicy = expiryPolicy s,
      op_AssumedTTL = pl_AssumedTTL (sp_Policy s), op_MaxMembersReported = 0,
      op_MaxFindings = pl_MaxFindings (sp_Policy s), op_Now = 0\<rparr>"

definition EffectiveWindow :: "Spec \<Rightarrow> duration" where
  "EffectiveWindow s =
     (let w = pl_SettlementWindow (sp_Policy s) in if sw_Mode w = ''adaptive'' then sw_Min w else sw_Static w)"

section \<open>Validation\<close>

datatype Warning = MultipartAdvisory string | ProjectionNotCommutative | SweepIntervalTight | IncludeSuspect

record validator =
  vd_errs :: "string list"
  vd_warnings :: "Warning list"

definition v_fail :: "string \<Rightarrow> validator \<Rightarrow> validator" where
  "v_fail field v = v\<lparr>vd_errs := vd_errs v @ [field]\<rparr>"

definition v_warn :: "Warning \<Rightarrow> validator \<Rightarrow> validator" where
  "v_warn w v = v\<lparr>vd_warnings := vd_warnings v @ [w]\<rparr>"

definition fail_if :: "bool \<Rightarrow> string \<Rightarrow> validator \<Rightarrow> validator" where
  "fail_if b field v = (if b then v_fail field v else v)"

text \<open>The registered source and target types.\<close>

definition source_Registered :: "string list" where
  "source_Registered = [''file'', ''memory'', ''nats'', ''zmq'']"

definition target_Names :: "string list" where
  "target_Names = [''memory'', ''redis'']"

definition validateFile :: "conf_env \<Rightarrow> Spec \<Rightarrow> validator \<Rightarrow> validator" where
  "validateFile env s v =
     (case so_File (sp_Source s) of
        None \<Rightarrow> v_fail ''source.file.path'' v
      | Some f \<Rightarrow>
          if fs_Path f = [] then v_fail ''source.file.path'' v
          else
            let bad_speed =
                  (if fs_Speed f \<in> {''realtime'', ''fast'', []} then False
                   else
                     (case ce_parseFloat env (fs_Speed f) of None \<Rightarrow> True | Some rate \<Rightarrow> dec_le rate 0))
            in fail_if (fs_Loop f \<and> fs_Path f = ''-'') ''source.file.loop''
                 (fail_if bad_speed ''source.file.speed'' v))"

text \<open>\<open>strings.Cut\<close>.\<close>

fun cut_from :: "string \<Rightarrow> string \<Rightarrow> string \<Rightarrow> (string \<times> string) option" where
  "cut_from sep pre [] = (if sep = [] then Some (pre, []) else None)"
| "cut_from sep pre (c # s) =
     (if starts_with sep (c # s) then Some (pre, drop (length sep) (c # s)) else cut_from sep (pre @ [c]) s)"

definition Cut :: "string \<Rightarrow> string \<Rightarrow> (string \<times> string) option" where
  "Cut s sep = cut_from sep [] s"

text \<open>\<open>True\<close> is an accepted endpoint.\<close>

definition validateZMQEndpoint :: "string \<Rightarrow> bool" where
  "validateZMQEndpoint endpoint =
     (case Cut endpoint ''://'' of
        None \<Rightarrow> False
      | Some (scheme, rest) \<Rightarrow>
          if scheme = ''tcp'' then
            (case Cut rest '':'' of
               None \<Rightarrow> False
             | Some (host, port) \<Rightarrow> host \<noteq> [] \<and> port \<noteq> [] \<and> ParseInt port \<noteq> None)
          else if scheme = ''ipc'' \<or> scheme = ''inproc'' then rest \<noteq> []
          else False)"

fun validate_endpoints :: "nat \<Rightarrow> string list \<Rightarrow> validator \<Rightarrow> validator" where
  "validate_endpoints i [] v = v"
| "validate_endpoints i (ep # eps) v =
     validate_endpoints (i + 1) eps
       (fail_if (\<not> validateZMQEndpoint ep) (''source.zmq.endpoints['' @ itoa (int i) @ '']'') v)"

definition validateZMQ :: "Spec \<Rightarrow> validator \<Rightarrow> validator" where
  "validateZMQ s v =
     (case so_ZMQ (sp_Source s) of
        None \<Rightarrow> v_fail ''source.zmq.endpoints'' v
      | Some z \<Rightarrow>
          if zs_Endpoints z = [] then v_fail ''source.zmq.endpoints'' v
          else
            let v = validate_endpoints 0 (zs_Endpoints z) v;
                v = fail_if (so_IngestBufferSize (sp_Source s) < zs_RecvHWM z) ''policy'' v
            in if zs_Multipart z = ''auto'' then v
               else if zs_Multipart z \<in> {''topicThenPayload'', ''singleFrame''} then
                 v_warn (MultipartAdvisory (zs_Multipart z)) v
               else v_fail ''source.zmq.multipart'' v)"

definition validateNATS :: "Spec \<Rightarrow> validator \<Rightarrow> validator" where
  "validateNATS s v =
     (case so_NATS (sp_Source s) of
        None \<Rightarrow> v_fail ''source.nats.url'' v
      | Some n \<Rightarrow>
          if ns_URL n = [] then v_fail ''source.nats.url'' v
          else
            fail_if (ns_QueueGroup n \<noteq> []) ''source.nats.queueGroup''
              (fail_if (ns_Subjects n = []) ''source.nats.subjects'' v))"

definition validateSource :: "conf_env \<Rightarrow> Spec \<Rightarrow> validator \<Rightarrow> validator" where
  "validateSource env s v =
     (if so_Type (sp_Source s) \<notin> set source_Registered then v_fail ''source.type'' v
      else if so_Type (sp_Source s) = ''zmq'' then validateZMQ s v
      else if so_Type (sp_Source s) = ''nats'' then validateNATS s v
      else if so_Type (sp_Source s) = ''file'' then validateFile env s v
      else v)"

fun validate_fields :: "(string, string) go_map \<Rightarrow> validator \<Rightarrow> validator" where
  "validate_fields [] v = v"
| "validate_fields ((f, name) # fs) v =
     validate_fields fs (fail_if (map_get codecFieldKeys f = None) ''codec.fieldMapping'' v)"

fun validate_ops :: "conf_env \<Rightarrow> (string, string) go_map \<Rightarrow> validator \<Rightarrow> validator" where
  "validate_ops env [] v = v"
| "validate_ops env ((name, to) # ops) v =
     validate_ops env ops
       (fail_if (ParseOp (ce_lib env) to = None) (''codec.opMapping['' @ ce_quote env name @ '']'') v)"

definition validateCodec :: "conf_env \<Rightarrow> Spec \<Rightarrow> validator \<Rightarrow> validator" where
  "validateCodec env s v =
     (let c = sp_Codec s;
          v = fail_if (co_Type c \<notin> set (codec_Names (ce_codecs env))) ''codec.type'' v;
          v = validate_ops env (co_OpMapping c) (validate_fields (co_FieldMapping c) v)
      in fail_if (co_MaxPayloadBytes c \<le> 0) ''codec.maxPayloadBytes'' v)"

definition validateProjection :: "conf_env \<Rightarrow> Spec \<Rightarrow> validator \<Rightarrow> validator" where
  "validateProjection env s v =
     (let p = sp_Projection s
      in if pr_Type p \<notin> set (Projection_Names (ce_projections env)) then v_fail ''projection.type'' v
         else
           let v = fail_if (case Projection_New (ce_projections env) (pr_Type p) (ProjectionConfig s) of
                       Inl err \<Rightarrow> True | Inr q \<Rightarrow> False) ''projection'' v;
               v = (if pr_Type p = ''counter'' \<and> \<not> pr_IncrOnly p then v_warn ProjectionNotCommutative v else v)
           in fail_if (case pr_Ownership p of
                  None \<Rightarrow> False | Some ow \<Rightarrow> ow_Partitioned ow \<and> ow_KeyPattern ow = [])
                ''projection.ownership.keyPattern'' v)"

text \<open>\<open>True\<close> is an accepted pattern.\<close>

fun glob_balanced :: "int \<Rightarrow> string \<Rightarrow> bool" where
  "glob_balanced depth [] = (depth = 0)"
| "glob_balanced depth (c # s) =
     (if c = backslash then glob_balanced depth (drop 1 s)
      else if c = CHR ''['' then glob_balanced (depth + 1) s
      else if c = CHR '']'' then if depth - 1 < 0 then False else glob_balanced (depth - 1) s
      else glob_balanced depth s)"

definition validateGlob :: "string \<Rightarrow> bool" where
  "validateGlob pattern \<longleftrightarrow> pattern \<noteq> [] \<and> glob_balanced 0 pattern"

definition validate_mode :: "RedisSpec \<Rightarrow> validator \<Rightarrow> validator" where
  "validate_mode r v =
     (if rs_Mode r = ''standalone'' then
        fail_if (rs_Addr r = [] \<and> rs_Addrs r = []) ''target.redis.addr'' v
      else if rs_Mode r = ''cluster'' then
        fail_if (rs_Addr r \<noteq> []) ''target.redis.addr'' (fail_if (rs_Addrs r = []) ''target.redis.addrs'' v)
      else if rs_Mode r = ''sentinel'' then
        fail_if (rs_MasterName r = []) ''target.redis.masterName''
          (fail_if (rs_Addrs r = []) ''target.redis.addrs'' v)
      else v_fail ''target.redis.mode'' v)"

definition validateTarget :: "Spec \<Rightarrow> validator \<Rightarrow> validator" where
  "validateTarget s v =
     (if ta_Type (sp_Target s) \<notin> set target_Names then v_fail ''target.type'' v
      else if ta_Type (sp_Target s) \<noteq> ''redis'' then v
      else
        (case ta_Redis (sp_Target s) of
           None \<Rightarrow> v_fail ''target.redis'' v
         | Some r \<Rightarrow>
             fail_if (rs_Password r \<noteq> [] \<and> rs_PasswordSecretRef r \<noteq> None) ''target.redis.password''
               (fail_if (\<not> validateGlob (rs_KeyPattern r)) ''target.redis.keyPattern'' (validate_mode r v))))"

definition mapsSnapshotOps :: "conf_env \<Rightarrow> Spec \<Rightarrow> bool" where
  "mapsSnapshotOps env s =
     (let ops = map (\<lambda>(name, to). ParseOp (ce_lib env) to) (co_OpMapping (sp_Codec s))
      in ops = [] \<or> (Some OpSnapshotBegin \<in> set ops \<and> Some OpSnapshotEnd \<in> set ops))"

definition power_of_two :: "int \<Rightarrow> bool" where
  "power_of_two n \<longleftrightarrow> and n (n - 1) = 0"

definition validatePolicy :: "conf_env \<Rightarrow> Spec \<Rightarrow> validator \<Rightarrow> validator" where
  "validatePolicy env s v =
     (let p = sp_Policy s; w = pl_SettlementWindow p;
          v = fail_if (sw_Mode w \<notin> {''static'', ''adaptive''}) ''policy.settlementWindow.mode'' v;
          v = fail_if (sw_Static w < sw_Min w \<or> sw_Max w < sw_Static w) ''policy.settlementWindow'' v;
          v = fail_if (dec_less (sw_SafetyFactor w) 1) ''policy.settlementWindow.safetyFactor'' v;
          v = fail_if (pl_SweepInterval p < seconds 1) ''policy.sweepInterval'' v;
          v = fail_if (pl_ExtraScanInterval p < seconds 1) ''policy.extraScanInterval'' v;
          v = (if pl_SweepInterval p < wrap_i64 (2 * EffectiveWindow s) then v_warn SweepIntervalTight v else v);
          v = fail_if (pl_Bootstrap p \<notin> {''Adopt'', ''Wait'', ''Strict''}
                \<or> pl_Bootstrap p = ''Strict'' \<and> \<not> mapsSnapshotOps env s) ''policy.bootstrap'' v;
          v = (if pl_ExpiryPolicy p \<in> {''Model'', ''Strict''} then v
               else if pl_ExpiryPolicy p = ''Ignore'' then fail_if (pl_AssumedTTL p \<le> 0) ''policy.assumedTTL'' v
               else v_fail ''policy.expiryPolicy'' v);
          v = fail_if (pl_MaxTrackedKeys p < 1000 \<or> 100000000 < pl_MaxTrackedKeys p) ''policy.maxTrackedKeys'' v;
          v = fail_if (pl_RingSize p < 1 \<or> 1024 < pl_RingSize p) ''policy.ringSize'' v;
          v = fail_if (pl_OracleShards p < 1 \<or> 1024 < pl_OracleShards p \<or> \<not> power_of_two (pl_OracleShards p))
                ''policy.oracleShards'' v;
          v = fail_if (pl_MaxPublishers p < 1) ''policy.maxPublishers'' v;
          v = fail_if (pl_NeverSettledThreshold p < 1) ''policy.neverSettledThreshold'' v
      in if al_IncludeSuspect (sp_Alert s) then v_warn IncludeSuspect v else v)"

definition validated :: "conf_env \<Rightarrow> Spec \<Rightarrow> validator" where
  "validated env s =
     validatePolicy env s (validateTarget s (validateProjection env s (validateCodec env s
       (validateSource env s \<lparr>vd_errs = [], vd_warnings = []\<rparr>))))"

text \<open>The offending fields; the empty list is the nil error.\<close>

definition Spec_Validate :: "conf_env \<Rightarrow> Spec \<Rightarrow> string list" where
  "Spec_Validate env s = vd_errs (validated env s)"

definition Warnings :: "conf_env \<Rightarrow> Spec \<Rightarrow> Warning list" where
  "Warnings env s = vd_warnings (validated env s)"

definition ValidateUpdate :: "Spec \<Rightarrow> Spec option \<Rightarrow> string list" where
  "ValidateUpdate s previous =
     (case previous of
        None \<Rightarrow> []
      | Some prev \<Rightarrow>
          vd_errs
            (fail_if (ta_Type (sp_Target prev) \<noteq> [] \<and> ta_Type (sp_Target prev) \<noteq> ta_Type (sp_Target s)) ''target.type''
              (fail_if (pr_Type (sp_Projection prev) \<noteq> [] \<and> pr_Type (sp_Projection prev) \<noteq> pr_Type (sp_Projection s))
                ''projection.type'' \<lparr>vd_errs = [], vd_warnings = []\<rparr>)))"

section \<open>Construction\<close>

datatype TargetImpl = TMemory MemoryTarget | TRedis RedisOptions

text \<open>The failure rate of the in-process store is read as a finite number; the code also accepts one that
  is not a number.\<close>

definition target_New :: "conf_env \<Rightarrow> string \<Rightarrow> (string, string) go_map \<Rightarrow> TargetImpl option" where
  "target_New env name cfg =
     (if name = ''memory'' then
        map_option TMemory
          (newMemory (ce_lib env) (\<lambda>s. case ce_parseFloat env s of Some (Dec q) \<Rightarrow> Some q | _ \<Rightarrow> None) cfg)
      else if name = ''redis'' then map_option TRedis (newRedis cfg)
      else None)"

definition tracker_config :: "Spec \<Rightarrow> TrackerConfig" where
  "tracker_config s =
     \<lparr>tc_maxPublishers = pl_MaxPublishers (sp_Policy s), tc_maxGapIntervals = 0, tc_implicitRestartDelta = 0,
      tc_implicitRestartCeiling = 0\<rparr>"

definition oracle_config :: "Spec \<Rightarrow> OracleConfig" where
  "oracle_config s =
     (let p = sp_Policy s
      in \<lparr>oc_shards = pl_OracleShards p, oc_maxTrackedKeys = pl_MaxTrackedKeys p, oc_ringSize = pl_RingSize p,
          oc_retainRaw = co_RetainRaw (sp_Codec s), oc_settlementWindow = EffectiveWindow s,
          oc_neverSettledFactor = pl_NeverSettledThreshold p,
          oc_maxSettlementWindow = sw_Max (pl_SettlementWindow p), oc_bucketWidth = 0\<rparr>)"

text \<open>The estimator works with finite numbers; \<open>q\<close> is the safety factor when it is one.\<close>

definition lag_config :: "Spec \<Rightarrow> rat \<Rightarrow> LagConfig" where
  "lag_config s q =
     (let w = pl_SettlementWindow (sp_Policy s)
      in \<lparr>lc_probeCount = 0, lc_probeRotation = 0, lc_maxPollDelay = 0, lc_windowSize = 0,
          lc_minWindow = sw_Min w, lc_maxWindow = sw_Max w, lc_safetyFactor = q,
          lc_static = (if sw_Mode w = ''static'' then Some (sw_Static w) else None)\<rparr>)"

definition readBatchSize :: "Spec \<Rightarrow> int" where
  "readBatchSize s = (case ta_Redis (sp_Target s) of None \<Rightarrow> 500 | Some r \<Rightarrow> rs_ReadBatchSize r)"

definition sweeper_config :: "Spec \<Rightarrow> SweeperConfig" where
  "sweeper_config s =
     (let p = sp_Policy s
      in \<lparr>sf_DifferOptions = DifferOptions s, sf_SweepInterval = pl_SweepInterval p,
          sf_ExtraScanInterval = pl_ExtraScanInterval p, sf_ConfirmInterval = 0,
          sf_ReadBatchSize = readBatchSize s, sf_MaxConfirmQueue = pl_MaxConfirmQueue p,
          sf_MaxExtrasTracked = pl_MaxExtrasTracked p, sf_ExtraScanPattern = ExtraScanPattern s,
          sf_RequirePrimary = pl_RequirePrimary p\<rparr>)"

definition bootstrap_mode :: "Spec \<Rightarrow> BootstrapMode" where
  "bootstrap_mode s =
     (if pl_Bootstrap (sp_Policy s) = ''Adopt'' then BootstrapAdopt
      else if pl_Bootstrap (sp_Policy s) = ''Wait'' then BootstrapWait
      else BootstrapStrict)"

definition ingestBufferFor :: "Spec \<Rightarrow> int" where
  "ingestBufferFor s =
     (if so_Type (sp_Source s) \<in> {''zmq'', ''nats''} then so_IngestBufferSize (sp_Source s)
      else min (so_IngestBufferSize (sp_Source s)) 4096)"

record Built =
  bl_wiring :: wiring
  bl_target :: TargetImpl
  bl_check :: Check

text \<open>The components in the order they are built; \<open>Inl\<close> names the one that failed. \<open>base\<close> holds what the
  specification does not decide: the hash, the glob matcher, the clock, the random draws and the
  connection state.\<close>

definition build :: "conf_env \<Rightarrow> wiring \<Rightarrow> rat \<Rightarrow> Spec \<Rightarrow> string + Built" where
  "build env base q s =
     (case codec_New (ce_codecs env) (co_Type (sp_Codec s)) (CodecConfig s) of
        None \<Rightarrow> Inl ''codec''
      | Some cdc \<Rightarrow>
          (case Projection_New (ce_projections env) (pr_Type (sp_Projection s)) (ProjectionConfig s) of
             Inl err \<Rightarrow> Inl ''projection''
           | Inr proj \<Rightarrow>
               (case target_New env (ta_Type (sp_Target s)) (TargetSettings s) of
                  None \<Rightarrow> Inl ''target''
                | Some tgt \<Rightarrow>
                    if \<not> ce_sourceNew env (so_Type (sp_Source s)) (SourceSettings env s) then Inl ''source''
                    else
                      let wr = base\<lparr>wr_decode := codec_Decode (ce_lib env) (ce_msgpack env) cdc, wr_proj := proj,
                                    wr_maxPublishers := pl_MaxPublishers (sp_Policy s),
                                    wr_maxTrackedKeys := pl_MaxTrackedKeys (sp_Policy s),
                                    wr_bootstrap := bootstrap_mode s\<rparr>
                      in Inr \<lparr>bl_wiring = wr, bl_target = tgt,
                              bl_check = Check_New wr (tracker_config s) (oracle_config s) (lag_config s q)
                                (pl_ReorderWindow (sp_Policy s)) (pl_Paused (sp_Policy s))\<rparr>)))"

text \<open>\<open>check.New\<close>: the invalid fields, or what \<open>build\<close> returns.\<close>

definition NewCheck :: "conf_env \<Rightarrow> wiring \<Rightarrow> rat \<Rightarrow> Spec \<Rightarrow> string list + (string + Built)" where
  "NewCheck env base q spec =
     (let s = ApplyDefaults spec
      in if Spec_Validate env s \<noteq> [] then Inl (Spec_Validate env s) else Inr (build env base q s))"

end
