(* ===== verification/ConfigSpec.thy ===== *)
theory ConfigSpec
  imports Config
begin

text \<open>
  What a specification promises: defaults fill every gap once, a validated specification is what the
  components run with, the mapping of operation names survives its rendering, a password is never
  rendered. The last part holds the places where the specification says more than the program does.
\<close>

section \<open>Defaults\<close>

lemma default_idem [simp]:
  "0 < d \<Longrightarrow> positive_or d (positive_or d n) = positive_or d n"
  "nonempty_or t (nonempty_or t x) = nonempty_or t x"
  "0 < r \<Longrightarrow> positive_decimal_or r (positive_decimal_or r q) = positive_decimal_or r q"
  by (simp_all add: positive_or_def nonempty_or_def positive_decimal_or_def)

lemma positive_or_pos: "0 < d \<Longrightarrow> 0 < positive_or d n"
  by (simp add: positive_or_def)

lemma defaultSource_idem: "defaultSource (defaultSource s) = defaultSource s"
  by (cases "so_ZMQ s"; cases "so_File s") (simp_all add: defaultSource_def default_zmq_def)

lemma default_redis_idem: "default_redis (default_redis r) = default_redis r"
  by (simp add: default_redis_def)

lemma defaultTarget_idem: "defaultTarget (defaultTarget t) = defaultTarget t"
  by (simp add: defaultTarget_def Let_def default_redis_idem nonempty_or_def)

lemma defaultPolicy_idem: "defaultPolicy (defaultPolicy p) = defaultPolicy p"
  by (simp add: defaultPolicy_def default_window_def)

text \<open>Defaults are applied once: a specification that has them, as \<open>Load\<close> returns it, is not changed by
  the second application in \<open>New\<close>.\<close>

theorem ApplyDefaults_idempotent: "ApplyDefaults (ApplyDefaults s) = ApplyDefaults s"
  by (simp add: ApplyDefaults_def defaultSource_idem defaultTarget_idem defaultPolicy_idem defaultCodec_def
      defaultProjection_def defaultAlert_def)

section \<open>Validation\<close>

lemma errs_simps [simp]:
  "vd_errs (v_fail f v) = vd_errs v @ [f]" "vd_errs (v_warn w v) = vd_errs v"
  "vd_errs (fail_if b f v) = vd_errs v @ (if b then [f] else [])"
  by (simp_all add: v_fail_def v_warn_def fail_if_def)

lemma errs_if [simp]: "vd_errs (if b then v_warn w v else v) = vd_errs v"
  by simp

lemma validate_endpoints_errs: "vd_errs (validate_endpoints i eps v) = [] \<Longrightarrow> vd_errs v = []"
  by (induction i eps v rule: validate_endpoints.induct) auto

lemma validate_fields_errs:
  "vd_errs (validate_fields fs v) = [] \<Longrightarrow> vd_errs v = [] \<and> (\<forall>f \<in> fst ` set fs. map_get codecFieldKeys f \<noteq> None)"
  by (induction fs v rule: validate_fields.induct) (auto split: if_splits)

lemma validate_ops_errs:
  "vd_errs (validate_ops env ops v) = [] \<Longrightarrow> vd_errs v = [] \<and> (\<forall>t \<in> snd ` set ops. ParseOp (ce_lib env) t \<noteq> None)"
  by (induction env ops v rule: validate_ops.induct) (auto split: if_splits)

lemma validateCodec_errs:
  assumes "vd_errs (validateCodec env s v) = []"
  shows "vd_errs v = []" "co_Type (sp_Codec s) \<in> set (codec_Names (ce_codecs env))"
    "\<forall>f \<in> fst ` set (co_FieldMapping (sp_Codec s)). map_get codecFieldKeys f \<noteq> None"
    "\<forall>t \<in> snd ` set (co_OpMapping (sp_Codec s)). ParseOp (ce_lib env) t \<noteq> None"
    "0 < co_MaxPayloadBytes (sp_Codec s)"
proof -
  let ?v = "fail_if (co_Type (sp_Codec s) \<notin> set (codec_Names (ce_codecs env))) ''codec.type'' v"
  have o: "vd_errs (validate_ops env (co_OpMapping (sp_Codec s)) (validate_fields (co_FieldMapping (sp_Codec s)) ?v)) = []"
    and p: "0 < co_MaxPayloadBytes (sp_Codec s)"
    using assms by (auto simp: validateCodec_def Let_def split: if_splits)
  note ops = validate_ops_errs [OF o]
  note fs = validate_fields_errs [OF conjunct1 [OF ops]]
  show "vd_errs v = []" "co_Type (sp_Codec s) \<in> set (codec_Names (ce_codecs env))"
    "\<forall>f \<in> fst ` set (co_FieldMapping (sp_Codec s)). map_get codecFieldKeys f \<noteq> None"
    "\<forall>t \<in> snd ` set (co_OpMapping (sp_Codec s)). ParseOp (ce_lib env) t \<noteq> None"
    "0 < co_MaxPayloadBytes (sp_Codec s)"
    using fs ops p by (auto split: if_splits)
qed

lemma validatePolicy_errs:
  assumes "vd_errs (validatePolicy env s v) = []"
  defines "p \<equiv> sp_Policy s" and "w \<equiv> pl_SettlementWindow (sp_Policy s)"
  shows "vd_errs v = []" "sw_Mode w \<in> {''static'', ''adaptive''}" "sw_Min w \<le> sw_Static w" "sw_Static w \<le> sw_Max w"
    "\<not> dec_less (sw_SafetyFactor w) 1" "seconds 1 \<le> pl_SweepInterval p" "seconds 1 \<le> pl_ExtraScanInterval p"
    "pl_Bootstrap p \<in> {''Adopt'', ''Wait'', ''Strict''}" "1000 \<le> pl_MaxTrackedKeys p" "pl_MaxTrackedKeys p \<le> 100000000"
    "1 \<le> pl_RingSize p" "pl_RingSize p \<le> 1024" "1 \<le> pl_OracleShards p" "pl_OracleShards p \<le> 1024"
    "power_of_two (pl_OracleShards p)" "1 \<le> pl_MaxPublishers p" "1 \<le> pl_NeverSettledThreshold p"
  using assms(1) unfolding p_def w_def
  by (auto simp: validatePolicy_def Let_def split: if_splits)

text \<open>The bit trick of the code recognises the powers of two.\<close>

lemma power_of_two_iff: "0 < n \<Longrightarrow> power_of_two n \<longleftrightarrow> (\<exists>k. n = 2 ^ k)"
proof (induction "nat n" arbitrary: n rule: less_induct)
  case less
  show ?case
  proof (cases "even n")
    case True
    then obtain m where m: "n = 2 * m" by blast
    with less.prems have "0 < m" "nat m < nat n" by auto
    have "and n (n - 1) = 2 * and m (m - 1)"
    proof -
      have "(2 * m - 1) div 2 = m - 1" by simp
      then show ?thesis by (subst and_rec) (simp add: m)
    qed
    then have "power_of_two n \<longleftrightarrow> power_of_two m" by (simp add: power_of_two_def)
    also have "\<dots> \<longleftrightarrow> (\<exists>k. m = 2 ^ k)" using less.hyps [of m] \<open>0 < m\<close> \<open>nat m < nat n\<close> by blast
    also have "\<dots> \<longleftrightarrow> (\<exists>k. n = 2 ^ k)"
    proof
      assume "\<exists>k. n = 2 ^ k"
      then obtain k where k: "n = 2 ^ k" by blast
      with True obtain j where "k = Suc j" by (cases k) auto
      with k m show "\<exists>k. m = 2 ^ k" by auto
    qed (use m in \<open>auto intro: exI [of _ "Suc _"]\<close>)
    finally show ?thesis .
  next
    case False
    then obtain m where m: "n = 2 * m + 1" using oddE by blast
    have "and n (n - 1) = 2 * m" by (subst and_rec) (simp add: m)
    then have "power_of_two n \<longleftrightarrow> n = 1" by (simp add: power_of_two_def m)
    also have "\<dots> \<longleftrightarrow> (\<exists>k. n = 2 ^ k)"
    proof
      assume "\<exists>k. n = 2 ^ k"
      then obtain k where "n = 2 ^ k" by blast
      with False show "n = 1" by (cases k) auto
    qed (auto intro: exI [of _ 0])
    finally show ?thesis .
  qed
qed

lemma validate_prefix:
  "vd_errs (validateTarget s v) = [] \<Longrightarrow> vd_errs v = []"
  "vd_errs (validateProjection env s v) = [] \<Longrightarrow> vd_errs v = []"
proof -
  show "vd_errs (validateTarget s v) = [] \<Longrightarrow> vd_errs v = []"
    by (auto simp: validateTarget_def validate_mode_def split: if_splits option.splits)
  show "vd_errs (validateProjection env s v) = [] \<Longrightarrow> vd_errs v = []"
    by (auto simp: validateProjection_def Let_def split: if_splits)
qed

lemma validateProjection_New:
  "vd_errs (validateProjection env s v) = [] \<Longrightarrow>
    \<exists>p. Projection_New (ce_projections env) (pr_Type (sp_Projection s)) (ProjectionConfig s) = Inr p"
  by (auto simp: validateProjection_def Let_def split: if_splits sum.splits)

lemmas validated_parts =
  validatePolicy_errs [of env s "validateTarget s (validateProjection env s (validateCodec env s
    (validateSource env s \<lparr>vd_errs = [], vd_warnings = []\<rparr>)))" for env s,
    folded validated_def Spec_Validate_def]

lemma validated_codec_proj:
  assumes "Spec_Validate env s = []"
  shows "vd_errs (validateCodec env s (validateSource env s \<lparr>vd_errs = [], vd_warnings = []\<rparr>)) = []"
    "\<exists>p. Projection_New (ce_projections env) (pr_Type (sp_Projection s)) (ProjectionConfig s) = Inr p"
  using validated_parts(1) [OF assms] validate_prefix validateProjection_New by blast+


section \<open>The mapping of operation names survives its rendering\<close>

lemma split_from_last: "c \<notin> set x \<Longrightarrow> split_from [c] cur x = [cur @ x]"
  by (induction x arbitrary: cur) (subst split_from.simps; auto simp: starts_with_def)+

lemma split_from_step: "c \<notin> set x \<Longrightarrow> split_from [c] cur (x @ c # rest) = (cur @ x) # split_from [c] [] rest"
proof (induction x arbitrary: cur)
  case Nil
  then show ?case by (subst split_from.simps) (simp add: starts_with_def)
next
  case (Cons a x)
  then show ?case by (subst split_from.simps) (auto simp: starts_with_def)
qed

lemma Split_Join: "xs \<noteq> [] \<Longrightarrow> \<forall>x \<in> set xs. c \<notin> set x \<Longrightarrow> Split (Join [c] xs) [c] = xs"
  unfolding Split_def
  by (induction "[c]" xs rule: Join.induct) (simp_all add: split_from_last split_from_step)

lemma trim_left_keeps: "c \<in> set s \<Longrightarrow> c \<notin> \<Union> (set ` set seqs) \<Longrightarrow> c \<in> set (trim_left seqs s)"
proof (induction seqs s rule: trim_left.induct)
  case (1 seqs s)
  show ?case
  proof (cases "find (\<lambda>p. p \<noteq> [] \<and> starts_with p s) seqs")
    case None
    then show ?thesis using 1(2) by (subst trim_left.simps) simp
  next
    case (Some p)
    then have p: "p \<in> set seqs" "take (length p) s = p" by (auto simp: find_Some_iff starts_with_def)
    then have "c \<notin> set (take (length p) s)" using 1(3) by auto
    then have "c \<in> set (drop (length p) s)" using 1(2) by (metis Un_iff append_take_drop_id set_append)
    with 1(1) [OF Some _ 1(3)] show ?thesis by (subst trim_left.simps) (simp add: Some)
  qed
qed

lemma trim_space_equals: "CHR ''='' \<in> set s \<Longrightarrow> trim_space s \<noteq> []"
proof -
  have no: "CHR ''='' \<notin> \<Union> (set ` set space_seqs)" "CHR ''='' \<notin> \<Union> (set ` set (map rev space_seqs))"
    by (simp_all add: space_seqs_def)
  assume "CHR ''='' \<in> set s"
  then have "CHR ''='' \<in> set (trim_space s)"
    unfolding trim_space_def set_rev using trim_left_keeps [OF _ no(1), of s]
    by (intro trim_left_keeps no) simp
  then show ?thesis by auto
qed

lemma cut_eq_pair: "CHR ''='' \<notin> set name \<Longrightarrow> cut_eq (name @ CHR ''='' # to) = Some (name, to)"
  unfolding cut_eq_def by (auto simp: takeWhile_append dropWhile_append)

definition renderable :: "golib \<Rightarrow> string \<Rightarrow> string \<Rightarrow> bool" where
  "renderable lib name to \<longleftrightarrow>
     name \<noteq> [] \<and> trim_space name = name \<and> CHR '','' \<notin> set name \<and> CHR ''='' \<notin> set name
     \<and> to \<noteq> [] \<and> trim_space to = to \<and> CHR '','' \<notin> set to \<and> ParseOp lib to \<noteq> None"

lemma op_pairs_rendered:
  assumes "wf_map m" and "\<forall>(name, to) \<in> set m. renderable lib name to"
    and "\<forall>p \<in> set ps. \<exists>(name, to) \<in> set m. p = name @ CHR ''='' # to"
  shows "\<exists>om. op_pairs lib ps acc = Some om \<and>
    (\<forall>n. map_get om n = (if \<exists>to. (n, to) \<in> set m \<and> n @ CHR ''='' # to \<in> set ps
        then Option.bind (map_get m n) (ParseOp lib) else map_get acc n))"
  using assms(3)
proof (induction ps arbitrary: acc)
  case (Cons p ps)
  obtain name to where p: "p = name @ CHR ''='' # to" "(name, to) \<in> set m" using Cons.prems by auto
  have r: "renderable lib name to" using p(2) assms(2) by auto
  obtain opn where opn: "ParseOp lib to = Some opn" using r by (auto simp: renderable_def)
  have get: "map_get m name = Some to" using p(2) assms(1) by (simp add: map_get_def)
  have "op_pairs lib (p # ps) acc = op_pairs lib ps (map_put name opn acc)"
    using r opn by (simp add: p(1) cut_eq_pair renderable_def Let_def)
  moreover obtain om where om: "op_pairs lib ps (map_put name opn acc) = Some om"
    "\<forall>n. map_get om n = (if \<exists>to. (n, to) \<in> set m \<and> n @ CHR ''='' # to \<in> set ps
        then Option.bind (map_get m n) (ParseOp lib) else map_get (map_put name opn acc) n)"
    using Cons by (metis (no_types, lifting) list.set_intros(2))
  moreover have "n = name \<and> to' = to" if "(n, to') \<in> set m" "n @ CHR ''='' # to' = p" for n to'
  proof -
    have "renderable lib n to'" using that(1) assms(2) by auto
    then have "cut_eq p = Some (n, to')" using cut_eq_pair [of n to'] that(2) by (simp add: renderable_def)
    moreover have "cut_eq p = Some (name, to)" using r cut_eq_pair [of name to] p(1) by (simp add: renderable_def)
    ultimately show ?thesis by simp
  qed
  ultimately have "op_pairs lib (p # ps) acc = Some om"
    and uniq: "\<And>n to'. (n, to') \<in> set m \<Longrightarrow> n @ CHR ''='' # to' = p \<Longrightarrow> n = name \<and> to' = to"
    by simp_all
  moreover have "map_get om n = (if \<exists>to. (n, to) \<in> set m \<and> n @ CHR ''='' # to \<in> set (p # ps)
        then Option.bind (map_get m n) (ParseOp lib) else map_get acc n)" for n
  proof (cases "n = name")
    case True
    then show ?thesis using om(2) get opn p by auto
  next
    case False
    then have iff: "(\<exists>to. (n, to) \<in> set m \<and> n @ CHR ''='' # to \<in> set (p # ps))
        = (\<exists>to. (n, to) \<in> set m \<and> n @ CHR ''='' # to \<in> set ps)" using uniq by auto
    have "map_get (map_put name opn acc) n = map_get acc n" using False by simp
    then show ?thesis unfolding iff using om(2) by (simp only:)
  qed
  ultimately show ?case by blast
qed simp

lemma op_mapping_parsed:
  assumes "wf_map m" and "m \<noteq> []" and "\<forall>(name, to) \<in> set m. renderable lib name to"
  shows "\<exists>om. parseOpMapping lib (op_mapping_setting m) = Some om \<and>
    (\<forall>n. map_get om n = Option.bind (map_get m n) (ParseOp lib))"
proof -
  let ?f = "\<lambda>(name, to). name @ ''='' @ to"
  let ?ps = "sort (map ?f m)"
  have in_ps: "p \<in> set ?ps \<longleftrightarrow> (\<exists>(name, to) \<in> set m. p = name @ CHR ''='' # to)" for p by auto
  have "\<forall>x \<in> set ?ps. CHR '','' \<notin> set x" using assms(3) by (auto simp: renderable_def)
  then have split: "Split (op_mapping_setting m) '','' = ?ps"
    using assms(2) unfolding op_mapping_setting_def by (intro Split_Join) (auto simp flip: set_empty)
  obtain om where om: "op_pairs lib ?ps [] = Some om"
    "\<forall>n. map_get om n = (if \<exists>to. (n, to) \<in> set m \<and> n @ CHR ''='' # to \<in> set ?ps
        then Option.bind (map_get m n) (ParseOp lib) else map_get [] n)"
    using op_pairs_rendered [OF assms(1,3), of ?ps "[]"] in_ps by blast
  have "CHR ''='' \<in> set (op_mapping_setting m)"
  proof -
    obtain x xs where x: "?ps = x # xs" using assms(2) by (cases ?ps) (auto simp flip: set_empty)
    then have "x \<in> set ?ps" by simp
    then have "CHR ''='' \<in> set x" using in_ps [of x] by auto
    then show ?thesis unfolding op_mapping_setting_def x by (cases xs) auto
  qed
  then have "parseOpMapping lib (op_mapping_setting m) = Some om"
    using trim_space_equals om(1) split by (simp add: parseOpMapping_def)
  moreover have "map_get om n = Option.bind (map_get m n) (ParseOp lib)" for n
  proof (cases "map_get m n")
    case None
    then have "\<nexists>to. (n, to) \<in> set m" by (auto simp: map_get_None_iff image_iff)
    then show ?thesis using om(2) None by (simp add: map_get_def)
  next
    case (Some to)
    then have "(n, to) \<in> set m" by (rule map_get_SomeD)
    then show ?thesis using om(2) Some in_ps by auto
  qed
  ultimately show ?thesis by blast
qed

section \<open>A validated JSON codec is built as specified\<close>

lemma digit_no_space: "is_digit c \<or> c = CHR ''-'' \<Longrightarrow> c \<notin> hd ` set space_seqs \<and> c \<notin> hd ` set (map rev space_seqs)"
  by (auto simp: space_seqs_def is_digit_def less_eq_char_def)

lemma trim_itoa [simp]: "trim_space (itoa n) = itoa n"
proof (rule trim_space_plain)
  have d: "\<forall>c \<in> set (itoa_nat k). is_digit c" for k using all_digits_itoa [of k] by (simp add: all_digits_def list_all_iff)
  then have "\<forall>c \<in> set (itoa n). is_digit c \<or> c = CHR ''-''" by (auto simp: itoa_def)
  moreover show "itoa n \<noteq> []" by (simp add: itoa_def)
  ultimately show "hd (itoa n) \<notin> hd ` set space_seqs" "last (itoa n) \<notin> hd ` set (map rev space_seqs)"
    using digit_no_space by (metis list.set_sel(1), metis last_in_set)
qed

lemma trim_bool [simp]: "trim_space (FormatBool b) = FormatBool b"
  by (rule trim_space_plain) (simp_all add: FormatBool_def space_seqs_def)

text \<open>The name of a field in the payload: the renamed one, else the default.\<close>

definition payload_name :: "(string, string) go_map \<Rightarrow> string \<Rightarrow> string \<Rightarrow> string" where
  "payload_name m key def =
     (case find (\<lambda>(f, name). map_get codecFieldKeys f = Some key) m of None \<Rightarrow> def | Some (f, name) \<Rightarrow> name)"

lemma codecFieldKeys_inj:
  "map_get codecFieldKeys f = Some k \<Longrightarrow> map_get codecFieldKeys g = Some k \<Longrightarrow> f = g"
  by (auto simp: codecFieldKeys_def map_get_def split: if_splits)

lemma put_fields_get:
  "wf_map m \<Longrightarrow> map_get (put_fields m out) key =
    (case find (\<lambda>(f, name). map_get codecFieldKeys f = Some key) m of None \<Rightarrow> map_get out key | Some (f, name) \<Rightarrow> Some name)"
proof (induction m arbitrary: out)
  case (Cons p m)
  obtain f name where p: "p = (f, name)" by (cases p)
  have wf: "wf_map m" and new: "f \<notin> fst ` set m" using Cons.prems by (auto simp: p)
  have "find (\<lambda>(f, name). map_get codecFieldKeys f = Some key) m = None" if "map_get codecFieldKeys f = Some key"
  proof -
    have "map_get codecFieldKeys (fst x) \<noteq> Some key" if "x \<in> set m" for x
      using codecFieldKeys_inj [OF \<open>map_get codecFieldKeys f = Some key\<close>, of "fst x"] new that by auto
    then show ?thesis by (auto simp: find_None_iff)
  qed
  then show ?case using Cons.IH [OF wf] by (cases "map_get codecFieldKeys f") (auto simp: p split: option.split)
qed simp

definition resolved :: "codec_cfg \<Rightarrow> string \<Rightarrow> string \<Rightarrow> string" where
  "resolved cfg key def = (case map_get cfg key of None \<Rightarrow> def | Some name \<Rightarrow> name)"

lemma field_names_get:
  assumes "\<forall>(f, key, def) \<in> set fs. map_get cfg key \<noteq> Some []"
  shows "\<exists>names. field_names cfg fs acc = Some names \<and>
    (\<forall>n. (case map_get names n of None \<Rightarrow> [] | Some l \<Rightarrow> l)
        = (case map_get acc n of None \<Rightarrow> [] | Some l \<Rightarrow> l) @ map fst (filter (\<lambda>(f, key, def). resolved cfg key def = n) fs))"
  using assms
proof (induction fs arbitrary: acc)
  case (Cons x fs)
  obtain f key def where x: "x = (f, key, def)" by (cases x) auto
  let ?n = "resolved cfg key def"
  let ?acc = "map_put ?n ((case map_get acc ?n of None \<Rightarrow> [] | Some l \<Rightarrow> l) @ [f]) acc"
  have "field_names cfg (x # fs) acc = field_names cfg fs ?acc"
    using Cons.prems by (simp add: x resolved_def Let_def)
  moreover obtain names where "field_names cfg fs ?acc = Some names"
    "\<forall>n. (case map_get names n of None \<Rightarrow> [] | Some l \<Rightarrow> l)
        = (case map_get ?acc n of None \<Rightarrow> [] | Some l \<Rightarrow> l) @ map fst (filter (\<lambda>(f, key, def). resolved cfg key def = n) fs)"
    using Cons.IH [of ?acc] Cons.prems by auto
  ultimately show ?case by (intro exI [of _ names]) (simp add: x)
qed simp

lemma trim_space_Nil [simp]: "trim_space [] = []"
  by code_simp

lemma map_get_Cons: "map_get ((k, v) # m) j = (if j = k then Some v else map_get m j)"
  by (simp add: map_get_def)

lemma CodecConfig_get:
  assumes "wf_map (co_FieldMapping (sp_Codec s))"
  shows "map_get (CodecConfig s) ''maxPayloadBytes'' = Some (itoa (co_MaxPayloadBytes (sp_Codec s)))"
    "map_get (CodecConfig s) ''retainRaw'' = Some (FormatBool (co_RetainRaw (sp_Codec s)))"
    "map_get (CodecConfig s) ''maxKeyBytes'' = None" "map_get (CodecConfig s) ''maxDepth'' = None"
    "map_get (CodecConfig s) ''pattern'' = None"
    "setting (CodecConfig s) ''opMapping''
       = (if co_OpMapping (sp_Codec s) = [] then [] else op_mapping_setting (co_OpMapping (sp_Codec s)))"
    "\<forall>(f, key, def) \<in> set configKeys. map_get (CodecConfig s) key
       = map_option snd (find (\<lambda>(f, name). map_get codecFieldKeys f = Some key) (co_FieldMapping (sp_Codec s)))"
proof -
  let ?m = "co_FieldMapping (sp_Codec s)"
  have none: "find (\<lambda>(f, name). map_get codecFieldKeys f = Some key) ?m = None"
    if "key \<notin> snd ` set codecFieldKeys" for key
    using that by (force simp: find_None_iff dest: map_get_SomeD)
  have other: "key \<notin> snd ` set codecFieldKeys" if
    "key \<in> {''maxPayloadBytes'', ''retainRaw'', ''maxKeyBytes'', ''maxDepth'', ''pattern'', ''opMapping''}" for key
    using that by (auto simp: codecFieldKeys_def)
  note get = put_fields_get [OF assms]
  show "map_get (CodecConfig s) ''maxPayloadBytes'' = Some (itoa (co_MaxPayloadBytes (sp_Codec s)))"
    "map_get (CodecConfig s) ''retainRaw'' = Some (FormatBool (co_RetainRaw (sp_Codec s)))"
    "map_get (CodecConfig s) ''maxKeyBytes'' = None" "map_get (CodecConfig s) ''maxDepth'' = None"
    "map_get (CodecConfig s) ''pattern'' = None"
    "setting (CodecConfig s) ''opMapping''
       = (if co_OpMapping (sp_Codec s) = [] then [] else op_mapping_setting (co_OpMapping (sp_Codec s)))"
    by (simp_all add: CodecConfig_def Let_def get none other setting_def map_get_Cons)
  show "\<forall>(f, key, def) \<in> set configKeys. map_get (CodecConfig s) key
       = map_option snd (find (\<lambda>(f, name). map_get codecFieldKeys f = Some key) ?m)"
  proof -
    have "map_get (CodecConfig s) key = map_option snd (find (\<lambda>(f, name). map_get codecFieldKeys f = Some key) ?m)"
      if "key \<notin> {''maxPayloadBytes'', ''retainRaw'', ''opMapping''}" for key
      using that by (auto simp: CodecConfig_def Let_def get map_get_Cons split: option.split)
    moreover have "fst (snd x) \<notin> {''maxPayloadBytes'', ''retainRaw'', ''opMapping''}" if "x \<in> set configKeys" for x
      using that by (auto simp: configKeys_def)
    ultimately show ?thesis by (simp add: case_prod_beta)
  qed
qed

text \<open>The settings a specification is rendered into rebuild the codec it describes: the JSON codec reads the
  limit, the retention of payloads, every field name and every operation name back as they were
  specified, provided that no name is empty and that the operation names hold no separator and no
  surrounding space.\<close>

theorem codec_settings_roundtrip:
  assumes "wf_map (co_FieldMapping (sp_Codec s))" and "wf_map (co_OpMapping (sp_Codec s))"
    and "\<forall>(f, name) \<in> set (co_FieldMapping (sp_Codec s)). name \<noteq> []"
    and "\<forall>(name, to) \<in> set (co_OpMapping (sp_Codec s)). renderable lib name to"
    and "0 < co_MaxPayloadBytes (sp_Codec s)" and "co_MaxPayloadBytes (sp_Codec s) \<le> max_i64"
  shows "\<exists>c. newJSON lib (CodecConfig s) = Some c
    \<and> jc_maxPayloadBytes c = co_MaxPayloadBytes (sp_Codec s) \<and> jc_retainRaw c = co_RetainRaw (sp_Codec s)
    \<and> (\<forall>n. map_get (jc_opMap c) n = Option.bind (map_get (co_OpMapping (sp_Codec s)) n) (ParseOp lib))
    \<and> (\<forall>n. (case map_get (jc_names c) n of None \<Rightarrow> [] | Some fs \<Rightarrow> fs)
          = map fst (filter (\<lambda>(f, key, def). payload_name (co_FieldMapping (sp_Codec s)) key def = n) configKeys))"
proof -
  let ?cfg = "CodecConfig s"
  let ?m = "co_FieldMapping (sp_Codec s)"
  note get = CodecConfig_get [OF assms(1)]
  have named: "\<forall>(f, key, def) \<in> set configKeys. resolved ?cfg key def = payload_name ?m key def"
    using get(7) by (auto simp: resolved_def payload_name_def split: option.split)
  have "\<forall>(f, key, def) \<in> set configKeys. map_get ?cfg key \<noteq> Some []"
    using get(7) assms(3) by (fastforce simp: find_Some_iff set_conv_nth)
  then obtain names where names: "field_names ?cfg configKeys [] = Some names"
    "\<forall>n. (case map_get names n of None \<Rightarrow> [] | Some l \<Rightarrow> l)
      = map fst (filter (\<lambda>(f, key, def). resolved ?cfg key def = n) configKeys)"
    using field_names_get [of configKeys ?cfg "[]"] by auto
  obtain om where om: "parseOpMapping lib (setting ?cfg ''opMapping'') = Some om"
    "\<forall>n. map_get om n = Option.bind (map_get (co_OpMapping (sp_Codec s)) n) (ParseOp lib)"
  proof (cases "co_OpMapping (sp_Codec s) = []")
    case True
    then show ?thesis using that [of "[]"] by (simp add: get(6) parseOpMapping_def trim_space_Nil)
  next
    case False
    then show ?thesis using op_mapping_parsed [OF assms(2) _ assms(4)] that by (auto simp: get(6))
  qed
  have ints: "codec_intConfig ?cfg ''maxPayloadBytes'' 1048576 = Some (co_MaxPayloadBytes (sp_Codec s))"
    using assms(5,6) by (simp add: codec_intConfig_def get ParseInt_itoa min_i64_def)
  have bools: "codec_boolConfig ?cfg ''retainRaw'' = Some (co_RetainRaw (sp_Codec s))"
    by (simp add: codec_boolConfig_def get) (simp add: FormatBool_def ParseBool_def)
  have filt: "filter (\<lambda>(f, key, def). resolved ?cfg key def = n) configKeys
      = filter (\<lambda>(f, key, def). payload_name ?m key def = n) configKeys" for n
    using named by (intro filter_cong) auto
  show ?thesis
    using names om ints bools
    by (auto simp: newJSON_def codec_intConfig_def get filt)
qed

section \<open>Secrets\<close>

text \<open>Nothing of a configured password is in the rendered specification: two specifications that differ in
  the password only are rendered alike.\<close>

theorem redact_hides_password:
  assumes "ta_Redis (sp_Target s) = Some r" and "rs_Password r \<noteq> []" and "pw \<noteq> []"
  shows "Redact (s\<lparr>sp_Target := (sp_Target s)\<lparr>ta_Redis := Some (r\<lparr>rs_Password := pw\<rparr>)\<rparr>\<rparr>) = Redact s"
  using assms by (simp add: Redact_def)

section \<open>What the specification says and the program does not\<close>

text \<open>The template codec is registered, and validation accepts a specification that names it, but no
  specification can build it: the settings of the codec have no entry for its pattern.\<close>

theorem template_codec_never_builds:
  assumes "codec_registry_init (ce_lib env) compile = Some (ce_codecs env)"
    and "wf_map (co_FieldMapping (sp_Codec spec))" and "co_Type (sp_Codec spec) = ''template''"
    and "Spec_Validate env (ApplyDefaults spec) = []"
  shows "NewCheck env base q spec = Inr (Inl ''codec'')"
proof -
  let ?s = "ApplyDefaults spec"
  have c: "co_Type (sp_Codec ?s) = ''template''" "co_FieldMapping (sp_Codec ?s) = co_FieldMapping (sp_Codec spec)"
    using assms(3) by (simp_all add: ApplyDefaults_def defaultCodec_def nonempty_or_def)
  have "setting (CodecConfig ?s) ''pattern'' = []"
    using CodecConfig_get(5) [of ?s] assms(2) c(2) by (simp add: setting_def)
  then have "newTemplate (ce_lib env) compile (CodecConfig ?s) = None"
    by (simp add: newTemplate_def)
  then have "codec_New (ce_codecs env) ''template'' (CodecConfig ?s) = None"
    using assms(1)
    by (auto simp: codec_registry_init_def codec_Register_def codec_New_def split: if_splits option.splits dest!: sym [of _ "ce_codecs env"])
  then show ?thesis using assms(4) c(1) by (simp add: NewCheck_def build_def Let_def)
qed

text \<open>A Redis target is built the same whatever its mode, its TLS section, its timeouts and its pool size
  are: the settings do not carry them, so a specification that asks for TLS is accepted and connects
  without it.\<close>

theorem tls_settings_ignored:
  assumes "ta_Redis (sp_Target s) = Some r"
  shows "target_New env (ta_Type (sp_Target s)) (TargetSettings (s\<lparr>sp_Target := (sp_Target s)\<lparr>ta_Redis :=
      Some (r\<lparr>rs_Mode := mode, rs_TLS := tls, rs_DialTimeout := dial, rs_ReadTimeout := readto, rs_PoolSize := pool\<rparr>)\<rparr>\<rparr>))
    = target_New env (ta_Type (sp_Target s)) (TargetSettings s)"
  using assms by (simp add: TargetSettings_def Let_def)

section \<open>A specification\<close>

text \<open>A specification with a file source, a Redis target and a mapping of names, the rest left to the defaults.\<close>

definition conf_redis :: RedisSpec where
  "conf_redis = empty_redis\<lparr>rs_Addr := ''r:6379'', rs_Password := ''pw''\<rparr>"

definition conf_sample :: "string \<Rightarrow> Spec" where
  "conf_sample codec =
     \<lparr>sp_Name = [], sp_Namespace = [],
      sp_Source = \<lparr>so_Type = ''file'', so_ZMQ = None, so_NATS = None,
        so_File = Some \<lparr>fs_Path = ''e.jsonl'', fs_Speed = [], fs_Loop = False\<rparr>, so_IngestBufferSize = 0\<rparr>,
      sp_Codec = \<lparr>co_Type = codec, co_MaxPayloadBytes = 0, co_RetainRaw = True,
        co_FieldMapping = [(''key'', ''k'')], co_OpMapping = [(''PUT'', ''set''), (''DEL'', ''delete'')]\<rparr>,
      sp_Projection = \<lparr>pr_Type = [], pr_KeyTemplate = [], pr_MemberTemplate = [], pr_MaxMembersPerKey = 0,
        pr_IncrOnly = False, pr_Ownership = None, pr_Extra = []\<rparr>,
      sp_Target = \<lparr>ta_Type = ''redis'', ta_Redis = Some conf_redis, ta_Settings = []\<rparr>,
      sp_Policy = \<lparr>pl_SettlementWindow = \<lparr>sw_Mode = [], sw_Static = 0, sw_Min = 0, sw_Max = 0, sw_SafetyFactor = Dec 0\<rparr>,
        pl_SweepInterval = 0, pl_ExtraScanInterval = 0, pl_Bootstrap = [], pl_ExpiryPolicy = [], pl_AssumedTTL = 0,
        pl_TTLTolerance = 0, pl_RequirePrimary = False, pl_ReorderWindow = 0, pl_MaxTrackedKeys = 0, pl_RingSize = 0,
        pl_MaxConfirmQueue = 0, pl_MaxFindings = 0, pl_MaxExtrasTracked = 0, pl_MaxPublishers = 0,
        pl_OracleShards = 0, pl_NeverSettledThreshold = 0, pl_Paused = False\<rparr>,
      sp_Alert = \<lparr>al_DivergentKeysThreshold = 0, al_DivergentRatioThreshold = Dec 0, al_ForDuration = 0,
        al_IncludeSuspect = False\<rparr>\<rparr>"

abbreviation sample_spec :: Spec where
  "sample_spec \<equiv> conf_sample ''json''"

definition conf_sample_env :: conf_env where
  "conf_sample_env =
     \<lparr>ce_lib = sample_lib, ce_parseFloat = (\<lambda>s. None), ce_durString = (\<lambda>d. []), ce_quote = (\<lambda>s. s),
      ce_codecs = the (codec_registry_init sample_lib (\<lambda>s. None)), ce_projections = the (init_registry (\<lambda>s. None)),
      ce_msgpack = \<lparr>ml_Unmarshal = \<lambda>p. None, ml_FormatFloat64 = \<lambda>v. [], ml_FormatFloat32 = \<lambda>v. []\<rparr>,
      ce_sourceNew = (\<lambda>n c. True)\<rparr>"

lemma sample_lookups: "ce_lib conf_sample_env = sample_lib" "map_get codecFieldKeys ''key'' = Some ''keyField''"
  by (simp_all add: conf_sample_env_def codecFieldKeys_def map_get_Cons)

lemma ParseOp_named: "(op, name) \<in> set op_names \<Longrightarrow> ParseOp lib name \<noteq> None"
  by (auto simp: ParseOp_def find_None_iff)

lemma sample_ops: "ParseOp lib ''set'' \<noteq> None" "ParseOp lib ''delete'' \<noteq> None"
  using ParseOp_named [of OpSet "''set''" lib] ParseOp_named [of OpDelete "''delete''" lib] by (simp_all add: op_names_def)

lemma sample_registries:
  "set (codec_Names (ce_codecs conf_sample_env)) = {''json'', ''msgpack'', ''template''}"
  "set (Projection_Names (ce_projections conf_sample_env)) = {''scalar'', ''counter'', ''keysetOwnership''}"
  by (auto simp: conf_sample_env_def codec_Names_def codec_registry_init_def codec_Register_def Projection_Names_def
      init_registry_def Register_def keys_put)

lemma sample_projection:
  "\<exists>p. Projection_New (ce_projections conf_sample_env) ''scalar'' (ProjectionConfig (ApplyDefaults (conf_sample codec))) = Inr p"
  by (simp add: conf_sample_env_def init_registry_def Register_def Projection_New_def map_proj_def newScalar_def
      ProjectionConfig_def Let_def put_all_def ApplyDefaults_def defaultProjection_def conf_sample_def
      nonempty_or_def stringConfig_def map_get_Cons newExpander_def identityFields_def)

lemma sample_source: "validateSource conf_sample_env (ApplyDefaults (conf_sample codec)) v = v"
  by (simp add: validateSource_def source_Registered_def ApplyDefaults_def conf_sample_def defaultSource_def
      nonempty_or_def validateFile_def fail_if_def)

lemma sample_policy: "validatePolicy conf_sample_env (ApplyDefaults (conf_sample codec)) v = v"
  by (simp add: validatePolicy_def ApplyDefaults_def defaultPolicy_def default_window_def conf_sample_def defaultAlert_def
    positive_or_def nonempty_or_def positive_decimal_or_def fail_if_def power_of_two_def Let_def EffectiveWindow_def wrap_i64_def min_i64_def)

lemma sample_target: "validateTarget (ApplyDefaults (conf_sample codec)) v = v"
  by (simp add: validateTarget_def ApplyDefaults_def defaultTarget_def default_redis_def conf_sample_def conf_redis_def
    positive_or_def nonempty_or_def fail_if_def Let_def target_Names_def validate_mode_def validateGlob_def empty_redis_def)

lemma conf_sample_codec: "codec \<in> {''json'', ''msgpack'', ''template''} \<Longrightarrow> validateCodec conf_sample_env (ApplyDefaults (conf_sample codec)) v = v"
  by (auto simp: validateCodec_def sample_registries ApplyDefaults_def conf_sample_def defaultCodec_def nonempty_or_def
    positive_or_def fail_if_def Let_def sample_ops sample_lookups)

lemma sample_valid_projection: "validateProjection conf_sample_env (ApplyDefaults (conf_sample codec)) v = v"
proof -
  have t: "pr_Type (sp_Projection (ApplyDefaults (conf_sample codec))) = ''scalar''"
    "pr_Ownership (sp_Projection (ApplyDefaults (conf_sample codec))) = None"
    by (simp_all add: ApplyDefaults_def defaultProjection_def conf_sample_def nonempty_or_def)
  show ?thesis using sample_projection [of codec]
    by (auto simp: validateProjection_def t sample_registries fail_if_def Let_def)
qed

lemma conf_sample_valid: "codec \<in> {''json'', ''msgpack'', ''template''} \<Longrightarrow> Spec_Validate conf_sample_env (ApplyDefaults (conf_sample codec)) = []"
  by (simp add: Spec_Validate_def validated_def sample_source sample_policy sample_target conf_sample_codec sample_valid_projection)


lemma plain_trim: "trim_space ''PUT'' = ''PUT''" "trim_space ''DEL'' = ''DEL''" "trim_space ''set'' = ''set''"
  "trim_space ''delete'' = ''delete''"
  by code_simp+

theorem codec_settings_roundtrip_witness:
  "\<exists>c. newJSON sample_lib (CodecConfig (ApplyDefaults sample_spec)) = Some c \<and> jc_maxPayloadBytes c = 1048576
    \<and> map_get (jc_names c) ''k'' = Some [fieldKey] \<and> map_get (jc_opMap c) ''PUT'' = ParseOp sample_lib ''set''"
proof -
  let ?s = "ApplyDefaults sample_spec"
  have c: "sp_Codec ?s = \<lparr>co_Type = ''json'', co_MaxPayloadBytes = 1048576, co_RetainRaw = True,
        co_FieldMapping = [(''key'', ''k'')], co_OpMapping = [(''PUT'', ''set''), (''DEL'', ''delete'')]\<rparr>"
    by (simp add: ApplyDefaults_def defaultCodec_def conf_sample_def nonempty_or_def positive_or_def)
  have "\<forall>(name, to) \<in> set (co_OpMapping (sp_Codec ?s)). renderable sample_lib name to"
    using sample_ops [of sample_lib] by (simp add: c renderable_def plain_trim)
  then obtain j where j: "newJSON sample_lib (CodecConfig ?s) = Some j" "jc_maxPayloadBytes j = 1048576"
    "map_get (jc_opMap j) ''PUT'' = ParseOp sample_lib ''set''"
    "(case map_get (jc_names j) ''k'' of None \<Rightarrow> [] | Some fs \<Rightarrow> fs)
      = map fst (filter (\<lambda>(f, key, def). payload_name [(''key'', ''k'')] key def = ''k'') configKeys)"
    using codec_settings_roundtrip [of ?s sample_lib] by (auto simp: c max_i64_def map_get_Cons)
  moreover have "map fst (filter (\<lambda>(f, key, def). payload_name [(''key'', ''k'')] key def = ''k'') configKeys) = [fieldKey]"
    by code_simp
  ultimately show ?thesis by (auto split: option.splits)
qed

theorem redact_hides_password_witness:
  "Redact (sample_spec\<lparr>sp_Target := (sp_Target sample_spec)\<lparr>ta_Redis := Some (conf_redis\<lparr>rs_Password := ''other''\<rparr>)\<rparr>\<rparr>)
     = Redact sample_spec"
  using redact_hides_password [of sample_spec conf_redis "''other''"] by (simp add: conf_sample_def conf_redis_def)

theorem tls_settings_ignored_witness:
  "target_New conf_sample_env ''redis'' (TargetSettings (sample_spec\<lparr>sp_Target := (sp_Target sample_spec)\<lparr>ta_Redis :=
      Some (conf_redis\<lparr>rs_TLS := Some \<lparr>tl_Enabled = True, tl_InsecureSkipVerify = False, tl_CASecretRef = None\<rparr>\<rparr>)\<rparr>\<rparr>))
    = target_New conf_sample_env ''redis'' (TargetSettings sample_spec)"
  using tls_settings_ignored [where s = sample_spec and r = conf_redis and env = conf_sample_env
      and tls = "Some \<lparr>tl_Enabled = True, tl_InsecureSkipVerify = False, tl_CASecretRef = None\<rparr>"
      and mode = "rs_Mode conf_redis" and dial = "rs_DialTimeout conf_redis"
      and readto = "rs_ReadTimeout conf_redis" and pool = "rs_PoolSize conf_redis"]
  by (simp add: conf_sample_def)

definition conf_base :: wiring where
  "conf_base =
     \<lparr>wr_hash = (\<lambda>k. 0), wr_glob = (\<lambda>p k. None), wr_decode = (\<lambda>p t d. Inl ErrMalformed),
      wr_proj = PScalar \<lparr>sc_keyTmpl = \<lparr>ex_tmpl = (\<lambda>d. None), ex_ref = fieldRefKey\<rparr>, sc_ownership = ownershipFrom []\<rparr>,
      wr_clock = (\<lambda>n. 0), wr_intn = (\<lambda>n k. 0), wr_connected = (\<lambda>n. True), wr_maxPublishers = 1,
      wr_maxTrackedKeys = 1, wr_bootstrap = BootstrapAdopt\<rparr>"

theorem template_codec_never_builds_witness:
  "NewCheck conf_sample_env conf_base 3 (conf_sample ''template'') = Inr (Inl ''codec'')"
proof (rule template_codec_never_builds)
  show "codec_registry_init (ce_lib conf_sample_env) (\<lambda>s. None) = Some (ce_codecs conf_sample_env)"
    by (simp add: conf_sample_env_def codec_registry_init_def codec_Register_def)
qed (simp_all add: conf_sample_def conf_sample_valid [unfolded conf_sample_def])

end
