(* ===== verification/Registry.thy ===== *)
theory Registry
  imports Config
begin

text \<open>
  \<open>internal/controller/runner.go\<close>: the registry that keeps one running check per resource.

  Every acquisition and release of a lock is a step of its own, so the reconciles, the deletions and
  the shutdown of a manager interleave here as they do in the program. A pointer to a runner or a
  mutex is its index in the list of those ever created. The builder of a check, the clock, the
  expiry of a grace period and the outcome of \<open>Close\<close> are parameters.
\<close>

section \<open>State\<close>

record RegistryOptions =
  rg_RestartInterval :: duration
  rg_ShutdownGrace :: duration

definition registry_applyDefaults :: "RegistryOptions \<Rightarrow> RegistryOptions" where
  "registry_applyDefaults opts =
     opts\<lparr>rg_RestartInterval := (if rg_RestartInterval opts = 0 then seconds 5 else rg_RestartInterval opts),
          rg_ShutdownGrace := (if rg_ShutdownGrace opts \<le> 0 then seconds 30 else rg_ShutdownGrace opts)\<rparr>"

text \<open>A runner with the part of its check that the registry acts on: whether it is paused, and how often it
  was closed. \<open>rn_done\<close> is the closed channel \<open>done\<close>.\<close>

record Runner =
  rn_Key :: string
  rn_Hash :: string
  rn_StartedAt :: time
  rn_paused :: bool
  rn_cancelled :: bool
  rn_done :: bool
  rn_runErr :: "string option"
  rn_stopped :: bool
  rn_closes :: nat

record RunnerRegistry =
  rr_closed :: bool
  rr_runners :: "(string, nat) go_map"
  rr_locks :: "(string, nat) go_map"
  rr_waiters :: "(string, int) go_map"
  rr_lastStart :: "(string, time) go_map"
  rr_heap :: "Runner list"
  rr_mutexes :: "nat option list"

definition NewRunnerRegistry :: RunnerRegistry where
  "NewRunnerRegistry =
     \<lparr>rr_closed = False, rr_runners = [], rr_locks = [], rr_waiters = [], rr_lastStart = [], rr_heap = [],
      rr_mutexes = []\<rparr>"

datatype EnsureAction = ActionUnchanged | ActionStarted | ActionRestarted | ActionThrottled

record Outcome =
  ou_Action :: EnsureAction
  ou_RetryAfter :: duration

datatype RegErr = ErrRegistryClosed | ErrBuild | ErrStopTimeout | ErrCloseFailed

datatype RegResult = RFailed RegErr | RDid Outcome | RStopped

section \<open>Critical sections\<close>

definition reg_get :: "RunnerRegistry \<Rightarrow> string \<Rightarrow> nat option" where
  "reg_get r key = map_get (rr_runners r) key"

definition set_runner :: "nat \<Rightarrow> (Runner \<Rightarrow> Runner) \<Rightarrow> RunnerRegistry \<Rightarrow> RunnerRegistry" where
  "set_runner rid f r = r\<lparr>rr_heap := (rr_heap r)[rid := f (rr_heap r ! rid)]\<rparr>"

definition runner_Err :: "RunnerRegistry \<Rightarrow> nat \<Rightarrow> string option" where
  "runner_Err r rid = rn_runErr (rr_heap r ! rid)"

text \<open>The phase a runner reports, given that of its check.\<close>

definition Runner_Status :: "Runner \<Rightarrow> Phase \<times> string \<Rightarrow> Phase \<times> string" where
  "Runner_Status rn st = (case rn_runErr rn of None \<Rightarrow> st | Some err \<Rightarrow> (PhaseFailed, err))"

definition throttle :: "RegistryOptions \<Rightarrow> time \<Rightarrow> RunnerRegistry \<Rightarrow> string \<Rightarrow> duration" where
  "throttle opts now r key =
     (if rg_RestartInterval opts < 0 then 0
      else
        (case map_get (rr_lastStart r) key of
           None \<Rightarrow> 0
         | Some lst \<Rightarrow>
             let elapsed = time_sub now lst
             in if rg_RestartInterval opts \<le> elapsed then 0 else rg_RestartInterval opts - elapsed))"

text \<open>\<open>lock\<close> in two steps, and the function it returns in two: the registration with the key's mutex, its
  acquisition, its release, the end of the registration.\<close>

definition lock_register :: "string \<Rightarrow> RunnerRegistry \<Rightarrow> RunnerRegistry \<times> nat" where
  "lock_register key r =
     (let n = (case map_get (rr_waiters r) key of None \<Rightarrow> 0 | Some n \<Rightarrow> n);
          r = r\<lparr>rr_waiters := map_put key (n + 1) (rr_waiters r)\<rparr>
      in (case map_get (rr_locks r) key of
            Some mid \<Rightarrow> (r, mid)
          | None \<Rightarrow>
              (r\<lparr>rr_mutexes := rr_mutexes r @ [None],
                 rr_locks := map_put key (length (rr_mutexes r)) (rr_locks r)\<rparr>, length (rr_mutexes r))))"

definition lock_acquire :: "nat \<Rightarrow> nat \<Rightarrow> RunnerRegistry \<Rightarrow> RunnerRegistry option" where
  "lock_acquire tid mid r =
     (if rr_mutexes r ! mid = None then Some (r\<lparr>rr_mutexes := (rr_mutexes r)[mid := Some tid]\<rparr>) else None)"

definition lock_release :: "nat \<Rightarrow> RunnerRegistry \<Rightarrow> RunnerRegistry" where
  "lock_release mid r = r\<lparr>rr_mutexes := (rr_mutexes r)[mid := None]\<rparr>"

definition lock_unregister :: "string \<Rightarrow> RunnerRegistry \<Rightarrow> RunnerRegistry" where
  "lock_unregister key r =
     (let n = (case map_get (rr_waiters r) key of None \<Rightarrow> 0 | Some n \<Rightarrow> n) - 1;
          r = r\<lparr>rr_waiters := map_put key n (rr_waiters r)\<rparr>
      in if n \<le> 0 then r\<lparr>rr_locks := map_del key (rr_locks r), rr_waiters := map_del key (rr_waiters r)\<rparr> else r)"

text \<open>What \<open>Ensure\<close> decides about the runner it finds: \<open>Inl\<close> an outcome, \<open>Inr\<close> the runner to replace, if
  any. Between the reads of this section only the error of the runner can change, and only once.\<close>

definition ensure_decide ::
  "RegistryOptions \<Rightarrow> time \<Rightarrow> string \<Rightarrow> string \<Rightarrow> Spec \<Rightarrow> RunnerRegistry \<Rightarrow> RunnerRegistry \<times> (Outcome + nat option)"
where
  "ensure_decide opts now key hash spec r =
     (case reg_get r key of
        None \<Rightarrow> (r, Inr None)
      | Some rid \<Rightarrow>
          if rn_Hash (rr_heap r ! rid) = hash \<and> runner_Err r rid = None then
            (set_runner rid (\<lambda>rn. rn\<lparr>rn_paused := pl_Paused (sp_Policy spec)\<rparr>) r,
             Inl \<lparr>ou_Action = ActionUnchanged, ou_RetryAfter = 0\<rparr>)
          else if 0 < throttle opts now r key then
            (r, Inl \<lparr>ou_Action = ActionThrottled, ou_RetryAfter = throttle opts now r key\<rparr>)
          else (r, Inr (Some rid)))"

definition startLocked ::
  "(Spec \<Rightarrow> bool) \<Rightarrow> time \<Rightarrow> string \<Rightarrow> string \<Rightarrow> Spec \<Rightarrow> RunnerRegistry \<Rightarrow> RegErr + RunnerRegistry" where
  "startLocked bld now key hash spec r =
     (if \<not> bld spec then Inl ErrBuild
      else
        let runner = \<lparr>rn_Key = key, rn_Hash = hash, rn_StartedAt = now, rn_paused = pl_Paused (sp_Policy spec),
                      rn_cancelled = False, rn_done = False, rn_runErr = None, rn_stopped = False, rn_closes = 0\<rparr>
        in Inr (r\<lparr>rr_heap := rr_heap r @ [runner], rr_runners := map_put key (length (rr_heap r)) (rr_runners r),
                  rr_lastStart := map_put key now (rr_lastStart r)\<rparr>))"

text \<open>\<open>stopLocked\<close> up to the wait, and from the end of the wait on. The wait ends when the goroutine has gone
  or, \<open>re_graceOver\<close>, by the timer of the grace period.\<close>

definition stop_begin :: "string \<Rightarrow> nat \<Rightarrow> RunnerRegistry \<Rightarrow> RunnerRegistry" where
  "stop_begin key rid r =
     (let r = set_runner rid (\<lambda>rn. rn\<lparr>rn_stopped := True, rn_cancelled := True\<rparr>) r
      in if map_get (rr_runners r) key = Some rid then r\<lparr>rr_runners := map_del key (rr_runners r)\<rparr> else r)"

record reg_env =
  re_now :: time
  re_graceOver :: bool
  re_closeErr :: bool

definition stop_finish :: "reg_env \<Rightarrow> nat \<Rightarrow> RunnerRegistry \<Rightarrow> (RunnerRegistry \<times> RegErr option) option" where
  "stop_finish env rid r =
     (if \<not> rn_done (rr_heap r ! rid) \<and> \<not> re_graceOver env then None
      else
        let err = (if re_graceOver env then Some ErrStopTimeout else None);
            r = set_runner rid (\<lambda>rn. rn\<lparr>rn_closes := rn_closes rn + 1\<rparr>) r
        in Some (r, if re_closeErr env \<and> err = None then Some ErrCloseFailed else err))"

text \<open>The end of a runner's goroutine: the error it leaves, unless the context was cancelled, and the closed
  channel.\<close>

definition supervise_fail :: "string \<Rightarrow> nat \<Rightarrow> RunnerRegistry \<Rightarrow> RunnerRegistry" where
  "supervise_fail err rid r = set_runner rid (\<lambda>rn. rn\<lparr>rn_runErr := Some err\<rparr>) r"

definition supervise_exit :: "nat \<Rightarrow> RunnerRegistry \<Rightarrow> RunnerRegistry" where
  "supervise_exit rid r = set_runner rid (\<lambda>rn. rn\<lparr>rn_done := True\<rparr>) r"

definition Forget :: "string \<Rightarrow> RunnerRegistry \<Rightarrow> RunnerRegistry" where
  "Forget key r = r\<lparr>rr_lastStart := map_del key (rr_lastStart r)\<rparr>"

section \<open>Operations\<close>

datatype reg_op = DoEnsure string string Spec | DoStop string

fun op_key :: "reg_op \<Rightarrow> string" where
  "op_key (DoEnsure key hash spec) = key"
| "op_key (DoStop key) = key"

text \<open>The places inside an operation that holds its key's lock.\<close>

datatype stage =
    Enter | Checked | Stopping nat | Waiting nat | Starting EnsureAction | Recheck EnsureAction
  | Undoing nat | UndoWaiting nat

definition result_of :: "RegErr option \<Rightarrow> RegResult \<Rightarrow> RegResult" where
  "result_of err ok = (case err of None \<Rightarrow> ok | Some e \<Rightarrow> RFailed e)"

fun body_step ::
  "RegistryOptions \<Rightarrow> (Spec \<Rightarrow> bool) \<Rightarrow> reg_env \<Rightarrow> reg_op \<Rightarrow> stage \<Rightarrow> RunnerRegistry \<Rightarrow>
    (RunnerRegistry \<times> (stage + RegResult)) option"
where
  "body_step opts bld env (DoStop key) Enter r =
     Some (r, case reg_get r key of None \<Rightarrow> Inr RStopped | Some rid \<Rightarrow> Inl (Stopping rid))"
| "body_step opts bld env (DoStop key) (Waiting rid) r =
     map_option (\<lambda>(r, err). (r, Inr (result_of err RStopped))) (stop_finish env rid r)"
| "body_step opts bld env (DoEnsure key hash spec) Enter r =
     Some (r, if rr_closed r then Inr (RFailed ErrRegistryClosed) else Inl Checked)"
| "body_step opts bld env (DoEnsure key hash spec) Checked r =
     (case ensure_decide opts (re_now env) key hash spec r of
        (r, Inl ou) \<Rightarrow> Some (r, Inr (RDid ou))
      | (r, Inr None) \<Rightarrow> Some (r, Inl (Starting ActionStarted))
      | (r, Inr (Some rid)) \<Rightarrow> Some (r, Inl (Stopping rid)))"
| "body_step opts bld env (DoEnsure key hash spec) (Waiting rid) r =
     map_option
       (\<lambda>(r, err). (r, case err of None \<Rightarrow> Inl (Starting ActionRestarted) | Some e \<Rightarrow> Inr (RFailed e)))
       (stop_finish env rid r)"
| "body_step opts bld env (DoEnsure key hash spec) (Starting action) r =
     (case startLocked bld (re_now env) key hash spec r of
        Inl err \<Rightarrow> Some (r, Inr (RFailed err))
      | Inr r \<Rightarrow> Some (r, Inl (Recheck action)))"
| "body_step opts bld env (DoEnsure key hash spec) (Recheck action) r =
     Some (r,
       if rr_closed r then
         (case reg_get r key of None \<Rightarrow> Inr (RFailed ErrRegistryClosed) | Some rid \<Rightarrow> Inl (Undoing rid))
       else Inr (RDid \<lparr>ou_Action = action, ou_RetryAfter = 0\<rparr>))"
| "body_step opts bld env (DoEnsure key hash spec) (Undoing rid) r =
     Some (stop_begin key rid r, Inl (UndoWaiting rid))"
| "body_step opts bld env (DoEnsure key hash spec) (UndoWaiting rid) r =
     map_option
       (\<lambda>(r, err). (r, Inr (result_of err (RFailed ErrRegistryClosed)))) (stop_finish env rid r)"
| "body_step opts bld env opn (Stopping rid) r = Some (stop_begin (op_key opn) rid r, Inl (Waiting rid))"
| "body_step opts bld env opn st r = None"

text \<open>A goroutine: an operation that is called, waits for its key's mutex, works, releases the mutex and its
  registration; or \<open>Shutdown\<close>, which latches, spawns a stop for every key and waits for them.\<close>

datatype pc =
    Call reg_op | LockWait reg_op nat | Body reg_op nat stage | Unlock reg_op nat RegResult
  | Release reg_op nat RegResult | Returned reg_op RegResult
  | ShutLatch | ShutKeys | ShutJoin "nat list" | ShutDone

record reg_sys =
  rs_reg :: RunnerRegistry
  rs_threads :: "pc list"

definition is_returned :: "pc \<Rightarrow> bool" where
  "is_returned p = (case p of Returned opn res \<Rightarrow> True | _ \<Rightarrow> False)"

definition reg_Keys :: "RunnerRegistry \<Rightarrow> string list" where
  "reg_Keys r = map fst (rr_runners r)"

text \<open>One step of a goroutine: the registry, where it is next, and the goroutines it starts.\<close>

fun thread_step ::
  "RegistryOptions \<Rightarrow> (Spec \<Rightarrow> bool) \<Rightarrow> reg_env \<Rightarrow> nat \<Rightarrow> pc list \<Rightarrow> pc \<Rightarrow> RunnerRegistry \<Rightarrow>
    (RunnerRegistry \<times> pc \<times> pc list) option"
where
  "thread_step opts bld env tid ths (Call opn) r =
     (case lock_register (op_key opn) r of (r, mid) \<Rightarrow> Some (r, LockWait opn mid, []))"
| "thread_step opts bld env tid ths (LockWait opn mid) r =
     map_option (\<lambda>r. (r, Body opn mid Enter, [])) (lock_acquire tid mid r)"
| "thread_step opts bld env tid ths (Body opn mid st) r =
     map_option (\<lambda>(r, res). (r, case res of Inl st \<Rightarrow> Body opn mid st | Inr res \<Rightarrow> Unlock opn mid res, []))
       (body_step opts bld env opn st r)"
| "thread_step opts bld env tid ths (Unlock opn mid res) r = Some (lock_release mid r, Release opn mid res, [])"
| "thread_step opts bld env tid ths (Release opn mid res) r =
     Some (lock_unregister (op_key opn) r, Returned opn res, [])"
| "thread_step opts bld env tid ths ShutLatch r = Some (r\<lparr>rr_closed := True\<rparr>, ShutKeys, [])"
| "thread_step opts bld env tid ths ShutKeys r =
     Some (r, ShutJoin [length ths ..< length ths + length (reg_Keys r)], map (\<lambda>k. Call (DoStop k)) (reg_Keys r))"
| "thread_step opts bld env tid ths (ShutJoin children) r =
     (if \<forall>c \<in> set children. is_returned (ths ! c) then Some (r, ShutDone, []) else None)"
| "thread_step opts bld env tid ths p r = None"

text \<open>What can happen to a manager's registry.\<close>

datatype reg_event =
    EvCall reg_op | EvShutdown | EvThread nat reg_env | EvFail nat string | EvExit nat | EvForget string

definition reg_apply ::
  "RegistryOptions \<Rightarrow> (Spec \<Rightarrow> bool) \<Rightarrow> reg_event \<Rightarrow> reg_sys \<Rightarrow> reg_sys option" where
  "reg_apply opts bld ev s =
     (case ev of
        EvCall opn \<Rightarrow> Some (s\<lparr>rs_threads := rs_threads s @ [Call opn]\<rparr>)
      | EvShutdown \<Rightarrow> Some (s\<lparr>rs_threads := rs_threads s @ [ShutLatch]\<rparr>)
      | EvThread tid env \<Rightarrow>
          if length (rs_threads s) \<le> tid then None
          else
            map_option
              (\<lambda>(r, p, new). s\<lparr>rs_reg := r, rs_threads := (rs_threads s)[tid := p] @ new\<rparr>)
              (thread_step opts bld env tid (rs_threads s) (rs_threads s ! tid) (rs_reg s))
      | EvFail rid err \<Rightarrow>
          if length (rr_heap (rs_reg s)) \<le> rid \<or> rn_done (rr_heap (rs_reg s) ! rid) then None
          else Some (s\<lparr>rs_reg := supervise_fail err rid (rs_reg s)\<rparr>)
      | EvExit rid \<Rightarrow>
          if length (rr_heap (rs_reg s)) \<le> rid then None
          else Some (s\<lparr>rs_reg := supervise_exit rid (rs_reg s)\<rparr>)
      | EvForget key \<Rightarrow> Some (s\<lparr>rs_reg := Forget key (rs_reg s)\<rparr>))"

inductive reg_run :: "RegistryOptions \<Rightarrow> (Spec \<Rightarrow> bool) \<Rightarrow> reg_sys \<Rightarrow> bool" for opts bld where
  start: "reg_run opts bld \<lparr>rs_reg = NewRunnerRegistry, rs_threads = []\<rparr>"
| event: "reg_run opts bld s \<Longrightarrow> reg_apply opts bld ev s = Some s' \<Longrightarrow> reg_run opts bld s'"

section \<open>The mutexes of a key\<close>

text \<open>The key and the mutex a goroutine is registered with, and the mutex it holds.\<close>

definition registered :: "pc \<Rightarrow> (string \<times> nat) option" where
  "registered p =
     (case p of
        LockWait opn m \<Rightarrow> Some (op_key opn, m) | Body opn m st \<Rightarrow> Some (op_key opn, m)
      | Unlock opn m res \<Rightarrow> Some (op_key opn, m) | Release opn m res \<Rightarrow> Some (op_key opn, m) | _ \<Rightarrow> None)"

definition holding :: "pc \<Rightarrow> nat option" where
  "holding p = (case p of Body opn m st \<Rightarrow> Some m | Unlock opn m res \<Rightarrow> Some m | _ \<Rightarrow> None)"

lemma registered_simps [simp]:
  "registered (Call opn) = None" "registered (LockWait opn m) = Some (op_key opn, m)"
  "registered (Body opn m st) = Some (op_key opn, m)" "registered (Unlock opn m res) = Some (op_key opn, m)"
  "registered (Release opn m res) = Some (op_key opn, m)" "registered (Returned opn res) = None"
  "registered ShutLatch = None" "registered ShutKeys = None" "registered (ShutJoin cs) = None" "registered ShutDone = None"
  "holding (Call opn) = None" "holding (LockWait opn m) = None" "holding (Body opn m st) = Some m"
  "holding (Unlock opn m res) = Some m" "holding (Release opn m res) = None" "holding (Returned opn res) = None"
  "holding ShutLatch = None" "holding ShutKeys = None" "holding (ShutJoin cs) = None" "holding ShutDone = None"
  by (simp_all add: registered_def holding_def)

definition users :: "string \<Rightarrow> pc list \<Rightarrow> nat" where
  "users k ths = length (filter (\<lambda>p. map_option fst (registered p) = Some k) ths)"

definition lock_inv :: "RunnerRegistry \<Rightarrow> pc list \<Rightarrow> bool" where
  "lock_inv r ths \<longleftrightarrow>
     (\<forall>t < length ths. \<forall>k m. registered (ths ! t) = Some (k, m) \<longrightarrow> map_get (rr_locks r) k = Some m)
   \<and> (\<forall>k m. map_get (rr_locks r) k = Some m \<longrightarrow> m < length (rr_mutexes r))
   \<and> (\<forall>k. map_get (rr_waiters r) k = (if users k ths = 0 then None else Some (int (users k ths))))
   \<and> (\<forall>k. map_get (rr_locks r) k = None \<longleftrightarrow> users k ths = 0)
   \<and> (\<forall>t < length ths. \<forall>m. holding (ths ! t) = Some m \<longrightarrow> rr_mutexes r ! m = Some t)"

lemma users_append [simp]: "users k (xs @ ys) = users k xs + users k ys"
  by (simp add: users_def)

lemma users_update:
  assumes "t < length ths"
  shows "users k (ths[t := p]) + (if map_option fst (registered (ths ! t)) = Some k then 1 else 0)
    = users k ths + (if map_option fst (registered p) = Some k then 1 else 0)"
proof -
  have "users k ths = users k (take t ths @ ths ! t # drop (Suc t) ths)"
    using id_take_nth_drop [OF assms] by simp
  moreover have "users k (ths[t := p]) = users k (take t ths @ p # drop (Suc t) ths)"
    by (simp add: upd_conv_take_nth_drop [OF assms])
  ultimately show ?thesis by (simp add: users_def)
qed

lemma users_same: "t < length ths \<Longrightarrow> registered p = registered (ths ! t) \<Longrightarrow> users k (ths[t := p]) = users k ths"
  using users_update [of t ths k p] by simp

lemma set_runner_simps [simp]:
  "rr_locks (set_runner i f r) = rr_locks r" "rr_waiters (set_runner i f r) = rr_waiters r"
  "rr_mutexes (set_runner i f r) = rr_mutexes r" "rr_closed (set_runner i f r) = rr_closed r"
  "rr_runners (set_runner i f r) = rr_runners r" "rr_lastStart (set_runner i f r) = rr_lastStart r"
  "length (rr_heap (set_runner i f r)) = length (rr_heap r)"
  by (simp_all add: set_runner_def)

lemma body_step_locks:
  assumes "body_step opts bld env opn st r = Some (r', res)"
  shows "rr_locks r' = rr_locks r \<and> rr_waiters r' = rr_waiters r \<and> rr_mutexes r' = rr_mutexes r
    \<and> rr_closed r' = rr_closed r"
  using assms
  by (auto simp: ensure_decide_def startLocked_def stop_begin_def stop_finish_def Let_def
      elim!: body_step.elims split: if_splits option.splits sum.splits prod.splits)

lemmas lock_invD =
  lock_inv_def [THEN iffD1, THEN conjunct1, rule_format]
  lock_inv_def [THEN iffD1, THEN conjunct2, THEN conjunct1, rule_format]
  lock_inv_def [THEN iffD1, THEN conjunct2, THEN conjunct2, THEN conjunct1, rule_format]
  lock_inv_def [THEN iffD1, THEN conjunct2, THEN conjunct2, THEN conjunct2, THEN conjunct1, rule_format]
  lock_inv_def [THEN iffD1, THEN conjunct2, THEN conjunct2, THEN conjunct2, THEN conjunct2, rule_format]

lemma lock_invI:
  assumes "\<And>t k m. t < length ths \<Longrightarrow> registered (ths ! t) = Some (k, m) \<Longrightarrow> map_get (rr_locks r) k = Some m"
    and "\<And>k m. map_get (rr_locks r) k = Some m \<Longrightarrow> m < length (rr_mutexes r)"
    and "\<And>k. map_get (rr_waiters r) k = (if users k ths = 0 then None else Some (int (users k ths)))"
    and "\<And>k. map_get (rr_locks r) k = None \<longleftrightarrow> users k ths = 0"
    and "\<And>t m. t < length ths \<Longrightarrow> holding (ths ! t) = Some m \<Longrightarrow> rr_mutexes r ! m = Some t"
  shows "lock_inv r ths"
  unfolding lock_inv_def by (intro conjI allI impI) (rule assms; assumption?)+

lemma nth_append_plain:
  assumes "t < length (ths @ new)" and "\<forall>p \<in> set new. f p = None" and "f ((ths @ new) ! t) = Some x"
  shows "t < length ths \<and> (ths @ new) ! t = ths ! t"
proof (rule ccontr)
  assume "\<not> ?thesis"
  then have "\<not> t < length ths" by (simp add: nth_append)
  then have "(ths @ new) ! t = new ! (t - length ths)" "new ! (t - length ths) \<in> set new"
    using assms(1) by (simp_all add: nth_append)
  then show False using assms(2,3) by simp
qed

lemma lock_inv_append:
  assumes inv: "lock_inv r ths" and "\<forall>p \<in> set new. registered p = None" and "\<forall>p \<in> set new. holding p = None"
  shows "lock_inv r (ths @ new)"
proof -
  have none: "users k new = 0" for k using assms(2) by (auto simp: users_def filter_empty_conv)
  show ?thesis
  proof (rule lock_invI)
    fix t k m assume t: "t < length (ths @ new)" "registered ((ths @ new) ! t) = Some (k, m)"
    show "map_get (rr_locks r) k = Some m"
      using lock_invD(1) [OF inv, of t k m] nth_append_plain [OF t(1) assms(2) t(2)] t(2) by simp
  next
    fix t m assume t: "t < length (ths @ new)" "holding ((ths @ new) ! t) = Some m"
    show "rr_mutexes r ! m = Some t"
      using lock_invD(5) [OF inv, of t m] nth_append_plain [OF t(1) assms(3) t(2)] t(2) by simp
  qed (simp_all add: none lock_invD(2-4) [OF inv])
qed

lemma lock_inv_same:
  assumes inv: "lock_inv r ths" and t: "t < length ths"
    and p: "registered p = registered (ths ! t)" "holding p = holding (ths ! t)"
    and r': "rr_locks r' = rr_locks r" "rr_waiters r' = rr_waiters r" "rr_mutexes r' = rr_mutexes r"
  shows "lock_inv r' (ths[t := p])"
proof -
  have nth: "registered (ths[t := p] ! u) = registered (ths ! u)" "holding (ths[t := p] ! u) = holding (ths ! u)" for u
    using t p by (cases "u = t"; simp)+
  show ?thesis
    by (rule lock_invI) (use lock_invD [OF inv] in \<open>simp_all add: nth r' users_same [OF t p(1)]\<close>)
qed

lemma lock_register_inv:
  assumes inv: "lock_inv r ths" and t: "t < length ths" and p: "ths ! t = Call opn"
    and reg: "lock_register (op_key opn) r = (r', mid)"
  shows "lock_inv r' (ths[t := LockWait opn mid])"
proof -
  let ?k = "op_key opn"
  have u: "users k (ths[t := LockWait opn mid]) = users k ths + (if k = ?k then 1 else 0)" for k
    using users_update [OF t, of k "LockWait opn mid"] p by auto
  have locks: "map_get (rr_locks r') k = (if k = ?k then Some mid else map_get (rr_locks r) k)"
    and old: "map_get (rr_locks r) ?k = Some m \<Longrightarrow> m = mid"
    and mid: "mid < length (rr_mutexes r')"
    and mutexes: "m < length (rr_mutexes r) \<Longrightarrow> m < length (rr_mutexes r') \<and> rr_mutexes r' ! m = rr_mutexes r ! m" for k m
    using reg lock_invD(2) [OF inv, of ?k]
    by (auto simp: lock_register_def Let_def nth_append split: option.splits)
  have waiters: "map_get (rr_waiters r') k = (if k = ?k then Some (int (users k ths) + 1) else map_get (rr_waiters r) k)" for k
    using reg lock_invD(3) [OF inv, of ?k]
    by (auto simp: lock_register_def Let_def split: option.splits if_splits)
  show ?thesis
  proof (rule lock_invI)
    fix u k m assume "u < length (ths[t := LockWait opn mid])" "registered (ths[t := LockWait opn mid] ! u) = Some (k, m)"
    then show "map_get (rr_locks r') k = Some m"
      using lock_invD(1) [OF inv, of u k m] old t by (cases "u = t") (auto simp: locks)
  next
    fix k m assume "map_get (rr_locks r') k = Some m"
    then show "m < length (rr_mutexes r')"
      using mid mutexes lock_invD(2) [OF inv, of k m] by (auto simp: locks split: if_splits)
  next
    fix u m assume "u < length (ths[t := LockWait opn mid])" "holding (ths[t := LockWait opn mid] ! u) = Some m"
    then have h: "u < length ths" "holding (ths ! u) = Some m" using t by (cases "u = t"; simp)+
    then obtain k where "registered (ths ! u) = Some (k, m)" by (cases "ths ! u") auto
    then show "rr_mutexes r' ! m = Some u"
      using lock_invD(5) [OF inv h] lock_invD(1) [OF inv h(1)] lock_invD(2) [OF inv] mutexes by metis
  qed (auto simp: u locks waiters lock_invD(3,4) [OF inv])
qed

lemma lock_acquire_inv:
  assumes inv: "lock_inv r ths" and t: "t < length ths" and p: "ths ! t = LockWait opn mid"
    and acq: "lock_acquire t mid r = Some r'"
  shows "lock_inv r' (ths[t := Body opn mid Enter])"
proof -
  have r': "r' = r\<lparr>rr_mutexes := (rr_mutexes r)[mid := Some t]\<rparr>" and free: "rr_mutexes r ! mid = None"
    using acq by (auto simp: lock_acquire_def split: if_splits)
  have mid: "mid < length (rr_mutexes r)" using lock_invD(2) [OF inv lock_invD(1) [OF inv t]] p by simp
  have u: "users k (ths[t := Body opn mid Enter]) = users k ths" for k using t p by (intro users_same) simp_all
  show ?thesis
  proof (rule lock_invI)
    fix u k m assume "u < length (ths[t := Body opn mid Enter])" "registered (ths[t := Body opn mid Enter] ! u) = Some (k, m)"
    then show "map_get (rr_locks r') k = Some m"
      using lock_invD(1) [OF inv, of u k m] lock_invD(1) [OF inv t] p t by (cases "u = t") (auto simp: r')
  next
    fix u m assume h: "u < length (ths[t := Body opn mid Enter])" "holding (ths[t := Body opn mid Enter] ! u) = Some m"
    show "rr_mutexes r' ! m = Some u"
    proof (cases "u = t")
      case False
      then have "rr_mutexes r ! m = Some u" using lock_invD(5) [OF inv, of u m] h by simp
      then show ?thesis using free by (cases "m = mid") (simp_all add: r')
    qed (use h mid t in \<open>simp add: r'\<close>)
  qed (use lock_invD(2-4) [OF inv] in \<open>simp_all add: r' u\<close>)
qed

lemma lock_release_inv:
  assumes inv: "lock_inv r ths" and t: "t < length ths" and p: "ths ! t = Unlock opn mid res"
  shows "lock_inv (lock_release mid r) (ths[t := Release opn mid res])"
proof -
  have u: "users k (ths[t := Release opn mid res]) = users k ths" for k using t p by (intro users_same) simp_all
  show ?thesis
  proof (rule lock_invI)
    fix u k m assume "u < length (ths[t := Release opn mid res])" "registered (ths[t := Release opn mid res] ! u) = Some (k, m)"
    then show "map_get (rr_locks (lock_release mid r)) k = Some m"
      using lock_invD(1) [OF inv, of u k m] lock_invD(1) [OF inv t] p t by (cases "u = t") (auto simp: lock_release_def)
  next
    fix u m assume h: "u < length (ths[t := Release opn mid res])" "holding (ths[t := Release opn mid res] ! u) = Some m"
    then have "u \<noteq> t" using t by auto
    then have "rr_mutexes r ! m = Some u" using lock_invD(5) [OF inv, of u m] h by simp
    moreover have "rr_mutexes r ! mid = Some t" using lock_invD(5) [OF inv t] p by simp
    ultimately show "rr_mutexes (lock_release mid r) ! m = Some u"
      using \<open>u \<noteq> t\<close> by (cases "m = mid") (simp_all add: lock_release_def)
  qed (use lock_invD(2-4) [OF inv] in \<open>simp_all add: u lock_release_def\<close>)
qed

lemma lock_unregister_inv:
  assumes inv: "lock_inv r ths" and t: "t < length ths" and p: "ths ! t = Release opn mid res"
  shows "lock_inv (lock_unregister (op_key opn) r) (ths[t := Returned opn res])"
proof -
  let ?k = "op_key opn" and ?ths = "ths[t := Returned opn res]"
  let ?r = "lock_unregister ?k r"
  have u: "users k ths = users k ?ths + (if k = ?k then 1 else 0)" for k
    using users_update [OF t, of k "Returned opn res"] p by auto
  have w: "map_get (rr_waiters r) ?k = Some (int (users ?k ?ths) + 1)" using lock_invD(3) [OF inv, of ?k] u [of ?k] by simp
  then have waiters: "map_get (rr_waiters ?r) k = (if k = ?k then if users k ?ths = 0 then None else Some (int (users k ?ths))
      else map_get (rr_waiters r) k)"
    and locks: "map_get (rr_locks ?r) k = (if k = ?k \<and> users k ?ths = 0 then None else map_get (rr_locks r) k)"
    and mutexes: "rr_mutexes ?r = rr_mutexes r" for k
    by (auto simp: lock_unregister_def Let_def)
  have other: "u < length ths \<and> u \<noteq> t" if "u < length ?ths" "registered (?ths ! u) = Some x \<or> holding (?ths ! u) = Some m" for u x m
    using that t by (cases "u = t") auto
  show ?thesis
  proof (rule lock_invI)
    fix v k m assume h: "v < length ?ths" "registered (?ths ! v) = Some (k, m)"
    then have v: "v < length ths" "v \<noteq> t" using other by blast+
    then have "?ths ! v \<in> set ?ths" using h(1) by (metis nth_mem)
    then have "users k ?ths \<noteq> 0" using h(2) by (auto simp: users_def filter_empty_conv)
    then show "map_get (rr_locks ?r) k = Some m" using lock_invD(1) [OF inv v(1)] h(2) v(2) by (auto simp: locks)
  next
    fix v m assume h: "v < length ?ths" "holding (?ths ! v) = Some m"
    then have "v < length ths" "v \<noteq> t" using other by blast+
    then show "rr_mutexes ?r ! m = Some v" using lock_invD(5) [OF inv] h(2) by (simp add: mutexes)
  next
    fix k m assume "map_get (rr_locks ?r) k = Some m"
    then show "m < length (rr_mutexes ?r)" using lock_invD(2) [OF inv] by (auto simp: locks mutexes split: if_splits)
  next
    fix k show "map_get (rr_waiters ?r) k = (if users k ?ths = 0 then None else Some (int (users k ?ths)))"
      using lock_invD(3) [OF inv, of k] u [of k] by (simp add: waiters)
  next
    fix k show "map_get (rr_locks ?r) k = None \<longleftrightarrow> users k ?ths = 0"
      using lock_invD(4) [OF inv, of k] u [of k] by (auto simp: locks)
  qed
qed

lemma thread_step_lock_inv:
  assumes inv: "lock_inv r ths" and t: "t < length ths"
    and step: "thread_step opts bld env t ths (ths ! t) r = Some (r', p, new)"
  shows "lock_inv r' (ths[t := p] @ new)"
proof -
  have "lock_inv r' (ths[t := p]) \<and> (\<forall>q \<in> set new. registered q = None \<and> holding q = None)"
  proof (cases "ths ! t")
    case (Call opn)
    then show ?thesis using step lock_register_inv [OF inv t] by (auto split: prod.splits)
  next
    case (LockWait opn mid)
    then show ?thesis using step lock_acquire_inv [OF inv t] by auto
  next
    case (Body opn mid st)
    obtain res where b: "body_step opts bld env opn st r = Some (r', res)" and new: "new = []"
      "p = (case res of Inl st \<Rightarrow> Body opn mid st | Inr res \<Rightarrow> Unlock opn mid res)"
      using step Body by auto
    have "registered p = registered (ths ! t)" "holding p = holding (ths ! t)"
      unfolding new(2) Body by (simp_all split: sum.split)
    then show ?thesis using lock_inv_same [OF inv t] body_step_locks [OF b] new(1) by simp
  next
    case (Unlock opn mid res)
    then show ?thesis using step lock_release_inv [OF inv t] by auto
  next
    case (Release opn mid res)
    then show ?thesis using step lock_unregister_inv [OF inv t] by auto
  qed (use step lock_inv_same [OF inv t, of p r'] in \<open>auto split: if_splits\<close>)
  then show ?thesis by (intro lock_inv_append) auto
qed

text \<open>Two goroutines never work on the same key.\<close>

lemma body_exclusive:
  assumes "lock_inv r ths" and "t < length ths" and "u < length ths"
    and "ths ! t = Body opn m st" and "ths ! u = Body opn' m' st'" and "op_key opn = op_key opn'"
  shows "t = u"
proof -
  have "m = m'" using lock_invD(1) [OF assms(1,2)] lock_invD(1) [OF assms(1,3)] assms(4-6) by simp
  then show ?thesis using lock_invD(5) [OF assms(1,2)] lock_invD(5) [OF assms(1,3)] assms(4,5) by simp
qed

section \<open>No runner is orphaned\<close>

definition heap_inv :: "RunnerRegistry \<Rightarrow> bool" where
  "heap_inv r \<longleftrightarrow>
     (\<forall>k i. map_get (rr_runners r) k = Some i \<longrightarrow>
        i < length (rr_heap r) \<and> rn_Key (rr_heap r ! i) = k \<and> \<not> rn_stopped (rr_heap r ! i))
   \<and> (\<forall>i < length (rr_heap r). \<not> rn_stopped (rr_heap r ! i) \<longrightarrow> map_get (rr_runners r) (rn_Key (rr_heap r ! i)) = Some i)"

text \<open>What a goroutine that works on a key counts on finding in the map.\<close>

fun expects_at :: "stage \<Rightarrow> nat option option" where
  "expects_at (Stopping i) = Some (Some i)"
| "expects_at (Undoing i) = Some (Some i)"
| "expects_at (Waiting i) = Some None"
| "expects_at (Starting a) = Some None"
| "expects_at st = None"

definition stage_ok :: "RunnerRegistry \<Rightarrow> pc \<Rightarrow> bool" where
  "stage_ok r p \<longleftrightarrow>
     (case p of Body opn m st \<Rightarrow> (\<forall>x. expects_at st = Some x \<longrightarrow> map_get (rr_runners r) (op_key opn) = x) | _ \<Rightarrow> True)"

lemma set_runner_heap_inv:
  assumes "heap_inv r" and "\<And>rn. rn_Key (f rn) = rn_Key rn" and "\<And>rn. rn_stopped (f rn) = rn_stopped rn"
  shows "heap_inv (set_runner i f r)"
proof -
  have "rn_Key ((rr_heap r)[i := f (rr_heap r ! i)] ! j) = rn_Key (rr_heap r ! j)
      \<and> rn_stopped ((rr_heap r)[i := f (rr_heap r ! i)] ! j) = rn_stopped (rr_heap r ! j)" for j
    by (cases "i < length (rr_heap r)") (simp_all add: nth_list_update not_less list_update_beyond assms(2,3))
  then show ?thesis using assms(1) by (simp add: heap_inv_def set_runner_def)
qed

lemma stop_begin_heap_inv:
  assumes "heap_inv r" and "map_get (rr_runners r) key = Some i"
  shows "heap_inv (stop_begin key i r)" "map_get (rr_runners (stop_begin key i r)) = (map_get (rr_runners r))(key := None)"
proof -
  have i: "i < length (rr_heap r)" "rn_Key (rr_heap r ! i) = key" using assms by (auto simp: heap_inv_def)
  show map: "map_get (rr_runners (stop_begin key i r)) = (map_get (rr_runners r))(key := None)"
    using assms(2) by (auto simp: stop_begin_def Let_def)
  have heap: "rr_heap (stop_begin key i r) = (rr_heap r)[i := (rr_heap r ! i)\<lparr>rn_stopped := True, rn_cancelled := True\<rparr>]"
    by (simp add: stop_begin_def Let_def set_runner_def)
  have "j \<noteq> i" if "k \<noteq> key" "map_get (rr_runners r) k = Some j" for k j
    using that assms(1) i(2) unfolding heap_inv_def by metis
  moreover have "rn_Key (rr_heap r ! j) \<noteq> key" if "j < length (rr_heap r)" "j \<noteq> i" "\<not> rn_stopped (rr_heap r ! j)" for j
    using that assms by (auto simp: heap_inv_def)
  ultimately show "heap_inv (stop_begin key i r)"
    using assms(1) i by (auto simp: heap_inv_def map heap nth_list_update)
qed

lemma start_heap_inv:
  assumes "heap_inv r" and "map_get (rr_runners r) key = None" and "startLocked bld now key hash spec r = Inr r'"
  shows "heap_inv r'" "k \<noteq> key \<Longrightarrow> map_get (rr_runners r') k = map_get (rr_runners r) k"
proof -
  show "heap_inv r'"
    using assms by (auto simp: heap_inv_def startLocked_def Let_def nth_append less_Suc_eq split: if_splits)
  show "k \<noteq> key \<Longrightarrow> map_get (rr_runners r') k = map_get (rr_runners r) k"
    using assms(3) by (auto simp: startLocked_def Let_def split: if_splits)
qed

lemma stop_finish_heap_inv:
  "heap_inv r \<Longrightarrow> stop_finish env i r = Some (r', err) \<Longrightarrow> heap_inv r' \<and> rr_runners r' = rr_runners r"
  by (auto simp: stop_finish_def Let_def intro!: set_runner_heap_inv split: if_splits)

lemma decide_heap_inv:
  "heap_inv r \<Longrightarrow> ensure_decide opts now key hash spec r = (r', d) \<Longrightarrow> heap_inv r' \<and> rr_runners r' = rr_runners r
     \<and> (\<forall>x. d = Inr x \<longrightarrow> map_get (rr_runners r') key = x)"
  by (auto simp: ensure_decide_def reg_get_def intro!: set_runner_heap_inv split: if_splits option.splits)

text \<open>A step inside an operation keeps the map in order, writes no other key, and leaves the map as its next
  stage expects it.\<close>

lemma body_step_heap_inv:
  assumes inv: "heap_inv r" and ok: "stage_ok r (Body opn m st)"
    and step: "body_step opts bld env opn st r = Some (r', res)"
  shows "heap_inv r' \<and> (\<forall>k. k \<noteq> op_key opn \<longrightarrow> map_get (rr_runners r') k = map_get (rr_runners r) k)
    \<and> (\<forall>st'. res = Inl st' \<longrightarrow> stage_ok r' (Body opn m st'))"
proof (cases opn)
  case (DoStop key)
  show ?thesis
    using step ok stop_begin_heap_inv [OF inv, of key] stop_finish_heap_inv [OF inv] inv
    by (cases st) (auto simp: DoStop stage_ok_def reg_get_def split: option.splits)
next
  case (DoEnsure key hash spec)
  show ?thesis
  proof (cases st)
    case Checked
    obtain r1 d where d: "ensure_decide opts (re_now env) key hash spec r = (r1, d)" by fastforce
    show ?thesis using step decide_heap_inv [OF inv d] d
      by (auto simp: DoEnsure Checked stage_ok_def split: sum.splits option.splits)
  next
    case (Starting a)
    then have none: "map_get (rr_runners r) key = None" using ok by (simp add: stage_ok_def DoEnsure)
    show ?thesis using step start_heap_inv [OF inv none] inv
      by (auto simp: DoEnsure Starting stage_ok_def split: sum.splits)
  next
    case (Waiting i)
    then show ?thesis using step ok stop_finish_heap_inv [OF inv]
      by (fastforce simp: DoEnsure stage_ok_def split: option.splits)
  qed (use step ok stop_begin_heap_inv [OF inv, of key] stop_finish_heap_inv [OF inv] inv in
      \<open>auto simp: DoEnsure stage_ok_def reg_get_def split: option.splits if_splits\<close>)
qed

definition reg_inv :: "reg_sys \<Rightarrow> bool" where
  "reg_inv s \<longleftrightarrow> lock_inv (rs_reg s) (rs_threads s) \<and> heap_inv (rs_reg s)
     \<and> (\<forall>t < length (rs_threads s). stage_ok (rs_reg s) (rs_threads s ! t))"

lemma stage_ok_runners: "rr_runners r' = rr_runners r \<Longrightarrow> stage_ok r' p = stage_ok r p"
  by (simp add: stage_ok_def cong: pc.case_cong)

lemma stage_ok_plain: "holding p = None \<Longrightarrow> stage_ok r p" "stage_ok r (Unlock opn m res)" "stage_ok r (Body opn m Enter)"
  by (auto simp: stage_ok_def split: pc.splits)

text \<open>The lock operations leave the map and the runners alone.\<close>

lemma lock_ops_runners [simp]:
  "rr_runners (fst (lock_register k r)) = rr_runners r" "rr_heap (fst (lock_register k r)) = rr_heap r"
  "rr_runners (lock_release m r) = rr_runners r" "rr_heap (lock_release m r) = rr_heap r"
  "rr_runners (lock_unregister k r) = rr_runners r" "rr_heap (lock_unregister k r) = rr_heap r"
  by (simp_all add: lock_register_def lock_release_def lock_unregister_def Let_def split: option.split)

lemma heap_inv_cong: "rr_runners r' = rr_runners r \<Longrightarrow> rr_heap r' = rr_heap r \<Longrightarrow> heap_inv r' = heap_inv r"
  by (simp add: heap_inv_def)

lemma thread_step_outside:
  assumes "thread_step opts bld env t ths p r = Some (r', q, new)" and "\<And>opn m st. p \<noteq> Body opn m st"
  shows "rr_runners r' = rr_runners r \<and> rr_heap r' = rr_heap r \<and> stage_ok r' q \<and> (\<forall>x \<in> set new. stage_ok r' x)"
proof (cases p)
  case (Call opn)
  then show ?thesis
    using assms(1) lock_ops_runners(1,2) [of "op_key opn" r]
    by (auto simp: stage_ok_plain simp del: lock_ops_runners split: prod.splits)
qed (use assms in \<open>auto simp: stage_ok_plain lock_acquire_def split: if_splits\<close>)

lemma stage_ok_append: "\<forall>t < length ths. stage_ok r (ths ! t) \<Longrightarrow> \<forall>x \<in> set new. stage_ok r x \<Longrightarrow>
    \<forall>t < length (ths @ new). stage_ok r ((ths @ new) ! t)"
  unfolding all_set_conv_all_nth [symmetric] by auto

lemma thread_step_reg_inv:
  assumes inv: "reg_inv s" and t: "t < length (rs_threads s)"
    and step: "thread_step opts bld env t (rs_threads s) (rs_threads s ! t) (rs_reg s) = Some (r', p, new)"
  shows "reg_inv (s\<lparr>rs_reg := r', rs_threads := (rs_threads s)[t := p] @ new\<rparr>)"
proof -
  let ?ths = "rs_threads s" and ?r = "rs_reg s"
  have li: "lock_inv ?r ?ths" and hi: "heap_inv ?r" and so: "\<forall>t < length ?ths. stage_ok ?r (?ths ! t)"
    using inv by (simp_all add: reg_inv_def)
  have "heap_inv r' \<and> (\<forall>u < length ?ths. stage_ok r' (?ths[t := p] ! u)) \<and> (\<forall>x \<in> set new. stage_ok r' x)"
  proof (cases "\<exists>opn m st. ?ths ! t = Body opn m st")
    case True
    then obtain opn m st where b: "?ths ! t = Body opn m st" by blast
    obtain res where bs: "body_step opts bld env opn st ?r = Some (r', res)" and new: "new = []"
      "p = (case res of Inl st \<Rightarrow> Body opn m st | Inr res \<Rightarrow> Unlock opn m res)"
      using step b by auto
    have ok: "stage_ok ?r (Body opn m st)" using so t b by metis
    note h = body_step_heap_inv [OF hi ok bs]
    have "stage_ok r' (?ths[t := p] ! u)" if u: "u < length ?ths" for u
    proof (cases "u = t")
      case True
      then show ?thesis using h t by (simp add: new(2) stage_ok_plain(2) split: sum.split)
    next
      case False
      show ?thesis
      proof (cases "?ths ! u")
        case (Body opn' m' st')
        then have "op_key opn' \<noteq> op_key opn" using body_exclusive [OF li t u b Body] False by metis
        then show ?thesis using so u h False Body by (auto simp: stage_ok_def)
      qed (use False in \<open>simp_all add: stage_ok_plain\<close>)
    qed
    then show ?thesis using h new(1) by simp
  next
    case False
    then have o: "rr_runners r' = rr_runners ?r" "rr_heap r' = rr_heap ?r" "stage_ok r' p" "\<forall>x \<in> set new. stage_ok r' x"
      using thread_step_outside [OF step] by auto
    have "stage_ok r' (?ths[t := p] ! u)" if "u < length ?ths" for u
      using that so o(3) stage_ok_runners [OF o(1)] by (cases "u = t") auto
    then show ?thesis using o(4) hi heap_inv_cong [OF o(1,2)] by simp
  qed
  then show ?thesis
    using thread_step_lock_inv [OF li t step] stage_ok_append [of "?ths[t := p]" r' new] by (simp add: reg_inv_def)
qed

lemma reg_inv_same:
  assumes "reg_inv s" and "rr_runners r' = rr_runners (rs_reg s)" and "heap_inv r'"
    and "rr_locks r' = rr_locks (rs_reg s)" "rr_waiters r' = rr_waiters (rs_reg s)" "rr_mutexes r' = rr_mutexes (rs_reg s)"
  shows "reg_inv (s\<lparr>rs_reg := r'\<rparr>)"
  using assms stage_ok_runners [OF assms(2)] by (simp add: reg_inv_def lock_inv_def)

lemma reg_inv_call:
  assumes "reg_inv s" and "registered p = None" "holding p = None"
  shows "reg_inv (s\<lparr>rs_threads := rs_threads s @ [p]\<rparr>)"
  using assms lock_inv_append [of "rs_reg s" "rs_threads s" "[p]"] stage_ok_append [of "rs_threads s" "rs_reg s" "[p]"]
    stage_ok_plain(1) [OF assms(3)] by (simp add: reg_inv_def)

lemma reg_run_inv: "reg_run opts bld s \<Longrightarrow> reg_inv s"
proof (induction rule: reg_run.induct)
  case start
  then show ?case by (simp add: reg_inv_def lock_inv_def heap_inv_def NewRunnerRegistry_def users_def)
next
  case (event s ev s')
  note hi = event.IH [unfolded reg_inv_def, THEN conjunct2, THEN conjunct1]
  show ?case
  proof (cases ev)
    case (EvThread tid env)
    then show ?thesis using event.hyps(2) thread_step_reg_inv [OF event.IH, of tid]
      by (auto simp: reg_apply_def split: if_splits)
  next
    case (EvFail i err)
    then show ?thesis using event.hyps(2) reg_inv_same [OF event.IH] set_runner_heap_inv [OF hi]
      by (auto simp: reg_apply_def supervise_fail_def split: if_splits)
  next
    case (EvExit i)
    then show ?thesis using event.hyps(2) reg_inv_same [OF event.IH] set_runner_heap_inv [OF hi]
      by (auto simp: reg_apply_def supervise_exit_def split: if_splits)
  next
    case (EvForget k)
    then show ?thesis using event.hyps(2) reg_inv_same [OF event.IH] hi heap_inv_cong [of "Forget k (rs_reg s)" "rs_reg s"]
      by (auto simp: reg_apply_def Forget_def)
  qed (use event.hyps(2) reg_inv_call [OF event.IH] in \<open>auto simp: reg_apply_def\<close>)
qed

lemma map_get_all_None:
  assumes "\<And>k. map_get m k = None"
  shows "m = []"
proof (rule ccontr)
  assume "m \<noteq> []"
  then have "fst (hd m) \<in> fst ` set m" by simp
  then show False using assms [of "fst (hd m)"] by (simp add: map_get_None_iff)
qed

text \<open>C13: Whatever reconciles, deletions and shutdowns interleave, two goroutines never work on one key at a time, a
  runner that was not told to stop is the registered one of its key, so that there is at most one, and a
  registry nobody uses keeps no mutex.\<close>

theorem registry_one_runner:
  assumes "reg_run opts bld s"
  defines "r \<equiv> rs_reg s" and "ths \<equiv> rs_threads s"
  shows "(\<forall>t u opn m st opn' m' st'. t < length ths \<and> u < length ths \<and> ths ! t = Body opn m st
          \<and> ths ! u = Body opn' m' st' \<and> op_key opn = op_key opn' \<longrightarrow> t = u)
    \<and> (\<forall>i < length (rr_heap r). \<not> rn_stopped (rr_heap r ! i) \<longrightarrow> map_get (rr_runners r) (rn_Key (rr_heap r ! i)) = Some i)
    \<and> (\<forall>i < length (rr_heap r). \<forall>j < length (rr_heap r). rn_Key (rr_heap r ! i) = rn_Key (rr_heap r ! j)
          \<and> \<not> rn_stopped (rr_heap r ! i) \<and> \<not> rn_stopped (rr_heap r ! j) \<longrightarrow> i = j)
    \<and> ((\<forall>p \<in> set ths. registered p = None) \<longrightarrow> rr_locks r = [] \<and> rr_waiters r = [])"
proof (intro conjI allI impI; (elim conjE)?)
  have li: "lock_inv r ths" and hi: "heap_inv r" using reg_run_inv [OF assms(1)] by (auto simp: reg_inv_def r_def ths_def)
  show one: "map_get (rr_runners r) (rn_Key (rr_heap r ! i)) = Some i"
    if "i < length (rr_heap r)" "\<not> rn_stopped (rr_heap r ! i)" for i
    using that hi by (simp add: heap_inv_def)
  show "t = u" if "t < length ths" "u < length ths" "ths ! t = Body opn m st" "ths ! u = Body opn' m' st'"
    "op_key opn = op_key opn'" for t u opn m st opn' m' st'
    by (rule body_exclusive [OF li that])
  show "i = j" if "i < length (rr_heap r)" "j < length (rr_heap r)" "rn_Key (rr_heap r ! i) = rn_Key (rr_heap r ! j)"
    "\<not> rn_stopped (rr_heap r ! i)" "\<not> rn_stopped (rr_heap r ! j)" for i j
    using trans [OF sym [OF one [OF that(1,4), unfolded that(3)]] one [OF that(2,5)]] by (rule option.inject [THEN iffD1])
  assume "\<forall>p \<in> set ths. registered p = None"
  then have "users k ths = 0" for k by (auto simp: users_def filter_empty_conv)
  then have none: "map_get (rr_locks r) k = None" "map_get (rr_waiters r) k = None" for k
    using lock_invD(3,4) [OF li] by simp_all
  show "rr_locks r = []" by (rule map_get_all_None [OF none(1)])
  show "rr_waiters r = []" by (rule map_get_all_None [OF none(2)])
qed

section \<open>Shutdown is final\<close>

definition enumerated :: "pc list \<Rightarrow> bool" where
  "enumerated ths \<longleftrightarrow> (\<exists>p \<in> set ths. p = ShutDone \<or> (\<exists>cs. p = ShutJoin cs))"

text \<open>A goroutine that will still take the runner of the key out of the map.\<close>

fun will_remove :: "string \<Rightarrow> pc \<Rightarrow> bool" where
  "will_remove k (Call (DoStop k')) = (k = k')"
| "will_remove k (LockWait (DoStop k') m) = (k = k')"
| "will_remove k (Body (DoStop k') m Enter) = (k = k')"
| "will_remove k (Body opn m (Stopping i)) = (k = op_key opn)"
| "will_remove k (Body (DoEnsure k' h sp) m (Recheck a)) = (k = k')"
| "will_remove k (Body (DoEnsure k' h sp) m (Undoing i)) = (k = k')"
| "will_remove k p = False"

definition shut_inv :: "reg_sys \<Rightarrow> bool" where
  "shut_inv s \<longleftrightarrow>
     (ShutKeys \<in> set (rs_threads s) \<or> enumerated (rs_threads s) \<longrightarrow> rr_closed (rs_reg s))
   \<and> (enumerated (rs_threads s) \<longrightarrow>
        (\<forall>k. map_get (rr_runners (rs_reg s)) k \<noteq> None \<longrightarrow> (\<exists>p \<in> set (rs_threads s). will_remove k p)))"

lemma set_update_split: "t < length xs \<Longrightarrow> set (xs[t := y]) = insert y (set (take t xs) \<union> set (drop (Suc t) xs))"
  "t < length xs \<Longrightarrow> set xs = insert (xs ! t) (set (take t xs) \<union> set (drop (Suc t) xs))"
  by (simp add: upd_conv_take_nth_drop) (metis id_take_nth_drop list.simps(15) set_append Un_insert_right)

lemma body_step_shut:
  assumes inv: "heap_inv r" and ok: "stage_ok r (Body opn m st)"
    and step: "body_step opts bld env opn st r = Some (r', res)" and "rr_closed r"
    and k: "map_get (rr_runners r') k \<noteq> None"
  shows "(map_get (rr_runners r) k \<noteq> None \<and> \<not> will_remove k (Body opn m st))
    \<or> will_remove k (case res of Inl st \<Rightarrow> Body opn m st | Inr x \<Rightarrow> Unlock opn m x)"
proof (cases opn)
  case (DoStop key)
  show ?thesis
    using step ok k stop_begin_heap_inv(2) [OF inv, of key] stop_finish_heap_inv [OF inv]
    by (cases st) (auto simp: DoStop stage_ok_def reg_get_def split: option.splits if_splits)
next
  case (DoEnsure key hash spec)
  show ?thesis
  proof (cases st)
    case Checked
    obtain r1 d where d: "ensure_decide opts (re_now env) key hash spec r = (r1, d)" by fastforce
    show ?thesis using step k decide_heap_inv [OF inv d] d
      by (auto simp: DoEnsure Checked split: sum.splits option.splits)
  next
    case (Starting a)
    then have none: "map_get (rr_runners r) key = None" using ok by (simp add: stage_ok_def DoEnsure)
    show ?thesis using step k start_heap_inv(2) [OF inv none] none
      by (cases "k = key") (auto simp: DoEnsure Starting split: sum.splits)
  next
    case (Waiting i)
    then show ?thesis using step ok k stop_finish_heap_inv [OF inv]
      by (fastforce simp: DoEnsure stage_ok_def split: option.splits)
  qed (use step ok k assms(4) stop_begin_heap_inv(2) [OF inv, of key] stop_finish_heap_inv [OF inv] in
      \<open>auto simp: DoEnsure stage_ok_def reg_get_def split: option.splits if_splits\<close>)
qed

lemma thread_step_closed:
  "thread_step opts bld env t ths p r = Some (r', q, new) \<Longrightarrow> rr_closed r \<Longrightarrow> rr_closed r'"
  by (cases p)
    (auto simp: lock_register_def lock_acquire_def lock_release_def lock_unregister_def Let_def
      dest: body_step_locks split: option.splits if_splits prod.splits)

lemma will_remove_outside:
  assumes "thread_step opts bld env t ths p r = Some (r', q, new)" and "\<And>opn m st. p \<noteq> Body opn m st" and "will_remove k p"
  shows "will_remove k q"
  using assms by (cases "(k, p)" rule: will_remove.cases) (auto split: prod.splits)

text \<open>How a goroutine reaches the places of a shutdown.\<close>

lemma thread_step_places:
  assumes "thread_step opts bld env t ths p r = Some (r', q, new)"
  shows "(q = ShutKeys \<longrightarrow> p = ShutLatch) \<and> (q = ShutDone \<longrightarrow> (\<exists>cs. p = ShutJoin cs))
    \<and> ((\<exists>cs. q = ShutJoin cs) \<longrightarrow> p = ShutKeys) \<and> ((\<exists>cs. p = ShutJoin cs) \<longrightarrow> q = ShutDone) \<and> p \<noteq> ShutDone
    \<and> (\<forall>x \<in> set new. \<exists>k. x = Call (DoStop k))"
proof (cases p)
  case (Body opn m st)
  then obtain res where "q = (case res of Inl st \<Rightarrow> Body opn m st | Inr res \<Rightarrow> Unlock opn m res)" "new = []"
    using assms by auto
  then show ?thesis using Body by (cases res) auto
qed (use assms in \<open>auto split: prod.splits if_splits\<close>)

lemma thread_step_shut_inv:
  assumes ri: "reg_inv s" and inv: "shut_inv s" and t: "t < length (rs_threads s)"
    and step: "thread_step opts bld env t (rs_threads s) (rs_threads s ! t) (rs_reg s) = Some (r', p, new)"
  shows "shut_inv (s\<lparr>rs_reg := r', rs_threads := (rs_threads s)[t := p] @ new\<rparr>)"
proof -
  let ?ths = "rs_threads s" and ?r = "rs_reg s"
  let ?rest = "set (take t ?ths) \<union> set (drop (Suc t) ?ths)"
  note sets = set_update_split [OF t]
  note pl = thread_step_places [OF step]
  have en_old: "enumerated ?ths" if "enumerated (?ths[t := p] @ new)" "?ths ! t \<noteq> ShutKeys"
  proof -
    obtain q where q: "q \<in> set (?ths[t := p] @ new)" "q = ShutDone \<or> (\<exists>cs. q = ShutJoin cs)"
      using \<open>enumerated (?ths[t := p] @ new)\<close> unfolding enumerated_def by blast
    then have "q = p \<or> q \<in> ?rest" using pl unfolding set_append sets by blast
    then show ?thesis using q(2) pl that(2) unfolding enumerated_def sets by blast
  qed
  have closed: "rr_closed r'" if en: "ShutKeys \<in> set (?ths[t := p] @ new) \<or> enumerated (?ths[t := p] @ new)"
  proof (cases "?ths ! t = ShutLatch")
    case False
    then have "ShutKeys \<in> set ?ths \<or> enumerated ?ths"
    proof (cases "enumerated (?ths[t := p] @ new)")
      case True
      then show ?thesis using en_old t by (metis nth_mem)
    next
      case False
      then have "ShutKeys = p \<or> ShutKeys \<in> ?rest" using en pl unfolding set_append sets by blast
      then show ?thesis using pl \<open>?ths ! t \<noteq> ShutLatch\<close> unfolding sets by blast
    qed
    then show ?thesis using inv thread_step_closed [OF step] unfolding shut_inv_def by blast
  qed (use step in auto)
  have "\<exists>q \<in> set (?ths[t := p] @ new). will_remove k q"
    if en: "enumerated (?ths[t := p] @ new)" and k: "map_get (rr_runners r') k \<noteq> None" for k
  proof (cases "\<exists>opn m st. ?ths ! t = Body opn m st")
    case True
    then obtain opn m st where b: "?ths ! t = Body opn m st" by blast
    obtain res where bs: "body_step opts bld env opn st ?r = Some (r', res)" and new: "new = []"
      "p = (case res of Inl st \<Rightarrow> Body opn m st | Inr res \<Rightarrow> Unlock opn m res)"
      using step b by auto
    have en': "enumerated ?ths" using en_old en b by simp
    have "heap_inv ?r" "stage_ok ?r (Body opn m st)" using ri t b unfolding reg_inv_def by metis+
    from body_step_shut [OF this bs _ k] have
      "map_get (rr_runners ?r) k \<noteq> None \<and> \<not> will_remove k (Body opn m st) \<or> will_remove k p"
      using inv en' by (auto simp: shut_inv_def new(2))
    then show ?thesis using inv en' b unfolding shut_inv_def new(1) append_Nil2 sets by auto
  next
    case False
    then have same: "rr_runners r' = rr_runners ?r" using thread_step_outside [OF step] by auto
    show ?thesis
    proof (cases "?ths ! t = ShutKeys")
      case True
      then have "new = map (\<lambda>k. Call (DoStop k)) (reg_Keys ?r)" using step by auto
      moreover have "k \<in> set (reg_Keys ?r)" using k same by (auto simp: reg_Keys_def map_get_None_iff)
      ultimately show ?thesis by force
    next
      case other: False
      have "enumerated ?ths" using en_old en other by blast
      then obtain q where "q \<in> set ?ths" "will_remove k q" using inv k same by (auto simp: shut_inv_def)
      moreover have "will_remove k p" if "will_remove k (?ths ! t)" using will_remove_outside [OF step _ that] False by blast
      ultimately show ?thesis unfolding set_append sets by auto
    qed
  qed
  then show ?thesis using closed by (simp add: shut_inv_def del: set_append)
qed

lemma reg_run_shut_inv: "reg_run opts bld s \<Longrightarrow> shut_inv s"
proof (induction rule: reg_run.induct)
  case start
  then show ?case by (simp add: shut_inv_def enumerated_def)
next
  case (event s ev s')
  show ?case
  proof (cases ev)
    case (EvThread tid env)
    then show ?thesis
      using event.hyps(2) thread_step_shut_inv [OF reg_run_inv [OF event.hyps(1)] event.IH, of tid]
      by (auto simp: reg_apply_def split: if_splits)
  next
    case (EvCall opn)
    then have "s' = s\<lparr>rs_threads := rs_threads s @ [Call opn]\<rparr>" using event.hyps(2) by (simp add: reg_apply_def)
    then show ?thesis using event.IH by (auto simp: shut_inv_def enumerated_def)
  next
    case EvShutdown
    then have "s' = s\<lparr>rs_threads := rs_threads s @ [ShutLatch]\<rparr>" using event.hyps(2) by (simp add: reg_apply_def)
    then show ?thesis using event.IH by (auto simp: shut_inv_def enumerated_def)
  next
    case (EvFail i err)
    then have "s' = s\<lparr>rs_reg := supervise_fail err i (rs_reg s)\<rparr>" using event.hyps(2) by (auto simp: reg_apply_def split: if_splits)
    then show ?thesis using event.IH by (simp add: shut_inv_def supervise_fail_def)
  next
    case (EvExit i)
    then have "s' = s\<lparr>rs_reg := supervise_exit i (rs_reg s)\<rparr>" using event.hyps(2) by (auto simp: reg_apply_def split: if_splits)
    then show ?thesis using event.IH by (simp add: shut_inv_def supervise_exit_def)
  next
    case (EvForget k)
    then have "s' = s\<lparr>rs_reg := Forget k (rs_reg s)\<rparr>" using event.hyps(2) by (simp add: reg_apply_def)
    then show ?thesis using event.IH by (simp add: shut_inv_def Forget_def)
  qed
qed


section \<open>A runner that does not stop in time\<close>

fun reg_apply_all :: "RegistryOptions \<Rightarrow> (Spec \<Rightarrow> bool) \<Rightarrow> reg_event list \<Rightarrow> reg_sys \<Rightarrow> reg_sys option" where
  "reg_apply_all opts bld [] s = Some s"
| "reg_apply_all opts bld (ev # evs) s = Option.bind (reg_apply opts bld ev s) (reg_apply_all opts bld evs)"

lemma reg_apply_all_run: "reg_run opts bld s \<Longrightarrow> reg_apply_all opts bld evs s = Some s' \<Longrightarrow> reg_run opts bld s'"
  by (induction evs arbitrary: s) (auto simp: bind_eq_Some_conv intro: reg_run.event)

definition reg_start :: reg_sys where
  "reg_start = \<lparr>rs_reg = NewRunnerRegistry, rs_threads = []\<rparr>"

lemma reg_start_run: "reg_apply_all opts bld evs reg_start = Some s' \<Longrightarrow> reg_run opts bld s'"
  using reg_apply_all_run [OF reg_run.start] by (simp add: reg_start_def)

text \<open>An operation that runs alone to its end, in \<open>n\<close> steps.\<close>

definition alone :: "nat \<Rightarrow> reg_op \<Rightarrow> nat \<Rightarrow> reg_env \<Rightarrow> reg_event list" where
  "alone tid opn n env = EvCall opn # replicate n (EvThread tid env)"

definition on_time :: reg_env where
  "on_time = \<lparr>re_now = 0, re_graceOver = False, re_closeErr = False\<rparr>"

definition too_late :: reg_env where
  "too_late = \<lparr>re_now = 0, re_graceOver = True, re_closeErr = False\<rparr>"

definition surviving :: "Spec \<Rightarrow> reg_event list" where
  "surviving spec =
     alone 0 (DoEnsure ''k'' ''h'' spec) 8 on_time @ alone 1 (DoStop ''k'') 7 too_late
       @ alone 2 (DoStop ''k'') 5 on_time @ alone 3 (DoEnsure ''k'' ''h'' spec) 8 on_time"

definition pc_result :: "pc \<Rightarrow> (string \<times> RegResult) option" where
  "pc_result p = (case p of Returned opn res \<Rightarrow> Some (op_key opn, res) | _ \<Rightarrow> None)"


section \<open>Witnesses\<close>

text \<open>A reconcile that has passed its check when the shutdown begins: it starts its runner after the shutdown
  has returned, and takes it down again.\<close>

definition late_reconcile :: "Spec \<Rightarrow> reg_event list" where
  "late_reconcile spec =
     EvCall (DoEnsure ''k'' ''h'' spec) # replicate 3 (EvThread 0 on_time)
       @ EvShutdown # replicate 3 (EvThread 1 on_time) @ replicate 4 (EvThread 0 on_time)
       @ EvExit 0 # replicate 3 (EvThread 0 on_time)"

definition is_shut_done :: "pc \<Rightarrow> bool" where
  "is_shut_done p = (case p of ShutDone \<Rightarrow> True | _ \<Rightarrow> False)"

lemma is_shut_done_iff: "is_shut_done p \<longleftrightarrow> p = ShutDone"
  by (cases p) (simp_all add: is_shut_done_def)


theorem registry_one_runner_witness:
  "\<forall>opts spec. \<exists>s. reg_apply_all opts (\<lambda>_. True) (surviving spec) reg_start = Some s
     \<and> length (rr_heap (rs_reg s)) = 2 \<and> map_get (rr_runners (rs_reg s)) ''k'' = Some 1 \<and> rr_locks (rs_reg s) = []"
proof (intro allI)
  fix opts spec
  have "case reg_apply_all opts (\<lambda>_. True) (surviving spec) reg_start of
      None \<Rightarrow> False
    | Some s \<Rightarrow> length (rr_heap (rs_reg s)) = 2 \<and> rn_Key (rr_heap (rs_reg s) ! 1) = ''k''
        \<and> \<not> rn_stopped (rr_heap (rs_reg s) ! 1) \<and> list_all (\<lambda>p. Option.is_none (registered p)) (rs_threads s)"
    by code_simp
  then obtain s where s: "reg_apply_all opts (\<lambda>_. True) (surviving spec) reg_start = Some s"
    "length (rr_heap (rs_reg s)) = 2" "rn_Key (rr_heap (rs_reg s) ! 1) = ''k''"
    "\<not> rn_stopped (rr_heap (rs_reg s) ! 1)" "\<forall>p \<in> set (rs_threads s). registered p = None"
    by (auto simp: list_all_iff Option.is_none_def split: option.splits)
  note one = registry_one_runner [OF reg_start_run [OF s(1)]]
  have "map_get (rr_runners (rs_reg s)) ''k'' = Some 1" using one s(2-4) by (metis one_less_numeral_iff semiring_norm(76))
  moreover have "rr_locks (rs_reg s) = []" using one s(5) by blast
  ultimately show "\<exists>s. reg_apply_all opts (\<lambda>_. True) (surviving spec) reg_start = Some s
     \<and> length (rr_heap (rs_reg s)) = 2 \<and> map_get (rr_runners (rs_reg s)) ''k'' = Some 1 \<and> rr_locks (rs_reg s) = []"
    using s by blast
qed

end
