(* ===== verification/Explain.thy ===== *)
theory Explain
  imports Lifecycle Store
begin

text \<open>
  \<open>pkg/explain/explain.go\<close> and \<open>rules.go\<close>: what is known about one key, the verdict on it and the
  diagnoses with their confidence. The sentences and the evidence of a diagnosis are prose and left
  out; the rules that fire, their confidence and their order are all here.
\<close>

section \<open>Explanations\<close>

datatype ExVerdict =
    VerdictAgree | VerdictDiverged | VerdictInFlight | VerdictSuspect | VerdictUnknownKey | VerdictTargetUnavailable

datatype Confidence = ConfidenceLow | ConfidenceMedium | ConfidenceHigh

fun conf_rank :: "Confidence \<Rightarrow> nat" where
  "conf_rank ConfidenceLow = 0"
| "conf_rank ConfidenceMedium = 1"
| "conf_rank ConfidenceHigh = 2"

record Diagnosis =
  dg_Code :: string
  dg_Confidence :: Confidence

datatype StepNote = NoNote | GapPrecedes | RestartPrecedes

record Step =
  sp_Index :: nat
  sp_Event :: Event
  sp_Verdict :: Verdict
  sp_ValueAfter :: Value
  sp_Version :: u64
  sp_AppliedAt :: time
  sp_DeltaFromPrev :: duration
  sp_Note :: StepNote

record Explanation =
  xp_Key :: string
  xp_GeneratedAt :: time
  xp_OracleValue :: Value
  xp_OracleVersion :: u64
  xp_OracleTrust :: TrustState
  xp_OracleTTL :: "duration option"
  xp_LastEventAt :: time
  xp_KnownToOracle :: bool
  xp_TargetValue :: Value
  xp_TargetTTL :: "duration option"
  xp_TargetReadAt :: time
  xp_TargetReachable :: bool
  xp_TargetType :: string
  xp_TargetHealth :: Health
  xp_Verdict :: ExVerdict
  xp_Diagnosis :: "Diagnosis list"
  xp_History :: "Step list"
  xp_HistoryTruncated :: bool
  xp_PublisherStates :: "PublisherState list"
  xp_SettlementWindow :: duration
  xp_Settled :: bool
  xp_Shape :: Shape
  xp_MissingMembers :: "string list"
  xp_ExtraMembers :: "string list"
  xp_MissingMemberCount :: int
  xp_ExtraMemberCount :: int

text \<open>The target as one explanation sees it: the outcomes of \<open>Get\<close>, \<open>TTL\<close> and \<open>Health\<close>, where \<open>None\<close> of the
  last two is an error.\<close>

record target_view =
  tv_Get :: "TargetErr + Value"
  tv_TTL :: "duration option option"
  tv_Health :: "Health option"

record explain_input =
  in_Key :: string
  in_Target :: "target_view option"
  in_SeqTrack :: "Tracker option"
  in_Shape :: Shape
  in_Window :: duration
  in_RingSize :: int
  in_EvictionsSinceLastSweep :: u64
  in_MaxMembersShown :: int

definition explain_applyDefaults :: "explain_input \<Rightarrow> explain_input" where
  "explain_applyDefaults i =
     i\<lparr>in_MaxMembersShown := (if in_MaxMembersShown i \<le> 0 then 8 else in_MaxMembersShown i)\<rparr>"

section \<open>Gathering\<close>

fun history_steps :: "nat \<Rightarrow> time option \<Rightarrow> HistoryEntry list \<Rightarrow> Step list" where
  "history_steps i prev [] = []"
| "history_steps i prev (h # hs) =
     \<lparr>sp_Index = i, sp_Event = he_event h, sp_Verdict = he_verdict h, sp_ValueAfter = he_resultValue h,
      sp_Version = he_version h, sp_AppliedAt = he_appliedAt h,
      sp_DeltaFromPrev = (case prev of None \<Rightarrow> 0 | Some p \<Rightarrow> time_sub (he_appliedAt h) p),
      sp_Note = (if he_verdict h = AcceptAfterRestart then RestartPrecedes
                 else if he_verdict h = AcceptWithGap then GapPrecedes else NoNote)\<rparr>
     # history_steps (i + 1) (Some (he_appliedAt h)) hs"

definition readOracle :: "(string \<Rightarrow> u64) \<Rightarrow> Oracle \<Rightarrow> time \<Rightarrow> explain_input \<Rightarrow> Explanation \<Rightarrow> Explanation" where
  "readOracle hash orc now i e =
     (let e = (case Oracle_Get hash orc (in_Key i) now of
                 None \<Rightarrow> e\<lparr>xp_KnownToOracle := False\<rparr>
               | Some ent \<Rightarrow>
                   e\<lparr>xp_KnownToOracle := True, xp_OracleValue := eo_value ent, xp_OracleVersion := eo_version ent,
                     xp_OracleTrust := eo_trust ent, xp_OracleTTL := eo_ttl ent, xp_LastEventAt := eo_lastEventAt ent\<rparr>);
          history = Oracle_History hash orc (in_Key i)
      in e\<lparr>xp_History := history_steps 0 None history,
           xp_HistoryTruncated := (0 < in_RingSize i \<and> in_RingSize i \<le> int (length history))\<rparr>)"

definition readTarget :: "time \<Rightarrow> explain_input \<Rightarrow> Explanation \<Rightarrow> Explanation" where
  "readTarget readAt i e =
     (case in_Target i of
        None \<Rightarrow> e\<lparr>xp_TargetReachable := False\<rparr>
      | Some tv \<Rightarrow>
          let e = e\<lparr>xp_TargetReadAt := readAt\<rparr>;
              rest = (\<lambda>e.
                let e = (case tv_TTL tv of None \<Rightarrow> e | Some ttl \<Rightarrow> e\<lparr>xp_TargetTTL := ttl\<rparr>)
                in (case tv_Health tv of None \<Rightarrow> e | Some h \<Rightarrow> e\<lparr>xp_TargetHealth := h\<rparr>))
          in (case tv_Get tv of
                Inr v \<Rightarrow> rest (e\<lparr>xp_TargetValue := v\<rparr>)
              | Inl (WrongTypeError got) \<Rightarrow> rest (e\<lparr>xp_TargetType := got\<rparr>)
              | Inl TransportError \<Rightarrow> e\<lparr>xp_TargetReachable := False\<rparr>))"

definition readPublishers :: "explain_input \<Rightarrow> Explanation \<Rightarrow> Explanation" where
  "readPublishers i e =
     (case in_SeqTrack i of
        None \<Rightarrow> e
      | Some t \<Rightarrow> e\<lparr>xp_PublisherStates := sort_key ps_id (Tracker_Publishers t)\<rparr>)"

definition explain_difference :: "string go_set \<Rightarrow> string go_set \<Rightarrow> string list" where
  "explain_difference a b = sort (filter (\<lambda>m. m \<notin> set b) a)"

definition explain_truncate :: "string list \<Rightarrow> int \<Rightarrow> string list" where
  "explain_truncate members limit = (if int (length members) \<le> limit then members else take (nat limit) members)"

definition explain_diff :: "explain_input \<Rightarrow> Explanation \<Rightarrow> Explanation" where
  "explain_diff i e =
     (if v_kind (xp_OracleValue e) \<noteq> ValueSet \<and> v_kind (xp_TargetValue e) \<noteq> ValueSet then e
      else
        let missing = explain_difference (v_members (xp_OracleValue e)) (v_members (xp_TargetValue e));
            extra = explain_difference (v_members (xp_TargetValue e)) (v_members (xp_OracleValue e))
        in e\<lparr>xp_MissingMemberCount := int (length missing), xp_ExtraMemberCount := int (length extra),
             xp_MissingMembers := explain_truncate missing (in_MaxMembersShown i),
             xp_ExtraMembers := explain_truncate extra (in_MaxMembersShown i)\<rparr>)"

definition settledAt :: "Explanation \<Rightarrow> time \<Rightarrow> bool" where
  "settledAt e now =
     (if xp_LastEventAt e = 0 then True else xp_SettlementWindow e < time_sub now (xp_LastEventAt e))"

definition decideVerdict :: "time \<Rightarrow> Explanation \<Rightarrow> Explanation" where
  "decideVerdict now e =
     (let e = e\<lparr>xp_Settled := settledAt e now\<rparr>
      in e\<lparr>xp_Verdict :=
             (if \<not> xp_KnownToOracle e \<and> IsAbsent (xp_TargetValue e) \<and> xp_TargetType e = [] then VerdictUnknownKey
              else if \<not> xp_TargetReachable e then VerdictTargetUnavailable
              else if xp_TargetType e \<noteq> [] then VerdictDiverged
              else if Value_Equal (xp_OracleValue e) (xp_TargetValue e) then VerdictAgree
              else if \<not> xp_Settled e then VerdictInFlight
              else if xp_OracleTrust e = TrustSuspect then VerdictSuspect
              else VerdictDiverged)\<rparr>)"

definition LastPublisher :: "Explanation \<Rightarrow> string" where
  "LastPublisher e = (if xp_History e = [] then [] else ev_publisher (sp_Event (last (xp_History e))))"

definition publisherState :: "Explanation \<Rightarrow> string \<Rightarrow> PublisherState option" where
  "publisherState e p = find (\<lambda>ps. ps_id ps = p) (xp_PublisherStates e)"

section \<open>The rules\<close>

text \<open>Each returns the confidence of its diagnosis, or \<open>None\<close>.\<close>

definition ruleAgree :: "Explanation \<Rightarrow> Confidence option" where
  "ruleAgree e = (if xp_Verdict e \<noteq> VerdictAgree then None else Some ConfidenceHigh)"

definition ruleInFlight :: "Explanation \<Rightarrow> Confidence option" where
  "ruleInFlight e = (if xp_Settled e \<or> xp_LastEventAt e = 0 then None else Some ConfidenceHigh)"

definition ruleSeqGapAffectingPublisher :: "Explanation \<Rightarrow> Confidence option" where
  "ruleSeqGapAffectingPublisher e =
     (if LastPublisher e = [] then None
      else
        (case publisherState e (LastPublisher e) of
           None \<Rightarrow> None
         | Some ps \<Rightarrow> if GapSet_Count (ps_gaps ps) = 0 then None else Some ConfidenceHigh))"

definition ruleMissingInTargetNoGaps :: "Explanation \<Rightarrow> Confidence option" where
  "ruleMissingInTargetNoGaps e =
     (if \<not> xp_KnownToOracle e \<or> IsAbsent (xp_OracleValue e) \<or> \<not> IsAbsent (xp_TargetValue e) then None
      else if \<not> xp_TargetReachable e \<or> \<not> xp_Settled e \<or> xp_OracleTrust e \<noteq> TrustComplete then None
      else Some ConfidenceHigh)"

definition ruleExtraInTarget :: "Explanation \<Rightarrow> Confidence option" where
  "ruleExtraInTarget e =
     (if \<not> xp_TargetReachable e \<or> IsAbsent (xp_TargetValue e) then None
      else if xp_KnownToOracle e \<and> \<not> IsAbsent (xp_OracleValue e) then None
      else Some ConfidenceMedium)"

definition rulePublisherRestarted :: "Explanation \<Rightarrow> Confidence option" where
  "rulePublisherRestarted e =
     (if list_ex (\<lambda>st. sp_Verdict st = AcceptAfterRestart) (xp_History e) then Some ConfidenceMedium else None)"

text \<open>\<open>used * 100\<close> wraps at 64 bits.\<close>

definition memoryPressure :: "u64 \<Rightarrow> u64 \<Rightarrow> int" where
  "memoryPressure used limit = (if limit = 0 then 0 else uint (used * 100 div limit))"

definition ruleTargetEvictionLikely :: "explain_input \<Rightarrow> Explanation \<Rightarrow> Confidence option" where
  "ruleTargetEvictionLikely i e =
     (if \<not> xp_TargetReachable e \<or> \<not> IsAbsent (xp_TargetValue e) \<or> \<not> xp_KnownToOracle e then None
      else if IsAbsent (xp_OracleValue e) \<or> in_EvictionsSinceLastSweep i = 0 then None
      else
        let pct = memoryPressure (h_UsedMemoryBytes (xp_TargetHealth e)) (h_MaxMemoryBytes (xp_TargetHealth e))
        in Some (if 90 \<le> pct then ConfidenceHigh else ConfidenceMedium))"

definition ruleTTLExpired :: "time \<Rightarrow> Explanation \<Rightarrow> Confidence option" where
  "ruleTTLExpired now e =
     (case xp_OracleTTL e of
        None \<Rightarrow> None
      | Some ttl \<Rightarrow>
          if \<not> IsAbsent (xp_TargetValue e) \<or> xp_LastEventAt e = 0 then None
          else if now < xp_LastEventAt e + ttl then None
          else Some ConfidenceHigh)"

definition ruleTypeMismatch :: "Explanation \<Rightarrow> Confidence option" where
  "ruleTypeMismatch e = (if xp_TargetType e = [] then None else Some ConfidenceHigh)"

definition observedSkew :: "Explanation \<Rightarrow> string \<Rightarrow> duration option" where
  "observedSkew e p =
     map_option (\<lambda>st. time_sub (ev_publishedAt (sp_Event st)) (ev_observedAt (sp_Event st)))
       (find (\<lambda>st. ev_publisher (sp_Event st) = p \<and> ev_publishedAt (sp_Event st) \<noteq> 0) (rev (xp_History e)))"

text \<open>\<open>abs\<close> negates by wrapping, so the least duration keeps its sign.\<close>

definition ruleClockSkewHigh :: "Explanation \<Rightarrow> Confidence option" where
  "ruleClockSkewHigh e =
     (if LastPublisher e = [] \<or> xp_SettlementWindow e = 0 then None
      else
        (case observedSkew e (LastPublisher e) of
           None \<Rightarrow> None
         | Some skew \<Rightarrow>
             if (if skew < 0 then wrap_i64 (- skew) else skew) \<le> xp_SettlementWindow e then None
             else Some ConfidenceMedium))"

definition isSetComparison :: "Explanation \<Rightarrow> bool" where
  "isSetComparison e =
     (if \<not> xp_TargetReachable e then False
      else v_kind (xp_OracleValue e) = ValueSet \<and> v_kind (xp_TargetValue e) = ValueSet)"

definition ruleMemberSubset :: "Explanation \<Rightarrow> Confidence option" where
  "ruleMemberSubset e =
     (if \<not> isSetComparison e \<or> xp_MissingMemberCount e = 0 \<or> xp_ExtraMemberCount e \<noteq> 0 then None
      else Some ConfidenceHigh)"

definition ruleMemberSuperset :: "Explanation \<Rightarrow> Confidence option" where
  "ruleMemberSuperset e =
     (if \<not> isSetComparison e \<or> xp_ExtraMemberCount e = 0 \<or> xp_MissingMemberCount e \<noteq> 0 then None
      else Some ConfidenceHigh)"

definition ruleHistoryTruncated :: "Explanation \<Rightarrow> Confidence option" where
  "ruleHistoryTruncated e =
     (if \<not> xp_HistoryTruncated e \<or> xp_History e = [] then None else Some ConfidenceHigh)"

definition ruleNoHistory :: "Explanation \<Rightarrow> Confidence option" where
  "ruleNoHistory e = (if xp_KnownToOracle e \<or> xp_History e \<noteq> [] then None else Some ConfidenceHigh)"

definition explain_rules :: "(string \<times> (Explanation \<Rightarrow> explain_input \<Rightarrow> time \<Rightarrow> Confidence option)) list" where
  "explain_rules =
     [(''AGREE'', \<lambda>e i now. ruleAgree e), (''IN_FLIGHT'', \<lambda>e i now. ruleInFlight e),
      (''SEQ_GAP_AFFECTING_PUBLISHER'', \<lambda>e i now. ruleSeqGapAffectingPublisher e),
      (''MISSING_IN_TARGET_NO_GAPS'', \<lambda>e i now. ruleMissingInTargetNoGaps e),
      (''EXTRA_IN_TARGET'', \<lambda>e i now. ruleExtraInTarget e),
      (''PUBLISHER_RESTARTED'', \<lambda>e i now. rulePublisherRestarted e),
      (''TARGET_EVICTION_LIKELY'', \<lambda>e i now. ruleTargetEvictionLikely i e),
      (''TTL_EXPIRED'', \<lambda>e i now. ruleTTLExpired now e), (''TYPE_MISMATCH'', \<lambda>e i now. ruleTypeMismatch e),
      (''CLOCK_SKEW_HIGH'', \<lambda>e i now. ruleClockSkewHigh e), (''MEMBER_SUBSET'', \<lambda>e i now. ruleMemberSubset e),
      (''MEMBER_SUPERSET'', \<lambda>e i now. ruleMemberSuperset e),
      (''HISTORY_TRUNCATED'', \<lambda>e i now. ruleHistoryTruncated e), (''NO_HISTORY'', \<lambda>e i now. ruleNoHistory e)]"

text \<open>The diagnoses that fire, in the order of the table, and then the stable sort: by descending confidence,
  and by code among equals.\<close>

definition fired :: "Explanation \<Rightarrow> explain_input \<Rightarrow> time \<Rightarrow> Diagnosis list" where
  "fired e i now =
     concat (map (\<lambda>(code, fire). case fire e i now of None \<Rightarrow> [] | Some c \<Rightarrow> [\<lparr>dg_Code = code, dg_Confidence = c\<rparr>])
       explain_rules)"

definition sort_diagnoses :: "Diagnosis list \<Rightarrow> Diagnosis list" where
  "sort_diagnoses ds = sort_key (\<lambda>d. 2 - conf_rank (dg_Confidence d)) (sort_key dg_Code ds)"

definition diagnose :: "explain_input \<Rightarrow> time \<Rightarrow> Explanation \<Rightarrow> Explanation" where
  "diagnose i now e = e\<lparr>xp_Diagnosis := sort_diagnoses (xp_Diagnosis e @ fired e i now)\<rparr>"

definition Find_code :: "Explanation \<Rightarrow> string \<Rightarrow> Diagnosis option" where
  "Find_code e code = find (\<lambda>d. dg_Code d = code) (xp_Diagnosis e)"

definition new_explanation :: "explain_input \<Rightarrow> time \<Rightarrow> Explanation" where
  "new_explanation i now =
     \<lparr>xp_Key = in_Key i, xp_GeneratedAt = now, xp_OracleValue = zero_Value, xp_OracleVersion = 0,
      xp_OracleTrust = TrustComplete, xp_OracleTTL = None, xp_LastEventAt = 0, xp_KnownToOracle = False,
      xp_TargetValue = zero_Value, xp_TargetTTL = None, xp_TargetReadAt = 0, xp_TargetReachable = True,
      xp_TargetType = [], xp_TargetHealth = zero_Health, xp_Verdict = VerdictAgree, xp_Diagnosis = [],
      xp_History = [], xp_HistoryTruncated = False, xp_PublisherStates = [], xp_SettlementWindow = in_Window i,
      xp_Settled = False, xp_Shape = in_Shape i, xp_MissingMembers = [], xp_ExtraMembers = [],
      xp_MissingMemberCount = 0, xp_ExtraMemberCount = 0\<rparr>"

text \<open>The clock is read when the explanation begins, by the oracle, and before the target is read. \<open>None\<close> is the
  error of an input without an oracle.\<close>

definition Explain ::
  "(string \<Rightarrow> u64) \<Rightarrow> Oracle option \<Rightarrow> time \<Rightarrow> time \<Rightarrow> time \<Rightarrow> explain_input \<Rightarrow> Explanation option" where
  "Explain hash orc now oracleNow readAt i0 =
     (let i = explain_applyDefaults i0
      in (case orc of
            None \<Rightarrow> None
          | Some orc \<Rightarrow>
              Some (diagnose i now (decideVerdict now (explain_diff i (readPublishers i (readTarget readAt i
                (readOracle hash orc oracleNow i (new_explanation i now)))))))))"

text \<open>\<open>Check.Explain\<close>: the evictions since the last sweep are those the store reports beyond the last report's.\<close>

definition Check_Explain ::
  "wiring \<Rightarrow> bool \<Rightarrow> int \<Rightarrow> Check \<Rightarrow> Health option \<Rightarrow> target_view \<Rightarrow> string \<Rightarrow> time \<Rightarrow> time \<Rightarrow> time \<Rightarrow> Explanation option"
where
  "Check_Explain wr isClosed ringSize c health tv key now oracleNow readAt =
     (if isClosed then None
      else
        let before = (case ck_lastReport c of None \<Rightarrow> 0 | Some rep \<Rightarrow> h_EvictedKeys (r_TargetHealth rep));
            evictions = (case health of
                           None \<Rightarrow> 0
                         | Some h \<Rightarrow> if before < h_EvictedKeys h then h_EvictedKeys h - before else 0)
        in Explain (wr_hash wr) (Some (ck_orc c)) now oracleNow readAt
             \<lparr>in_Key = key, in_Target = Some tv, in_SeqTrack = Some (ck_tracker c), in_Shape = TargetShape (wr_proj wr),
              in_Window = or_window (ck_orc c), in_RingSize = ringSize, in_EvictionsSinceLastSweep = evictions,
              in_MaxMembersShown = 0\<rparr>)"

section \<open>The verdict and the sweep\<close>

text \<open>Each stage leaves alone what it does not write.\<close>

lemma diagnose_keeps [simp]:
  "xp_KnownToOracle (diagnose i now e) = xp_KnownToOracle e"
  "xp_OracleValue (diagnose i now e) = xp_OracleValue e"
  "xp_OracleTrust (diagnose i now e) = xp_OracleTrust e"
  "xp_OracleTTL (diagnose i now e) = xp_OracleTTL e"
  "xp_LastEventAt (diagnose i now e) = xp_LastEventAt e"
  "xp_History (diagnose i now e) = xp_History e"
  "xp_HistoryTruncated (diagnose i now e) = xp_HistoryTruncated e"
  "xp_SettlementWindow (diagnose i now e) = xp_SettlementWindow e"
  "xp_TargetReachable (diagnose i now e) = xp_TargetReachable e"
  "xp_TargetType (diagnose i now e) = xp_TargetType e"
  "xp_TargetValue (diagnose i now e) = xp_TargetValue e"
  "xp_TargetHealth (diagnose i now e) = xp_TargetHealth e"
  "xp_PublisherStates (diagnose i now e) = xp_PublisherStates e"
  "xp_Verdict (diagnose i now e) = xp_Verdict e"
  "xp_Settled (diagnose i now e) = xp_Settled e"
  "xp_MissingMemberCount (diagnose i now e) = xp_MissingMemberCount e"
  "xp_ExtraMemberCount (diagnose i now e) = xp_ExtraMemberCount e"
  by (simp_all add: diagnose_def)

lemma decideVerdict_keeps [simp]:
  "xp_KnownToOracle (decideVerdict now e) = xp_KnownToOracle e"
  "xp_OracleValue (decideVerdict now e) = xp_OracleValue e"
  "xp_OracleTrust (decideVerdict now e) = xp_OracleTrust e"
  "xp_OracleTTL (decideVerdict now e) = xp_OracleTTL e"
  "xp_LastEventAt (decideVerdict now e) = xp_LastEventAt e"
  "xp_History (decideVerdict now e) = xp_History e"
  "xp_HistoryTruncated (decideVerdict now e) = xp_HistoryTruncated e"
  "xp_SettlementWindow (decideVerdict now e) = xp_SettlementWindow e"
  "xp_TargetReachable (decideVerdict now e) = xp_TargetReachable e"
  "xp_TargetType (decideVerdict now e) = xp_TargetType e"
  "xp_TargetValue (decideVerdict now e) = xp_TargetValue e"
  "xp_TargetHealth (decideVerdict now e) = xp_TargetHealth e"
  "xp_PublisherStates (decideVerdict now e) = xp_PublisherStates e"
  "xp_Diagnosis (decideVerdict now e) = xp_Diagnosis e"
  "xp_MissingMemberCount (decideVerdict now e) = xp_MissingMemberCount e"
  "xp_ExtraMemberCount (decideVerdict now e) = xp_ExtraMemberCount e"
  by (simp_all add: decideVerdict_def Let_def)

lemma explain_diff_keeps [simp]:
  "xp_KnownToOracle (explain_diff i e) = xp_KnownToOracle e"
  "xp_OracleValue (explain_diff i e) = xp_OracleValue e"
  "xp_OracleTrust (explain_diff i e) = xp_OracleTrust e"
  "xp_OracleTTL (explain_diff i e) = xp_OracleTTL e"
  "xp_LastEventAt (explain_diff i e) = xp_LastEventAt e"
  "xp_History (explain_diff i e) = xp_History e"
  "xp_HistoryTruncated (explain_diff i e) = xp_HistoryTruncated e"
  "xp_SettlementWindow (explain_diff i e) = xp_SettlementWindow e"
  "xp_TargetReachable (explain_diff i e) = xp_TargetReachable e"
  "xp_TargetType (explain_diff i e) = xp_TargetType e"
  "xp_TargetValue (explain_diff i e) = xp_TargetValue e"
  "xp_TargetHealth (explain_diff i e) = xp_TargetHealth e"
  "xp_PublisherStates (explain_diff i e) = xp_PublisherStates e"
  "xp_Diagnosis (explain_diff i e) = xp_Diagnosis e"
  by (simp_all add: explain_diff_def Let_def)

lemma readPublishers_keeps [simp]:
  "xp_KnownToOracle (readPublishers i e) = xp_KnownToOracle e"
  "xp_OracleValue (readPublishers i e) = xp_OracleValue e"
  "xp_OracleTrust (readPublishers i e) = xp_OracleTrust e"
  "xp_OracleTTL (readPublishers i e) = xp_OracleTTL e"
  "xp_LastEventAt (readPublishers i e) = xp_LastEventAt e"
  "xp_History (readPublishers i e) = xp_History e"
  "xp_HistoryTruncated (readPublishers i e) = xp_HistoryTruncated e"
  "xp_SettlementWindow (readPublishers i e) = xp_SettlementWindow e"
  "xp_TargetReachable (readPublishers i e) = xp_TargetReachable e"
  "xp_TargetType (readPublishers i e) = xp_TargetType e"
  "xp_TargetValue (readPublishers i e) = xp_TargetValue e"
  "xp_TargetHealth (readPublishers i e) = xp_TargetHealth e"
  "xp_Diagnosis (readPublishers i e) = xp_Diagnosis e"
  by (simp_all add: readPublishers_def split: option.splits)

lemma readTarget_keeps [simp]:
  "xp_KnownToOracle (readTarget rd i e) = xp_KnownToOracle e"
  "xp_OracleValue (readTarget rd i e) = xp_OracleValue e"
  "xp_OracleTrust (readTarget rd i e) = xp_OracleTrust e"
  "xp_OracleTTL (readTarget rd i e) = xp_OracleTTL e"
  "xp_LastEventAt (readTarget rd i e) = xp_LastEventAt e"
  "xp_History (readTarget rd i e) = xp_History e"
  "xp_HistoryTruncated (readTarget rd i e) = xp_HistoryTruncated e"
  "xp_SettlementWindow (readTarget rd i e) = xp_SettlementWindow e"
  "xp_PublisherStates (readTarget rd i e) = xp_PublisherStates e"
  "xp_Diagnosis (readTarget rd i e) = xp_Diagnosis e"
  by (simp_all add: readTarget_def Let_def split: option.splits sum.splits TargetErr.splits)

lemma readOracle_keeps [simp]:
  "xp_SettlementWindow (readOracle hash orc onow i e) = xp_SettlementWindow e"
  "xp_TargetReachable (readOracle hash orc onow i e) = xp_TargetReachable e"
  "xp_TargetType (readOracle hash orc onow i e) = xp_TargetType e"
  "xp_TargetValue (readOracle hash orc onow i e) = xp_TargetValue e"
  "xp_TargetHealth (readOracle hash orc onow i e) = xp_TargetHealth e"
  "xp_PublisherStates (readOracle hash orc onow i e) = xp_PublisherStates e"
  "xp_Diagnosis (readOracle hash orc onow i e) = xp_Diagnosis e"
  by (simp_all add: readOracle_def Let_def split: option.splits)

lemma new_explanation_simps [simp]:
  "xp_SettlementWindow (new_explanation i now) = in_Window i"
  "xp_TargetReachable (new_explanation i now)"
  "xp_TargetType (new_explanation i now) = []"
  "xp_TargetValue (new_explanation i now) = zero_Value"
  "xp_Diagnosis (new_explanation i now) = []"
  by (simp_all add: new_explanation_def)

lemma applyDefaults_keeps [simp]:
  "in_Key (explain_applyDefaults i) = in_Key i"
  "in_Target (explain_applyDefaults i) = in_Target i"
  "in_Window (explain_applyDefaults i) = in_Window i"
  by (simp_all add: explain_applyDefaults_def)

text \<open>What the target stage writes, by the outcome of the read.\<close>

lemma readTarget_value:
  assumes "in_Target i = Some tv" and "tv_Get tv = Inr v"
  shows "xp_TargetValue (readTarget rd i e) = v" and "xp_TargetReachable (readTarget rd i e) = xp_TargetReachable e"
    and "xp_TargetType (readTarget rd i e) = xp_TargetType e"
  using assms by (simp_all add: readTarget_def Let_def split: option.splits)

lemma readTarget_wrong_type:
  assumes "in_Target i = Some tv" and "tv_Get tv = Inl (WrongTypeError got)"
  shows "xp_TargetValue (readTarget rd i e) = xp_TargetValue e"
    and "xp_TargetReachable (readTarget rd i e) = xp_TargetReachable e"
    and "xp_TargetType (readTarget rd i e) = got"
  using assms by (simp_all add: readTarget_def Let_def split: option.splits)

lemma readTarget_unread:
  assumes "in_Target i = None \<or> (\<exists>tv. in_Target i = Some tv \<and> tv_Get tv = Inl TransportError)"
  shows "xp_TargetValue (readTarget rd i e) = xp_TargetValue e"
    and "\<not> xp_TargetReachable (readTarget rd i e)"
    and "xp_TargetType (readTarget rd i e) = xp_TargetType e"
  using assms by (auto simp: readTarget_def Let_def)

lemma readOracle_known:
  assumes "Oracle_Get hash orc (in_Key i) onow = Some ent"
  shows "xp_KnownToOracle (readOracle hash orc onow i e)"
    and "xp_OracleValue (readOracle hash orc onow i e) = eo_value ent"
    and "xp_OracleTrust (readOracle hash orc onow i e) = eo_trust ent"
    and "xp_LastEventAt (readOracle hash orc onow i e) = eo_lastEventAt ent"
    and "xp_OracleTTL (readOracle hash orc onow i e) = eo_ttl ent"
  using assms by (simp_all add: readOracle_def Let_def)

text \<open>An explanation is what was gathered, with a verdict and then the diagnoses added.\<close>

definition gathered ::
  "(string \<Rightarrow> u64) \<Rightarrow> Oracle \<Rightarrow> time \<Rightarrow> time \<Rightarrow> time \<Rightarrow> explain_input \<Rightarrow> Explanation" where
  "gathered hash orc now onow rd i =
     explain_diff i (readPublishers i (readTarget rd i (readOracle hash orc onow i (new_explanation i now))))"

lemma Explain_eq:
  "Explain hash (Some orc) now onow rd i =
     Some (let j = explain_applyDefaults i in diagnose j now (decideVerdict now (gathered hash orc now onow rd j)))"
  by (simp add: Explain_def gathered_def Let_def)

lemma gathered_oracle:
  assumes "Oracle_Get hash orc (in_Key i) onow = Some ent"
  shows "xp_KnownToOracle (gathered hash orc now onow rd i)"
    and "xp_OracleValue (gathered hash orc now onow rd i) = eo_value ent"
    and "xp_OracleTrust (gathered hash orc now onow rd i) = eo_trust ent"
    and "xp_LastEventAt (gathered hash orc now onow rd i) = eo_lastEventAt ent"
    and "xp_OracleTTL (gathered hash orc now onow rd i) = eo_ttl ent"
  by (simp_all add: gathered_def readOracle_known [OF assms])

lemma gathered_window [simp]: "xp_SettlementWindow (gathered hash orc now onow rd i) = in_Window i"
  by (simp add: gathered_def)

lemma gathered_value:
  assumes "in_Target i = Some tv" and "tv_Get tv = Inr v"
  shows "xp_TargetReachable (gathered hash orc now onow rd i)" and "xp_TargetType (gathered hash orc now onow rd i) = []"
    and "xp_TargetValue (gathered hash orc now onow rd i) = v"
  by (simp_all add: gathered_def readTarget_value [OF assms])

lemma gathered_wrong_type:
  assumes "in_Target i = Some tv" and "tv_Get tv = Inl (WrongTypeError got)"
  shows "xp_TargetReachable (gathered hash orc now onow rd i)" and "xp_TargetType (gathered hash orc now onow rd i) = got"
    and "xp_TargetValue (gathered hash orc now onow rd i) = zero_Value"
  by (simp_all add: gathered_def readTarget_wrong_type [OF assms])

lemma gathered_unread:
  assumes "in_Target i = None \<or> (\<exists>tv. in_Target i = Some tv \<and> tv_Get tv = Inl TransportError)"
  shows "\<not> xp_TargetReachable (gathered hash orc now onow rd i)"
    and "xp_TargetType (gathered hash orc now onow rd i) = []"
    and "xp_TargetValue (gathered hash orc now onow rd i) = zero_Value"
  by (simp_all add: gathered_def readTarget_unread [OF assms])

text \<open>C15: The explanation of a key the oracle knows and the sweep's comparison of it come to the same conclusion:
  with the same entry and the same read, and outside the two differences that policy excuses, the sweep finds nothing
  exactly when the verdict is that they agree; and an explanation that stands behind a divergence is one the
  sweep has a finding for, of a key whose settlement window is over and which is not suspect unless the store
  holds another type.\<close>

theorem explain_agrees_with_sweep:
  assumes "Explain hash (Some orc) now onow rd i = Some e" and "Oracle_Get hash orc (in_Key i) onow = Some ent"
    and "in_Target i = Some tv"
    and "tv_Get tv = (case rd_Err read of None \<Rightarrow> Inr (rd_Value read) | Some err \<Rightarrow> Inl err)"
    and "rd_Err read \<noteq> Some (WrongTypeError [])"
    and "wf_value (eo_value ent)" and "wf_value (rd_Value read)"
    and "rd_Err read = None \<longrightarrow> \<not> excused ent (rd_Value read) opts"
    and "compareRead (in_Key i) ent read opts = Inr found"
  shows "(found = None \<longleftrightarrow> xp_Verdict e = VerdictAgree)
    \<and> (xp_Verdict e = VerdictDiverged \<longrightarrow>
         found \<noteq> None \<and>
         (rd_Err read = None \<longrightarrow> eo_trust ent \<noteq> TrustSuspect \<and>
            (eo_lastEventAt ent = 0 \<or> in_Window i < time_sub now (eo_lastEventAt ent))))"
proof -
  let ?g = "gathered hash orc now onow rd (explain_applyDefaults i)"
  have v: "xp_Verdict e = xp_Verdict (decideVerdict now ?g)"
    using assms(1) by (auto simp: Explain_eq Let_def)
  have o': "Oracle_Get hash orc (in_Key (explain_applyDefaults i)) onow = Some ent" using assms(2) by simp
  have t: "in_Target (explain_applyDefaults i) = Some tv" using assms(3) by simp
  note g = gathered_oracle [OF o', of now rd]
  show ?thesis
  proof (cases "rd_Err read")
    case None
    have get: "tv_Get tv = Inr (rd_Value read)" using assms(4) None by simp
    have found: "found = Compare (in_Key i) ent (rd_Value read) opts" using assms(9) None by (simp add: compareRead_def)
    have "found = None \<longleftrightarrow> Value_Equal (eo_value ent) (rd_Value read)"
      using assms(6-8) None by (simp add: found Compare_nil Value_Equal_iff_obs)
    then show ?thesis
      using v None by (simp add: decideVerdict_def settledAt_def Let_def g gathered_value [OF t get])
  next
    case (Some err)
    then obtain got where err: "err = WrongTypeError got" and "got \<noteq> []"
      using assms(5,9) by (cases err) (auto simp: compareRead_def)
    have get: "tv_Get tv = Inl (WrongTypeError got)" using assms(4) Some err by simp
    have "found \<noteq> None" using assms(9) Some err by (auto simp: compareRead_def CompareUnreadable_def)
    then show ?thesis
      using v Some \<open>got \<noteq> []\<close> by (simp add: decideVerdict_def Let_def g gathered_wrong_type [OF t get])
  qed
qed

text \<open>One sample key, explained six seconds after its event against a given outcome of the read.\<close>

definition sample_in :: "string \<Rightarrow> TargetErr + Value \<Rightarrow> explain_input" where
  "sample_in key got =
     \<lparr>in_Key = key, in_Target = Some \<lparr>tv_Get = got, tv_TTL = Some None, tv_Health = Some zero_Health\<rparr>,
      in_SeqTrack = None, in_Shape = ShapeScalar, in_Window = 5000000000, in_RingSize = 2,
      in_EvictionsSinceLastSweep = 0, in_MaxMembersShown = 0\<rparr>"

abbreviation sample_late :: time where
  "sample_late \<equiv> t0 + 6000000000"

abbreviation sample_explain :: "string \<Rightarrow> TargetErr + Value \<Rightarrow> Explanation option" where
  "sample_explain key got \<equiv>
     Explain sample_hash (Some sample_orc) sample_late sample_late sample_late (sample_in key got)"

definition read_scalar :: "bytes \<Rightarrow> Value" where
  "read_scalar b = zero_Value\<lparr>v_kind := ValueScalar, v_scalar := b\<rparr>"

lemma sample_explained: "sample_explain key got = Some (the (sample_explain key got))"
  by (simp add: Explain_eq)

lemma sample_entry:
  obtains ent where "Oracle_Get sample_hash sample_orc ''k'' sample_late = Some ent"
    and "eo_value ent = read_scalar ''v''" and "eo_trust ent = TrustComplete" and "eo_lastEventAt ent = t0"
    and "eo_ttl ent = None" and "eo_version ent = 1"
proof -
  have "map_option (\<lambda>ent. (eo_value ent, eo_trust ent, eo_lastEventAt ent, eo_ttl ent, eo_version ent))
      (Oracle_Get sample_hash sample_orc ''k'' sample_late) = Some (read_scalar ''v'', TrustComplete, t0, None, 1)"
    by code_simp
  then show ?thesis using that by auto
qed

theorem explain_agrees_with_sweep_witness:
  "xp_Verdict (the (sample_explain ''k'' (Inr (read_scalar ''v'')))) = VerdictAgree"
proof -
  obtain ent where ent: "Oracle_Get sample_hash sample_orc ''k'' sample_late = Some ent"
    "eo_value ent = read_scalar ''v''" "eo_trust ent = TrustComplete"
    by (rule sample_entry) blast
  let ?read = "\<lparr>rd_Value = read_scalar ''v'', rd_Err = None\<rparr>"
  have wf: "wf_value (read_scalar ''v'')" by (simp add: wf_value_def read_scalar_def zero_Value_def)
  have ex: "\<not> excused ent (read_scalar ''v'') sample_opts"
    by (simp add: excused_def ent obs_of_def read_scalar_def)
  have none: "compareRead ''k'' ent ?read sample_opts = Inr None"
    using wf by (simp add: compareRead_def Compare_nil ent)
  show ?thesis
    using explain_agrees_with_sweep [OF sample_explained, of "''k''" "Inr (read_scalar ''v'')" ent _ ?read sample_opts None]
      ent wf ex none
    by (simp add: sample_in_def)
qed

section \<open>The order of the diagnoses\<close>

lemma sorted_wrt_before:
  assumes "sorted_wrt R xs" and "a \<in> set xs" and "b \<in> set xs" and "\<not> R b a" and "a \<noteq> b"
  shows "\<exists>j k. j < k \<and> k < length xs \<and> xs ! j = a \<and> xs ! k = b"
proof -
  obtain j k where "j < length xs" "xs ! j = a" "k < length xs" "xs ! k = b"
    using assms(2,3) by (auto simp: in_set_conv_nth)
  moreover from this have "j < k"
    using assms(1,4,5) by (metis linorder_neqE_nat sorted_wrt_nth_less)
  ultimately show ?thesis by blast
qed

text \<open>Sorting by one key and then, stably, by another sorts lexicographically.\<close>

lemma sorted_wrt_lex:
  fixes f :: "'a \<Rightarrow> 'b::linorder" and g :: "'a \<Rightarrow> 'c::linorder"
  assumes "sorted (map f zs)" and "\<And>k. sorted (map g (filter (\<lambda>x. f x = k) zs))"
  shows "sorted_wrt (\<lambda>a b. f a < f b \<or> f a = f b \<and> g a \<le> g b) zs"
  using assms
proof (induction zs)
  case (Cons a zs)
  have "f a < f b \<or> f a = f b \<and> g a \<le> g b" if "b \<in> set zs" for b
    using Cons.prems(1) Cons.prems(2) [of "f a"] that by (cases "f a = f b") (auto simp: less_le)
  moreover have "sorted (map g (filter (\<lambda>x. f x = k) zs))" for k
    using Cons.prems(2) [of k] by (auto split: if_splits)
  ultimately show ?case using Cons by auto
qed simp

lemma sort_key_lex:
  fixes f :: "'a \<Rightarrow> 'b::linorder" and g :: "'a \<Rightarrow> 'c::linorder"
  shows "sorted_wrt (\<lambda>a b. f a < f b \<or> f a = f b \<and> g a \<le> g b) (sort_key f (sort_key g xs))"
  by (rule sorted_wrt_lex) (simp_all add: sort_key_stable sorted_filter)

lemma explain_rules_distinct: "distinct (map fst explain_rules)"
  by code_simp

lemma distinct_concat_some:
  assumes "distinct (map fst rs)"
  shows "distinct (map dg_Code (concat (map (\<lambda>(code, fire).
           case fire e i now of None \<Rightarrow> [] | Some c \<Rightarrow> [\<lparr>dg_Code = code, dg_Confidence = c\<rparr>]) rs)))"
  using assms by (induction rs) (force split: option.splits)+

lemma fired_distinct: "distinct (map dg_Code (fired e i now))"
  unfolding fired_def by (rule distinct_concat_some [OF explain_rules_distinct])

lemma conf_rank_inj: "conf_rank a = conf_rank b \<longleftrightarrow> a = b"
  by (cases a; cases b) simp_all

lemma conf_rank_diff:
  "2 - conf_rank a < 2 - conf_rank b \<longleftrightarrow> conf_rank b < conf_rank a"
  "2 - conf_rank a = 2 - conf_rank b \<longleftrightarrow> a = b"
  by (cases a; cases b; simp)+

lemma conf_rank_le: "conf_rank c \<le> 2"
  by (cases c) simp_all

lemma set_concat_some:
  "d \<in> set (concat (map (\<lambda>(code, fire).
       case fire e i now of None \<Rightarrow> [] | Some c \<Rightarrow> [\<lparr>dg_Code = code, dg_Confidence = c\<rparr>]) rs)) \<longleftrightarrow>
     (\<exists>fire. (dg_Code d, fire) \<in> set rs \<and> fire e i now = Some (dg_Confidence d))"
proof (induction rs)
  case (Cons r rs)
  obtain code fire where r: "r = (code, fire)" by (cases r)
  then show ?case
    using Cons by (cases d; cases "fire e i now") auto
qed simp

lemma set_fired: "d \<in> set (fired e i now) \<longleftrightarrow>
    (\<exists>fire. (dg_Code d, fire) \<in> set explain_rules \<and> fire e i now = Some (dg_Confidence d))"
  unfolding fired_def by (rule set_concat_some)

lemma set_sort_diagnoses [simp]: "set (sort_diagnoses ds) = set ds"
  by (simp add: sort_diagnoses_def)

lemma diagnose_sorted:
  assumes "xp_Diagnosis e = []"
  shows "sorted_wrt (\<lambda>a b. conf_rank (dg_Confidence b) < conf_rank (dg_Confidence a)
             \<or> dg_Confidence a = dg_Confidence b \<and> dg_Code a < dg_Code b) (xp_Diagnosis (diagnose i now e))"
proof -
  let ?ds = "xp_Diagnosis (diagnose i now e)"
  have ds: "?ds = sort_diagnoses (fired e i now)" using assms by (simp add: diagnose_def)
  have "sorted_wrt (\<lambda>a b. 2 - conf_rank (dg_Confidence a) < 2 - conf_rank (dg_Confidence b)
          \<or> 2 - conf_rank (dg_Confidence a) = 2 - conf_rank (dg_Confidence b) \<and> dg_Code a \<le> dg_Code b) ?ds"
    unfolding ds sort_diagnoses_def by (rule sort_key_lex)
  moreover have "sorted_wrt (\<lambda>a b. dg_Code a \<noteq> dg_Code b) ?ds"
  proof -
    have "mset (map dg_Code ?ds) = mset (map dg_Code (fired e i now))"
      by (simp add: ds sort_diagnoses_def)
    then have "distinct (map dg_Code ?ds)"
      using fired_distinct mset_eq_imp_distinct_iff by blast
    then show ?thesis by (simp add: distinct_conv_nth sorted_wrt_iff_nth_less)
  qed
  ultimately show ?thesis
    unfolding sorted_wrt_iff_nth_less by (auto simp: conf_rank_diff order_le_less)
qed

lemma diagnose_set:
  assumes "xp_Diagnosis e = []"
  shows "d \<in> set (xp_Diagnosis (diagnose i now e)) \<longleftrightarrow>
    (\<exists>fire. (dg_Code d, fire) \<in> set explain_rules \<and> fire e i now = Some (dg_Confidence d))"
  using assms by (simp add: diagnose_def set_fired)

lemma diagnose_code:
  assumes "xp_Diagnosis e = []" and "(code, fire) \<in> set explain_rules"
  shows "\<lparr>dg_Code = code, dg_Confidence = c\<rparr> \<in> set (xp_Diagnosis (diagnose i now e)) \<longleftrightarrow> fire e i now = Some c"
proof -
  have "(code, fire') \<in> set explain_rules \<longleftrightarrow> fire' = fire" for fire'
    using eq_key_imp_eq_value [OF explain_rules_distinct assms(2)] assms(2) by blast
  then show ?thesis by (simp only: diagnose_set [OF assms(1)] Diagnosis.simps) blast
qed

lemma Find_code_None: "Find_code e code = None \<longleftrightarrow> (\<forall>c. \<lparr>dg_Code = code, dg_Confidence = c\<rparr> \<notin> set (xp_Diagnosis e))"
  unfolding Find_code_def find_None_iff
proof safe
  fix d assume "\<forall>c. \<lparr>dg_Code = dg_Code d, dg_Confidence = c\<rparr> \<notin> set (xp_Diagnosis e)" and "d \<in> set (xp_Diagnosis e)"
  then show False by (cases d) auto
qed auto

lemma gathered_undiagnosed [simp]: "xp_Diagnosis (gathered hash orc now onow rd i) = []"
  by (simp add: gathered_def)

text \<open>The diagnoses of an explanation are exactly those whose rule fires on what was gathered and judged, one for
  each code, the more confident first and by code among equals.\<close>

theorem diagnose_ordered:
  assumes "Explain hash (Some orc) now onow rd i = Some e"
  shows "sorted_wrt (\<lambda>a b. conf_rank (dg_Confidence b) < conf_rank (dg_Confidence a)
             \<or> dg_Confidence a = dg_Confidence b \<and> dg_Code a < dg_Code b) (xp_Diagnosis e)
    \<and> (\<forall>d. d \<in> set (xp_Diagnosis e) \<longleftrightarrow>
         (\<exists>fire. (dg_Code d, fire) \<in> set explain_rules \<and>
            fire (e\<lparr>xp_Diagnosis := []\<rparr>) (explain_applyDefaults i) now = Some (dg_Confidence d)))"
proof -
  let ?j = "explain_applyDefaults i"
  let ?g = "decideVerdict now (gathered hash orc now onow rd ?j)"
  have e: "e = diagnose ?j now ?g" using assms by (simp add: Explain_eq Let_def)
  have un: "xp_Diagnosis ?g = []" by simp
  then have g: "e\<lparr>xp_Diagnosis := []\<rparr> = ?g" by (simp add: e diagnose_def)
  show ?thesis unfolding g unfolding e by (simp add: diagnose_sorted [OF un] diagnose_set [OF un])
qed

theorem diagnose_ordered_witness:
  "sorted_wrt (\<lambda>a b. conf_rank (dg_Confidence b) < conf_rank (dg_Confidence a)
      \<or> dg_Confidence a = dg_Confidence b \<and> dg_Code a < dg_Code b)
     (xp_Diagnosis (the (sample_explain ''k'' (Inl (WrongTypeError ''list'')))))
   \<and> 2 \<le> length (xp_Diagnosis (the (sample_explain ''k'' (Inl (WrongTypeError ''list'')))))"
proof
  show "2 \<le> length (xp_Diagnosis (the (sample_explain ''k'' (Inl (WrongTypeError ''list'')))))" by code_simp
qed (rule conjunct1 [OF diagnose_ordered [OF sample_explained]])

lemma rule_table [simp]:
  "(''AGREE'', \<lambda>e i now. ruleAgree e) \<in> set explain_rules"
  "(''MISSING_IN_TARGET_NO_GAPS'', \<lambda>e i now. ruleMissingInTargetNoGaps e) \<in> set explain_rules"
  "(''EXTRA_IN_TARGET'', \<lambda>e i now. ruleExtraInTarget e) \<in> set explain_rules"
  "(''TARGET_EVICTION_LIKELY'', \<lambda>e i now. ruleTargetEvictionLikely i e) \<in> set explain_rules"
  "(''TYPE_MISMATCH'', \<lambda>e i now. ruleTypeMismatch e) \<in> set explain_rules"
  "(''MEMBER_SUBSET'', \<lambda>e i now. ruleMemberSubset e) \<in> set explain_rules"
  "(''MEMBER_SUPERSET'', \<lambda>e i now. ruleMemberSuperset e) \<in> set explain_rules"
  unfolding explain_rules_def list.set by (rule insertI1 | rule insertI2)+

lemma Find_code_fires:
  assumes "xp_Diagnosis e = []" and "(code, fire) \<in> set explain_rules"
  shows "Find_code (diagnose i now e) code = None \<longleftrightarrow> fire e i now = None"
  by (simp add: Find_code_None diagnose_code [OF assms])



text \<open>C40: A settled key of which every event was seen and which the store holds under another type is diagnosed as missing
  from the store, with high confidence and ahead of the mismatch of types: the rule takes the value that was
  never read for an absent one.\<close>

theorem wrong_type_diagnosed_missing:
  assumes "Explain hash (Some orc) now onow rd i = Some e" and "Oracle_Get hash orc (in_Key i) onow = Some ent"
    and "in_Target i = Some tv" and "tv_Get tv = Inl (WrongTypeError got)" and "got \<noteq> []"
    and "\<not> IsAbsent (eo_value ent)" and "eo_trust ent = TrustComplete"
    and "in_Window i < time_sub now (eo_lastEventAt ent)"
  shows "xp_Verdict e = VerdictDiverged \<and>
    (\<exists>j k. j < k \<and> k < length (xp_Diagnosis e)
       \<and> xp_Diagnosis e ! j = \<lparr>dg_Code = ''MISSING_IN_TARGET_NO_GAPS'', dg_Confidence = ConfidenceHigh\<rparr>
       \<and> xp_Diagnosis e ! k = \<lparr>dg_Code = ''TYPE_MISMATCH'', dg_Confidence = ConfidenceHigh\<rparr>)"
proof -
  let ?j = "explain_applyDefaults i"
  let ?g = "gathered hash orc now onow rd ?j" let ?d = "decideVerdict now ?g"
  have e: "e = diagnose ?j now ?d" using assms(1) by (simp add: Explain_eq Let_def)
  have o': "Oracle_Get hash orc (in_Key ?j) onow = Some ent" using assms(2) by simp
  have t: "in_Target ?j = Some tv" using assms(3) by simp
  note g = gathered_oracle [OF o', of now rd] gathered_wrong_type [OF t assms(4), of hash orc now onow rd]
  have un: "xp_Diagnosis ?d = []" by simp
  have settled: "xp_Settled ?d" using assms(8) by (simp add: decideVerdict_def Let_def settledAt_def g)
  have m: "\<lparr>dg_Code = ''MISSING_IN_TARGET_NO_GAPS'', dg_Confidence = ConfidenceHigh\<rparr> \<in> set (xp_Diagnosis e)"
    unfolding e diagnose_code [OF un rule_table(2)] using assms(6,7) settled
    by (simp add: ruleMissingInTargetNoGaps_def g)
  have tm: "\<lparr>dg_Code = ''TYPE_MISMATCH'', dg_Confidence = ConfidenceHigh\<rparr> \<in> set (xp_Diagnosis e)"
    unfolding e diagnose_code [OF un rule_table(5)] using assms(5) by (simp add: ruleTypeMismatch_def g)
  have "xp_Verdict e = VerdictDiverged" using assms(5) by (simp add: e decideVerdict_def Let_def g)
  moreover have "sorted_wrt (\<lambda>a b. conf_rank (dg_Confidence b) < conf_rank (dg_Confidence a)
      \<or> dg_Confidence a = dg_Confidence b \<and> dg_Code a < dg_Code b) (xp_Diagnosis e)"
    unfolding e by (rule diagnose_sorted [OF un])
  then have "\<exists>j k. j < k \<and> k < length (xp_Diagnosis e)
       \<and> xp_Diagnosis e ! j = \<lparr>dg_Code = ''MISSING_IN_TARGET_NO_GAPS'', dg_Confidence = ConfidenceHigh\<rparr>
       \<and> xp_Diagnosis e ! k = \<lparr>dg_Code = ''TYPE_MISMATCH'', dg_Confidence = ConfidenceHigh\<rparr>"
    by (rule sorted_wrt_before [OF _ m tm]) (code_simp, code_simp)
  ultimately show ?thesis by blast
qed

theorem wrong_type_diagnosed_missing_witness:
  "xp_Verdict (the (sample_explain ''k'' (Inl (WrongTypeError ''list'')))) = VerdictDiverged"
proof -
  obtain ent where "Oracle_Get sample_hash sample_orc ''k'' sample_late = Some ent"
    "eo_value ent = read_scalar ''v''" "eo_trust ent = TrustComplete" "eo_lastEventAt ent = t0"
    by (rule sample_entry) blast
  moreover have "5000000000 < time_sub sample_late t0" by code_simp
  ultimately show ?thesis
    using wrong_type_diagnosed_missing [OF sample_explained, of "''k''" "Inl (WrongTypeError ''list'')" ent _ "''list''"]
    by (simp add: sample_in_def read_scalar_def IsAbsent_def)
qed

end
