(* ===== verification/Source.thy ===== *)
theory Source
  imports CheckSafety Config "HOL-Library.Sublist"
begin

text \<open>
  \<open>pkg/source\<close>: the settings a source is built from (\<open>source.go\<close>), the edge that every networked source
  shares (its counters, its channel of possible-loss signals and the channel into the pipeline), and
  the ZeroMQ and NATS sources (\<open>zmq.go\<close>, \<open>nats.go\<close>). The socket, the resolver, the NATS client, the clock and the
  random draws are inputs of the steps. \<open>watchGaps\<close> of \<open>pkg/check/check.go\<close> is the other end of the signals.
\<close>

section \<open>Settings\<close>

datatype SrcErr =
    SrcErrUnknownSource | SrcErrBadConfig | SrcErrIdle | SrcErrPayloadTooLarge | SrcErrQueueGroupSet
  | SrcErrCanceled | SrcErrTransport string

record SourceConfig =
  so_Settings :: "(string, string) go_map"
  so_MaxPayloadBytes :: int
  so_ShutdownGrace :: duration

definition defaultMaxPayloadBytes :: int where
  "defaultMaxPayloadBytes = 8 * 2 ^ 20"

definition source_applyDefaults :: "SourceConfig \<Rightarrow> SourceConfig" where
  "source_applyDefaults c =
     c\<lparr>so_MaxPayloadBytes := (if so_MaxPayloadBytes c \<le> 0 then defaultMaxPayloadBytes else so_MaxPayloadBytes c),
       so_ShutdownGrace := (if so_ShutdownGrace c \<le> 0 then seconds 10 else so_ShutdownGrace c)\<rparr>"

definition Setting :: "SourceConfig \<Rightarrow> string \<Rightarrow> string \<Rightarrow> string" where
  "Setting c key def = (case map_get (so_Settings c) key of None \<Rightarrow> def | Some v \<Rightarrow> if v = [] then def else v)"

definition SettingList :: "SourceConfig \<Rightarrow> string \<Rightarrow> string list" where
  "SettingList c key =
     (let raw = Setting c key []
      in if raw = [] then [] else filter (\<lambda>p. p \<noteq> []) (map trim_space (Split raw '','')))"

definition SettingInt :: "SourceConfig \<Rightarrow> string \<Rightarrow> int \<Rightarrow> SrcErr + int" where
  "SettingInt c key def =
     (let raw = Setting c key []
      in if raw = [] then Inr def else (case ParseInt raw of None \<Rightarrow> Inl SrcErrBadConfig | Some n \<Rightarrow> Inr n))"

definition SettingDuration :: "golib \<Rightarrow> SourceConfig \<Rightarrow> string \<Rightarrow> duration \<Rightarrow> SrcErr + duration" where
  "SettingDuration lib c key def =
     (let raw = Setting c key []
      in if raw = [] then Inr def
         else
           (case gl_parseDuration lib raw of
              None \<Rightarrow> Inl SrcErrBadConfig
            | Some d \<Rightarrow> if d < 0 then Inl SrcErrBadConfig else Inr d))"

section \<open>The edge of the pipeline\<close>

datatype GapReason = GapReconnect | GapHighWaterMark | GapOversized | GapIdle

text \<open>The detail of a signal is prose that nothing parses.\<close>

record GapSignal =
  sg_Source :: string
  sg_Reason :: GapReason
  sg_At :: time

record Stats =
  ss_Connected :: bool
  ss_Reconnects :: u64
  ss_FramesReceived :: u64
  ss_BytesReceived :: u64
  ss_LastFrameAt :: time
  ss_LastError :: "SrcErr option"
  ss_Dropped :: u64
  ss_Gaps :: u64

definition zero_Stats :: Stats where
  "zero_Stats =
     \<lparr>ss_Connected = False, ss_Reconnects = 0, ss_FramesReceived = 0, ss_BytesReceived = 0, ss_LastFrameAt = 0,
      ss_LastError = None, ss_Dropped = 0, ss_Gaps = 0\<rparr>"

text \<open>What a source shares with the pipeline: its counters, the gap channel, which holds sixteen signals, and the
  channel of messages with its capacity.\<close>

record edge =
  eg_stats :: Stats
  eg_gaps :: "GapSignal list"
  eg_out :: "RawMessage list"
  eg_cap :: nat

definition counters_frame :: "nat \<Rightarrow> time \<Rightarrow> edge \<Rightarrow> edge" where
  "counters_frame n at' e =
     e\<lparr>eg_stats := (eg_stats e)\<lparr>ss_FramesReceived := ss_FramesReceived (eg_stats e) + 1,
         ss_BytesReceived := ss_BytesReceived (eg_stats e) + of_nat n, ss_LastFrameAt := at'\<rparr>\<rparr>"

definition counters_connected :: "bool \<Rightarrow> edge \<Rightarrow> edge" where
  "counters_connected v e = e\<lparr>eg_stats := (eg_stats e)\<lparr>ss_Connected := v\<rparr>\<rparr>"

definition counters_reconnected :: "edge \<Rightarrow> edge" where
  "counters_reconnected e =
     e\<lparr>eg_stats := (eg_stats e)\<lparr>ss_Reconnects := ss_Reconnects (eg_stats e) + 1, ss_Connected := False\<rparr>\<rparr>"

definition counters_dropped :: "edge \<Rightarrow> edge" where
  "counters_dropped e = e\<lparr>eg_stats := (eg_stats e)\<lparr>ss_Dropped := ss_Dropped (eg_stats e) + 1\<rparr>\<rparr>"

definition counters_gap :: "edge \<Rightarrow> edge" where
  "counters_gap e = e\<lparr>eg_stats := (eg_stats e)\<lparr>ss_Gaps := ss_Gaps (eg_stats e) + 1\<rparr>\<rparr>"

definition counters_fail :: "SrcErr option \<Rightarrow> edge \<Rightarrow> edge" where
  "counters_fail err e =
     (case err of None \<Rightarrow> e | Some x \<Rightarrow> e\<lparr>eg_stats := (eg_stats e)\<lparr>ss_LastError := Some x\<rparr>\<rparr>)"

definition gap_buffer :: nat where
  "gap_buffer = 16"

definition gap_signal :: "string \<Rightarrow> GapReason \<Rightarrow> time \<Rightarrow> edge \<Rightarrow> edge" where
  "gap_signal name reason at' e =
     (let e = counters_gap e
      in if length (eg_gaps e) < gap_buffer
         then e\<lparr>eg_gaps := eg_gaps e @ [\<lparr>sg_Source = name, sg_Reason = reason, sg_At = at'\<rparr>]\<rparr> else e)"

definition trySend :: "RawMessage \<Rightarrow> edge \<Rightarrow> edge option" where
  "trySend msg e = (if length (eg_out e) < eg_cap e then Some (e\<lparr>eg_out := eg_out e @ [msg]\<rparr>) else None)"

section \<open>ZeroMQ\<close>

record ZMQSource =
  zq_endpoints :: "string list"
  zq_topics :: "string list"
  zq_recvHWM :: int
  zq_connectTimeout :: duration
  zq_reconnectIntervalMax :: duration
  zq_idleTimeout :: duration
  zq_maxPayload :: int
  zq_shutdownGrace :: duration

definition WithTopics :: "string list \<Rightarrow> ZMQSource \<Rightarrow> ZMQSource" where
  "WithTopics topics z = z\<lparr>zq_topics := topics\<rparr>"

definition WithRecvHWM :: "int \<Rightarrow> ZMQSource \<Rightarrow> ZMQSource" where
  "WithRecvHWM n z = (if 0 < n then z\<lparr>zq_recvHWM := n\<rparr> else z)"

definition WithReconnectIntervalMax :: "duration \<Rightarrow> ZMQSource \<Rightarrow> ZMQSource" where
  "WithReconnectIntervalMax d z = (if 0 < d then z\<lparr>zq_reconnectIntervalMax := d\<rparr> else z)"

definition WithIdleTimeout :: "duration \<Rightarrow> ZMQSource \<Rightarrow> ZMQSource" where
  "WithIdleTimeout d z = (if 0 \<le> d then z\<lparr>zq_idleTimeout := d\<rparr> else z)"

definition WithConnectTimeout :: "duration \<Rightarrow> ZMQSource \<Rightarrow> ZMQSource" where
  "WithConnectTimeout d z = (if 0 < d then z\<lparr>zq_connectTimeout := d\<rparr> else z)"

definition NewZMQ :: "string list \<Rightarrow> (ZMQSource \<Rightarrow> ZMQSource) list \<Rightarrow> SrcErr + ZMQSource" where
  "NewZMQ endpoints opts =
     (if endpoints = [] then Inl SrcErrBadConfig
      else
        Inr (fold (\<lambda>opt z. opt z) opts
          \<lparr>zq_endpoints = endpoints, zq_topics = [], zq_recvHWM = 100000, zq_connectTimeout = seconds 5,
           zq_reconnectIntervalMax = seconds 30, zq_idleTimeout = seconds 60, zq_maxPayload = defaultMaxPayloadBytes,
           zq_shutdownGrace = seconds 10\<rparr>))"

definition newZMQ :: "golib \<Rightarrow> SourceConfig \<Rightarrow> SrcErr + ZMQSource" where
  "newZMQ lib cfg =
     (case SettingInt cfg ''recvHWM'' 100000 of Inl err \<Rightarrow> Inl err | Inr hwm \<Rightarrow>
      case SettingDuration lib cfg ''connectTimeout'' (seconds 5) of Inl err \<Rightarrow> Inl err | Inr connectTimeout \<Rightarrow>
      case SettingDuration lib cfg ''reconnectIntervalMax'' (seconds 30) of Inl err \<Rightarrow> Inl err | Inr reconnectMax \<Rightarrow>
      case SettingDuration lib cfg ''idleTimeout'' (seconds 60) of Inl err \<Rightarrow> Inl err | Inr idleTimeout \<Rightarrow>
      (case NewZMQ (SettingList cfg ''endpoints'')
              [WithTopics (SettingList cfg ''topics''), WithRecvHWM hwm, WithConnectTimeout connectTimeout,
               WithReconnectIntervalMax reconnectMax, WithIdleTimeout idleTimeout] of
         Inl err \<Rightarrow> Inl err
       | Inr z \<Rightarrow> Inr (z\<lparr>zq_maxPayload := so_MaxPayloadBytes cfg, zq_shutdownGrace := so_ShutdownGrace cfg\<rparr>)))"

fun splitFrames :: "bytes list \<Rightarrow> (string \<times> bytes) option" where
  "splitFrames [] = None"
| "splitFrames [f] = Some ([], f)"
| "splitFrames (f # g # rest) = Some (f, g)"

text \<open>\<open>deliver\<close>: whether the frame reached the pipeline.\<close>

definition zmq_deliver :: "ZMQSource \<Rightarrow> time \<Rightarrow> bytes list \<Rightarrow> edge \<Rightarrow> edge \<times> bool" where
  "zmq_deliver z now frames e =
     (case splitFrames frames of
        None \<Rightarrow> (e, False)
      | Some (topic, payload) \<Rightarrow>
          if zq_maxPayload z < int (length payload) then
            (gap_signal ''zmq'' GapOversized now (counters_fail (Some SrcErrPayloadTooLarge) (counters_dropped e)), False)
          else
            (case trySend \<lparr>rm_topic = topic, rm_payload = payload, rm_observedAt = now\<rparr> e of
               Some e \<Rightarrow> (counters_frame (length payload) now e, True)
             | None \<Rightarrow> (gap_signal ''zmq'' GapHighWaterMark now (counters_dropped e), False)))"

definition baseReconnectInterval :: duration where
  "baseReconnectInterval = 100000000"

text \<open>The shift is at most 20 places and stays inside 64 bits. \<open>draw n\<close> is \<open>Int63n (n)\<close>.\<close>

definition backoff_window :: "ZMQSource \<Rightarrow> nat \<Rightarrow> duration" where
  "backoff_window z attempt =
     (let window = baseReconnectInterval * 2 ^ min attempt 20
      in if zq_reconnectIntervalMax z < window \<or> window \<le> 0 then zq_reconnectIntervalMax z else window)"

definition backoff :: "(int \<Rightarrow> int) \<Rightarrow> ZMQSource \<Rightarrow> nat \<Rightarrow> duration" where
  "backoff draw z attempt = draw (backoff_window z attempt + 1)"

text \<open>The network as one session finds it; a \<open>Some\<close> is an error.\<close>

record zmq_net =
  zn_subscribe :: "string \<Rightarrow> SrcErr option"
  zn_resolve :: "string \<Rightarrow> SrcErr + string list"
  zn_dial :: "string \<Rightarrow> SrcErr option"

definition zmq_subscribe :: "zmq_net \<Rightarrow> ZMQSource \<Rightarrow> SrcErr option" where
  "zmq_subscribe net z =
     (let topics = (if zq_topics z = [] then [[]] else zq_topics z)
      in (case find (\<lambda>t. zn_subscribe net t \<noteq> None) topics of None \<Rightarrow> None | Some t \<Rightarrow> zn_subscribe net t))"

fun dial_addrs :: "zmq_net \<Rightarrow> string list \<Rightarrow> nat \<times> SrcErr option \<Rightarrow> nat \<times> SrcErr option" where
  "dial_addrs net [] acc = acc"
| "dial_addrs net (addr # addrs) (dialed, lastErr) =
     dial_addrs net addrs
       (case zn_dial net addr of Some err \<Rightarrow> (dialed, Some err) | None \<Rightarrow> (dialed + 1, lastErr))"

fun dial_endpoints :: "zmq_net \<Rightarrow> string list \<Rightarrow> nat \<times> SrcErr option \<Rightarrow> nat \<times> SrcErr option" where
  "dial_endpoints net [] acc = acc"
| "dial_endpoints net (ep # eps) (dialed, lastErr) =
     (case zn_resolve net ep of
        Inl err \<Rightarrow> dial_endpoints net eps (dialed, Some err)
      | Inr addrs \<Rightarrow> dial_endpoints net eps (dial_addrs net addrs (dialed, lastErr)))"

definition zmq_connect :: "zmq_net \<Rightarrow> ZMQSource \<Rightarrow> SrcErr option" where
  "zmq_connect net z =
     (let (dialed, lastErr) = dial_endpoints net (zq_endpoints z) (0, None)
      in if dialed = 0 then
           (case lastErr of None \<Rightarrow> Some (SrcErrTransport ''no endpoint could be reached'') | Some err \<Rightarrow> Some err)
         else None)"

text \<open>Where \<open>Run\<close> is: before a session, receiving with the deadline of the idle timer if there is one, asleep between
  sessions, or returned.\<close>

datatype zmq_pc = ZTop | ZReceiving "time option" | ZSleeping duration | ZReturned "SrcErr option"

record zmq_state =
  zs_edge :: edge
  zs_attempt :: nat
  zs_closed :: bool
  zs_at :: zmq_pc

record zmq_env =
  ze_now :: time
  ze_cancelled :: bool
  ze_draw :: "int \<Rightarrow> int"
  ze_net :: zmq_net

text \<open>The end of a session, and what \<open>Run\<close> makes of it.\<close>

definition session_over :: "ZMQSource \<Rightarrow> zmq_env \<Rightarrow> SrcErr option \<Rightarrow> zmq_state \<Rightarrow> zmq_state" where
  "session_over z env err s =
     (let s = s\<lparr>zs_edge := counters_connected False (zs_edge s)\<rparr>
      in if ze_cancelled env then s\<lparr>zs_at := ZReturned (Some SrcErrCanceled)\<rparr>
         else if zs_closed s then s\<lparr>zs_at := ZReturned None\<rparr>
         else
           let e = counters_fail err (counters_reconnected (zs_edge s));
               attempt = zs_attempt s + 1
           in s\<lparr>zs_edge := gap_signal ''zmq'' GapReconnect (ze_now env) e, zs_attempt := attempt,
                zs_at := ZSleeping (backoff (ze_draw env) z attempt)\<rparr>)"

definition idle_deadline :: "ZMQSource \<Rightarrow> time \<Rightarrow> time option" where
  "idle_deadline z now = (if zq_idleTimeout z \<le> 0 then None else Some (now + zq_idleTimeout z))"

definition zmq_open :: "ZMQSource \<Rightarrow> zmq_env \<Rightarrow> zmq_state \<Rightarrow> zmq_state" where
  "zmq_open z env s =
     (if ze_cancelled env then s\<lparr>zs_at := ZReturned (Some SrcErrCanceled)\<rparr>
      else if zs_closed s then s\<lparr>zs_at := ZReturned None\<rparr>
      else
        (case zmq_subscribe (ze_net env) z of
           Some err \<Rightarrow> session_over z env (Some err) s
         | None \<Rightarrow>
             (case zmq_connect (ze_net env) z of
                Some err \<Rightarrow> session_over z env (Some err) s
              | None \<Rightarrow>
                  s\<lparr>zs_edge := counters_connected True (zs_edge s),
                    zs_at := ZReceiving (idle_deadline z (ze_now env))\<rparr>)))"

datatype zmq_event = ZOpen | ZFrame "bytes list" | ZRecvErr string | ZIdle | ZCancel | ZWake | ZClose

definition zmq_step :: "ZMQSource \<Rightarrow> zmq_env \<Rightarrow> zmq_event \<Rightarrow> zmq_state \<Rightarrow> zmq_state option" where
  "zmq_step z env ev s =
     (case (ev, zs_at s) of
        (ZClose, at') \<Rightarrow>
          Some (if zs_closed s then s
                else s\<lparr>zs_closed := True, zs_edge := counters_connected False (zs_edge s)\<rparr>)
      | (ZOpen, ZTop) \<Rightarrow> Some (zmq_open z env s)
      | (ZFrame frames, ZReceiving deadline) \<Rightarrow>
          if zs_closed s then Some (session_over z env None s)
          else
            let (e, ok) = zmq_deliver z (ze_now env) frames (zs_edge s)
            in Some (s\<lparr>zs_edge := e,
                       zs_at := ZReceiving (if ok then idle_deadline z (ze_now env) else deadline)\<rparr>)
      | (ZRecvErr err, ZReceiving deadline) \<Rightarrow> Some (session_over z env (Some (SrcErrTransport err)) s)
      | (ZIdle, ZReceiving (Some at')) \<Rightarrow>
          if ze_now env < at' then None
          else
            Some (session_over z env (Some SrcErrIdle)
                   (s\<lparr>zs_edge := gap_signal ''zmq'' GapIdle (ze_now env) (zs_edge s)\<rparr>))
      | (ZCancel, ZReceiving deadline) \<Rightarrow>
          if ze_cancelled env then Some (session_over z env (Some SrcErrCanceled) s) else None
      | (ZWake, ZSleeping d) \<Rightarrow>
          Some (s\<lparr>zs_at := (if ze_cancelled env then ZReturned (Some SrcErrCanceled) else ZTop)\<rparr>)
      | _ \<Rightarrow> None)"

section \<open>NATS\<close>

record NATSSource =
  nq_url :: string
  nq_subjects :: "string list"
  nq_maxPayload :: int

definition validateQueueGroup :: "string \<Rightarrow> SrcErr option" where
  "validateQueueGroup queueGroup = (if trim_space queueGroup = [] then None else Some SrcErrQueueGroupSet)"

definition NewNATS :: "string \<Rightarrow> string list \<Rightarrow> string \<Rightarrow> SrcErr + NATSSource" where
  "NewNATS url subjects queueGroup =
     (case validateQueueGroup queueGroup of
        Some err \<Rightarrow> Inl err
      | None \<Rightarrow>
          if trim_space url = [] then Inl SrcErrBadConfig
          else if subjects = [] then Inl SrcErrBadConfig
          else Inr \<lparr>nq_url = url, nq_subjects = subjects, nq_maxPayload = defaultMaxPayloadBytes\<rparr>)"

definition newNATS :: "SourceConfig \<Rightarrow> SrcErr + NATSSource" where
  "newNATS cfg =
     (case NewNATS (Setting cfg ''url'' []) (SettingList cfg ''subjects'') (Setting cfg ''queueGroup'' []) of
        Inl err \<Rightarrow> Inl err
      | Inr n \<Rightarrow> Inr (n\<lparr>nq_maxPayload := so_MaxPayloadBytes cfg\<rparr>))"

definition nats_forward :: "NATSSource \<Rightarrow> time \<Rightarrow> string \<times> bytes \<Rightarrow> edge \<Rightarrow> edge" where
  "nats_forward n now msg e =
     (case msg of
        (subject, data) \<Rightarrow>
          if nq_maxPayload n < int (length data) then
            gap_signal ''nats'' GapOversized now (counters_fail (Some SrcErrPayloadTooLarge) (counters_dropped e))
          else
            (case trySend \<lparr>rm_topic = subject, rm_payload = data, rm_observedAt = now\<rparr> e of
               Some e \<Rightarrow> counters_frame (length data) now e
             | None \<Rightarrow> gap_signal ''nats'' GapHighWaterMark now (counters_dropped e)))"

text \<open>What each subscription says it dropped, \<open>None\<close> for an error.\<close>

definition droppedCount :: "int option list \<Rightarrow> int" where
  "droppedCount subs = sum_list (map (\<lambda>d. case d of None \<Rightarrow> 0 | Some n \<Rightarrow> n) subs)"

datatype nats_pc = NStart | NDelivering | NReturned "SrcErr option"

record nats_state =
  ns_edge :: edge
  ns_reportedDrops :: int
  ns_closed :: bool
  ns_at :: nats_pc

definition nats_return :: "SrcErr option \<Rightarrow> nats_state \<Rightarrow> nats_state" where
  "nats_return err s = s\<lparr>ns_edge := counters_connected False (ns_edge s), ns_at := NReturned err\<rparr>"

text \<open>One message in \<open>deliver\<close>, with what the client then says it dropped.\<close>

definition nats_message :: "NATSSource \<Rightarrow> time \<Rightarrow> string \<times> bytes \<Rightarrow> int option list \<Rightarrow> nats_state \<Rightarrow> nats_state" where
  "nats_message n now msg subs s =
     (let e = nats_forward n now msg (ns_edge s);
          dropped = droppedCount subs
      in if ns_reportedDrops s < dropped
         then s\<lparr>ns_edge := gap_signal ''nats'' GapHighWaterMark now e, ns_reportedDrops := dropped\<rparr>
         else s\<lparr>ns_edge := e\<rparr>)"

text \<open>\<open>NConnect\<close> is the connection and the subscriptions, with the error of the first that failed; the handlers of
  the client run beside \<open>deliver\<close>.\<close>

datatype nats_event =
    NConnect "SrcErr option" "SrcErr option" | NMsg "string \<times> bytes" "int option list" | NChanClosed
  | NReconnected | NDisconnected "SrcErr option" | NCancel | NClose

definition nats_step :: "NATSSource \<Rightarrow> time \<Rightarrow> nats_event \<Rightarrow> nats_state \<Rightarrow> nats_state option" where
  "nats_step n now ev s =
     (case (ev, ns_at s) of
        (NClose, at') \<Rightarrow>
          Some (if ns_closed s then s
                else s\<lparr>ns_closed := True, ns_edge := counters_connected False (ns_edge s)\<rparr>)
      | (NConnect (Some err) subErr, NStart) \<Rightarrow>
          Some (s\<lparr>ns_edge := counters_fail (Some err) (ns_edge s), ns_at := NReturned (Some err)\<rparr>)
      | (NConnect None (Some err), NStart) \<Rightarrow>
          Some (nats_return (Some err) (s\<lparr>ns_edge := counters_fail (Some err) (ns_edge s)\<rparr>))
      | (NConnect None None, NStart) \<Rightarrow>
          Some (s\<lparr>ns_edge := counters_connected True (ns_edge s), ns_at := NDelivering\<rparr>)
      | (NMsg msg subs, NDelivering) \<Rightarrow>
          Some (if ns_closed s then nats_return None s else nats_message n now msg subs s)
      | (NChanClosed, NDelivering) \<Rightarrow> Some (nats_return None s)
      | (NReconnected, NDelivering) \<Rightarrow>
          Some (s\<lparr>ns_edge := gap_signal ''nats'' GapReconnect now
                    (counters_connected True (counters_reconnected (ns_edge s)))\<rparr>)
      | (NDisconnected err, NDelivering) \<Rightarrow>
          Some (s\<lparr>ns_edge := counters_fail err (counters_connected False (ns_edge s))\<rparr>)
      | (NCancel, NDelivering) \<Rightarrow> Some (nats_return (Some SrcErrCanceled) s)
      | _ \<Rightarrow> None)"

section \<open>The account of an edge\<close>

text \<open>\<open>received\<close> are the messages that arrived, \<open>got\<close> those the pipeline has taken from the channel, and \<open>lost\<close> says
  that one was lost, or may have been, since the pipeline last took a signal.\<close>

definition accounted :: "RawMessage list \<Rightarrow> RawMessage list \<Rightarrow> bool \<Rightarrow> edge \<Rightarrow> bool" where
  "accounted received got lost e \<longleftrightarrow>
     subseq (got @ eg_out e) received
   \<and> ss_FramesReceived (eg_stats e) = of_nat (length (got @ eg_out e))
   \<and> ss_Dropped (eg_stats e) = of_nat (length received - length (got @ eg_out e))
   \<and> (lost \<longrightarrow> eg_gaps e \<noteq> []) \<and> length (eg_gaps e) \<le> gap_buffer \<and> length (eg_out e) \<le> eg_cap e"

definition new_edge :: "nat \<Rightarrow> edge" where
  "new_edge cap = \<lparr>eg_stats = zero_Stats, eg_gaps = [], eg_out = [], eg_cap = cap\<rparr>"

lemma accounted_new: "accounted [] [] False (new_edge cap)"
  by (simp add: accounted_def new_edge_def zero_Stats_def)

text \<open>What the counters and the signals leave alone.\<close>

lemma counters_simps [simp]:
  "eg_out (counters_frame n t e) = eg_out e" "eg_gaps (counters_frame n t e) = eg_gaps e"
  "eg_cap (counters_frame n t e) = eg_cap e"
  "ss_FramesReceived (eg_stats (counters_frame n t e)) = ss_FramesReceived (eg_stats e) + 1"
  "ss_Dropped (eg_stats (counters_frame n t e)) = ss_Dropped (eg_stats e)"
  "eg_out (counters_dropped e) = eg_out e" "eg_gaps (counters_dropped e) = eg_gaps e" "eg_cap (counters_dropped e) = eg_cap e"
  "ss_FramesReceived (eg_stats (counters_dropped e)) = ss_FramesReceived (eg_stats e)"
  "ss_Dropped (eg_stats (counters_dropped e)) = ss_Dropped (eg_stats e) + 1"
  by (simp_all add: counters_frame_def counters_dropped_def)

lemma gap_signal_simps [simp]:
  "eg_out (gap_signal name r t e) = eg_out e" "eg_cap (gap_signal name r t e) = eg_cap e"
  "ss_FramesReceived (eg_stats (gap_signal name r t e)) = ss_FramesReceived (eg_stats e)"
  "ss_Dropped (eg_stats (gap_signal name r t e)) = ss_Dropped (eg_stats e)"
  "eg_gaps (gap_signal name r t e) \<noteq> []"
  "length (eg_gaps e) \<le> gap_buffer \<Longrightarrow> length (eg_gaps (gap_signal name r t e)) \<le> gap_buffer"
  by (auto simp: gap_signal_def counters_gap_def Let_def gap_buffer_def)

lemma accounted_signal: "accounted rec tk lost e \<Longrightarrow> accounted rec tk True (gap_signal name r t e)"
  by (simp add: accounted_def)

text \<open>The counters that say nothing about messages.\<close>

lemma accounted_counters [simp]:
  "accounted rec tk lost (counters_connected b e) = accounted rec tk lost e"
  "accounted rec tk lost (counters_reconnected e) = accounted rec tk lost e"
  "accounted rec tk lost (counters_fail err e) = accounted rec tk lost e"
  by (auto simp: accounted_def counters_connected_def counters_reconnected_def counters_fail_def split: option.splits)

lemma accounted_weaken: "accounted rec tk True e \<Longrightarrow> accounted rec tk lost e"
  by (simp add: accounted_def)

lemma accounted_take:
  "accounted rec tk lost e \<Longrightarrow> eg_out e = m # ms \<Longrightarrow> accounted rec (tk @ [m]) lost (e\<lparr>eg_out := ms\<rparr>)"
  by (simp add: accounted_def)

lemma accounted_watch:
  "accounted rec tk lost e \<Longrightarrow> eg_gaps e = g # gs \<Longrightarrow> accounted rec tk False (e\<lparr>eg_gaps := gs\<rparr>)"
  by (simp add: accounted_def)

lemma accounted_send:
  assumes "accounted rec tk lost e" and "length (eg_out e) < eg_cap e"
  shows "accounted (rec @ [raw]) tk lost (counters_frame n t (e\<lparr>eg_out := eg_out e @ [raw]\<rparr>))"
proof -
  have "subseq ((tk @ eg_out e) @ [raw]) (rec @ [raw])"
    using assms(1) by (intro list_emb_append_mono) (simp_all add: accounted_def)
  then show ?thesis using assms by (auto simp: accounted_def)
qed

lemma accounted_drop:
  assumes "accounted rec tk lost e"
  shows "accounted (rec @ [raw]) tk True (gap_signal name r t (counters_fail err (counters_dropped e)))"
proof -
  have "length (tk @ eg_out e) \<le> length rec"
    using assms list_emb_length by (fastforce simp: accounted_def)
  then have "accounted (rec @ [raw]) tk False (counters_dropped e)"
    using assms by (auto simp: accounted_def Suc_diff_le)
  then show ?thesis by (intro accounted_signal [where lost = False]) simp
qed

text \<open>A handler of arriving messages either passes a message on and counts it, or drops it, counts it and raises a
  signal; what is no message changes nothing.\<close>

locale lossy_edge =
  fixes deliver :: "time \<Rightarrow> 'm \<Rightarrow> edge \<Rightarrow> edge" and message :: "'m \<Rightarrow> time \<Rightarrow> RawMessage option"
  assumes passes: "message m now = Some raw \<Longrightarrow>
      length (eg_out e) < eg_cap e
        \<and> (\<exists>n. deliver now m e = counters_frame n now (e\<lparr>eg_out := eg_out e @ [raw]\<rparr>))
      \<or> (\<exists>name r err. deliver now m e = gap_signal name r now (counters_fail err (counters_dropped e)))"
    and ignores: "message m now = None \<Longrightarrow> deliver now m e = e"
begin

lemma accounted_deliver:
  assumes "accounted rec tk lost e"
  shows "accounted (rec @ (case message m now of None \<Rightarrow> [] | Some raw \<Rightarrow> [raw])) tk
    (lost \<or> message m now \<noteq> None \<and> eg_out (deliver now m e) = eg_out e) (deliver now m e)"
proof (cases "message m now")
  case None
  then show ?thesis using assms ignores [OF None] by simp
next
  case (Some raw)
  from passes [OF Some, of e] show ?thesis
  proof
    assume "length (eg_out e) < eg_cap e \<and> (\<exists>n. deliver now m e = counters_frame n now (e\<lparr>eg_out := eg_out e @ [raw]\<rparr>))"
    then show ?thesis using accounted_send [OF assms] Some by auto
  next
    assume "\<exists>name r err. deliver now m e = gap_signal name r now (counters_fail err (counters_dropped e))"
    then show ?thesis using accounted_drop [OF assms] Some by (auto intro: accounted_weaken)
  qed
qed

end

definition zmq_raw :: "bytes list \<Rightarrow> time \<Rightarrow> RawMessage option" where
  "zmq_raw frames now =
     map_option (\<lambda>(topic, payload). \<lparr>rm_topic = topic, rm_payload = payload, rm_observedAt = now\<rparr>) (splitFrames frames)"

definition nats_raw :: "string \<times> bytes \<Rightarrow> time \<Rightarrow> RawMessage option" where
  "nats_raw msg now = Some \<lparr>rm_topic = fst msg, rm_payload = snd msg, rm_observedAt = now\<rparr>"

lemma counters_fail_None: "counters_fail None e = e"
  by (simp add: counters_fail_def)

text \<open>The three ways out of a handler.\<close>

lemma edge_cases:
  assumes "e' = (if limit < int (length payload) then gap_signal name GapOversized now (counters_fail (Some err) (counters_dropped e))
      else (case trySend raw e of
              Some e \<Rightarrow> counters_frame (length payload) now e
            | None \<Rightarrow> gap_signal name GapHighWaterMark now (counters_dropped e)))"
  shows "length (eg_out e) < eg_cap e \<and> (\<exists>n. e' = counters_frame n now (e\<lparr>eg_out := eg_out e @ [raw]\<rparr>))
    \<or> (\<exists>name r err. e' = gap_signal name r now (counters_fail err (counters_dropped e)))"
proof (cases "limit < int (length payload)")
  case True
  then show ?thesis using assms by auto
next
  case False
  show ?thesis
  proof (cases "length (eg_out e) < eg_cap e")
    case True
    then show ?thesis using assms False by (auto simp: trySend_def)
  next
    case room: False
    then have "e' = gap_signal name GapHighWaterMark now (counters_fail None (counters_dropped e))"
      using assms False by (simp add: trySend_def counters_fail_None)
    then show ?thesis by blast
  qed
qed

interpretation zq: lossy_edge "\<lambda>now m e. fst (zmq_deliver z now m e)" zmq_raw for z
proof
  fix m now raw e assume "zmq_raw m now = Some raw"
  then obtain topic payload where "splitFrames m = Some (topic, payload)"
    and "raw = \<lparr>rm_topic = topic, rm_payload = payload, rm_observedAt = now\<rparr>"
    by (auto simp: zmq_raw_def)
  then have "fst (zmq_deliver z now m e) =
      (if zq_maxPayload z < int (length payload)
       then gap_signal ''zmq'' GapOversized now (counters_fail (Some SrcErrPayloadTooLarge) (counters_dropped e))
       else (case trySend raw e of
               Some e \<Rightarrow> counters_frame (length payload) now e
             | None \<Rightarrow> gap_signal ''zmq'' GapHighWaterMark now (counters_dropped e)))"
    by (simp add: zmq_deliver_def split: option.split)
  then show "length (eg_out e) < eg_cap e
        \<and> (\<exists>n. fst (zmq_deliver z now m e) = counters_frame n now (e\<lparr>eg_out := eg_out e @ [raw]\<rparr>))
      \<or> (\<exists>name r err. fst (zmq_deliver z now m e) = gap_signal name r now (counters_fail err (counters_dropped e)))"
    by (rule edge_cases)
qed (simp add: zmq_raw_def zmq_deliver_def)

interpretation nq: lossy_edge "nats_forward n" nats_raw for n
proof
  fix m now raw e assume "nats_raw m now = Some raw"
  then have "nats_forward n now m e =
      (if nq_maxPayload n < int (length (snd m))
       then gap_signal ''nats'' GapOversized now (counters_fail (Some SrcErrPayloadTooLarge) (counters_dropped e))
       else (case trySend raw e of
               Some e \<Rightarrow> counters_frame (length (snd m)) now e
             | None \<Rightarrow> gap_signal ''nats'' GapHighWaterMark now (counters_dropped e)))"
    by (auto simp: nats_raw_def nats_forward_def split: prod.split option.split)
  then show "length (eg_out e) < eg_cap e
        \<and> (\<exists>k. nats_forward n now m e = counters_frame k now (e\<lparr>eg_out := eg_out e @ [raw]\<rparr>))
      \<or> (\<exists>name r err. nats_forward n now m e = gap_signal name r now (counters_fail err (counters_dropped e)))"
    by (rule edge_cases)
qed (simp add: nats_raw_def)

section \<open>Runs of the sources\<close>

text \<open>The message of a step, and whether one was lost by it: it arrived and did not reach the channel, or a session
  ended.\<close>

definition zmq_arrived :: "zmq_env \<Rightarrow> zmq_event \<Rightarrow> zmq_state \<Rightarrow> RawMessage list" where
  "zmq_arrived env ev s =
     (case (ev, zs_at s) of
        (ZFrame frames, ZReceiving deadline) \<Rightarrow>
          if zs_closed s then [] else (case zmq_raw frames (ze_now env) of None \<Rightarrow> [] | Some raw \<Rightarrow> [raw])
      | _ \<Rightarrow> [])"

definition zmq_lost :: "zmq_env \<Rightarrow> zmq_event \<Rightarrow> zmq_state \<Rightarrow> zmq_state \<Rightarrow> bool" where
  "zmq_lost env ev s s' \<longleftrightarrow>
     zmq_arrived env ev s \<noteq> [] \<and> eg_out (zs_edge s') = eg_out (zs_edge s) \<or> zs_attempt s' \<noteq> zs_attempt s"

inductive zmq_run :: "ZMQSource \<Rightarrow> nat \<Rightarrow> zmq_state \<Rightarrow> RawMessage list \<Rightarrow> RawMessage list \<Rightarrow> bool \<Rightarrow> bool" for z cap where
  start: "zmq_run z cap \<lparr>zs_edge = new_edge cap, zs_attempt = 0, zs_closed = False, zs_at = ZTop\<rparr> [] [] False"
| step: "zmq_run z cap s rec tk lost \<Longrightarrow> zmq_step z env ev s = Some s' \<Longrightarrow>
    zmq_run z cap s' (rec @ zmq_arrived env ev s) tk (lost \<or> zmq_lost env ev s s')"
| take: "zmq_run z cap s rec tk lost \<Longrightarrow> eg_out (zs_edge s) = m # ms \<Longrightarrow>
    zmq_run z cap (s\<lparr>zs_edge := (zs_edge s)\<lparr>eg_out := ms\<rparr>\<rparr>) rec (tk @ [m]) lost"
| watch: "zmq_run z cap s rec tk lost \<Longrightarrow> eg_gaps (zs_edge s) = g # gs \<Longrightarrow>
    zmq_run z cap (s\<lparr>zs_edge := (zs_edge s)\<lparr>eg_gaps := gs\<rparr>\<rparr>) rec tk False"

lemma accounted_session_over:
  assumes "accounted rec tk lost (zs_edge s)"
  shows "accounted rec tk (lost \<or> zs_attempt (session_over z env err s) \<noteq> zs_attempt s) (zs_edge (session_over z env err s))"
  using assms accounted_signal [of rec tk lost "counters_fail err (counters_reconnected (counters_connected False (zs_edge s)))"]
  by (simp add: session_over_def Let_def)

lemma accounted_step:
  assumes "accounted rec tk lost (zs_edge s)" and "zmq_step z env ev s = Some s'"
  shows "accounted (rec @ zmq_arrived env ev s) tk (lost \<or> zmq_lost env ev s s') (zs_edge s')"
proof (cases "\<exists>frames deadline. ev = ZFrame frames \<and> zs_at s = ZReceiving deadline \<and> \<not> zs_closed s")
  case True
  then obtain frames deadline where ev: "ev = ZFrame frames" "zs_at s = ZReceiving deadline" "\<not> zs_closed s" by blast
  let ?e = "fst (zmq_deliver z (ze_now env) frames (zs_edge s))"
  have s': "zs_edge s' = ?e" "zs_attempt s' = zs_attempt s"
    using assms(2) ev by (auto simp: zmq_step_def split: prod.splits)
  show ?thesis
    using zq.accounted_deliver [OF assms(1), of frames "ze_now env" z] s' ev
    by (auto simp: zmq_arrived_def zmq_lost_def split: option.splits)
next
  case False
  then have none: "zmq_arrived env ev s = []"
    by (auto simp: zmq_arrived_def split: zmq_event.splits zmq_pc.splits)
  then have lost: "zmq_lost env ev s s' \<longleftrightarrow> zs_attempt s' \<noteq> zs_attempt s" by (simp add: zmq_lost_def)
  note over = accounted_session_over [OF assms(1), of z env]
  have idle: "accounted rec tk (lost \<or> zs_attempt (session_over z env err s1) \<noteq> zs_attempt s)
      (zs_edge (session_over z env err s1))"
    if "s1 = s\<lparr>zs_edge := gap_signal ''zmq'' GapIdle t (zs_edge s)\<rparr>" for err s1 t
    using accounted_session_over [of rec tk True s1 z env err] accounted_signal [OF assms(1)] that
    by (auto intro: accounted_weaken)
  show ?thesis
    using assms False over idle
    by (auto simp: none lost zmq_step_def zmq_open_def split: zmq_event.splits zmq_pc.splits option.splits if_splits)
qed

lemma zmq_run_accounted: "zmq_run z cap s rec tk lost \<Longrightarrow> accounted rec tk lost (zs_edge s)"
  by (induction rule: zmq_run.induct) (auto simp: accounted_new accounted_step accounted_take accounted_watch)


text \<open>The same account for NATS, where the client reconnects by itself and reports it.\<close>

definition nats_arrived :: "time \<Rightarrow> nats_event \<Rightarrow> nats_state \<Rightarrow> RawMessage list" where
  "nats_arrived now ev s =
     (case (ev, ns_at s) of
        (NMsg msg subs, NDelivering) \<Rightarrow>
          if ns_closed s then [] else [\<lparr>rm_topic = fst msg, rm_payload = snd msg, rm_observedAt = now\<rparr>]
      | _ \<Rightarrow> [])"

definition nats_lost :: "time \<Rightarrow> nats_event \<Rightarrow> nats_state \<Rightarrow> nats_state \<Rightarrow> bool" where
  "nats_lost now ev s s' \<longleftrightarrow>
     nats_arrived now ev s \<noteq> [] \<and> eg_out (ns_edge s') = eg_out (ns_edge s)
     \<or> ns_reportedDrops s' \<noteq> ns_reportedDrops s \<or> ev = NReconnected"

inductive nats_run :: "NATSSource \<Rightarrow> nat \<Rightarrow> nats_state \<Rightarrow> RawMessage list \<Rightarrow> RawMessage list \<Rightarrow> bool \<Rightarrow> bool" for n cap where
  start: "nats_run n cap \<lparr>ns_edge = new_edge cap, ns_reportedDrops = 0, ns_closed = False, ns_at = NStart\<rparr> [] [] False"
| step: "nats_run n cap s rec tk lost \<Longrightarrow> nats_step n now ev s = Some s' \<Longrightarrow>
    nats_run n cap s' (rec @ nats_arrived now ev s) tk (lost \<or> nats_lost now ev s s')"
| take: "nats_run n cap s rec tk lost \<Longrightarrow> eg_out (ns_edge s) = m # ms \<Longrightarrow>
    nats_run n cap (s\<lparr>ns_edge := (ns_edge s)\<lparr>eg_out := ms\<rparr>\<rparr>) rec (tk @ [m]) lost"
| watch: "nats_run n cap s rec tk lost \<Longrightarrow> eg_gaps (ns_edge s) = g # gs \<Longrightarrow>
    nats_run n cap (s\<lparr>ns_edge := (ns_edge s)\<lparr>eg_gaps := gs\<rparr>\<rparr>) rec tk False"

lemma accounted_nats_step:
  assumes "accounted rec tk lost (ns_edge s)" and "nats_step n now ev s = Some s'"
  shows "accounted (rec @ nats_arrived now ev s) tk (lost \<or> nats_lost now ev s s') (ns_edge s')"
proof (cases "\<exists>msg subs. ev = NMsg msg subs \<and> ns_at s = NDelivering \<and> \<not> ns_closed s")
  case True
  then obtain msg subs where ev: "ev = NMsg msg subs" "ns_at s = NDelivering" "\<not> ns_closed s" by blast
  have s': "s' = nats_message n now msg subs s" using assms(2) ev by (simp add: nats_step_def)
  have fwd: "accounted (rec @ nats_arrived now ev s) tk (lost \<or> eg_out (nats_forward n now msg (ns_edge s)) = eg_out (ns_edge s))
      (nats_forward n now msg (ns_edge s))"
    using nq.accounted_deliver [OF assms(1), of msg now n] ev by (simp add: nats_raw_def nats_arrived_def)
  show ?thesis
  proof (cases "ns_reportedDrops s < droppedCount subs")
    case True
    then show ?thesis using accounted_signal [OF fwd] by (simp add: s' nats_message_def Let_def accounted_weaken)
  next
    case False
    then have "ns_edge s' = nats_forward n now msg (ns_edge s)" "ns_reportedDrops s' = ns_reportedDrops s"
      by (simp_all add: s' nats_message_def Let_def)
    then show ?thesis using fwd ev by (simp add: nats_lost_def nats_arrived_def)
  qed
next
  case False
  then have none: "nats_arrived now ev s = []"
    by (auto simp: nats_arrived_def split: nats_event.splits nats_pc.splits)
  show ?thesis
    using assms False accounted_signal [of rec tk lost "counters_connected True (counters_reconnected (ns_edge s))"]
    by (auto simp: none nats_lost_def nats_step_def nats_return_def
        split: nats_event.splits nats_pc.splits option.splits if_splits)
qed

lemma nats_run_accounted: "nats_run n cap s rec tk lost \<Longrightarrow> accounted rec tk lost (ns_edge s)"
  by (induction rule: nats_run.induct) (auto simp: accounted_new accounted_nats_step accounted_take accounted_watch)

definition sample_net :: zmq_net where
  "sample_net = \<lparr>zn_subscribe = (\<lambda>_. None), zn_resolve = (\<lambda>ep. Inr [ep]), zn_dial = (\<lambda>_. None)\<rparr>"

definition sample_zenv :: "time \<Rightarrow> zmq_env" where
  "sample_zenv now = \<lparr>ze_now = now, ze_cancelled = False, ze_draw = (\<lambda>n. n div 2), ze_net = sample_net\<rparr>"

definition sample_zmq :: ZMQSource where
  "sample_zmq = (case NewZMQ [''tcp://10.0.0.1:5556''] [] of Inr z \<Rightarrow> z)"

text \<open>A channel for one message, and two frames.\<close>

definition sample_zstart :: zmq_state where
  "sample_zstart = \<lparr>zs_edge = new_edge 1, zs_attempt = 0, zs_closed = False, zs_at = ZTop\<rparr>"

definition sample_zopen :: zmq_state where
  "sample_zopen = the (zmq_step sample_zmq (sample_zenv t0) ZOpen sample_zstart)"

definition sample_zone :: zmq_state where
  "sample_zone = the (zmq_step sample_zmq (sample_zenv t0) (ZFrame [''a'']) sample_zopen)"

definition sample_ztwo :: zmq_state where
  "sample_ztwo = the (zmq_step sample_zmq (sample_zenv t0) (ZFrame [''t'', ''b'']) sample_zone)"

lemma sample_zsteps:
  "zmq_step sample_zmq (sample_zenv t0) ZOpen sample_zstart = Some sample_zopen"
  "zmq_step sample_zmq (sample_zenv t0) (ZFrame [''a'']) sample_zopen = Some sample_zone"
  "zmq_step sample_zmq (sample_zenv t0) (ZFrame [''t'', ''b'']) sample_zone = Some sample_ztwo"
  unfolding sample_zopen_def sample_zone_def sample_ztwo_def by code_simp+


section \<open>Reconnecting\<close>

lemma newZMQ_max:
  assumes "newZMQ lib cfg = Inr z"
  shows "0 < zq_reconnectIntervalMax z"
  using assms
  by (auto simp: newZMQ_def NewZMQ_def WithTopics_def WithRecvHWM_def WithConnectTimeout_def
      WithReconnectIntervalMax_def WithIdleTimeout_def split: sum.splits if_splits)

lemma backoff_window_bounds:
  assumes "0 < zq_reconnectIntervalMax z"
  shows "0 < backoff_window z attempt \<and> backoff_window z attempt \<le> zq_reconnectIntervalMax z"
  using assms by (auto simp: backoff_window_def Let_def baseReconnectInterval_def)

lemma session_over_at:
  "zs_at (session_over z env err s) =
     (if ze_cancelled env then ZReturned (Some SrcErrCanceled) else if zs_closed s then ZReturned None
      else ZSleeping (backoff (ze_draw env) z (zs_attempt s + 1)))"
  by (simp add: session_over_def Let_def)

lemma zmq_step_at:
  assumes "zmq_step z env ev s = Some s'" and "zs_at s' \<noteq> zs_at s"
  shows "zs_at s' = ZTop \<or> (\<exists>d. zs_at s' = ZReceiving d)
    \<or> zs_at s' = ZSleeping (backoff (ze_draw env) z (zs_attempt s + 1))
    \<or> ze_cancelled env \<and> zs_at s' = ZReturned (Some SrcErrCanceled) \<or> zs_closed s \<and> zs_at s' = ZReturned None"
  using assms
  by (auto simp: zmq_step_def zmq_open_def session_over_at split: zmq_event.splits zmq_pc.splits option.splits if_splits prod.splits)

text \<open>C18: \<open>Run\<close> of the ZeroMQ source never gives up on its own: it returns only when its context is done or the source was
  closed, whatever the transport does; the wait before a new session is never negative and never longer than the
  configured maximum; and wherever it is, it can go on.\<close>

theorem zmq_retries_forever:
  assumes "newZMQ lib cfg = Inr z" and "\<forall>n > 0. 0 \<le> ze_draw env n \<and> ze_draw env n < n"
    and "zmq_step z env ev s = Some s'" and "zs_at s' \<noteq> zs_at s"
  shows "(\<forall>err. zs_at s' = ZReturned err \<longrightarrow> ze_cancelled env \<and> err = Some SrcErrCanceled \<or> zs_closed s \<and> err = None)
    \<and> (\<forall>d. zs_at s' = ZSleeping d \<longrightarrow> 0 \<le> d \<and> d \<le> zq_reconnectIntervalMax z)
    \<and> ((\<exists>err. zs_at s' = ZReturned err) \<or> (\<exists>ev' s''. zmq_step z env ev' s' = Some s'' \<and> zs_at s'' \<noteq> zs_at s'))"
proof -
  note w = backoff_window_bounds [OF newZMQ_max [OF assms(1)], of "zs_attempt s + 1"]
  have "0 \<le> backoff (ze_draw env) z (zs_attempt s + 1)" "backoff (ze_draw env) z (zs_attempt s + 1) \<le> zq_reconnectIntervalMax z"
    using assms(2) [rule_format, of "backoff_window z (zs_attempt s + 1) + 1"] w by (simp_all add: backoff_def)
  moreover have "\<exists>ev' s''. zmq_step z env ev' s' = Some s'' \<and> zs_at s'' \<noteq> zs_at s'" if "\<not> (\<exists>err. zs_at s' = ZReturned err)"
  proof (cases "zs_at s'")
    case ZTop
    then have "zmq_step z env ZOpen s' = Some (zmq_open z env s')" by (simp add: zmq_step_def)
    moreover have "zs_at (zmq_open z env s') \<noteq> ZTop" by (simp add: zmq_open_def session_over_at split: option.split)
    ultimately show ?thesis using ZTop by metis
  next
    case (ZReceiving d)
    then have "zmq_step z env (ZRecvErr []) s' = Some (session_over z env (Some (SrcErrTransport [])) s')"
      by (simp add: zmq_step_def)
    then show ?thesis using ZReceiving session_over_at by (metis zmq_pc.distinct)
  next
    case (ZSleeping d)
    then show ?thesis
      by (intro exI [of _ ZWake] exI [of _ "s'\<lparr>zs_at := (if ze_cancelled env then ZReturned (Some SrcErrCanceled) else ZTop)\<rparr>"])
        (simp add: zmq_step_def)
  next
    case (ZReturned err)
    then show ?thesis using that by blast
  qed
  ultimately show ?thesis using zmq_step_at [OF assms(3,4)] by auto
qed

definition sample_scfg :: SourceConfig where
  "sample_scfg = source_applyDefaults
     \<lparr>so_Settings = [(''endpoints'', ''tcp://10.0.0.1:5556, tcp://10.0.0.2:5556''), (''recvHWM'', ''50'')],
      so_MaxPayloadBytes = 0, so_ShutdownGrace = 0\<rparr>"

theorem zmq_retries_forever_witness:
  "\<exists>z d s'. newZMQ sample_lib sample_scfg = Inr z \<and> zq_endpoints z = [''tcp://10.0.0.1:5556'', ''tcp://10.0.0.2:5556'']
     \<and> zmq_step z (sample_zenv t0) (ZRecvErr ''reset'') sample_zopen = Some s' \<and> zs_at s' = ZSleeping d
     \<and> 0 \<le> d \<and> d \<le> seconds 30"
proof -
  let ?s' = "\<lambda>z. session_over z (sample_zenv t0) (Some (SrcErrTransport ''reset'')) sample_zopen"
  have "map_sum (\<lambda>_. True) (\<lambda>z. (zq_endpoints z, zq_reconnectIntervalMax z)) (newZMQ sample_lib sample_scfg)
      = Inr ([''tcp://10.0.0.1:5556'', ''tcp://10.0.0.2:5556''], seconds 30)" by code_simp
  then obtain z where z: "newZMQ sample_lib sample_scfg = Inr z" "zq_reconnectIntervalMax z = seconds 30"
    "zq_endpoints z = [''tcp://10.0.0.1:5556'', ''tcp://10.0.0.2:5556'']"
    by (cases "newZMQ sample_lib sample_scfg") auto
  have at': "\<exists>d. zs_at sample_zopen = ZReceiving d" "\<not> zs_closed sample_zopen"
    by (rule exI [of _ "Some (t0 + seconds 60)"]) code_simp+
  then have step: "zmq_step z (sample_zenv t0) (ZRecvErr ''reset'') sample_zopen = Some (?s' z)"
    by (auto simp: zmq_step_def)
  obtain d where d: "zs_at (?s' z) = ZSleeping d"
    using at'(2) by (simp add: session_over_at sample_zenv_def)
  have "zs_at (?s' z) \<noteq> zs_at sample_zopen" using d at'(1) by auto
  moreover have "\<forall>n > 0. 0 \<le> ze_draw (sample_zenv t0) n \<and> ze_draw (sample_zenv t0) n < n"
    by (auto simp: sample_zenv_def)
  ultimately show ?thesis using zmq_retries_forever [OF z(1) _ step] z step d by auto
qed

text \<open>The number of the attempt is the number of sessions that have ended since the start: a session that worked for a
  month does not set it back, and after nine of them every wait is drawn up to the maximum of thirty seconds.\<close>

lemma counters_reconnects [simp]:
  "ss_Reconnects (eg_stats (counters_frame n t e)) = ss_Reconnects (eg_stats e)"
  "ss_Reconnects (eg_stats (counters_dropped e)) = ss_Reconnects (eg_stats e)"
  "ss_Reconnects (eg_stats (counters_connected b e)) = ss_Reconnects (eg_stats e)"
  "ss_Reconnects (eg_stats (counters_reconnected e)) = ss_Reconnects (eg_stats e) + 1"
  "ss_Reconnects (eg_stats (counters_fail err e)) = ss_Reconnects (eg_stats e)"
  "ss_Reconnects (eg_stats (gap_signal name r t e)) = ss_Reconnects (eg_stats e)"
  by (simp_all add: counters_frame_def counters_dropped_def counters_connected_def counters_reconnected_def
      counters_fail_def gap_signal_def counters_gap_def Let_def split: option.split)

lemma session_over_attempt:
  "of_nat (zs_attempt s) = ss_Reconnects (eg_stats (zs_edge s)) \<Longrightarrow>
   of_nat (zs_attempt (session_over z env err s)) = ss_Reconnects (eg_stats (zs_edge (session_over z env err s)))"
  by (simp add: session_over_def Let_def)

lemma zmq_deliver_reconnects [simp]:
  "ss_Reconnects (eg_stats (fst (zmq_deliver z now frames e))) = ss_Reconnects (eg_stats e)"
  by (auto simp: zmq_deliver_def trySend_def split: option.splits)

lemma zmq_step_attempt:
  assumes "zmq_step z env ev s = Some s'" and "of_nat (zs_attempt s) = ss_Reconnects (eg_stats (zs_edge s))"
  shows "of_nat (zs_attempt s') = ss_Reconnects (eg_stats (zs_edge s'))"
proof -
  have "ss_Reconnects (eg_stats e) = ss_Reconnects (eg_stats (zs_edge s))"
    if "zmq_deliver z now frames (zs_edge s) = (e, ok)" for now frames e ok
    using zmq_deliver_reconnects [of z now frames "zs_edge s"] that by simp
  then show ?thesis
    using assms
    by (auto simp: zmq_step_def zmq_open_def session_over_attempt
        split: zmq_event.splits zmq_pc.splits option.splits if_splits prod.splits)
qed

lemma attempt_never_resets:
  "zmq_run z cap s rec got lost \<Longrightarrow> of_nat (zs_attempt s) = ss_Reconnects (eg_stats (zs_edge s))"
  by (induction rule: zmq_run.induct) (auto simp: new_edge_def zero_Stats_def zmq_step_attempt)

lemma backoff_window_late: "zq_reconnectIntervalMax z = seconds 30 \<Longrightarrow> 9 \<le> attempt \<Longrightarrow> backoff_window z attempt = seconds 30"
proof -
  assume z: "zq_reconnectIntervalMax z = seconds 30" and "9 \<le> attempt"
  then have "(2 :: int) ^ 9 \<le> 2 ^ min attempt 20" by (intro power_increasing) auto
  then show ?thesis using z by (simp add: backoff_window_def Let_def baseReconnectInterval_def)
qed

text \<open>A frame refused because the channel is full does not postpone the deadline of the idle timer, so a session
  that receives all the time is ended as idle while the pipeline is behind.\<close>

lemma full_pipeline_goes_idle:
  assumes "zs_at s = ZReceiving (Some at')" and "\<not> zs_closed s" and "eg_cap (zs_edge s) \<le> length (eg_out (zs_edge s))"
  shows "\<exists>s'. zmq_step z env (ZFrame frames) s = Some s' \<and> zs_at s' = ZReceiving (Some at')"
  using assms by (auto simp: zmq_step_def zmq_deliver_def trySend_def split: option.splits prod.splits)

section \<open>The two channels of a check\<close>

text \<open>The source, the applier and \<open>watchGaps\<close> side by side: \<open>IgApply\<close> takes one message from the channel and applies it,
  \<open>IgWatch\<close> takes one signal and hands it to \<open>SignalGap\<close>.\<close>

record ingest =
  ig_src :: zmq_state
  ig_check :: Check

datatype ingest_event = IgSource zmq_env zmq_event | IgApply | IgWatch

definition watchGaps :: "wiring \<Rightarrow> ingest \<Rightarrow> ingest option" where
  "watchGaps wr s =
     (case eg_gaps (zs_edge (ig_src s)) of
        [] \<Rightarrow> None
      | g # gs \<Rightarrow>
          Some (s\<lparr>ig_src := (ig_src s)\<lparr>zs_edge := (zs_edge (ig_src s))\<lparr>eg_gaps := gs\<rparr>\<rparr>,
                  ig_check := SignalGap wr (ig_check s)\<rparr>))"

definition ingest_step :: "wiring \<Rightarrow> ZMQSource \<Rightarrow> ingest_event \<Rightarrow> ingest \<Rightarrow> ingest option" where
  "ingest_step wr z ev s =
     (case ev of
        IgSource env zev \<Rightarrow> map_option (\<lambda>src. s\<lparr>ig_src := src\<rparr>) (zmq_step z env zev (ig_src s))
      | IgApply \<Rightarrow>
          (case eg_out (zs_edge (ig_src s)) of
             [] \<Rightarrow> None
           | m # ms \<Rightarrow>
               map_option (\<lambda>c. s\<lparr>ig_src := (ig_src s)\<lparr>zs_edge := (zs_edge (ig_src s))\<lparr>eg_out := ms\<rparr>\<rparr>, ig_check := c\<rparr>)
                 (applyMessage wr m (ig_check s)))
      | IgWatch \<Rightarrow> watchGaps wr s)"

fun ingest_steps :: "wiring \<Rightarrow> ZMQSource \<Rightarrow> ingest_event list \<Rightarrow> ingest \<Rightarrow> ingest option" where
  "ingest_steps wr z [] s = Some s"
| "ingest_steps wr z (ev # evs) s =
     (case ingest_step wr z ev s of None \<Rightarrow> None | Some s \<Rightarrow> ingest_steps wr z evs s)"

definition adopting_wr :: wiring where
  "adopting_wr = sample_wr\<lparr>wr_bootstrap := BootstrapWait\<rparr>"

definition ingest_start :: "nat \<Rightarrow> wiring \<Rightarrow> ingest" where
  "ingest_start cap wr =
     \<lparr>ig_src = \<lparr>zs_edge = new_edge cap, zs_attempt = 0, zs_closed = False, zs_at = ZTop\<rparr>,
      ig_check = Check_New wr sample_config sample_ocfg sample_lag 0 False\<rparr>"


end
