(* ===== verification/Controller.thy ===== *)
theory Controller
  imports Registry CheckSafety
begin

text \<open>
  \<open>internal/controller/events.go\<close> and \<open>driftcheck_controller.go\<close>: the events a reconcile writes about a
  check, which are the differences between two observations of it, and the order of the nine steps of a reconcile.
  The answers of the API server and the outcomes of the registry's operations are inputs; the theory
  of the registry says what those operations do. The texts of events and conditions are prose and left out.
\<close>

section \<open>Transitions\<close>

datatype EventReason =
    ReasonBootstrapComplete | ReasonDriftDetected | ReasonDriftResolved | ReasonSourceDisconnected
  | ReasonSourceReconnected | ReasonTargetUnavailable | ReasonTargetAvailable | ReasonOracleSaturated
  | ReasonPublisherRestart string | ReasonSecretMissing | ReasonStartFailed

record observed =
  ob_seen :: bool
  ob_bootstrapped :: bool
  ob_divergentKeys :: int
  ob_sourceConnected :: bool
  ob_targetReachable :: bool
  ob_oracleSaturated :: bool
  ob_restarts :: "(string, int) go_map"

type_synonym transitionTracker = "(string, observed) go_map"

definition transitions_forget :: "string \<Rightarrow> transitionTracker \<Rightarrow> transitionTracker" where
  "transitions_forget key t = map_del key t"

text \<open>\<open>record\<close>: the previous observation, or at first sight the present one, not yet seen.\<close>

definition transitions_record :: "string \<Rightarrow> observed \<Rightarrow> transitionTracker \<Rightarrow> transitionTracker \<times> observed" where
  "transitions_record key nxt t =
     (map_put key nxt t, case map_get t key of None \<Rightarrow> nxt\<lparr>ob_seen := False\<rparr> | Some previous \<Rightarrow> previous)"

text \<open>\<open>int64\<close> of a counter of 64 bits reads it as signed.\<close>

definition publisherRestarts :: "Status \<Rightarrow> (string, int) go_map" where
  "publisherRestarts st = fold (\<lambda>p m. map_put (pst_ID p) (sint (pst_Restarts p)) m) (st_Publishers st) []"

definition emitRestarts :: "Status \<Rightarrow> observed \<Rightarrow> EventReason list" where
  "emitRestarts st previous =
     (if \<not> ob_seen previous then []
      else
        concat (map (\<lambda>p.
          let before = (case map_get (ob_restarts previous) (pst_ID p) of None \<Rightarrow> 0 | Some n \<Rightarrow> n)
          in if sint (pst_Restarts p) \<le> before then [] else [ReasonPublisherRestart (pst_ID p)]) (st_Publishers st)))"

definition observe_status :: "Status \<Rightarrow> observed" where
  "observe_status st =
     \<lparr>ob_seen = True, ob_bootstrapped = st_Bootstrapped st, ob_divergentKeys = st_DivergentKeys st,
      ob_sourceConnected = st_SourceConnected st, ob_targetReachable = st_TargetReachable st,
      ob_oracleSaturated = st_OracleSaturated st, ob_restarts = publisherRestarts st\<rparr>"

definition transition_events :: "Status \<Rightarrow> observed \<Rightarrow> EventReason list" where
  "transition_events st previous =
     (if st_Bootstrapped st \<and> \<not> ob_bootstrapped previous then [ReasonBootstrapComplete] else [])
   @ (if ob_divergentKeys previous < st_DivergentKeys st then [ReasonDriftDetected]
      else if st_DivergentKeys st = 0 \<and> 0 < ob_divergentKeys previous then [ReasonDriftResolved] else [])
   @ (if ob_seen previous \<and> st_SourceConnected st \<noteq> ob_sourceConnected previous
      then [if st_SourceConnected st then ReasonSourceReconnected else ReasonSourceDisconnected] else [])
   @ (if ob_seen previous \<and> st_TargetReachable st \<noteq> ob_targetReachable previous
      then [if st_TargetReachable st then ReasonTargetAvailable else ReasonTargetUnavailable] else [])
   @ (if st_OracleSaturated st \<and> \<not> ob_oracleSaturated previous then [ReasonOracleSaturated] else [])
   @ emitRestarts st previous"

definition emitTransitions :: "string \<Rightarrow> Status \<Rightarrow> transitionTracker \<Rightarrow> transitionTracker \<times> EventReason list" where
  "emitTransitions key st t =
     (let (t, previous) = transitions_record key (observe_status st) t in (t, transition_events st previous))"

section \<open>Reconcile\<close>

record object =
  obj_deleting :: bool
  obj_finalizer :: bool

datatype api_get = ApiNotFound | ApiGetErr | ApiObj object
datatype api_patch = PatchOk | PatchNotFound | PatchErr

text \<open>What one reconcile meets: the API server's answers, whether the secrets resolve and the specification can be
  hashed, the outcomes of \<open>Stop\<close> and \<open>Ensure\<close>, and the status of the runner if there is one.\<close>

record rc_env =
  rv_get :: api_get
  rv_patch :: api_patch
  rv_secrets :: bool
  rv_hash :: bool
  rv_stop :: "RegErr option"
  rv_ensure :: RegResult
  rv_status :: "Status option"
  rv_statusPatch :: api_patch

datatype rc_action =
    ActAddFinalizer | ActRemoveFinalizer | ActStop "RegErr option" | ActForget | ActEnsure RegResult
  | ActEvent EventReason | ActPatchStatus Phase

datatype rc_result = RcDone | RcErr | RcRequeue duration

record reconciler =
  rl_StatusRefreshInterval :: duration
  rl_SecretRetryInterval :: duration

definition reconciler_applyDefaults :: "reconciler \<Rightarrow> reconciler" where
  "reconciler_applyDefaults r =
     r\<lparr>rl_StatusRefreshInterval := (if rl_StatusRefreshInterval r \<le> 0 then seconds 15 else rl_StatusRefreshInterval r),
       rl_SecretRetryInterval := (if rl_SecretRetryInterval r \<le> 0 then seconds 30 else rl_SecretRetryInterval r)\<rparr>"

definition rc_forget :: "rc_env \<Rightarrow> string \<Rightarrow> transitionTracker \<Rightarrow> transitionTracker \<times> rc_action list \<times> bool" where
  "rc_forget env key t =
     (if rv_stop env \<noteq> None then (t, [ActStop (rv_stop env)], False)
      else (transitions_forget key t, [ActStop None, ActForget], True))"

definition rc_finalize ::
  "rc_env \<Rightarrow> string \<Rightarrow> object \<Rightarrow> transitionTracker \<Rightarrow> transitionTracker \<times> rc_action list \<times> rc_result" where
  "rc_finalize env key ob t =
     (case rc_forget env key t of
        (t, acts, ok) \<Rightarrow>
          if \<not> ok then (t, acts, RcErr)
          else if \<not> obj_finalizer ob then (t, acts, RcDone)
          else (t, acts @ [ActRemoveFinalizer], if rv_patch env = PatchErr then RcErr else RcDone))"

definition failure_report :: "reconciler \<Rightarrow> rc_env \<Rightarrow> EventReason \<Rightarrow> rc_action list \<times> rc_result" where
  "failure_report r env reason =
     ([ActEvent reason, ActPatchStatus PhaseFailed],
      if rv_statusPatch env = PatchErr then RcErr else RcRequeue (rl_SecretRetryInterval r))"

definition updateStatus ::
  "rc_env \<Rightarrow> string \<Rightarrow> transitionTracker \<Rightarrow> transitionTracker \<times> rc_action list \<times> bool" where
  "updateStatus env key t =
     (case rv_status env of
        None \<Rightarrow> (t, [], True)
      | Some st \<Rightarrow>
          (case emitTransitions key st t of
             (t, evs) \<Rightarrow> (t, map ActEvent evs @ [ActPatchStatus (st_Phase st)], rv_statusPatch env \<noteq> PatchErr)))"

definition reconcile_live ::
  "reconciler \<Rightarrow> rc_env \<Rightarrow> string \<Rightarrow> transitionTracker \<Rightarrow> transitionTracker \<times> rc_action list \<times> rc_result" where
  "reconcile_live r env key t =
     (if \<not> rv_secrets env then (t, failure_report r env ReasonSecretMissing)
      else if \<not> rv_hash env then (t, [], RcErr)
      else
        (case rv_ensure env of
           RFailed err \<Rightarrow>
             if err = ErrRegistryClosed then (t, [ActEnsure (rv_ensure env)], RcDone)
             else
               (case failure_report r env ReasonStartFailed of
                  (acts, res) \<Rightarrow> (t, ActEnsure (rv_ensure env) # acts, res))
         | RDid ou \<Rightarrow>
             (case updateStatus env key t of
                (t, acts, ok) \<Rightarrow>
                  (t, ActEnsure (rv_ensure env) # acts,
                   if \<not> ok then RcErr
                   else if 0 < ou_RetryAfter ou \<and> ou_RetryAfter ou < rl_StatusRefreshInterval r
                   then RcRequeue (ou_RetryAfter ou) else RcRequeue (rl_StatusRefreshInterval r)))
         | RStopped \<Rightarrow> (t, [ActEnsure (rv_ensure env)], RcErr)))"

definition Reconcile ::
  "reconciler \<Rightarrow> rc_env \<Rightarrow> string \<Rightarrow> transitionTracker \<Rightarrow> transitionTracker \<times> rc_action list \<times> rc_result" where
  "Reconcile r0 env key t =
     (let r = reconciler_applyDefaults r0
      in (case rv_get env of
            ApiNotFound \<Rightarrow>
              (case rc_forget env key t of (t, acts, ok) \<Rightarrow> (t, acts, if ok then RcDone else RcErr))
          | ApiGetErr \<Rightarrow> (t, [], RcErr)
          | ApiObj ob \<Rightarrow>
              if obj_deleting ob then rc_finalize env key ob t
              else if obj_finalizer ob then reconcile_live r env key t
              else if rv_patch env \<noteq> PatchOk then (t, [ActAddFinalizer], RcErr)
              else
                (case reconcile_live r env key t of (t, acts, res) \<Rightarrow> (t, ActAddFinalizer # acts, res))))"

section \<open>The order of a reconcile\<close>

text \<open>The runner of an object is started only when the object carries the finalizer, its deletion has not begun and
  its secrets resolve, and the finalizer comes off only in a deletion, after \<open>Stop\<close> has succeeded; when \<open>Stop\<close>
  fails the finalizer stays and the reconcile is retried.\<close>

theorem reconcile_order:
  assumes "Reconcile r env key t = (t', acts, res)"
  shows "(\<forall>out. ActEnsure out \<in> set acts \<longrightarrow>
        (\<exists>ob. rv_get env = ApiObj ob \<and> \<not> obj_deleting ob
           \<and> (obj_finalizer ob \<or> hd acts = ActAddFinalizer \<and> rv_patch env = PatchOk)) \<and> rv_secrets env)
    \<and> (ActRemoveFinalizer \<in> set acts \<longrightarrow>
        (\<exists>ob. rv_get env = ApiObj ob \<and> obj_deleting ob) \<and> acts = [ActStop None, ActForget, ActRemoveFinalizer])
    \<and> (\<forall>err. ActStop (Some err) \<in> set acts \<longrightarrow> acts = [ActStop (Some err)] \<and> res = RcErr \<and> t' = t)"
  using assms
  by (cases "rv_get env")
    (auto simp: Reconcile_def rc_finalize_def rc_forget_def reconcile_live_def failure_report_def updateStatus_def Let_def
      split: if_splits prod.splits option.splits RegResult.splits)

definition sample_rc :: rc_env where
  "sample_rc =
     \<lparr>rv_get = ApiObj \<lparr>obj_deleting = True, obj_finalizer = True\<rparr>, rv_patch = PatchOk, rv_secrets = True, rv_hash = True,
      rv_stop = None, rv_ensure = RStopped, rv_status = None, rv_statusPatch = PatchOk\<rparr>"

theorem reconcile_order_witness:
  "fst (snd (Reconcile \<lparr>rl_StatusRefreshInterval = 0, rl_SecretRetryInterval = 0\<rparr> sample_rc ''k'' []))
     = [ActStop None, ActForget, ActRemoveFinalizer]"
proof -
  let ?rc = "Reconcile \<lparr>rl_StatusRefreshInterval = 0, rl_SecretRetryInterval = 0\<rparr> sample_rc ''k'' []"
  have "?rc = (fst ?rc, fst (snd ?rc), snd (snd ?rc))" by simp
  moreover have "ActRemoveFinalizer \<in> set (fst (snd ?rc))" by code_simp
  ultimately show ?thesis using reconcile_order by blast
qed

section \<open>The events are a history\<close>

text \<open>The events of a run of reconciles that observe the check in the given states.\<close>

fun event_log :: "string \<Rightarrow> Status list \<Rightarrow> transitionTracker \<Rightarrow> transitionTracker \<times> EventReason list" where
  "event_log key [] t = (t, [])"
| "event_log key (st # sts) t =
     (case emitTransitions key st t of
        (t, evs) \<Rightarrow> (case event_log key sts t of (t, evs') \<Rightarrow> (t, evs @ evs')))"

text \<open>What a reader of the log believes: whether the subscription is up, the store reachable, and drift open.\<close>

record belief =
  bl_connected :: bool
  bl_reachable :: bool
  bl_drift :: bool

fun read_event :: "EventReason \<Rightarrow> belief \<Rightarrow> belief" where
  "read_event ReasonSourceReconnected b = b\<lparr>bl_connected := True\<rparr>"
| "read_event ReasonSourceDisconnected b = b\<lparr>bl_connected := False\<rparr>"
| "read_event ReasonTargetAvailable b = b\<lparr>bl_reachable := True\<rparr>"
| "read_event ReasonTargetUnavailable b = b\<lparr>bl_reachable := False\<rparr>"
| "read_event ReasonDriftDetected b = b\<lparr>bl_drift := True\<rparr>"
| "read_event ReasonDriftResolved b = b\<lparr>bl_drift := False\<rparr>"
| "read_event r b = b"

definition believed :: "Status \<Rightarrow> belief" where
  "believed st =
     \<lparr>bl_connected = st_SourceConnected st, bl_reachable = st_TargetReachable st, bl_drift = (0 < st_DivergentKeys st)\<rparr>"

lemma emitTransitions_tracker: "map_get (fst (emitTransitions key st t)) key = Some (observe_status st)"
  by (simp add: emitTransitions_def transitions_record_def)

lemma fold_restarts: "fold read_event (emitRestarts st prev) b = b"
proof -
  have "fold read_event evs b = b" if "\<forall>ev \<in> set evs. \<exists>p. ev = ReasonPublisherRestart p" for evs
    using that by (induction evs) auto
  then show ?thesis by (auto simp: emitRestarts_def Let_def split: if_splits)
qed

lemma transition_events_read:
  assumes "0 \<le> st_DivergentKeys st" and "0 \<le> st_DivergentKeys prev"
  shows "fold read_event (transition_events st (observe_status prev)) (believed prev) = believed st"
  using assms by (auto simp: transition_events_def observe_status_def believed_def fold_restarts)

lemma publisherRestarts_get:
  assumes "distinct (map pst_ID (st_Publishers st))" and "p \<in> set (st_Publishers st)"
  shows "map_get (publisherRestarts st) (pst_ID p) = Some (sint (pst_Restarts p))"
proof -
  have keep: "map_get (fold (\<lambda>p m. map_put (pst_ID p) (sint (pst_Restarts p)) m) ps m) k = map_get m k"
    if "k \<notin> pst_ID ` set ps" for ps k and m :: "(string, int) go_map"
    using that by (induction ps arbitrary: m) auto
  have "map_get (fold (\<lambda>p m. map_put (pst_ID p) (sint (pst_Restarts p)) m) ps m) (pst_ID p) = Some (sint (pst_Restarts p))"
    if "distinct (map pst_ID ps)" "p \<in> set ps" for ps and m :: "(string, int) go_map"
    using that by (induction ps arbitrary: m) (auto simp: keep)
  then show ?thesis using assms by (simp add: publisherRestarts_def)
qed

lemma steady_silent:
  assumes "distinct (map pst_ID (st_Publishers st))"
  shows "transition_events st (observe_status st) = []"
  using publisherRestarts_get [OF assms]
  by (auto simp: transition_events_def observe_status_def emitRestarts_def Let_def)

lemma first_sight_silent: "transition_events st ((observe_status st)\<lparr>ob_seen := False\<rparr>) = []"
  by (simp add: transition_events_def observe_status_def emitRestarts_def)

lemma event_log_read:
  assumes "map_get t key = Some (observe_status prev)" and "\<forall>st \<in> set (prev # sts). 0 \<le> st_DivergentKeys st"
  shows "fold read_event (snd (event_log key sts t)) (believed prev) = believed (last (prev # sts))"
  using assms
proof (induction sts arbitrary: prev t)
  case (Cons st sts)
  obtain t1 evs where e: "emitTransitions key st t = (t1, evs)" by fastforce
  then have evs: "evs = transition_events st (observe_status prev)"
    using Cons.prems(1) by (auto simp: emitTransitions_def transitions_record_def)
  have "map_get t1 key = Some (observe_status st)" using emitTransitions_tracker [of key st t] e by simp
  with Cons.IH Cons.prems(2)
  have "fold read_event (snd (event_log key sts t1)) (believed st) = believed (last (st # sts))" by simp
  then show ?case
    using transition_events_read [of st prev] Cons.prems(2) by (simp add: e evs case_prod_beta)
qed simp

text \<open>C17: The event list of a check reads as its history. However often and in whatever states a check is observed, the
  first observation writes nothing, an observation that repeats the one before writes nothing, and whoever reads
  the events after it ends up believing exactly what the last status says: whether the subscription is up, whether
  the store is reachable and whether confirmed drift is open.\<close>

theorem events_tell_history:
  assumes "map_get t key = None" and "\<forall>st \<in> set (first # sts). 0 \<le> st_DivergentKeys st"
    and "distinct (map pst_ID (st_Publishers (last (first # sts))))"
  shows "snd (emitTransitions key first t) = []
    \<and> fold read_event (snd (event_log key (first # sts) t)) (believed first) = believed (last (first # sts))
    \<and> snd (emitTransitions key (last (first # sts)) (fst (event_log key (first # sts) t))) = []"
proof -
  obtain t1 where e: "emitTransitions key first t = (t1, [])"
    using assms(1) first_sight_silent [of first] by (auto simp: emitTransitions_def transitions_record_def)
  have t1: "map_get t1 key = Some (observe_status first)" using emitTransitions_tracker [of key first t] e by simp
  have log: "event_log key (first # sts) t = event_log key sts t1" by (simp add: e split: prod.split)
  have last: "map_get (fst (event_log key sts t')) key = Some (observe_status (last (prev # sts)))"
    if "map_get t' key = Some (observe_status prev)" for prev t'
    using that
  proof (induction sts arbitrary: prev t')
    case (Cons st sts)
    then show ?case using emitTransitions_tracker [of key st t'] by (simp add: case_prod_beta)
  qed simp
  have "snd (emitTransitions key st t') = []"
    if "map_get t' key = Some (observe_status st)" "distinct (map pst_ID (st_Publishers st))" for st t'
    using that steady_silent by (simp add: emitTransitions_def transitions_record_def)
  then show ?thesis
    using event_log_read [OF t1 assms(2)] last [OF t1] assms(3) by (simp add: e log del: event_log.simps)
qed

text \<open>The status of a check that was just built, with drift and with a reachable store.\<close>

definition sample_status :: "int \<Rightarrow> bool \<Rightarrow> Status" where
  "sample_status drift reachable =
     (snd (Check_Status sample_wr Sweeper_New [] [] sample_start))
       \<lparr>st_DivergentKeys := drift, st_TargetReachable := reachable\<rparr>"

theorem events_tell_history_witness:
  "fold read_event (snd (event_log ''c'' [sample_status 0 True, sample_status 3 True, sample_status 0 False] []))
     (believed (sample_status 0 True)) = \<lparr>bl_connected = False, bl_reachable = False, bl_drift = False\<rparr>"
proof -
  let ?sts = "[sample_status 3 True, sample_status 0 False]"
  have "distinct (map pst_ID (st_Publishers (last (sample_status 0 True # ?sts))))" by code_simp
  moreover have "believed (sample_status 0 False) = \<lparr>bl_connected = False, bl_reachable = False, bl_drift = False\<rparr>" by code_simp
  moreover have "\<forall>st \<in> set (sample_status 0 True # ?sts). 0 \<le> st_DivergentKeys st" by (simp add: sample_status_def)
  ultimately show ?thesis
    using events_tell_history [of "[]" "''c''" "sample_status 0 True" ?sts] by (simp del: event_log.simps)
qed



end
