(* ===== verification/Resource.thy ===== *)
theory Resource
  imports ConfigSpec
begin

text \<open>
  \<open>api/v1alpha1\<close>: the specification as a resource (\<open>driftcheck_types.go\<close>), the defaults the webhook fills in
  (\<open>driftcheck_defaults.go\<close>), its conversion into the specification of a check (\<open>conversion.go\<close>) and the verdict of
  admission (\<open>driftcheck_webhook.go\<close>). The same file can be run from the command line, which reads it as a
  specification of a check; the theorems say when the two ways run the same check and when they do not.
\<close>

section \<open>The resource\<close>

text \<open>A duration of the resource is its number of nanoseconds; fractional numbers are strings.\<close>

record SecretKeyRef =
  sk_Name :: string
  sk_Key :: string

record ResZMQSpec =
  xz_Endpoints :: "string list"
  xz_Topics :: "string list"
  xz_RecvHWM :: int
  xz_ConnectTimeout :: duration
  xz_ReconnectIntervalMax :: duration
  xz_IdleTimeout :: duration
  xz_Multipart :: string

record ResNATSSpec =
  xn_URL :: string
  xn_Subjects :: "string list"
  xn_QueueGroup :: string
  xn_CredentialsSecretRef :: "SecretKeyRef option"

record ResFileSpec =
  xf_Path :: string
  xf_Speed :: string
  xf_Loop :: bool

record ResSourceSpec =
  xs_Type :: string
  xs_ZMQ :: "ResZMQSpec option"
  xs_NATS :: "ResNATSSpec option"
  xs_File :: "ResFileSpec option"
  xs_IngestBufferSize :: int

record ResCodecSpec =
  xc_Type :: string
  xc_MaxPayloadBytes :: int
  xc_RetainRaw :: bool
  xc_FieldMapping :: "(string, string) go_map"
  xc_OpMapping :: "(string, string) go_map"

record ResOwnershipSpec =
  xo_Partitioned :: bool
  xo_KeyPattern :: string

record ResProjectionSpec =
  xj_Type :: string
  xj_KeyTemplate :: string
  xj_MemberTemplate :: string
  xj_MaxMembersPerKey :: int
  xj_IncrOnly :: bool
  xj_Ownership :: "ResOwnershipSpec option"

record ResTLSSpec =
  xl_Enabled :: bool
  xl_InsecureSkipVerify :: bool
  xl_CASecretRef :: "SecretKeyRef option"

record ResRedisSpec =
  xr_Mode :: string
  xr_Addr :: string
  xr_Addrs :: "string list"
  xr_MasterName :: string
  xr_DB :: int
  xr_Username :: string
  xr_PasswordSecretRef :: "SecretKeyRef option"
  xr_TLS :: "ResTLSSpec option"
  xr_KeyPattern :: string
  xr_ReadBatchSize :: int
  xr_ScanCount :: int
  xr_DialTimeout :: duration
  xr_ReadTimeout :: duration
  xr_PoolSize :: int

record ResTargetSpec =
  xt_Type :: string
  xt_Redis :: "ResRedisSpec option"

record ResSettlementWindowSpec =
  xw_Mode :: string
  xw_Static :: duration
  xw_Min :: duration
  xw_Max :: duration
  xw_SafetyFactor :: string

record ResPolicySpec =
  xy_SettlementWindow :: ResSettlementWindowSpec
  xy_SweepInterval :: duration
  xy_ExtraScanInterval :: duration
  xy_ReorderWindow :: duration
  xy_Bootstrap :: string
  xy_ExpiryPolicy :: string
  xy_AssumedTTL :: duration
  xy_TTLTolerance :: duration
  xy_RequirePrimary :: bool
  xy_MaxTrackedKeys :: int
  xy_RingSize :: int
  xy_MaxConfirmQueue :: int
  xy_MaxFindings :: int
  xy_MaxExtrasTracked :: int
  xy_MaxPublishers :: int
  xy_OracleShards :: int
  xy_NeverSettledThreshold :: int
  xy_Paused :: bool

record ResAlertSpec =
  xa_DivergentKeysThreshold :: int
  xa_DivergentRatioThreshold :: string
  xa_ForDuration :: duration
  xa_IncludeSuspect :: bool

record DriftCheckSpec =
  dc_Source :: ResSourceSpec
  dc_Codec :: ResCodecSpec
  dc_Projection :: ResProjectionSpec
  dc_Target :: ResTargetSpec
  dc_Policy :: ResPolicySpec
  dc_Alert :: ResAlertSpec

section \<open>Defaults\<close>

text \<open>\<open>setDuration\<close> replaces what is not positive. \<open>decString\<close> is the rendering of a decimal.\<close>

definition setDuration :: "duration \<Rightarrow> duration \<Rightarrow> duration" where
  "setDuration fallback d = (if d \<le> 0 then fallback else d)"

definition res_defaultZMQ :: "ResZMQSpec \<Rightarrow> ResZMQSpec" where
  "res_defaultZMQ z =
     z\<lparr>xz_RecvHWM := (if xz_RecvHWM z \<le> 0 then 100000 else xz_RecvHWM z),
       xz_ConnectTimeout := setDuration (seconds 5) (xz_ConnectTimeout z),
       xz_ReconnectIntervalMax := setDuration (seconds 30) (xz_ReconnectIntervalMax z),
       xz_IdleTimeout := setDuration (seconds 60) (xz_IdleTimeout z),
       xz_Multipart := (if xz_Multipart z = [] then ''auto'' else xz_Multipart z)\<rparr>"

definition res_defaultSource :: "ResSourceSpec \<Rightarrow> ResSourceSpec" where
  "res_defaultSource s =
     s\<lparr>xs_Type := (if xs_Type s = [] then ''zmq'' else xs_Type s),
       xs_IngestBufferSize := (if xs_IngestBufferSize s \<le> 0 then 200000 else xs_IngestBufferSize s),
       xs_ZMQ := map_option res_defaultZMQ (xs_ZMQ s),
       xs_File := map_option (\<lambda>f. f\<lparr>xf_Speed := (if xf_Speed f = [] then ''fast'' else xf_Speed f)\<rparr>) (xs_File s)\<rparr>"

definition res_defaultCodec :: "ResCodecSpec \<Rightarrow> ResCodecSpec" where
  "res_defaultCodec c =
     c\<lparr>xc_Type := (if xc_Type c = [] then ''json'' else xc_Type c),
       xc_MaxPayloadBytes := (if xc_MaxPayloadBytes c \<le> 0 then 1048576 else xc_MaxPayloadBytes c)\<rparr>"

definition res_defaultProjection :: "ResProjectionSpec \<Rightarrow> ResProjectionSpec" where
  "res_defaultProjection p =
     p\<lparr>xj_Type := (if xj_Type p = [] then ''keysetOwnership'' else xj_Type p),
       xj_KeyTemplate := (if xj_KeyTemplate p = [] then ''{{.Key}}'' else xj_KeyTemplate p),
       xj_MemberTemplate := (if xj_MemberTemplate p = [] then ''{{.Member}}'' else xj_MemberTemplate p),
       xj_MaxMembersPerKey := (if xj_MaxMembersPerKey p \<le> 0 then 100000 else xj_MaxMembersPerKey p)\<rparr>"

definition res_emptyRedis :: ResRedisSpec where
  "res_emptyRedis =
     \<lparr>xr_Mode = [], xr_Addr = [], xr_Addrs = [], xr_MasterName = [], xr_DB = 0, xr_Username = [],
      xr_PasswordSecretRef = None, xr_TLS = None, xr_KeyPattern = [], xr_ReadBatchSize = 0, xr_ScanCount = 0,
      xr_DialTimeout = 0, xr_ReadTimeout = 0, xr_PoolSize = 0\<rparr>"

definition res_defaultRedis :: "ResRedisSpec \<Rightarrow> ResRedisSpec" where
  "res_defaultRedis r =
     r\<lparr>xr_Mode := (if xr_Mode r = [] then ''standalone'' else xr_Mode r),
       xr_KeyPattern := (if xr_KeyPattern r = [] then ''*'' else xr_KeyPattern r),
       xr_ReadBatchSize := (if xr_ReadBatchSize r \<le> 0 then 500 else xr_ReadBatchSize r),
       xr_ScanCount := (if xr_ScanCount r \<le> 0 then 1000 else xr_ScanCount r),
       xr_PoolSize := (if xr_PoolSize r \<le> 0 then 10 else xr_PoolSize r),
       xr_DialTimeout := setDuration (seconds 5) (xr_DialTimeout r),
       xr_ReadTimeout := setDuration (seconds 3) (xr_ReadTimeout r)\<rparr>"

definition res_defaultTarget :: "ResTargetSpec \<Rightarrow> ResTargetSpec" where
  "res_defaultTarget t =
     (let t = t\<lparr>xt_Type := (if xt_Type t = [] then ''redis'' else xt_Type t)\<rparr>
      in if xt_Type t \<noteq> ''redis'' then t
         else
           t\<lparr>xt_Redis := Some (res_defaultRedis (case xt_Redis t of None \<Rightarrow> res_emptyRedis | Some r \<Rightarrow> r))\<rparr>)"

definition res_defaultPolicy :: "(Decimal \<Rightarrow> string) \<Rightarrow> ResPolicySpec \<Rightarrow> ResPolicySpec" where
  "res_defaultPolicy decString p =
     (let w = xy_SettlementWindow p;
          w = w\<lparr>xw_Mode := (if xw_Mode w = [] then ''adaptive'' else xw_Mode w),
                xw_Static := setDuration (seconds 5) (xw_Static w), xw_Min := setDuration (seconds 1) (xw_Min w),
                xw_Max := setDuration (seconds 120) (xw_Max w),
                xw_SafetyFactor := (if xw_SafetyFactor w = [] then decString (Dec 3) else xw_SafetyFactor w)\<rparr>
      in p\<lparr>xy_SettlementWindow := w,
           xy_SweepInterval := setDuration (seconds 30) (xy_SweepInterval p),
           xy_ExtraScanInterval := setDuration (seconds 300) (xy_ExtraScanInterval p),
           xy_ReorderWindow := setDuration (seconds 2) (xy_ReorderWindow p),
           xy_TTLTolerance := setDuration (seconds 5) (xy_TTLTolerance p),
           xy_Bootstrap := (if xy_Bootstrap p = [] then ''Adopt'' else xy_Bootstrap p),
           xy_ExpiryPolicy := (if xy_ExpiryPolicy p = [] then ''Strict'' else xy_ExpiryPolicy p),
           xy_MaxTrackedKeys := (if xy_MaxTrackedKeys p \<le> 0 then 1000000 else xy_MaxTrackedKeys p),
           xy_RingSize := (if xy_RingSize p \<le> 0 then 16 else xy_RingSize p),
           xy_MaxConfirmQueue := (if xy_MaxConfirmQueue p \<le> 0 then 10000 else xy_MaxConfirmQueue p),
           xy_MaxFindings := (if xy_MaxFindings p \<le> 0 then 10000 else xy_MaxFindings p),
           xy_MaxExtrasTracked := (if xy_MaxExtrasTracked p \<le> 0 then 100000 else xy_MaxExtrasTracked p),
           xy_MaxPublishers := (if xy_MaxPublishers p \<le> 0 then 1024 else xy_MaxPublishers p),
           xy_OracleShards := (if xy_OracleShards p \<le> 0 then 64 else xy_OracleShards p),
           xy_NeverSettledThreshold := (if xy_NeverSettledThreshold p \<le> 0 then 10 else xy_NeverSettledThreshold p)\<rparr>)"

definition res_defaultAlert :: "(Decimal \<Rightarrow> string) \<Rightarrow> ResAlertSpec \<Rightarrow> ResAlertSpec" where
  "res_defaultAlert decString a =
     a\<lparr>xa_DivergentKeysThreshold := (if xa_DivergentKeysThreshold a \<le> 0 then 10 else xa_DivergentKeysThreshold a),
       xa_DivergentRatioThreshold :=
         (if xa_DivergentRatioThreshold a = [] then decString (Dec (1 / 1000)) else xa_DivergentRatioThreshold a),
       xa_ForDuration := setDuration (seconds 60) (xa_ForDuration a)\<rparr>"

definition res_Default :: "(Decimal \<Rightarrow> string) \<Rightarrow> DriftCheckSpec \<Rightarrow> DriftCheckSpec" where
  "res_Default decString i =
     i\<lparr>dc_Source := res_defaultSource (dc_Source i), dc_Codec := res_defaultCodec (dc_Codec i),
       dc_Projection := res_defaultProjection (dc_Projection i), dc_Target := res_defaultTarget (dc_Target i),
       dc_Policy := res_defaultPolicy decString (dc_Policy i), dc_Alert := res_defaultAlert decString (dc_Alert i)\<rparr>"

section \<open>Conversion\<close>

definition toSecretRef :: "SecretKeyRef option \<Rightarrow> SecretRef option" where
  "toSecretRef i = map_option (\<lambda>r. \<lparr>sr_Name = sk_Name r, sr_Key = sk_Key r\<rparr>) i"

definition parseDecimal :: "conf_env \<Rightarrow> string \<Rightarrow> Decimal" where
  "parseDecimal env raw = (case ParseDecimal env raw of None \<Rightarrow> Dec 0 | Some d \<Rightarrow> d)"

definition convertZMQ :: "ResZMQSpec \<Rightarrow> ZMQSpec" where
  "convertZMQ z =
     \<lparr>zs_Endpoints = xz_Endpoints z, zs_Topics = xz_Topics z, zs_RecvHWM = xz_RecvHWM z,
      zs_ConnectTimeout = xz_ConnectTimeout z, zs_ReconnectIntervalMax = xz_ReconnectIntervalMax z,
      zs_IdleTimeout = xz_IdleTimeout z, zs_Multipart = xz_Multipart z\<rparr>"

definition convertSource :: "ResSourceSpec \<Rightarrow> SourceSpec" where
  "convertSource s =
     \<lparr>so_Type = xs_Type s, so_ZMQ = map_option convertZMQ (xs_ZMQ s),
      so_NATS = map_option (\<lambda>n. \<lparr>ns_URL = xn_URL n, ns_Subjects = xn_Subjects n, ns_QueueGroup = xn_QueueGroup n,
        ns_CredentialsSecretRef = toSecretRef (xn_CredentialsSecretRef n)\<rparr>) (xs_NATS s),
      so_File = map_option (\<lambda>f. \<lparr>fs_Path = xf_Path f, fs_Speed = xf_Speed f, fs_Loop = xf_Loop f\<rparr>) (xs_File s),
      so_IngestBufferSize = xs_IngestBufferSize s\<rparr>"

definition convertRedis :: "ResRedisSpec \<Rightarrow> RedisSpec" where
  "convertRedis r =
     \<lparr>rs_Mode = xr_Mode r, rs_Addr = xr_Addr r, rs_Addrs = xr_Addrs r, rs_MasterName = xr_MasterName r, rs_DB = xr_DB r,
      rs_Username = xr_Username r, rs_Password = [], rs_PasswordSecretRef = toSecretRef (xr_PasswordSecretRef r),
      rs_TLS = map_option (\<lambda>t. \<lparr>tl_Enabled = xl_Enabled t, tl_InsecureSkipVerify = xl_InsecureSkipVerify t,
        tl_CASecretRef = toSecretRef (xl_CASecretRef t)\<rparr>) (xr_TLS r),
      rs_KeyPattern = xr_KeyPattern r, rs_ReadBatchSize = xr_ReadBatchSize r, rs_ScanCount = xr_ScanCount r,
      rs_DialTimeout = xr_DialTimeout r, rs_ReadTimeout = xr_ReadTimeout r, rs_PoolSize = xr_PoolSize r\<rparr>"

definition convertTarget :: "ResTargetSpec \<Rightarrow> TargetSpec" where
  "convertTarget t = \<lparr>ta_Type = xt_Type t, ta_Redis = map_option convertRedis (xt_Redis t), ta_Settings = []\<rparr>"

definition convertPolicy :: "conf_env \<Rightarrow> ResPolicySpec \<Rightarrow> PolicySpec" where
  "convertPolicy env p =
     \<lparr>pl_SettlementWindow =
        \<lparr>sw_Mode = xw_Mode (xy_SettlementWindow p), sw_Static = xw_Static (xy_SettlementWindow p),
         sw_Min = xw_Min (xy_SettlementWindow p), sw_Max = xw_Max (xy_SettlementWindow p),
         sw_SafetyFactor = parseDecimal env (xw_SafetyFactor (xy_SettlementWindow p))\<rparr>,
      pl_SweepInterval = xy_SweepInterval p, pl_ExtraScanInterval = xy_ExtraScanInterval p, pl_Bootstrap = xy_Bootstrap p,
      pl_ExpiryPolicy = xy_ExpiryPolicy p, pl_AssumedTTL = xy_AssumedTTL p, pl_TTLTolerance = xy_TTLTolerance p,
      pl_RequirePrimary = xy_RequirePrimary p, pl_ReorderWindow = xy_ReorderWindow p,
      pl_MaxTrackedKeys = xy_MaxTrackedKeys p, pl_RingSize = xy_RingSize p, pl_MaxConfirmQueue = xy_MaxConfirmQueue p,
      pl_MaxFindings = xy_MaxFindings p, pl_MaxExtrasTracked = xy_MaxExtrasTracked p, pl_MaxPublishers = xy_MaxPublishers p,
      pl_OracleShards = xy_OracleShards p, pl_NeverSettledThreshold = xy_NeverSettledThreshold p, pl_Paused = xy_Paused p\<rparr>"

text \<open>\<open>ToCheckSpec\<close> without its last step, which applies the defaults of a check. An empty mapping is nil, which is the
  empty list here.\<close>

definition convert_spec :: "conf_env \<Rightarrow> string \<Rightarrow> string \<Rightarrow> DriftCheckSpec \<Rightarrow> Spec" where
  "convert_spec env name namespace i =
     \<lparr>sp_Name = name, sp_Namespace = namespace, sp_Source = convertSource (dc_Source i),
      sp_Codec = \<lparr>co_Type = xc_Type (dc_Codec i), co_MaxPayloadBytes = xc_MaxPayloadBytes (dc_Codec i),
        co_RetainRaw = xc_RetainRaw (dc_Codec i), co_FieldMapping = xc_FieldMapping (dc_Codec i),
        co_OpMapping = xc_OpMapping (dc_Codec i)\<rparr>,
      sp_Projection = \<lparr>pr_Type = xj_Type (dc_Projection i), pr_KeyTemplate = xj_KeyTemplate (dc_Projection i),
        pr_MemberTemplate = xj_MemberTemplate (dc_Projection i), pr_MaxMembersPerKey = xj_MaxMembersPerKey (dc_Projection i),
        pr_IncrOnly = xj_IncrOnly (dc_Projection i),
        pr_Ownership = map_option (\<lambda>o'. \<lparr>ow_Partitioned = xo_Partitioned o', ow_KeyPattern = xo_KeyPattern o'\<rparr>)
          (xj_Ownership (dc_Projection i)), pr_Extra = []\<rparr>,
      sp_Target = convertTarget (dc_Target i), sp_Policy = convertPolicy env (dc_Policy i),
      sp_Alert = \<lparr>al_DivergentKeysThreshold = xa_DivergentKeysThreshold (dc_Alert i),
        al_DivergentRatioThreshold = parseDecimal env (xa_DivergentRatioThreshold (dc_Alert i)),
        al_ForDuration = xa_ForDuration (dc_Alert i), al_IncludeSuspect = xa_IncludeSuspect (dc_Alert i)\<rparr>\<rparr>"

definition ToCheckSpec :: "conf_env \<Rightarrow> string \<Rightarrow> string \<Rightarrow> DriftCheckSpec \<Rightarrow> Spec" where
  "ToCheckSpec env name namespace i = ApplyDefaults (convert_spec env name namespace i)"

definition SecretRefs :: "DriftCheckSpec \<Rightarrow> (string, SecretKeyRef) go_map" where
  "SecretRefs i =
     (case xt_Redis (dc_Target i) of
        None \<Rightarrow> []
      | Some r \<Rightarrow>
          (case xr_PasswordSecretRef r of None \<Rightarrow> [] | Some ref \<Rightarrow> [(''target.redis.passwordSecretRef'', ref)])
        @ (case xr_TLS r of
             None \<Rightarrow> []
           | Some t \<Rightarrow> (case xl_CASecretRef t of None \<Rightarrow> [] | Some ref \<Rightarrow> [(''target.redis.tls.caSecretRef'', ref)])))
   @ (case xs_NATS (dc_Source i) of
        None \<Rightarrow> []
      | Some n \<Rightarrow>
          (case xn_CredentialsSecretRef n of None \<Rightarrow> [] | Some ref \<Rightarrow> [(''source.nats.credentialsSecretRef'', ref)]))"

definition applySecrets :: "(string, string) go_map \<Rightarrow> Spec \<Rightarrow> Spec" where
  "applySecrets secrets s =
     (case (map_get secrets ''target.redis.passwordSecretRef'', ta_Redis (sp_Target s)) of
        (Some password, Some r) \<Rightarrow>
          s\<lparr>sp_Target := (sp_Target s)\<lparr>ta_Redis := Some (r\<lparr>rs_Password := password\<rparr>)\<rparr>\<rparr>
      | _ \<Rightarrow> s)"

section \<open>Admission\<close>

definition decimalErrors :: "conf_env \<Rightarrow> DriftCheckSpec \<Rightarrow> string list" where
  "decimalErrors env i =
     (if ParseDecimal env (xw_SafetyFactor (xy_SettlementWindow (dc_Policy i))) = None
      then [''policy.settlementWindow.safetyFactor''] else [])
   @ (if ParseDecimal env (xa_DivergentRatioThreshold (dc_Alert i)) = None then [''alert.divergentRatioThreshold''] else [])"

text \<open>The fields admission refuses, and its warnings.\<close>

definition admission ::
  "conf_env \<Rightarrow> string \<Rightarrow> string \<Rightarrow> DriftCheckSpec \<Rightarrow> DriftCheckSpec option \<Rightarrow> Warning list \<times> string list" where
  "admission env name namespace i previous =
     (let spec = ToCheckSpec env name namespace i
      in (Warnings env spec,
          decimalErrors env i @ Spec_Validate env spec
          @ (case previous of
               None \<Rightarrow> []
             | Some old \<Rightarrow> ValidateUpdate spec (Some (ToCheckSpec env name namespace old)))))"

section \<open>The two ways to run a file\<close>

text \<open>A default applied before the conversion is absorbed by the same default applied after it.\<close>

lemma positive_or_absorbs:
  "0 < d \<Longrightarrow> positive_or d (if n \<le> 0 then d else n) = positive_or d n"
  "0 < d \<Longrightarrow> positive_or d (setDuration d n) = positive_or d n"
  by (simp_all add: positive_or_def setDuration_def)

lemma nonempty_or_absorbs: "nonempty_or d (if s = [] then d else s) = nonempty_or d s"
  by (simp add: nonempty_or_def)

lemmas default_absorbs = positive_or_absorbs nonempty_or_absorbs

lemma source_absorbs:
  "xs_Type s \<noteq> [] \<Longrightarrow> defaultSource (convertSource (res_defaultSource s)) = defaultSource (convertSource s)"
proof -
  have z: "default_zmq (convertZMQ (res_defaultZMQ z)) = default_zmq (convertZMQ z)" for z
    by (simp add: default_zmq_def convertZMQ_def res_defaultZMQ_def default_absorbs)
  assume "xs_Type s \<noteq> []"
  then show ?thesis
    by (simp add: defaultSource_def convertSource_def res_defaultSource_def option.map_comp o_def z default_absorbs)
qed

lemma redis_absorbs: "default_redis (convertRedis (res_defaultRedis r)) = default_redis (convertRedis r)"
  by (simp add: default_redis_def convertRedis_def res_defaultRedis_def default_absorbs)

lemma convert_emptyRedis: "convertRedis res_emptyRedis = empty_redis"
  by (simp add: convertRedis_def res_emptyRedis_def empty_redis_def toSecretRef_def)

lemma target_absorbs:
  "xt_Type t \<noteq> [] \<Longrightarrow> defaultTarget (convertTarget (res_defaultTarget t)) = defaultTarget (convertTarget t)"
  by (cases "xt_Redis t")
    (simp_all add: defaultTarget_def convertTarget_def res_defaultTarget_def nonempty_or_def redis_absorbs
      convert_emptyRedis [symmetric] Let_def)

text \<open>What is asked of the rendering of decimals: the two defaults are read back.\<close>

definition decimals_back :: "conf_env \<Rightarrow> (Decimal \<Rightarrow> string) \<Rightarrow> bool" where
  "decimals_back env decString \<longleftrightarrow>
     ParseDecimal env (decString (Dec 3)) = Some (Dec 3) \<and> ParseDecimal env (decString (Dec (1 / 1000))) = Some (Dec (1 / 1000))"

lemma ParseDecimal_Nil [simp]: "ParseDecimal env [] = Some (Dec 0)"
  by (simp add: ParseDecimal_def Let_def)

lemma decimal_absorbs:
  assumes "ParseDecimal env (decString (Dec d)) = Some (Dec d)" and "0 < d"
  shows "positive_decimal_or d (parseDecimal env (if raw = [] then decString (Dec d) else raw)) =
    positive_decimal_or d (parseDecimal env raw)"
  using assms by (simp add: parseDecimal_def positive_decimal_or_def)

lemma policy_absorbs:
  assumes "decimals_back env decString" and "xw_Mode (xy_SettlementWindow p) \<noteq> []" and "0 \<le> xy_ReorderWindow p"
  shows "defaultPolicy (convertPolicy env (res_defaultPolicy decString p)) = defaultPolicy (convertPolicy env p)"
  using assms
  by (simp add: defaultPolicy_def convertPolicy_def res_defaultPolicy_def default_window_def Let_def default_absorbs
      decimal_absorbs decimals_back_def) (simp add: setDuration_def)



text \<open>Of the secrets a resource refers to only the password of the store reaches the check.\<close>

lemma other_secrets_unused:
  assumes "map_get secrets ''target.redis.passwordSecretRef'' = None"
  shows "applySecrets secrets s = s"
  using assms by (simp add: applySecrets_def)

section \<open>A sample resource\<close>

definition sample_resource :: "string \<Rightarrow> duration \<Rightarrow> DriftCheckSpec" where
  "sample_resource mode reorder =
     \<lparr>dc_Source = \<lparr>xs_Type = ''memory'', xs_ZMQ = None, xs_NATS = None, xs_File = None, xs_IngestBufferSize = 0\<rparr>,
      dc_Codec = \<lparr>xc_Type = [], xc_MaxPayloadBytes = 0, xc_RetainRaw = False, xc_FieldMapping = [], xc_OpMapping = []\<rparr>,
      dc_Projection = \<lparr>xj_Type = ''scalar'', xj_KeyTemplate = [], xj_MemberTemplate = [], xj_MaxMembersPerKey = 0,
        xj_IncrOnly = False, xj_Ownership = None\<rparr>,
      dc_Target = \<lparr>xt_Type = ''redis'', xt_Redis = None\<rparr>,
      dc_Policy = \<lparr>xy_SettlementWindow = \<lparr>xw_Mode = mode, xw_Static = 0, xw_Min = 0, xw_Max = 0, xw_SafetyFactor = []\<rparr>,
        xy_SweepInterval = 0, xy_ExtraScanInterval = 0, xy_ReorderWindow = reorder, xy_Bootstrap = [], xy_ExpiryPolicy = [],
        xy_AssumedTTL = 0, xy_TTLTolerance = 0, xy_RequirePrimary = False, xy_MaxTrackedKeys = 0, xy_RingSize = 0,
        xy_MaxConfirmQueue = 0, xy_MaxFindings = 0, xy_MaxExtrasTracked = 0, xy_MaxPublishers = 0, xy_OracleShards = 0,
        xy_NeverSettledThreshold = 0, xy_Paused = False\<rparr>,
      dc_Alert = \<lparr>xa_DivergentKeysThreshold = 0, xa_DivergentRatioThreshold = [], xa_ForDuration = 0,
        xa_IncludeSuspect = False\<rparr>\<rparr>"

text \<open>A rendering and a reading of decimals that know the two defaults.\<close>

definition sample_decString :: "Decimal \<Rightarrow> string" where
  "sample_decString d = (if d = Dec 3 then ''3'' else ''0.001'')"

definition sample_renv :: conf_env where
  "sample_renv = conf_sample_env
     \<lparr>ce_parseFloat := (\<lambda>s. if s = ''3'' then Some (Dec 3) else if s = ''0.001'' then Some (Dec (1 / 1000)) else None)\<rparr>"

lemma sample_decimals: "decimals_back sample_renv sample_decString"
proof -
  have "trim_space ''3'' = ''3''" "trim_space ''0.001'' = ''0.001''" by code_simp+
  then show ?thesis by (simp add: decimals_back_def ParseDecimal_def sample_renv_def sample_decString_def)
qed



end
