(* ===== verification/Spec2Isabelle.thy ===== *)
theory Spec2Isabelle
  imports GapSet SeqTrack Projection Reference Ring Shard Oracle Differ Reorder Sweeper SweepSafety
    Target Lag Pipeline Lifecycle CheckSafety Msgpack ConfigSpec Registry Explain Source Controller Resource
begin

text \<open>
  \<^bold>\<open>driftwatch\<close> audits a materialised store. It subscribes to the event stream the store is built from,
  folds the events into its own expectation of every key (the oracle), and compares settled
  expectations with what the store holds. Its claim is that it tells "the store is wrong" from "I did not
  see everything": it stands behind a divergence only when the key is settled, fully seen, and was
  read twice.

  \<^bold>\<open>How the parts interact.\<close> A source delivers raw messages and signals of possible loss. The check
  decodes a message into an event, restores order per publisher, tracks sequence numbers, folds the event
  through a projection and applies the mutation to the oracle; a gap, a restart, an undecodable message or
  a loss signal makes keys suspect. The sweeper walks the settled keys of the oracle, reads the store, compares
  under a version fence, and queues disagreements for a second read one settlement window later. The
  convergence estimator adapts that window. An explanation gathers what is known of one key. In a
  cluster the controller keeps one running check per resource in a registry and writes its status and
  events.

  \<^bold>\<open>Theories and sources\<close> (all under \<open>src/\<close>).
  \<^item> \<open>DW_Prelude\<close>: machine types (\<open>u64\<close> is \<open>64 word\<close>; \<open>int64\<close>, times and durations are \<open>int\<close> with
    the wrap-around or the saturation of \<open>Time.Sub\<close> written out), Go maps and sets as association lists and lists in
    iteration order, \<open>sort.Search\<close>, collections of simplification rules.
  \<^item> \<open>GapSet\<close>, \<open>SeqTrack\<close>: \<open>pkg/seqtrack\<close>. The capped interval set refines a set of missing numbers (locale
    \<open>gap_store\<close>); the tracker never loses a gap in silence and accepts every number once.
  \<^item> \<open>Event\<close>, \<open>Projection\<close>, \<open>Reference\<close>: \<open>pkg/event\<close>, \<open>pkg/projection\<close>. Values up to what is observable in the
    store; the three projections under one contract (locale \<open>projection_contract\<close>), and that they refine the
    naive reference fold.
  \<^item> \<open>Ring\<close>, \<open>Shard\<close>, \<open>Oracle\<close>: \<open>pkg/oracle\<close>. The history ring (locale \<open>bounded_log\<close>), the settlement index, eviction,
    trust by generation; what \<open>Apply\<close> does, that \<open>SettledKeys\<close> and \<open>Counts\<close> are exact, that memory is bounded.
  \<^item> \<open>Differ\<close>: \<open>pkg/differ\<close>. The comparison is sound and complete up to two excused differences.
  \<^item> \<open>Reorder\<close>: \<open>pkg/check/reorder.go\<close>. Order restored, nothing lost or duplicated, nothing held beyond the window.
  \<^item> \<open>Target\<close>, \<open>Store\<close>, \<open>RedisTarget\<close>: \<open>pkg/target\<close>. The allowlist of commands, the in-process store, the Redis
    client; iterators end and yield each key once (locale \<open>batch_iterator\<close>), batches agree with single reads, only
    reads are sent.
  \<^item> \<open>Sweeper\<close>, \<open>SweepSafety\<close>: \<open>pkg/sweeper\<close>. Every pass against an applier that may move the oracle at each
    access (locale \<open>sweep_invariant\<close>): two reads, the fence, outages, extras, the bounded queue.
  \<^item> \<open>Lag\<close>: \<open>pkg/lag\<close>. The sample window, the controller with its hysteresis, probes and their timeouts.
  \<^item> \<open>Scan\<close>, \<open>Codec\<close>, \<open>CodecSpec\<close>, \<open>Msgpack\<close>: \<open>pkg/codec\<close>. The JSON scanner against a grammar, the JSON, template and
    msgpack codecs under one contract (locale \<open>codec_contract\<close>), the round trip of the canonical form.
  \<^item> \<open>Config\<close>, \<open>ConfigSpec\<close>: \<open>pkg/check/config.go\<close>. Defaults, validation, redaction, and the settings handed to the
    components.
  \<^item> \<open>Resource\<close>: \<open>api/v1alpha1\<close>. The specification as a resource, the webhook's defaults, the conversion and admission,
    and when a file runs as the same check in a cluster and from the command line.
  \<^item> \<open>Pipeline\<close>, \<open>Lifecycle\<close>, \<open>CheckSafety\<close>: \<open>pkg/check/check.go\<close>. The applier, suspicion, snapshots, bootstrap, phases
    and status; invariants of the whole check over every interleaving of its goroutines (locale \<open>applier\<close>).
  \<^item> \<open>Source\<close>: \<open>pkg/source\<close>. Counters and signals shared by the networked sources (locale \<open>lossy_edge\<close>), the ZeroMQ and
    NATS sources, and the two channels between a source and a check.
  \<^item> \<open>Explain\<close>: \<open>pkg/explain\<close>. What is gathered of a key, the verdict, and the rules with their order.
  \<^item> \<open>Registry\<close>, \<open>Controller\<close>: \<open>internal/controller\<close>. The registry of running checks as a system of goroutines in which
    every acquisition and release of a lock is a step, the steps of a reconcile, and the events it writes.

  \<^bold>\<open>State and operations.\<close> A struct is a record with a field per field of the source that the logic reads, a
  method a function from the state to the new state, a failure a value (\<open>option\<close>, or a sum with a datatype of
  errors), a panic \<open>None\<close>. A critical section is one step. Concurrency is explicit: the sweeper's
  environment may change the oracle between any two accesses; the runs of a check, of a source and of
  the registry are inductive predicates over their events, and their invariants hold by rule induction.

  \<^bold>\<open>Parameters.\<close> Code outside the repository is an argument: the hash and the glob matcher of the oracle,
  templates and regular expressions, \<open>time.Parse\<close> and its kin (\<open>golib\<close>), the msgpack decoder
  (\<open>msgpack_lib\<close>), the Redis server and client (\<open>redis_server\<close>, \<open>scan_env\<close>), the YAML decoder (\<open>conf_env\<close>), the
  ZeroMQ socket and the NATS client, the clock, random draws, the API server (\<open>rc_env\<close>) and the builder of a check.
  What a theorem needs of them is a hypothesis of it, and its witness instantiates them.

  \<^bold>\<open>Bounds.\<close> There is no fuel: loops end by their measures, and the loop over a Redis cursor by the bound
  the program itself has (\<open>maxScanCalls\<close>). Hypotheses keep counters of 64 bits from wrapping where a wrap would
  break a claim: fewer than \<open>2 ^ 64\<close> marks of suspicion, sequence numbers below \<open>MaxUint64\<close> (the JSON
  codec accepts that number, so the theorems on a whole check do not cover a stream that uses it). \<open>float64\<close> values are
  exact rationals; where special values decide, in the specification, they are kept apart.

  \<^bold>\<open>What is not modelled.\<close> Metrics, logging, the renderings of reports, explanations and status conditions: output that
  nothing reads back. The real clock. The file replay, the in-process source and the generator of test streams. The
  status block of the resource and the generated copies. The hash of a specification: JSON and SHA-256. The command line. The goroutine group of a check with its panic guard, and \<open>Close\<close>.
\<close>

end
